(* ===== verification/Prelude.thy ===== *)
theory Prelude
  imports Main "HOL-Library.Word"
begin

unbundle bit_operations_syntax

text \<open>
  Shared vocabulary of the development: the machine types of the C sources, byte arrays as
  functions on offsets, little-endian access to 16 and 32 bit fields of a byte array, the copy
  and fill primitives that stand for calls of memmove and memset on arrays, and the kernel
  monad in which the stateful code is written: a computation takes a state and ends normally,
  in a panic, asleep on a channel, or not at all.
\<close>

section \<open>Machine types\<close>

type_synonym u8 = "8 word"
type_synonym u16 = "16 word"
type_synonym u32 = "32 word"
type_synonym u64 = "64 word"

text \<open>An array of bytes: offset to contents.  The bound of the C array is carried by the code
  that indexes it.\<close>

type_synonym bytes = "nat \<Rightarrow> u8"

named_theorems layout \<open>sizes and offsets of the C structures\<close>
named_theorems kmonad \<open>unfolding rules of the kernel monad\<close>
named_theorems frame \<open>what an operation leaves unchanged\<close>

section \<open>Byte arrays\<close>

text \<open>The effect of \<open>memmove(dst + doff, src + soff, n)\<close> and \<open>memset(dst + doff, c, n)\<close>
  on the destination array.\<close>

definition blit :: "bytes \<Rightarrow> nat \<Rightarrow> bytes \<Rightarrow> nat \<Rightarrow> nat \<Rightarrow> bytes" where
  "blit dst doff src soff n =
     (\<lambda>i. if doff \<le> i \<and> i < doff + n then src (soff + (i - doff)) else dst i)"

definition fill :: "bytes \<Rightarrow> nat \<Rightarrow> u8 \<Rightarrow> nat \<Rightarrow> bytes" where
  "fill dst doff c n = (\<lambda>i. if doff \<le> i \<and> i < doff + n then c else dst i)"

text \<open>Two arrays agree on an interval of offsets.\<close>

definition agree :: "nat \<Rightarrow> nat \<Rightarrow> bytes \<Rightarrow> bytes \<Rightarrow> bool" where
  "agree lo n f g \<longleftrightarrow> (\<forall>i<n. f (lo + i) = g (lo + i))"

section \<open>Little-endian fields\<close>

definition ld16 :: "bytes \<Rightarrow> nat \<Rightarrow> u16" where
  "ld16 f off = word_cat (f (off + 1)) (f off)"

definition ld32 :: "bytes \<Rightarrow> nat \<Rightarrow> u32" where
  "ld32 f off = word_cat (ld16 f (off + 2)) (ld16 f off)"

definition st16 :: "bytes \<Rightarrow> nat \<Rightarrow> u16 \<Rightarrow> bytes" where
  "st16 f off v = f(off := ucast v, off + 1 := ucast (drop_bit 8 v))"

definition st32 :: "bytes \<Rightarrow> nat \<Rightarrow> u32 \<Rightarrow> bytes" where
  "st32 f off v = st16 (st16 f off (ucast v)) (off + 2) (ucast (drop_bit 16 v))"

section \<open>The kernel monad\<close>

text \<open>
  \<open>Ok x s\<close> is a normal return; \<open>Panic m\<close> is a call of \<open>panic(m)\<close>, which never returns;
  \<open>Sleep c\<close> says that the code reached \<open>sleep(c, lk)\<close> and gives up the processor until
  another process calls \<open>wakeup(c)\<close>; \<open>Diverge\<close> says that a loop ran past every bound.
\<close>

datatype ('s, 'c, 'a) kres = Ok 'a 's | Panic string | Sleep 'c | Diverge

type_synonym ('s, 'c, 'a) km = "'s \<Rightarrow> ('s, 'c, 'a) kres"

definition kreturn :: "'a \<Rightarrow> ('s, 'c, 'a) km" where
  "kreturn x = (\<lambda>s. Ok x s)"

definition kbind :: "('s, 'c, 'a) km \<Rightarrow> ('a \<Rightarrow> ('s, 'c, 'b) km) \<Rightarrow> ('s, 'c, 'b) km" where
  "kbind m f = (\<lambda>s. case m s of Ok x s' \<Rightarrow> f x s' | Panic e \<Rightarrow> Panic e
     | Sleep c \<Rightarrow> Sleep c | Diverge \<Rightarrow> Diverge)"

abbreviation kseq :: "('s, 'c, 'a) km \<Rightarrow> ('s, 'c, 'b) km \<Rightarrow> ('s, 'c, 'b) km" where
  "kseq m n \<equiv> kbind m (\<lambda>_. n)"

definition kpanic :: "string \<Rightarrow> ('s, 'c, 'a) km" where
  "kpanic e = (\<lambda>s. Panic e)"

definition ksleep :: "'c \<Rightarrow> ('s, 'c, 'a) km" where
  "ksleep c = (\<lambda>s. Sleep c)"

definition kdiverge :: "('s, 'c, 'a) km" where
  "kdiverge = (\<lambda>s. Diverge)"

definition kget :: "('s \<Rightarrow> 'a) \<Rightarrow> ('s, 'c, 'a) km" where
  "kget g = (\<lambda>s. Ok (g s) s)"

definition kmod :: "('s \<Rightarrow> 's) \<Rightarrow> ('s, 'c, unit) km" where
  "kmod u = (\<lambda>s. Ok () (u s))"

definition kwhen :: "bool \<Rightarrow> ('s, 'c, unit) km \<Rightarrow> ('s, 'c, unit) km" where
  "kwhen b m = (if b then m else kreturn ())"

text \<open>A for loop over a fixed list of indices.\<close>

fun kfor :: "'i list \<Rightarrow> ('i \<Rightarrow> ('s, 'c, unit) km) \<Rightarrow> ('s, 'c, unit) km" where
  "kfor [] f = kreturn ()"
| "kfor (i # is) f = kseq (f i) (kfor is f)"

text \<open>
  A loop whose body either goes on with new values of the loop variables (\<open>Inl\<close>) or leaves the loop
  (\<open>Inr\<close>).  Running out of fuel is \<open>Diverge\<close>.
\<close>

fun kloop :: "nat \<Rightarrow> ('x \<Rightarrow> ('s, 'c, 'x + 'r) km) \<Rightarrow> 'x \<Rightarrow> ('s, 'c, 'r) km" where
  "kloop 0 f x = kdiverge"
| "kloop (Suc n) f x = kbind (f x) (\<lambda>r. case r of Inl y \<Rightarrow> kloop n f y | Inr z \<Rightarrow> kreturn z)"

section \<open>Lemmas on byte arrays\<close>

lemma blit_inside [simp]: "doff \<le> i \<Longrightarrow> i < doff + n \<Longrightarrow> blit dst doff src soff n i = src (soff + (i - doff))"
  by (simp add: blit_def)

lemma blit_outside [simp]: "i < doff \<or> doff + n \<le> i \<Longrightarrow> blit dst doff src soff n i = dst i"
  by (auto simp: blit_def)

lemma blit_0 [simp]: "blit dst doff src soff 0 = dst"
  by (rule ext) (auto simp: blit_def)

lemma blit_append:
  "blit (blit dst d src s m) (d + m) src (s + m) n = blit dst d src s (m + n)"
  by (rule ext) (auto simp: blit_def)

lemma fill_inside [simp]: "doff \<le> i \<Longrightarrow> i < doff + n \<Longrightarrow> fill dst doff c n i = c"
  by (simp add: fill_def)

lemma fill_outside [simp]: "i < doff \<or> doff + n \<le> i \<Longrightarrow> fill dst doff c n i = dst i"
  by (auto simp: fill_def)

lemma agree_refl [simp]: "agree lo n f f"
  by (simp add: agree_def)

lemma agree_trans: "agree lo n f g \<Longrightarrow> agree lo n g h \<Longrightarrow> agree lo n f h"
  by (simp add: agree_def)

lemma agree_sym: "agree lo n f g \<Longrightarrow> agree lo n g f"
  by (simp add: agree_def)

section \<open>Lemmas on little-endian fields\<close>

lemma word_cat_split16: "word_cat (ucast (drop_bit 8 (v :: u16)) :: u8) (ucast v :: u8) = v"
  by (rule bit_word_eqI) (auto simp: bit_word_cat_iff bit_ucast_iff bit_drop_bit_eq dest: bit_imp_le_length)

lemma word_cat_split32: "word_cat (ucast (drop_bit 16 (v :: u32)) :: u16) (ucast v :: u16) = v"
  by (rule bit_word_eqI) (auto simp: bit_word_cat_iff bit_ucast_iff bit_drop_bit_eq dest: bit_imp_le_length)

lemma ld16_st16 [simp]: "ld16 (st16 f off v) off = v"
  by (simp add: ld16_def st16_def word_cat_split16)

lemma ld16_st16_other: "off + 2 \<le> o' \<or> o' + 2 \<le> off \<Longrightarrow> ld16 (st16 f off v) o' = ld16 f o'"
  by (auto simp: ld16_def st16_def)

lemma st16_other: "i < off \<or> off + 2 \<le> i \<Longrightarrow> st16 f off v i = f i"
  by (auto simp: st16_def)

lemma ld32_st32 [simp]: "ld32 (st32 f off v) off = v"
  by (simp add: ld32_def st32_def ld16_st16_other word_cat_split32)

lemma ld32_st32_other: "off + 4 \<le> o' \<or> o' + 4 \<le> off \<Longrightarrow> ld32 (st32 f off v) o' = ld32 f o'"
  by (auto simp: ld32_def st32_def ld16_st16_other)

lemma ld16_st32_other: "off + 4 \<le> o' \<or> o' + 2 \<le> off \<Longrightarrow> ld16 (st32 f off v) o' = ld16 f o'"
  by (auto simp: st32_def ld16_st16_other)

lemma ld32_st16_other: "off + 2 \<le> o' \<or> o' + 4 \<le> off \<Longrightarrow> ld32 (st16 f off v) o' = ld32 f o'"
  by (auto simp: ld32_def ld16_st16_other)

lemma st32_other: "i < off \<or> off + 4 \<le> i \<Longrightarrow> st32 f off v i = f i"
  by (auto simp: st32_def st16_other)

lemma ld16_cong: "f off = g off \<Longrightarrow> f (off + 1) = g (off + 1) \<Longrightarrow> ld16 f off = ld16 g off"
  by (simp add: ld16_def)

lemma ld32_cong:
  assumes "\<And>i. i < 4 \<Longrightarrow> f (off + i) = g (off + i)"
  shows "ld32 f off = ld32 g off"
  using assms [of 0] assms [of 1] assms [of 2] assms [of 3] by (simp add: ld32_def ld16_def numeral_eq_Suc)

lemma ld16_blit: "d \<le> off \<Longrightarrow> off + 2 \<le> d + n \<Longrightarrow> ld16 (blit f d g s n) off = ld16 g (s + (off - d))"
  by (simp add: ld16_def Suc_diff_le)

lemma ld32_blit: "d \<le> off \<Longrightarrow> off + 4 \<le> d + n \<Longrightarrow> ld32 (blit f d g s n) off = ld32 g (s + (off - d))"
  by (simp add: ld32_def ld16_blit Suc_diff_le)

lemma ld16_zero: "f off = 0 \<Longrightarrow> f (off + 1) = 0 \<Longrightarrow> ld16 f off = 0"
  by (simp add: ld16_def word_cat_eq)

lemma ld32_zero:
  assumes "\<And>i. i < 4 \<Longrightarrow> f (off + i) = 0"
  shows "ld32 f off = 0"
proof -
  have "ld32 f off = ld32 (\<lambda>_. 0) off"
    by (rule ld32_cong) (simp add: assms)
  then show ?thesis by (simp add: ld32_def ld16_def word_cat_eq)
qed

lemmas le_fields = ld16_st16_other ld32_st32_other ld16_st32_other ld32_st16_other

section \<open>Lemmas on the kernel monad\<close>

lemma kreturn_run [kmonad]: "kreturn x s = Ok x s"
  by (simp add: kreturn_def)

lemma kpanic_run [kmonad]: "kpanic e s = Panic e"
  by (simp add: kpanic_def)

lemma ksleep_run [kmonad]: "ksleep c s = Sleep c"
  by (simp add: ksleep_def)

lemma kdiverge_run [kmonad]: "kdiverge s = Diverge"
  by (simp add: kdiverge_def)

lemma kget_run [kmonad]: "kget g s = Ok (g s) s"
  by (simp add: kget_def)

lemma kmod_run [kmonad]: "kmod u s = Ok () (u s)"
  by (simp add: kmod_def)

lemma kbind_Ok [kmonad]: "m s = Ok x s' \<Longrightarrow> kbind m f s = f x s'"
  by (simp add: kbind_def)

lemma kbind_get [kmonad]: "kbind (kget g) f s = f (g s) s"
  by (simp add: kbind_def kget_def)

lemma kbind_run: "kbind m f s = (case m s of Ok x s' \<Rightarrow> f x s' | Panic e \<Rightarrow> Panic e
     | Sleep c \<Rightarrow> Sleep c | Diverge \<Rightarrow> Diverge)"
  by (simp add: kbind_def)

lemma kbind_Ok_iff:
  "kbind m f s = Ok y t \<longleftrightarrow> (\<exists>x s'. m s = Ok x s' \<and> f x s' = Ok y t)"
  by (auto simp: kbind_def split: kres.splits)

lemma kbind_assoc: "kbind (kbind m f) g = kbind m (\<lambda>x. kbind (f x) g)"
  by (rule ext) (auto simp: kbind_def split: kres.splits)

lemma kbind_return_left: "kbind (kreturn x) f = f x"
  by (rule ext) (simp add: kbind_def kreturn_def)

lemma kwhen_True [kmonad]: "kwhen True m = m"
  by (simp add: kwhen_def)

lemma kwhen_False [kmonad]: "kwhen False m = kreturn ()"
  by (simp add: kwhen_def)

lemma kfor_append: "kfor (xs @ ys) f s = kseq (kfor xs f) (kfor ys f) s"
  by (induction xs arbitrary: s) (auto simp: kbind_def kreturn_def split: kres.splits)

text \<open>A loop that keeps an invariant indexed by the items done so far ends normally.\<close>

lemma kfor_inv:
  assumes "I [] s"
    and "\<And>ds i rest t. xs = ds @ i # rest \<Longrightarrow> I ds t \<Longrightarrow> \<exists>t'. f i t = Ok () t' \<and> I (ds @ [i]) t'"
  shows "\<exists>t. kfor xs f s = Ok () t \<and> I xs t"
  using assms
proof (induction xs arbitrary: I s)
  case Nil
  then show ?case by (simp add: kreturn_def)
next
  case (Cons x xs)
  obtain s1 where s1: "f x s = Ok () s1" "I [x] s1"
    using Cons.prems(2) [of "[]" x xs s] Cons.prems(1) by auto
  have "\<exists>t. kfor xs f s1 = Ok () t \<and> (\<lambda>ds. I (x # ds)) xs t"
  proof (rule Cons.IH)
    show "I [x] s1" by (rule s1)
    fix ds i rest t
    assume "xs = ds @ i # rest" and "I (x # ds) t"
    then show "\<exists>t'. f i t = Ok () t' \<and> I (x # (ds @ [i])) t'"
      using Cons.prems(2) [of "x # ds" i rest t] by simp
  qed
  then show ?case using s1 by (simp add: kbind_def)
qed

text \<open>The same for a counting loop, with the invariant indexed by the counter.\<close>

lemma kfor_upt:
  assumes "I 0 s" and "\<And>i t. i < n \<Longrightarrow> I i t \<Longrightarrow> \<exists>t'. f i t = Ok () t' \<and> I (Suc i) t'"
  shows "\<exists>t. kfor [0..<n] f s = Ok () t \<and> I n t"
  using assms
proof (induction n)
  case 0
  then show ?case by (auto simp: kmonad)
next
  case (Suc n)
  then obtain t where t: "kfor [0..<n] f s = Ok () t" "I n t" by auto
  then obtain t' where "f n t = Ok () t'" "I (Suc n) t'" using Suc.prems(2) [of n t] by auto
  then show ?case using t by (auto simp: kfor_append kbind_def kreturn_def)
qed

text \<open>A loop that keeps an invariant and decreases a measure leaves normally when the fuel is above the measure.\<close>

lemma kloop_run:
  assumes "I x s" and "mu x < fuel"
    and "\<And>x s. I x s \<Longrightarrow> (\<exists>y t. f x s = Ok (Inl y) t \<and> I y t \<and> mu y < (mu x :: nat)) \<or> (\<exists>r t. f x s = Ok (Inr r) t \<and> Q r t)"
  shows "\<exists>r t. kloop fuel f x s = Ok r t \<and> Q r t"
  using assms(1,2)
proof (induction fuel arbitrary: x s)
  case (Suc n)
  from assms(3) [OF Suc.prems(1)] show ?case
  proof
    assume "\<exists>y t. f x s = Ok (Inl y) t \<and> I y t \<and> mu y < mu x"
    then obtain y t where y: "f x s = Ok (Inl y) t" "I y t" "mu y < mu x" by blast
    then have "mu y < n" using Suc.prems(2) by simp
    then show ?thesis using Suc.IH [OF y(2)] y(1) by (simp add: kbind_def)
  qed (auto simp: kbind_def kreturn_def)
qed simp

lemma kloop_exit: "f x s = Ok (Inr r) t \<Longrightarrow> 0 < fuel \<Longrightarrow> kloop fuel f x s = Ok r t"
  by (cases fuel) (simp_all add: kbind_def kreturn_def)

lemma kloop_next: "f x s = Ok (Inl y) t \<Longrightarrow> kloop (Suc fuel) f x s = kloop fuel f y t"
  by (simp add: kbind_def)

lemma kloop_stop: "f x s = Panic e \<Longrightarrow> 0 < fuel \<Longrightarrow> kloop fuel f x s = Panic e"
  by (cases fuel) (simp_all add: kbind_def)

lemma unat_u32_less: "unat (w :: u32) < 4294967296"
  using unsigned_less [of w, where ?'a = nat] by simp

text \<open>A run of a prefix of a sequence.\<close>

lemma kseq2_run: "kseq a b s = Ok x t \<Longrightarrow> kseq a (kseq b k) s = k t"
  by (auto simp: kbind_def split: kres.splits)

lemma kseq3_run: "kseq a (kseq b c) s = Ok x t \<Longrightarrow> kseq a (kseq b (kseq c k)) s = k t"
  by (auto simp: kbind_def split: kres.splits)

text \<open>The search loop \<open>for (i = 0; i < n; i++) if (P(i)) ...\<close>.\<close>

lemma find_upt_Some: "find P [0..<n] = Some i \<longleftrightarrow> i < n \<and> P i \<and> (\<forall>j<i. \<not> P j)"
  by (auto simp: find_Some_iff)

lemma find_upt_None: "find P [0..<n] = None \<longleftrightarrow> (\<forall>i<n. \<not> P i)"
  by (auto simp: find_None_iff)

end
