(* ===== verification/Kcore.thy ===== *)
theory Kcore
  imports Prelude
begin

text \<open>
  The part of the kernel every other component stands on: the spin locks a processor holds
  (the detailed locks are in \<open>Spinlock\<close>), the process table of \<open>kernel/proc.c\<close> with the
  process structure of \<open>include/sys/proc.h\<close>, and the sleep and wakeup of \<open>kernel/proc.c\<close>.
  States of higher components extend the record \<open>kcore\<close>.
\<close>

section \<open>Names of kernel objects\<close>

text \<open>The spin locks of the kernel, named by the object that embeds them.\<close>

datatype lockid = LPtable | LBcache | LLog | LIcache | LFtable | LKmem | LIde | LTicks
  | LCons | LInput | LPipe nat

text \<open>Sleep channels: the C code passes the address of the object waited for.\<close>

datatype chan = ChBuf nat | ChLog | ChInode nat | ChProc nat | ChTicks | ChInput
  | ChPipeRead nat | ChPipeWrite nat

section \<open>Processes\<close>

datatype procstate = UNUSED | EMBRYO | SLEEPING | RUNNABLE | RUNNING | ZOMBIE

text \<open>\<open>struct trapframe\<close> without its padding, and \<open>struct context\<close>.\<close>

record trapframe =
  tf_edi :: u32
  tf_esi :: u32
  tf_ebp :: u32
  tf_oesp :: u32
  tf_ebx :: u32
  tf_edx :: u32
  tf_ecx :: u32
  tf_eax :: u32
  tf_gs :: u16
  tf_fs :: u16
  tf_es :: u16
  tf_ds :: u16
  tf_trapno :: u32
  tf_err :: u32
  tf_eip :: u32
  tf_cs :: u16
  tf_eflags :: u32
  tf_esp :: u32
  tf_ss :: u16

record kcontext =
  cx_edi :: u32
  cx_esi :: u32
  cx_ebx :: u32
  cx_ebp :: u32
  cx_eip :: u32

text \<open>
  \<open>struct proc\<close>.  A pointer to a page is its kernel address with 0 for the null pointer; a pointer
  into a table is the index, with \<open>None\<close> for the null pointer.  The trap frame and the context, which
  the code keeps on the kernel stack of the process, are fields of their own.
\<close>

record proc =
  p_sz :: u32
  p_pgdir :: u32
  p_kstack :: u32
  p_state :: procstate
  p_pid :: int
  p_parent :: "nat option"
  p_tf :: trapframe
  p_context :: kcontext
  p_chan :: "chan option"
  p_killed :: bool
  p_ofile :: "nat option list"
  p_cwd :: "nat option"
  p_name :: bytes

text \<open>Zeroed structures.\<close>

definition zero_tf :: trapframe where
  "zero_tf = \<lparr>tf_edi = 0, tf_esi = 0, tf_ebp = 0, tf_oesp = 0, tf_ebx = 0, tf_edx = 0, tf_ecx = 0, tf_eax = 0, tf_gs = 0,
     tf_fs = 0, tf_es = 0, tf_ds = 0, tf_trapno = 0, tf_err = 0, tf_eip = 0, tf_cs = 0, tf_eflags = 0, tf_esp = 0, tf_ss = 0\<rparr>"

definition zero_context :: kcontext where
  "zero_context = \<lparr>cx_edi = 0, cx_esi = 0, cx_ebx = 0, cx_ebp = 0, cx_eip = 0\<rparr>"

definition no_proc :: proc where
  "no_proc = \<lparr>p_sz = 0, p_pgdir = 0, p_kstack = 0, p_state = UNUSED, p_pid = 0, p_parent = None, p_tf = zero_tf,
     p_context = zero_context, p_chan = None, p_killed = False, p_ofile = replicate 16 None, p_cwd = None, p_name = \<lambda>_. 0\<rparr>"

abbreviation NPROC :: nat where "NPROC \<equiv> 64"
abbreviation NOFILE :: nat where "NOFILE \<equiv> 16"

record kcore =
  held :: "lockid set"      \<comment> \<open>locks held by the running processor\<close>
  ptable :: "proc list"     \<comment> \<open>\<open>ptable.proc\<close>\<close>
  curproc :: nat            \<comment> \<open>\<open>proc - ptable.proc\<close>, past the table for the null pointer\<close>

section \<open>Locks\<close>

definition acquire :: "lockid \<Rightarrow> ('a kcore_scheme, chan, unit) km" where
  "acquire lk = (\<lambda>s. if lk \<in> held s then Panic ''acquire'' else Ok () (s\<lparr>held := insert lk (held s)\<rparr>))"

definition release :: "lockid \<Rightarrow> ('a kcore_scheme, chan, unit) km" where
  "release lk = (\<lambda>s. if lk \<notin> held s then Panic ''release'' else Ok () (s\<lparr>held := held s - {lk}\<rparr>))"

section \<open>Sleep and wakeup\<close>

text \<open>The running process.\<close>

definition this_proc :: "'a kcore_scheme \<Rightarrow> proc" where
  "this_proc s = ptable s ! curproc s"

definition no_curproc :: "'a kcore_scheme \<Rightarrow> bool" where
  "no_curproc s \<longleftrightarrow> length (ptable s) \<le> curproc s"

definition upd_proc :: "nat \<Rightarrow> (proc \<Rightarrow> proc) \<Rightarrow> ('a kcore_scheme, chan, unit) km" where
  "upd_proc i f = kmod (\<lambda>s. s\<lparr>ptable := (ptable s)[i := f (ptable s ! i)]\<rparr>)"

text \<open>
  The checks of \<open>sched\<close> before it switches to the scheduler.  Every lock held counts once in \<open>ncli\<close>, and
  interrupts are off while a lock is held.
\<close>

definition sched_enter :: "('a kcore_scheme, chan, unit) km" where
  "sched_enter = (\<lambda>s.
     if LPtable \<notin> held s then Panic ''sched ptable.lock''
     else if held s \<noteq> {LPtable} then Panic ''sched locks''
     else if p_state (this_proc s) = RUNNING then Panic ''sched running''
     else Ok () s)"

text \<open>
  \<open>sleep(c, lk)\<close> in its two parts: up to the switch to the scheduler, and from the moment the scheduler
  switches back (holding the lock of the process table).
\<close>

definition sleep_enter :: "chan \<Rightarrow> lockid \<Rightarrow> ('a kcore_scheme, chan, unit) km" where
  "sleep_enter c lk =
     kbind (kget no_curproc) (\<lambda>none.
     if none then kpanic ''sleep''
     else
       kseq (kwhen (lk \<noteq> LPtable) (kseq (acquire LPtable) (release lk)))
       (kbind (kget curproc) (\<lambda>i.
       kseq (upd_proc i (\<lambda>p. p\<lparr>p_chan := Some c\<rparr>))
       (kseq (upd_proc i (\<lambda>p. p\<lparr>p_state := SLEEPING\<rparr>))
       sched_enter))))"

definition sleep_leave :: "lockid \<Rightarrow> ('a kcore_scheme, chan, unit) km" where
  "sleep_leave lk =
     kbind (kget curproc) (\<lambda>i.
     kseq (upd_proc i (\<lambda>p. p\<lparr>p_chan := None\<rparr>))
     (kwhen (lk \<noteq> LPtable) (kseq (release LPtable) (acquire lk))))"

definition wakeup1_tab :: "chan \<Rightarrow> proc list \<Rightarrow> proc list" where
  "wakeup1_tab c ps = map (\<lambda>p. if p_state p = SLEEPING \<and> p_chan p = Some c
     then p\<lparr>p_state := RUNNABLE\<rparr> else p) ps"

definition wakeup1 :: "chan \<Rightarrow> ('a kcore_scheme, chan, unit) km" where
  "wakeup1 c = kmod (\<lambda>s. s\<lparr>ptable := wakeup1_tab c (ptable s)\<rparr>)"

definition wakeup :: "chan \<Rightarrow> ('a kcore_scheme, chan, unit) km" where
  "wakeup c = kseq (acquire LPtable) (kseq (wakeup1 c) (release LPtable))"

section \<open>Lemmas\<close>

lemma held_update_same [simp]: "held s = h \<Longrightarrow> s\<lparr>held := h\<rparr> = s"
  by (cases s) simp

lemma acquire_free [kmonad]: "lk \<notin> held s \<Longrightarrow> acquire lk s = Ok () (s\<lparr>held := insert lk (held s)\<rparr>)"
  by (simp add: acquire_def)

lemma release_held [kmonad]: "lk \<in> held s \<Longrightarrow> release lk s = Ok () (s\<lparr>held := held s - {lk}\<rparr>)"
  by (simp add: release_def)

lemma wakeup_run [kmonad]:
  "LPtable \<notin> held s \<Longrightarrow> wakeup c s = Ok () (s\<lparr>ptable := wakeup1_tab c (ptable s)\<rparr>)"
  by (simp add: wakeup_def wakeup1_def kmonad)

lemma length_wakeup1_tab [simp]: "length (wakeup1_tab c ps) = length ps"
  by (simp add: wakeup1_tab_def)

lemma wakeup1_tab_nth:
  "i < length ps \<Longrightarrow> wakeup1_tab c ps ! i =
     (if p_state (ps ! i) = SLEEPING \<and> p_chan (ps ! i) = Some c
      then (ps ! i)\<lparr>p_state := RUNNABLE\<rparr> else ps ! i)"
  by (simp add: wakeup1_tab_def)

text \<open>The process table with a process put to sleep, and \<open>sleep\<close> up to the switch.\<close>

definition asleep :: "chan \<Rightarrow> nat \<Rightarrow> proc list \<Rightarrow> proc list" where
  "asleep c i ps = ps[i := (ps ! i)\<lparr>p_chan := Some c, p_state := SLEEPING\<rparr>]"

lemma sleep_enter_run:
  assumes "held s = {lk}" "lk \<noteq> LPtable" "curproc s < length (ptable s)"
  shows "sleep_enter c lk s = Ok () (s\<lparr>held := {LPtable}, ptable := asleep c (curproc s) (ptable s)\<rparr>)"
proof -
  have "insert LPtable {lk} - {lk} = {LPtable}" using assms(2) by auto
  then show ?thesis using assms by (simp add: sleep_enter_def no_curproc_def upd_proc_def kmonad sched_enter_def this_proc_def asleep_def)
qed

end
