(* ===== verification/Bio.thy ===== *)
theory Bio
  imports Kcore
begin

text \<open>
  The buffer cache of \<open>kernel/bio.c\<close> over the in-memory disk of \<open>kernel/memide.c\<close>.
  The cache is the array of \<open>NBUF\<close> buffers of the code, with the doubly linked
  most-recently-used list threaded through \<open>b_prev\<close> and \<open>b_next\<close>; index \<open>NBUF\<close> is
  \<open>bcache.head\<close>.  The flag word is three booleans.  A sector and a buffer hold exactly 512
  bytes, so a copy of a whole sector is an assignment of the byte array.  \<open>diskhist\<close> records
  every sector written, in order: crash states are the prefixes of that history.
\<close>

section \<open>State\<close>

abbreviation NBUF :: nat where "NBUF \<equiv> 10"
abbreviation BSIZE :: nat where "BSIZE \<equiv> 512"

record buf =
  b_busy :: bool
  b_valid :: bool
  b_dirty :: bool
  b_dev :: nat
  b_sector :: nat
  b_prev :: nat
  b_next :: nat
  b_data :: bytes

record bio_st = kcore +
  memdisk :: "nat \<Rightarrow> bytes"
  disksize :: nat
  diskhist :: "(nat \<times> bytes) list"
  bufs :: "nat \<Rightarrow> buf"

abbreviation bhead :: nat where "bhead \<equiv> NBUF"

abbreviation NODEV :: nat where "NODEV \<equiv> 4294967295"  \<comment> \<open>\<open>b->dev = -1\<close>\<close>

definition upd_buf :: "nat \<Rightarrow> (buf \<Rightarrow> buf) \<Rightarrow> (nat \<Rightarrow> buf) \<Rightarrow> (nat \<Rightarrow> buf)" where
  "upd_buf b u B = B(b := u (B b))"

definition mod_buf :: "nat \<Rightarrow> (buf \<Rightarrow> buf) \<Rightarrow> ('a bio_st_scheme, chan, unit) km" where
  "mod_buf b u = kmod (\<lambda>s. s\<lparr>bufs := upd_buf b u (bufs s)\<rparr>)"

section \<open>The disk (memide.c)\<close>

definition iderw :: "nat \<Rightarrow> ('a bio_st_scheme, chan, unit) km" where
  "iderw b = (\<lambda>s. let x = bufs s b in
     if \<not> b_busy x then Panic ''iderw: buf not busy''
     else if b_valid x \<and> \<not> b_dirty x then Panic ''iderw: nothing to do''
     else if b_dev x \<noteq> 1 then Panic ''iderw: request not for disk 1''
     else if disksize s \<le> b_sector x then Panic ''iderw: sector out of range''
     else if b_dirty x then
       Ok () (s\<lparr>memdisk := (memdisk s)(b_sector x := b_data x),
               diskhist := diskhist s @ [(b_sector x, b_data x)],
               bufs := upd_buf b (\<lambda>x. x\<lparr>b_dirty := False, b_valid := True\<rparr>) (bufs s)\<rparr>)
     else
       Ok () (s\<lparr>bufs := upd_buf b (\<lambda>y. y\<lparr>b_data := memdisk s (b_sector x), b_valid := True\<rparr>) (bufs s)\<rparr>))"

section \<open>The cache (bio.c)\<close>

text \<open>\<open>binit\<close>: every buffer is pushed at the front of the list, in index order.\<close>

definition binit_push :: "nat \<Rightarrow> (nat \<Rightarrow> buf) \<Rightarrow> (nat \<Rightarrow> buf)" where
  "binit_push b B =
     (let B1 = upd_buf b (\<lambda>x. x\<lparr>b_next := b_next (B bhead)\<rparr>) B;
          B2 = upd_buf b (\<lambda>x. x\<lparr>b_prev := bhead\<rparr>) B1;
          B3 = upd_buf b (\<lambda>x. x\<lparr>b_dev := NODEV\<rparr>) B2;
          B4 = upd_buf (b_next (B3 bhead)) (\<lambda>x. x\<lparr>b_prev := b\<rparr>) B3
      in upd_buf bhead (\<lambda>x. x\<lparr>b_next := b\<rparr>) B4)"

definition binit_bufs :: "(nat \<Rightarrow> buf) \<Rightarrow> (nat \<Rightarrow> buf)" where
  "binit_bufs B = fold binit_push [0..<NBUF] (upd_buf bhead (\<lambda>x. x\<lparr>b_prev := bhead, b_next := bhead\<rparr>) B)"

definition binit :: "('a bio_st_scheme, chan, unit) km" where
  "binit = kmod (\<lambda>s. s\<lparr>bufs := binit_bufs (bufs s)\<rparr>)"

text \<open>
  Following a pointer field until the head or a hit: \<open>None\<close> when the fuel runs out (the
  pointers do not lead back to the head), \<open>Some None\<close> when the head is reached.
\<close>

fun chase :: "nat \<Rightarrow> (nat \<Rightarrow> nat) \<Rightarrow> (nat \<Rightarrow> bool) \<Rightarrow> nat \<Rightarrow> nat \<Rightarrow> nat option option" where
  "chase 0 nx P h b = None"
| "chase (Suc fuel) nx P h b =
     (if b = h then Some None else if P b then Some (Some b) else chase fuel nx P h (nx b))"

definition bget :: "nat \<Rightarrow> nat \<Rightarrow> ('a bio_st_scheme, chan, nat) km" where
  "bget dev sector = kseq (acquire LBcache) (\<lambda>s. let B = bufs s in
     case chase (Suc NBUF) (\<lambda>b. b_next (B b)) (\<lambda>b. b_dev (B b) = dev \<and> b_sector (B b) = sector)
            bhead (b_next (B bhead)) of
       None \<Rightarrow> Diverge
     | Some (Some b) \<Rightarrow>
         if \<not> b_busy (B b) then
           kseq (mod_buf b (\<lambda>x. x\<lparr>b_busy := True\<rparr>)) (kseq (release LBcache) (kreturn b)) s
         else Sleep (ChBuf b)
     | Some None \<Rightarrow>
         (case chase (Suc NBUF) (\<lambda>b. b_prev (B b)) (\<lambda>b. \<not> b_busy (B b) \<and> \<not> b_dirty (B b))
                 bhead (b_prev (B bhead)) of
            None \<Rightarrow> Diverge
          | Some (Some b) \<Rightarrow>
              kseq (mod_buf b (\<lambda>x. x\<lparr>b_dev := dev, b_sector := sector, b_busy := True,
                                     b_valid := False, b_dirty := False\<rparr>))
                (kseq (release LBcache) (kreturn b)) s
          | Some None \<Rightarrow> Panic ''bget: no buffers''))"

definition bread :: "nat \<Rightarrow> nat \<Rightarrow> ('a bio_st_scheme, chan, nat) km" where
  "bread dev sector =
     kbind (bget dev sector) (\<lambda>b.
     kbind (kget (\<lambda>s. bufs s b)) (\<lambda>x.
     kseq (kwhen (\<not> b_valid x) (iderw b)) (kreturn b)))"

definition bwrite :: "nat \<Rightarrow> ('a bio_st_scheme, chan, unit) km" where
  "bwrite b =
     kbind (kget (\<lambda>s. bufs s b)) (\<lambda>x.
     if \<not> b_busy x then kpanic ''bwrite''
     else kseq (mod_buf b (\<lambda>x. x\<lparr>b_dirty := True\<rparr>)) (iderw b))"

text \<open>The list surgery of \<open>brelse\<close>: unlink \<open>b\<close> and put it at the front.\<close>

definition brelse_links :: "nat \<Rightarrow> (nat \<Rightarrow> buf) \<Rightarrow> (nat \<Rightarrow> buf)" where
  "brelse_links b B =
     (let B1 = upd_buf (b_next (B b)) (\<lambda>x. x\<lparr>b_prev := b_prev (B b)\<rparr>) B;
          B2 = upd_buf (b_prev (B1 b)) (\<lambda>x. x\<lparr>b_next := b_next (B1 b)\<rparr>) B1;
          B3 = upd_buf b (\<lambda>x. x\<lparr>b_next := b_next (B2 bhead)\<rparr>) B2;
          B4 = upd_buf b (\<lambda>x. x\<lparr>b_prev := bhead\<rparr>) B3;
          B5 = upd_buf (b_next (B4 bhead)) (\<lambda>x. x\<lparr>b_prev := b\<rparr>) B4
      in upd_buf bhead (\<lambda>x. x\<lparr>b_next := b\<rparr>) B5)"

definition brelse :: "nat \<Rightarrow> ('a bio_st_scheme, chan, unit) km" where
  "brelse b =
     kbind (kget (\<lambda>s. bufs s b)) (\<lambda>x.
     if \<not> b_busy x then kpanic ''brelse''
     else kseq (acquire LBcache)
         (kseq (kmod (\<lambda>s. s\<lparr>bufs := brelse_links b (bufs s)\<rparr>))
         (kseq (mod_buf b (\<lambda>x. x\<lparr>b_busy := False\<rparr>))
         (kseq (wakeup (ChBuf b)) (release LBcache)))))"

text \<open>Assignment through \<open>bp->data\<close>, and the read of the array.\<close>

definition buf_data :: "nat \<Rightarrow> ('a bio_st_scheme, chan, bytes) km" where
  "buf_data b = kget (\<lambda>s. b_data (bufs s b))"

definition set_data :: "nat \<Rightarrow> (bytes \<Rightarrow> bytes) \<Rightarrow> ('a bio_st_scheme, chan, unit) km" where
  "set_data b u = mod_buf b (\<lambda>x. x\<lparr>b_data := u (b_data x)\<rparr>)"

text \<open>\<open>b->flags |= B_DIRTY\<close>, done by the log to keep a block in the cache.\<close>

definition set_dirty :: "nat \<Rightarrow> ('a bio_st_scheme, chan, unit) km" where
  "set_dirty b = mod_buf b (\<lambda>x. x\<lparr>b_dirty := True\<rparr>)"

end
