(* ===== verification/Bio_Lru.thy ===== *)
theory Bio_Lru
  imports Bio
begin

text \<open>
  The doubly linked list of the buffer cache as a list: \<open>lru B xs\<close> says that following
  \<open>b_next\<close> from the head meets the buffers \<open>xs\<close> and comes back, that \<open>b_prev\<close> is the
  reverse, and that every buffer is on the list once.  The pointer surgery of \<open>binit\<close> and
  \<open>brelse\<close> is a push and a move to front, and the two scans of \<open>bget\<close> are a search of
  the list and of its reverse; they end.
\<close>

section \<open>Chains\<close>

fun chain :: "(nat \<Rightarrow> nat) \<Rightarrow> nat list \<Rightarrow> bool" where
  "chain f (a # b # xs) = (f a = b \<and> chain f (b # xs))"
| "chain f xs = True"

definition lru :: "(nat \<Rightarrow> buf) \<Rightarrow> nat list \<Rightarrow> bool" where
  "lru B xs \<longleftrightarrow> distinct xs \<and> set xs = {..<NBUF} \<and>
     chain (\<lambda>i. b_next (B i)) (bhead # xs @ [bhead]) \<and>
     chain (\<lambda>i. b_prev (B i)) (bhead # rev xs @ [bhead])"

lemma chain_append: "chain f (xs @ a # ys) \<longleftrightarrow> chain f (xs @ [a]) \<and> chain f (a # ys)"
proof (induction xs)
  case Nil
  then show ?case by simp
next
  case (Cons x xs)
  then show ?case by (cases xs) auto
qed

lemmas chain_suffix = chain_append [THEN iffD1, THEN conjunct2]

lemma chain_append2: "chain f (xs @ a # b # ys) \<longleftrightarrow> chain f (xs @ [a]) \<and> f a = b \<and> chain f (b # ys)"
  by (subst chain_append) simp

lemma chain_cong:
  "(\<And>a. a \<in> set (butlast xs) \<Longrightarrow> f a = g a) \<Longrightarrow> chain f xs = chain g xs"
  by (induction f xs rule: chain.induct) auto

lemma chain_upd: "p \<notin> set (butlast xs) \<Longrightarrow> chain (f(p := n)) xs = chain f xs"
  by (rule chain_cong) auto

lemma chain_next: "chain f (us @ a # b # vs) \<Longrightarrow> f a = b"
  by (simp add: chain_append2)

text \<open>Cutting \<open>b\<close> out of a cyclic chain, and pushing it after the first node.\<close>

lemma chain_cut:
  assumes "chain f (us @ p # b # n # vs)" and "p \<notin> set us" and "p \<notin> set (butlast (n # vs))"
  shows "chain (f(p := n)) (us @ p # n # vs)"
proof -
  have "chain f (us @ [p])" "chain f (n # vs)"
    using assms(1) by (auto simp: chain_append2)
  moreover have "chain (f(p := n)) (us @ [p]) = chain f (us @ [p])"
    by (rule chain_upd) (use assms(2) in \<open>simp add: butlast_append\<close>)
  moreover have "chain (f(p := n)) (n # vs) = chain f (n # vs)"
    by (rule chain_upd) (use assms(3) in simp)
  ultimately show ?thesis by (simp add: chain_append2)
qed

lemma chain_push:
  assumes "chain f (h # xs)" and "xs \<noteq> []" and "h \<notin> set (butlast xs)" and "b \<notin> set (butlast xs)" and "b \<noteq> h"
  shows "chain (f(b := hd xs, h := b)) (h # b # xs)"
proof -
  obtain x ys where xs: "xs = x # ys" using assms(2) by (cases xs) auto
  have "chain f xs" using assms(1) xs by simp
  moreover have "chain (f(b := hd xs, h := b)) xs = chain f xs"
    by (rule chain_cong) (use assms(3,4) in auto)
  ultimately show ?thesis using assms(5) xs by simp
qed

section \<open>The scans of bget\<close>

lemma chase_find:
  assumes "chain nx (xs @ [h])" and "h \<notin> set xs" and "length xs < fuel"
  shows "chase fuel nx P h (hd (xs @ [h])) = Some (find P xs)"
  using assms
proof (induction xs arbitrary: fuel)
  case Nil
  then show ?case by (cases fuel) auto
next
  case (Cons x xs)
  obtain f where f: "fuel = Suc f" using Cons.prems(3) by (cases fuel) auto
  have nx: "nx x = hd (xs @ [h])" and ch: "chain nx (xs @ [h])"
    using Cons.prems(1) by (cases xs; simp)+
  have "chase f nx P h (hd (xs @ [h])) = Some (find P xs)"
    using Cons.IH [OF ch] Cons.prems(2,3) f by simp
  then show ?case using Cons.prems(2) f nx by auto
qed

lemma lru_length: "lru B xs \<Longrightarrow> length xs = NBUF"
  using distinct_card [of xs] by (auto simp: lru_def)

lemma chain_hd: "chain f (h # xs) \<Longrightarrow> xs \<noteq> [] \<Longrightarrow> f h = hd xs"
  by (cases xs) auto

lemma chain_Cons: "chain f (h # xs) \<Longrightarrow> chain f xs"
  by (cases xs) auto

lemma lru_scan_next:
  assumes "lru B xs"
  shows "chase (Suc NBUF) (\<lambda>b. b_next (B b)) P bhead (b_next (B bhead)) = Some (find P xs)"
proof -
  let ?f = "\<lambda>i. b_next (B i)"
  have c: "chain ?f (bhead # xs @ [bhead])" and n: "bhead \<notin> set xs"
    using assms by (auto simp: lru_def)
  have "?f bhead = hd (xs @ [bhead])"
    using chain_hd [OF c] by simp
  moreover have "chase (Suc NBUF) ?f P bhead (hd (xs @ [bhead])) = Some (find P xs)"
    by (rule chase_find) (use chain_Cons [OF c] n lru_length [OF assms] in auto)
  ultimately show ?thesis by simp
qed

lemma lru_scan_prev:
  assumes "lru B xs"
  shows "chase (Suc NBUF) (\<lambda>b. b_prev (B b)) P bhead (b_prev (B bhead)) = Some (find P (rev xs))"
proof -
  let ?f = "\<lambda>i. b_prev (B i)"
  have c: "chain ?f (bhead # rev xs @ [bhead])" and n: "bhead \<notin> set (rev xs)"
    using assms by (auto simp: lru_def)
  have "?f bhead = hd (rev xs @ [bhead])"
    using chain_hd [OF c] by simp
  moreover have "chase (Suc NBUF) ?f P bhead (hd (rev xs @ [bhead])) = Some (find P (rev xs))"
    by (rule chase_find) (use chain_Cons [OF c] n lru_length [OF assms] in auto)
  ultimately show ?thesis by simp
qed

section \<open>The surgery of brelse and binit\<close>

lemma b_next_upd [simp]:
  "b_next (upd_buf p (\<lambda>x. x\<lparr>b_next := v\<rparr>) B i) = (if i = p then v else b_next (B i))"
  "b_next (upd_buf p (\<lambda>x. x\<lparr>b_prev := v\<rparr>) B i) = b_next (B i)"
  "b_next (upd_buf p (\<lambda>x. x\<lparr>b_dev := w\<rparr>) B i) = b_next (B i)"
  by (simp_all add: upd_buf_def)

lemma b_prev_upd [simp]:
  "b_prev (upd_buf p (\<lambda>x. x\<lparr>b_prev := v\<rparr>) B i) = (if i = p then v else b_prev (B i))"
  "b_prev (upd_buf p (\<lambda>x. x\<lparr>b_next := v\<rparr>) B i) = b_prev (B i)"
  "b_prev (upd_buf p (\<lambda>x. x\<lparr>b_dev := w\<rparr>) B i) = b_prev (B i)"
  by (simp_all add: upd_buf_def)

text \<open>The pointer fields after \<open>brelse_links\<close>, when \<open>b\<close> has neighbours \<open>p\<close> and \<open>n\<close>.\<close>

lemma brelse_links_next:
  assumes "b_prev (B b) = p" and "b_next (B b) = n" and "n \<noteq> b" and "b \<noteq> bhead"
  shows "b_next (brelse_links b B i) =
    (let f = (\<lambda>i. b_next (B i))(p := n) in (f(b := f bhead, bhead := b)) i)"
  using assms by (simp add: brelse_links_def Let_def)

lemma brelse_links_prev:
  assumes "b_prev (B b) = p" and "b_next (B b) = n" and "n \<noteq> b" and "b \<noteq> bhead"
  shows "b_prev (brelse_links b B i) =
    (let f = (\<lambda>i. b_next (B i))(p := n) in ((\<lambda>i. b_prev (B i))(n := p, b := bhead, f bhead := b)) i)"
  using assms by (simp add: brelse_links_def Let_def)

lemma chain_insert_last:
  assumes "chain g (L @ [x, h])" and "x \<notin> set L" and "b \<notin> set L" and "b \<noteq> x"
  shows "chain (g(b := h, x := b)) (L @ [x, b, h])"
proof -
  have "chain g (L @ [x])" using assms(1) by (simp add: chain_append2)
  moreover have "chain (g(b := h, x := b)) (L @ [x]) = chain g (L @ [x])"
    by (rule chain_cong) (use assms(2,3) in \<open>auto simp: butlast_append\<close>)
  ultimately show ?thesis using assms(4) by (simp add: chain_append2)
qed

text \<open>\<open>brelse\<close> moves the buffer to the front of the list, whatever its place.\<close>

lemma lru_neighbours:
  assumes "lru B (us @ b # vs)"
  shows "b_prev (B b) = last (bhead # us)" and "b_next (B b) = hd (vs @ [bhead])"
    and "b \<noteq> bhead" and "hd (vs @ [bhead]) \<noteq> b"
proof -
  let ?f = "\<lambda>i. b_next (B i)" and ?g = "\<lambda>i. b_prev (B i)"
  obtain ws p where wp: "bhead # us = ws @ [p]" by (metis append_butlast_last_id list.distinct(1))
  obtain n zs where nz: "vs @ [bhead] = n # zs" by (cases "vs @ [bhead]") auto
  have d: "distinct (us @ b # vs)" "b \<noteq> bhead" and s: "bhead \<notin> set (us @ b # vs)"
    using assms by (auto simp: lru_def)
  have "chain ?f ((bhead # us) @ b # n # zs)"
    using assms nz by (simp add: lru_def)
  then have "chain ?f (b # n # zs)" by (rule chain_suffix)
  then show "b_next (B b) = hd (vs @ [bhead])" by (simp add: nz)
  have "rev us @ [bhead] = p # rev ws" using arg_cong [OF wp, of rev] by simp
  then have "chain ?g ((bhead # rev vs) @ b # p # rev ws)"
    using assms by (simp add: lru_def)
  then have "chain ?g (b # p # rev ws)" by (rule chain_suffix)
  then have "b_prev (B b) = p" by simp
  moreover have "last (bhead # us) = p" unfolding wp by (rule last_snoc)
  ultimately show "b_prev (B b) = last (bhead # us)" by (rule trans [OF _ sym])
  show "b \<noteq> bhead" by (rule d)
  show "hd (vs @ [bhead]) \<noteq> b" using d s by (cases vs) auto
qed

lemma lru_cut:
  assumes "lru B (us @ b # vs)"
  defines "p \<equiv> last (bhead # us)" and "n \<equiv> hd (vs @ [bhead])"
  shows "chain ((\<lambda>i. b_next (B i))(p := n)) (bhead # us @ vs @ [bhead])"
    and "chain ((\<lambda>i. b_prev (B i))(n := p)) (bhead # rev vs @ rev us @ [bhead])"
proof -
  let ?f = "\<lambda>i. b_next (B i)" and ?g = "\<lambda>i. b_prev (B i)"
  obtain ws where wp: "bhead # us = ws @ [p]" unfolding p_def by (metis append_butlast_last_id list.distinct(1))
  obtain zs where nz: "vs @ [bhead] = n # zs" unfolding n_def by (cases "vs @ [bhead]") auto
  have dist: "distinct (us @ b # vs)" and s: "bhead \<notin> set (us @ b # vs)"
    using assms(1) by (auto simp: lru_def)
  have d1: "distinct (bhead # us)" and d2: "distinct (vs @ [bhead])" using dist s by auto
  have pin: "p \<in> set (bhead # us)" using wp by simp
  have nin: "n \<in> set (vs @ [bhead])" using nz by simp
  have "chain ?f (ws @ p # b # n # zs)"
    using assms(1) nz wp by (simp add: lru_def) (metis append_Cons append_assoc append_Nil)
  then have "chain (?f(p := n)) (ws @ p # n # zs)"
  proof (rule chain_cut)
    show "p \<notin> set ws" using d1 wp by auto
    have "butlast (n # zs) = vs" using nz by (metis butlast_snoc)
    then show "p \<notin> set (butlast (n # zs))" using pin dist s by auto
  qed
  moreover have "ws @ p # n # zs = bhead # us @ vs @ [bhead]"
    using wp nz by (metis append_Cons append_assoc append_Nil)
  ultimately show "chain (?f(p := n)) (bhead # us @ vs @ [bhead])" by simp
  have rw: "rev us @ [bhead] = p # rev ws" using arg_cong [OF wp, of rev] by simp
  have rz: "bhead # rev vs = rev zs @ [n]" using arg_cong [OF nz, of rev] by simp
  have "chain ?g (rev zs @ n # b # p # rev ws)"
    using assms(1) rw rz by (simp add: lru_def) (metis append_Cons append_assoc append_Nil)
  then have "chain (?g(n := p)) (rev zs @ n # p # rev ws)"
  proof (rule chain_cut)
    show "n \<notin> set (rev zs)" using d2 nz by auto
    have "butlast (p # rev ws) = rev us" using rw by (metis butlast_snoc)
    then show "n \<notin> set (butlast (p # rev ws))" using nin dist s by auto
  qed
  moreover have "rev zs @ n # p # rev ws = bhead # rev vs @ rev us @ [bhead]"
    using rw rz by (metis append_Cons append_assoc append_Nil)
  ultimately show "chain (?g(n := p)) (bhead # rev vs @ rev us @ [bhead])" by simp
qed

lemma brelse_links_lru:
  assumes "lru B (us @ b # vs)"
  shows "lru (brelse_links b B) (b # us @ vs)"
proof -
  let ?f = "\<lambda>i. b_next (B i)" and ?g = "\<lambda>i. b_prev (B i)"
  let ?p = "last (bhead # us)" and ?n = "hd (vs @ [bhead])"
  let ?f1 = "?f(?p := ?n)"
  note nb = lru_neighbours [OF assms]
  have dist: "distinct (us @ b # vs)" and s: "bhead \<notin> set (us @ b # vs)"
    and st: "set (us @ b # vs) = {..<NBUF}"
    using assms by (auto simp: lru_def)
  define x where "x = hd (us @ vs @ [bhead])"
  have x: "?f1 bhead = x"
    using chain_hd [OF lru_cut(1) [OF assms]] unfolding x_def by simp
  have nx: "(\<lambda>i. b_next (brelse_links b B i)) = ?f1(b := x, bhead := b)"
    using brelse_links_next [of B b, OF nb(1,2) nb(4,3)] x by (auto simp: Let_def fun_eq_iff)
  have pv: "(\<lambda>i. b_prev (brelse_links b B i)) = ?g(?n := ?p, b := bhead, x := b)"
    using brelse_links_prev [of B b, OF nb(1,2) nb(4,3)] x by (auto simp: Let_def fun_eq_iff)
  have "chain (?f1(b := x, bhead := b)) (bhead # b # us @ vs @ [bhead])"
    unfolding x_def
    by (rule chain_push [OF lru_cut(1) [OF assms]])
       (use dist s nb(3) in \<open>auto simp: butlast_append\<close>)
  then have c1: "chain (\<lambda>i. b_next (brelse_links b B i)) (bhead # (b # us @ vs) @ [bhead])"
    unfolding nx by simp
  obtain L where L: "bhead # rev vs @ rev us = L @ [x]"
  proof -
    have "hd (rev (bhead # rev vs @ rev us)) = x" by (simp add: x_def)
    then have "last (bhead # rev vs @ rev us) = x" by (simp only: hd_rev)
    then show ?thesis using that by (metis append_butlast_last_id list.distinct(1))
  qed
  have dL: "x \<notin> set L"
  proof -
    have "distinct (L @ [x])" unfolding L [symmetric] using dist s by auto
    then show ?thesis by simp
  qed
  have bL: "b \<notin> set L" "b \<noteq> x"
  proof -
    have "b \<notin> set (L @ [x])" unfolding L [symmetric] using dist nb(3) by auto
    then show "b \<notin> set L" "b \<noteq> x" by simp_all
  qed
  have eqL: "L @ [x, bhead] = bhead # rev vs @ rev us @ [bhead]"
    using arg_cong [OF L, of "\<lambda>l. l @ [bhead]"] by simp
  have "chain ((?g(?n := ?p))(b := bhead, x := b)) (L @ [x, b, bhead])"
  proof (rule chain_insert_last)
    show "chain (?g(?n := ?p)) (L @ [x, bhead])" unfolding eqL by (rule lru_cut(2) [OF assms])
  qed (rule dL bL)+
  moreover have "L @ [x, b, bhead] = bhead # rev (b # us @ vs) @ [bhead]"
    using arg_cong [OF L, of "\<lambda>l. l @ [b, bhead]"] by simp
  ultimately have "chain (\<lambda>i. b_prev (brelse_links b B i)) (bhead # rev (b # us @ vs) @ [bhead])"
    unfolding pv by simp
  with c1 show ?thesis using dist st by (auto simp: lru_def)
qed

section \<open>What the surgery leaves alone\<close>

text \<open>Two buffers that differ in their list pointers only.\<close>

definition same_core :: "buf \<Rightarrow> buf \<Rightarrow> bool" where
  "same_core x y \<longleftrightarrow> b_busy x = b_busy y \<and> b_valid x = b_valid y \<and> b_dirty x = b_dirty y \<and>
     b_dev x = b_dev y \<and> b_sector x = b_sector y \<and> b_data x = b_data y"

lemma same_core_refl [simp]: "same_core x x"
  by (simp add: same_core_def)

lemma same_core_upd_link:
  "same_core (B i) y \<Longrightarrow> same_core (upd_buf p (\<lambda>x. x\<lparr>b_next := v\<rparr>) B i) y"
  "same_core (B i) y \<Longrightarrow> same_core (upd_buf p (\<lambda>x. x\<lparr>b_prev := v\<rparr>) B i) y"
  by (auto simp: upd_buf_def same_core_def)

lemma brelse_links_core: "same_core (brelse_links b B i) (B i)"
  unfolding brelse_links_def Let_def by (intro same_core_upd_link same_core_refl)

section \<open>The initial list\<close>

definition ring :: "(nat \<Rightarrow> buf) \<Rightarrow> nat list \<Rightarrow> bool" where
  "ring B xs \<longleftrightarrow> chain (\<lambda>i. b_next (B i)) (bhead # xs @ [bhead]) \<and>
     chain (\<lambda>i. b_prev (B i)) (bhead # rev xs @ [bhead])"

lemma binit_push_ring:
  assumes "ring B xs" and "b \<notin> set xs" and "bhead \<notin> set xs" and "b \<noteq> bhead" and "distinct xs"
  shows "ring (binit_push b B) (b # xs)"
proof -
  let ?f = "\<lambda>i. b_next (B i)" and ?g = "\<lambda>i. b_prev (B i)"
  have c1: "chain ?f (bhead # xs @ [bhead])" and c2: "chain ?g (bhead # rev xs @ [bhead])"
    using assms(1) by (auto simp: ring_def)
  define x where "x = hd (xs @ [bhead])"
  have x: "?f bhead = x" using chain_hd [OF c1] unfolding x_def by simp
  have xb: "x \<noteq> b" using assms(2,4) unfolding x_def by (cases xs) auto
  have nx: "(\<lambda>i. b_next (binit_push b B i)) = ?f(b := x, bhead := b)"
    using assms(4) x by (auto simp: binit_push_def Let_def fun_eq_iff)
  have pv: "(\<lambda>i. b_prev (binit_push b B i)) = ?g(b := bhead, x := b)"
    using assms(4) x by (auto simp: binit_push_def Let_def fun_eq_iff)
  have "chain (?f(b := x, bhead := b)) (bhead # b # xs @ [bhead])"
    unfolding x_def by (rule chain_push [OF c1]) (use assms in \<open>auto simp: butlast_append\<close>)
  then have n1: "chain (\<lambda>i. b_next (binit_push b B i)) (bhead # (b # xs) @ [bhead])"
    unfolding nx by simp
  obtain L where L: "bhead # rev xs = L @ [x]"
  proof -
    have "hd (rev (bhead # rev xs)) = x" by (simp add: x_def)
    then have "last (bhead # rev xs) = x" by (simp only: hd_rev)
    then show ?thesis using that by (metis append_butlast_last_id list.distinct(1))
  qed
  have "distinct (L @ [x])" unfolding L [symmetric] using assms(3,5) by simp
  then have xL: "x \<notin> set L" by simp
  have "b \<notin> set (L @ [x])" unfolding L [symmetric] using assms(2,4) by simp
  then have bL: "b \<notin> set L" by simp
  have eqL: "L @ [x, bhead] = bhead # rev xs @ [bhead]"
    using arg_cong [OF L, of "\<lambda>l. l @ [bhead]"] by simp
  have "chain ?g (L @ [x, bhead])" unfolding eqL by (rule c2)
  then have "chain (?g(b := bhead, x := b)) (L @ [x, b, bhead])"
    by (rule chain_insert_last) (use xL bL xb in auto)
  moreover have "L @ [x, b, bhead] = bhead # rev (b # xs) @ [bhead]"
    using arg_cong [OF L, of "\<lambda>l. l @ [b, bhead]"] by simp
  ultimately have "chain (\<lambda>i. b_prev (binit_push b B i)) (bhead # rev (b # xs) @ [bhead])"
    unfolding pv by simp
  with n1 show ?thesis by (simp add: ring_def)
qed

lemma binit_fold_ring:
  "k \<le> NBUF \<Longrightarrow> ring B [] \<Longrightarrow> ring (fold binit_push [0..<k] B) (rev [0..<k])"
proof (induction k)
  case 0
  then show ?case by simp
next
  case (Suc k)
  then have "ring (fold binit_push [0..<k] B) (rev [0..<k])" by simp
  then have "ring (binit_push k (fold binit_push [0..<k] B)) (k # rev [0..<k])"
    by (rule binit_push_ring) (use Suc.prems in auto)
  then show ?case by simp
qed

lemma binit_lru: "lru (binit_bufs B) (rev [0..<NBUF])"
proof -
  have "ring (upd_buf bhead (\<lambda>x. x\<lparr>b_prev := bhead, b_next := bhead\<rparr>) B) []"
    by (simp add: ring_def upd_buf_def)
  from binit_fold_ring [OF order_refl this] show ?thesis
    unfolding lru_def ring_def binit_bufs_def by auto
qed

lemma binit_push_core:
  "b_busy (binit_push b B i) = b_busy (B i)" "b_valid (binit_push b B i) = b_valid (B i)"
  "b_dirty (binit_push b B i) = b_dirty (B i)"
  "b_dev (binit_push b B i) = (if i = b then NODEV else b_dev (B i))"
  by (auto simp: binit_push_def Let_def upd_buf_def)

lemma binit_fold_core:
  "b_busy (fold binit_push xs B i) = b_busy (B i)" "b_valid (fold binit_push xs B i) = b_valid (B i)"
  "b_dirty (fold binit_push xs B i) = b_dirty (B i)"
  "b_dev (fold binit_push xs B i) = (if i \<in> set xs then NODEV else b_dev (B i))"
  by (induction xs arbitrary: B) (simp_all add: binit_push_core)

end
