(* ===== verification/Bio_Spec.thy ===== *)
theory Bio_Spec
  imports Bio_Lru
begin

text \<open>
  What the buffer cache promises.  \<open>view s n\<close> is the contents of sector \<open>n\<close> as a client
  sees it (the cached copy when there is a valid one, the disk otherwise), \<open>busyset\<close> and
  \<open>dirtyset\<close> are the sectors locked by a client and the sectors whose cached copy is newer
  than the disk, \<open>handle s b n\<close> says that buffer \<open>b\<close> is a client's locked buffer of sector
  \<open>n\<close>.  The locale \<open>block_cache\<close> states the contract of \<open>bread\<close>, \<open>bwrite\<close>, \<open>brelse\<close>
  and of assignments to a buffer; it is interpreted on the code of \<open>Bio\<close>, and the
  clients of the cache (the log, the file system) use the facts proved in it.
\<close>

section \<open>Abstraction and invariant\<close>

definition bfind :: "(nat \<Rightarrow> buf) \<Rightarrow> nat \<Rightarrow> nat option" where
  "bfind B n = find (\<lambda>b. b_dev (B b) = 1 \<and> b_sector (B b) = n \<and> b_valid (B b)) [0..<NBUF]"

definition view :: "'a bio_st_scheme \<Rightarrow> nat \<Rightarrow> bytes" where
  "view s n = (case bfind (bufs s) n of Some b \<Rightarrow> b_data (bufs s b) | None \<Rightarrow> memdisk s n)"

definition busyset :: "'a bio_st_scheme \<Rightarrow> nat set" where
  "busyset s = {b_sector (bufs s b) |b. b < NBUF \<and> b_busy (bufs s b)}"

definition dirtyset :: "'a bio_st_scheme \<Rightarrow> nat set" where
  "dirtyset s = {b_sector (bufs s b) |b. b < NBUF \<and> b_dirty (bufs s b)}"

definition handle :: "'a bio_st_scheme \<Rightarrow> nat \<Rightarrow> nat \<Rightarrow> bool" where
  "handle s b n \<longleftrightarrow> b < NBUF \<and> b_busy (bufs s b) \<and> b_dev (bufs s b) = 1 \<and> b_sector (bufs s b) = n"

text \<open>No two buffers hold the same sector; flags are consistent; a buffer that is neither
  locked nor dirty agrees with the disk.\<close>

definition binv_bufs :: "(nat \<Rightarrow> buf) \<Rightarrow> (nat \<Rightarrow> bytes) \<Rightarrow> nat \<Rightarrow> bool" where
  "binv_bufs B D sz \<longleftrightarrow> (\<exists>xs. lru B xs) \<and>
     (\<forall>i<NBUF. \<forall>j<NBUF. b_dev (B i) = 1 \<and> b_dev (B j) = 1 \<and> b_sector (B i) = b_sector (B j) \<longrightarrow> i = j) \<and>
     (\<forall>i<NBUF. b_busy (B i) \<or> b_dirty (B i) \<longrightarrow> b_valid (B i)) \<and>
     (\<forall>i<NBUF. b_valid (B i) \<longrightarrow> b_dev (B i) = 1 \<and> b_sector (B i) < sz) \<and>
     (\<forall>i<NBUF. b_valid (B i) \<and> \<not> b_busy (B i) \<and> \<not> b_dirty (B i) \<longrightarrow> b_data (B i) = D (b_sector (B i)))"

definition binv :: "'a bio_st_scheme \<Rightarrow> bool" where
  "binv s \<longleftrightarrow> held s = {} \<and> binv_bufs (bufs s) (memdisk s) (disksize s)"

text \<open>There is a buffer for sector \<open>n\<close>: a cached one, or one that can be recycled.\<close>

definition bavail :: "'a bio_st_scheme \<Rightarrow> nat \<Rightarrow> bool" where
  "bavail s n \<longleftrightarrow> n \<in> dirtyset s \<or> card (busyset s \<union> dirtyset s) < NBUF"

section \<open>Basic facts\<close>

lemma binv_bufsD:
  assumes "binv_bufs B D sz"
  shows "\<exists>xs. lru B xs"
    and "i < NBUF \<Longrightarrow> j < NBUF \<Longrightarrow> b_dev (B i) = 1 \<Longrightarrow> b_dev (B j) = 1 \<Longrightarrow> b_sector (B i) = b_sector (B j) \<Longrightarrow> i = j"
    and "i < NBUF \<Longrightarrow> b_busy (B i) \<or> b_dirty (B i) \<Longrightarrow> b_valid (B i)"
    and "i < NBUF \<Longrightarrow> b_valid (B i) \<Longrightarrow> b_dev (B i) = 1"
    and "i < NBUF \<Longrightarrow> b_valid (B i) \<Longrightarrow> b_sector (B i) < sz"
    and "i < NBUF \<Longrightarrow> b_valid (B i) \<Longrightarrow> \<not> b_busy (B i) \<Longrightarrow> \<not> b_dirty (B i) \<Longrightarrow> b_data (B i) = D (b_sector (B i))"
  using assms unfolding binv_bufs_def by blast+

lemma binv_bufsI:
  assumes "lru B xs"
    and "\<And>i j. i < NBUF \<Longrightarrow> j < NBUF \<Longrightarrow> b_dev (B i) = 1 \<Longrightarrow> b_dev (B j) = 1 \<Longrightarrow> b_sector (B i) = b_sector (B j) \<Longrightarrow> i = j"
    and "\<And>i. i < NBUF \<Longrightarrow> b_busy (B i) \<or> b_dirty (B i) \<Longrightarrow> b_valid (B i)"
    and "\<And>i. i < NBUF \<Longrightarrow> b_valid (B i) \<Longrightarrow> b_dev (B i) = 1 \<and> b_sector (B i) < sz"
    and "\<And>i. i < NBUF \<Longrightarrow> b_valid (B i) \<Longrightarrow> \<not> b_busy (B i) \<Longrightarrow> \<not> b_dirty (B i) \<Longrightarrow> b_data (B i) = D (b_sector (B i))"
  shows "binv_bufs B D sz"
  using assms unfolding binv_bufs_def by blast

lemma bfind_Some:
  "bfind B n = Some b \<Longrightarrow> b < NBUF \<and> b_dev (B b) = 1 \<and> b_sector (B b) = n \<and> b_valid (B b)"
  unfolding bfind_def by (auto simp: find_Some_iff)

lemma bfind_None:
  "bfind B n = None \<Longrightarrow> b < NBUF \<Longrightarrow> b_dev (B b) = 1 \<Longrightarrow> b_sector (B b) = n \<Longrightarrow> \<not> b_valid (B b)"
  unfolding bfind_def by (auto simp: find_None_iff)

lemma bfind_unique:
  assumes "binv_bufs B D sz" and "b < NBUF" and "b_valid (B b)" and "b_sector (B b) = n"
  shows "bfind B n = Some b"
proof (cases "bfind B n")
  case None
  then show ?thesis using assms(2-) bfind_None [OF None assms(2)] binv_bufsD(4) [OF assms(1,2)] by simp
next
  case (Some c)
  have "c = b"
    by (rule binv_bufsD(2) [OF assms(1)])
      (use assms(2-) bfind_Some [OF Some] binv_bufsD(4) [OF assms(1,2)] in simp_all)
  then show ?thesis using Some by simp
qed

lemma view_valid:
  "binv_bufs (bufs s) D sz \<Longrightarrow> b < NBUF \<Longrightarrow> b_valid (bufs s b) \<Longrightarrow> view s (b_sector (bufs s b)) = b_data (bufs s b)"
  by (simp add: view_def bfind_unique)

lemma view_uncached:
  "(\<And>b. b < NBUF \<Longrightarrow> b_dev (bufs s b) = 1 \<Longrightarrow> b_sector (bufs s b) = n \<Longrightarrow> \<not> b_valid (bufs s b)) \<Longrightarrow> view s n = memdisk s n"
  unfolding view_def by (auto split: option.splits dest: bfind_Some)

lemma finite_busy_dirty: "finite (busyset s)" "finite (dirtyset s)"
  unfolding busyset_def dirtyset_def by auto

lemma handle_valid: "binv s \<Longrightarrow> handle s b n \<Longrightarrow> b_valid (bufs s b)"
  using binv_bufsD(3) [of "bufs s" "memdisk s" "disksize s" b] by (simp add: binv_def handle_def)

lemma handle_view: "binv s \<Longrightarrow> handle s b n \<Longrightarrow> view s n = b_data (bufs s b)"
  using view_valid [of s "memdisk s" "disksize s" b] handle_valid [of s b n]
  by (auto simp: binv_def handle_def)

lemma handle_busy: "handle s b n \<Longrightarrow> n \<in> busyset s"
  by (auto simp: handle_def busyset_def)

lemma view_clean: "binv s \<Longrightarrow> n \<notin> busyset s \<Longrightarrow> n \<notin> dirtyset s \<Longrightarrow> view s n = memdisk s n"
  unfolding view_def
  using binv_bufsD(6) [of "bufs s" "memdisk s" "disksize s"]
  by (auto split: option.splits dest!: bfind_Some simp: binv_def busyset_def dirtyset_def)

text \<open>The abstraction depends on the buffers up to their list pointers.\<close>

definition same_cores :: "(nat \<Rightarrow> buf) \<Rightarrow> (nat \<Rightarrow> buf) \<Rightarrow> bool" where
  "same_cores B C \<longleftrightarrow> (\<forall>i. same_core (B i) (C i))"

lemma same_cores_eqs:
  assumes "same_cores B C"
  shows "b_busy (B i) = b_busy (C i)" "b_valid (B i) = b_valid (C i)" "b_dirty (B i) = b_dirty (C i)"
    "b_dev (B i) = b_dev (C i)" "b_sector (B i) = b_sector (C i)" "b_data (B i) = b_data (C i)"
  using assms by (auto simp: same_cores_def same_core_def)

section \<open>Looking a buffer up\<close>

lemma binv_lru: "binv s \<Longrightarrow> \<exists>xs. lru (bufs s) xs"
  using binv_bufsD(1) by (auto simp: binv_def)

lemma find_lru_Some: "lru B xs \<Longrightarrow> find P xs = Some b \<Longrightarrow> b < NBUF \<and> P b"
  by (auto simp: lru_def find_Some_iff)

lemma find_lru_None: "lru B xs \<Longrightarrow> find P xs = None \<Longrightarrow> b < NBUF \<Longrightarrow> \<not> P b"
  by (auto simp: lru_def find_None_iff)

lemma find_lru_rev_Some: "lru B xs \<Longrightarrow> find P (rev xs) = Some b \<Longrightarrow> b < NBUF \<and> P b"
  by (auto simp: lru_def find_Some_iff) (metis length_rev lessThan_iff nth_mem set_rev)

lemma find_lru_rev_None: "lru B xs \<Longrightarrow> find P (rev xs) = None \<Longrightarrow> b < NBUF \<Longrightarrow> \<not> P b"
  by (auto simp: lru_def find_None_iff)

text \<open>A buffer can be recycled when fewer than \<open>NBUF\<close> sectors are locked or dirty.\<close>

lemma free_buffer:
  assumes "binv s" and "card (busyset s \<union> dirtyset s) < NBUF"
  shows "\<exists>b<NBUF. \<not> b_busy (bufs s b) \<and> \<not> b_dirty (bufs s b)"
proof (rule ccontr)
  let ?B = "bufs s"
  have I: "binv_bufs ?B (memdisk s) (disksize s)" using assms(1) by (simp add: binv_def)
  assume "\<not> ?thesis"
  then have all: "\<And>b. b < NBUF \<Longrightarrow> b_busy (?B b) \<or> b_dirty (?B b)" by blast
  have "inj_on (\<lambda>b. b_sector (?B b)) {..<NBUF}"
  proof (rule inj_onI)
    fix i j
    assume "i \<in> {..<NBUF}" "j \<in> {..<NBUF}" "b_sector (?B i) = b_sector (?B j)"
    then show "i = j"
      using binv_bufsD(3,4) [OF I] all by (intro binv_bufsD(2) [OF I, of i j]) simp_all
  qed
  then have "card ((\<lambda>b. b_sector (?B b)) ` {..<NBUF}) = NBUF" by (simp add: card_image)
  moreover have "(\<lambda>b. b_sector (?B b)) ` {..<NBUF} \<subseteq> busyset s \<union> dirtyset s"
    using all by (auto simp: busyset_def dirtyset_def)
  then have "card ((\<lambda>b. b_sector (?B b)) ` {..<NBUF}) \<le> card (busyset s \<union> dirtyset s)"
    using finite_busy_dirty [of s] by (intro card_mono) auto
  ultimately show False using assms(2) by simp
qed

definition hit_upd :: "buf \<Rightarrow> buf" where
  "hit_upd = (\<lambda>x. x\<lparr>b_busy := True\<rparr>)"

definition miss_upd :: "nat \<Rightarrow> buf \<Rightarrow> buf" where
  "miss_upd n = (\<lambda>x. x\<lparr>b_dev := 1, b_sector := n, b_busy := True, b_valid := False, b_dirty := False\<rparr>)"

lemma bget_hit:
  assumes "binv s" and "n \<notin> busyset s" and "\<exists>c<NBUF. b_dev (bufs s c) = 1 \<and> b_sector (bufs s c) = n"
  shows "\<exists>b<NBUF. b_dev (bufs s b) = 1 \<and> b_sector (bufs s b) = n \<and> \<not> b_busy (bufs s b) \<and>
    bget 1 n s = Ok b (s\<lparr>bufs := upd_buf b hit_upd (bufs s)\<rparr>)"
proof -
  let ?B = "bufs s"
  obtain xs where xs: "lru ?B xs" using binv_lru [OF assms(1)] by blast
  let ?P = "\<lambda>b. b_dev (?B b) = 1 \<and> b_sector (?B b) = n"
  obtain b where b: "find ?P xs = Some b"
    using find_lru_None [OF xs, of ?P] assms(3) by (cases "find ?P xs") auto
  have P: "b < NBUF" "b_dev (?B b) = 1" "b_sector (?B b) = n" using find_lru_Some [OF xs b] by auto
  have nb: "\<not> b_busy (?B b)" using assms(2) P by (auto simp: busyset_def)
  have h: "held s = {}" using assms(1) by (simp add: binv_def)
  have "bget 1 n s = Ok b (s\<lparr>bufs := upd_buf b hit_upd (bufs s)\<rparr>)"
    using lru_scan_next [OF xs, of ?P] b nb h
    by (simp add: bget_def kmonad mod_buf_def hit_upd_def)
  with P nb show ?thesis by blast
qed

lemma bget_miss:
  assumes "binv s" and "card (busyset s \<union> dirtyset s) < NBUF"
    and "\<not> (\<exists>c<NBUF. b_dev (bufs s c) = 1 \<and> b_sector (bufs s c) = n)"
  shows "\<exists>b<NBUF. \<not> b_busy (bufs s b) \<and> \<not> b_dirty (bufs s b) \<and>
    bget 1 n s = Ok b (s\<lparr>bufs := upd_buf b (miss_upd n) (bufs s)\<rparr>)"
proof -
  let ?B = "bufs s"
  obtain xs where xs: "lru ?B xs" using binv_lru [OF assms(1)] by blast
  let ?P = "\<lambda>b. b_dev (?B b) = 1 \<and> b_sector (?B b) = n" and ?Q = "\<lambda>b. \<not> b_busy (?B b) \<and> \<not> b_dirty (?B b)"
  have none: "find ?P xs = None"
  proof (cases "find ?P xs")
    case (Some c)
    from find_lru_Some [OF xs Some] assms(3) show ?thesis by blast
  qed
  obtain b where b: "find ?Q (rev xs) = Some b"
  proof (cases "find ?Q (rev xs)")
    case None
    from find_lru_rev_None [OF xs None] free_buffer [OF assms(1,2)] show ?thesis by blast
  qed (use that in blast)
  have Q: "b < NBUF" "\<not> b_busy (?B b)" "\<not> b_dirty (?B b)" using find_lru_rev_Some [OF xs b] by auto
  have h: "held s = {}" using assms(1) by (simp add: binv_def)
  have "bget 1 n s = Ok b (s\<lparr>bufs := upd_buf b (miss_upd n) (bufs s)\<rparr>)"
    using lru_scan_next [OF xs, of ?P] lru_scan_prev [OF xs, of ?Q] b none h
    by (simp add: bget_def kmonad mod_buf_def miss_upd_def)
  with Q show ?thesis by blast
qed

section \<open>The states after each operation\<close>

lemma lru_fields:
  "lru B xs \<Longrightarrow> (\<And>i. b_next (C i) = b_next (B i)) \<Longrightarrow> (\<And>i. b_prev (C i) = b_prev (B i)) \<Longrightarrow> lru C xs"
  by (simp add: lru_def)

lemma view_cases:
  obtains (cached) b where "b < NBUF" "b_valid (bufs s b)" "b_dev (bufs s b) = 1" "b_sector (bufs s b) = n"
      "view s n = b_data (bufs s b)"
  | (uncached) "\<And>b. b < NBUF \<Longrightarrow> b_dev (bufs s b) = 1 \<Longrightarrow> b_sector (bufs s b) = n \<Longrightarrow> \<not> b_valid (bufs s b)"
      "view s n = memdisk s n"
proof (cases "bfind (bufs s) n")
  case None
  then show ?thesis using bfind_None [OF None] uncached by (simp add: view_def)
next
  case (Some b)
  then show ?thesis using bfind_Some [OF Some] by (intro cached [of b]) (simp_all add: view_def)
qed

text \<open>A buffer \<open>b\<close> that no client holds becomes the locked copy \<open>y\<close> of sector \<open>n\<close>.\<close>

definition takes :: "'a bio_st_scheme \<Rightarrow> nat \<Rightarrow> nat \<Rightarrow> buf \<Rightarrow> bool" where
  "takes s b n y \<longleftrightarrow> binv s \<and> b < NBUF \<and> \<not> b_busy (bufs s b) \<and> n < disksize s \<and>
     b_busy y \<and> b_valid y \<and> b_dev y = 1 \<and> b_sector y = n \<and> b_data y = view s n \<and>
     b_dirty y = b_dirty (bufs s b) \<and> b_next y = b_next (bufs s b) \<and> b_prev y = b_prev (bufs s b) \<and>
     ((b_dev (bufs s b) = 1 \<and> b_sector (bufs s b) = n) \<or>
      (\<not> b_dirty (bufs s b) \<and> \<not> (\<exists>c<NBUF. b_dev (bufs s c) = 1 \<and> b_sector (bufs s c) = n)))"

abbreviation taken :: "'a bio_st_scheme \<Rightarrow> nat \<Rightarrow> buf \<Rightarrow> 'a bio_st_scheme" where
  "taken s b y \<equiv> s\<lparr>bufs := (bufs s)(b := y)\<rparr>"

lemma takesD:
  assumes "takes s b n y"
  shows "binv s" "b < NBUF" "\<not> b_busy (bufs s b)" "n < disksize s" "b_busy y" "b_valid y" "b_dev y = 1"
    "b_sector y = n" "b_data y = view s n" "b_dirty y = b_dirty (bufs s b)" "b_next y = b_next (bufs s b)"
    "b_prev y = b_prev (bufs s b)"
    "(b_dev (bufs s b) = 1 \<and> b_sector (bufs s b) = n) \<or>
      (\<not> b_dirty (bufs s b) \<and> \<not> (\<exists>c<NBUF. b_dev (bufs s c) = 1 \<and> b_sector (bufs s c) = n))"
    "binv_bufs (bufs s) (memdisk s) (disksize s)"
  using assms unfolding takes_def binv_def by simp_all

lemma takes_other: "takes s b n y \<Longrightarrow> c < NBUF \<Longrightarrow> c \<noteq> b \<Longrightarrow> b_dev (bufs s c) = 1 \<Longrightarrow> b_sector (bufs s c) \<noteq> n"
  using takesD(13) [of s b n y] binv_bufsD(2) [OF takesD(14), of s b n y c b] takesD(2) [of s b n y] by auto

lemma taken_inv:
  assumes T: "takes s b n y"
  shows "binv (taken s b y)"
proof -
  note inv = takesD(1) [OF T] and b = takesD(2) [OF T] and free = takesD(3) [OF T] and n = takesD(4) [OF T]
    and y = takesD(5-12) [OF T] and own = takesD(13) [OF T] and I = takesD(14) [OF T]
    and other = takes_other [OF T]
  obtain xs where "lru (bufs s) xs" using binv_lru [OF inv] by blast
  then have "lru ((bufs s)(b := y)) xs" by (rule lru_fields) (simp_all add: y)
  then have "binv_bufs ((bufs s)(b := y)) (memdisk s) (disksize s)"
  proof (rule binv_bufsI)
    fix i j
    assume "i < NBUF" "j < NBUF" "b_dev (((bufs s)(b := y)) i) = 1" "b_dev (((bufs s)(b := y)) j) = 1"
      "b_sector (((bufs s)(b := y)) i) = b_sector (((bufs s)(b := y)) j)"
    then show "i = j"
      using other [of i] other [of j] binv_bufsD(2) [OF I, of i j] y(3,4)
      by (cases "i = b"; cases "j = b") simp_all
  next
    fix i
    assume "i < NBUF"
    then show "b_busy (((bufs s)(b := y)) i) \<or> b_dirty (((bufs s)(b := y)) i) \<Longrightarrow> b_valid (((bufs s)(b := y)) i)"
      using binv_bufsD(3) [OF I, of i] y(2) by (cases "i = b") simp_all
  next
    fix i
    assume "i < NBUF" "b_valid (((bufs s)(b := y)) i)"
    then show "b_dev (((bufs s)(b := y)) i) = 1 \<and> b_sector (((bufs s)(b := y)) i) < disksize s"
      using binv_bufsD(4,5) [OF I, of i] y(3,4) n by (cases "i = b") simp_all
  next
    fix i
    assume "i < NBUF" "b_valid (((bufs s)(b := y)) i)" "\<not> b_busy (((bufs s)(b := y)) i)"
      "\<not> b_dirty (((bufs s)(b := y)) i)"
    then show "b_data (((bufs s)(b := y)) i) = memdisk s (b_sector (((bufs s)(b := y)) i))"
      using binv_bufsD(6) [OF I, of i] y(1) by (cases "i = b") simp_all
  qed
  then show ?thesis using inv by (simp add: binv_def)
qed

lemma taken_handle: "takes s b n y \<Longrightarrow> handle (taken s b y) b n"
  by (simp add: takes_def handle_def)

lemma taken_handles: "takes s b n y \<Longrightarrow> handle s c m \<Longrightarrow> handle (taken s b y) c m"
  using takesD(3) [of s b n y] by (auto simp: handle_def)

lemma taken_busy: "takes s b n y \<Longrightarrow> busyset (taken s b y) = insert n (busyset s)"
  using takesD(2,3,5,8) [of s b n y] by (auto simp: busyset_def split: if_splits)

lemma taken_dirty: "takes s b n y \<Longrightarrow> dirtyset (taken s b y) = dirtyset s"
  using takesD(2,8,10,13) [of s b n y] by (auto simp: dirtyset_def split: if_splits)

lemma taken_view:
  assumes T: "takes s b n y"
  shows "view (taken s b y) m = view s m"
proof -
  note inv = takesD(1) [OF T] and b = takesD(2) [OF T] and free = takesD(3) [OF T] and n = takesD(4) [OF T]
    and y = takesD(5-12) [OF T] and own = takesD(13) [OF T] and I = takesD(14) [OF T]
    and other = takes_other [OF T]
  show ?thesis
  proof (cases "m = n")
  case True
  then show ?thesis using handle_view [OF taken_inv [OF T] taken_handle [OF T]] y by simp
next
  case False
  have I': "binv_bufs ((bufs s)(b := y)) (memdisk s) (disksize s)"
    using taken_inv [OF T] by (simp add: binv_def)
  show ?thesis
  proof (cases rule: view_cases [of s m])
    case (cached c)
    show ?thesis
    proof (cases "c = b")
      case True
      have old: "b_data (bufs s b) = memdisk s m"
        using binv_bufsD(6) [OF I b] cached True own False free by auto
      have "view (taken s b y) m = memdisk s m"
      proof -
        have "view (taken s b y) m = memdisk (taken s b y) m"
        proof (rule view_uncached)
          fix c'
          assume "c' < NBUF" "b_dev (bufs (taken s b y) c') = 1" "b_sector (bufs (taken s b y) c') = m"
          then show "\<not> b_valid (bufs (taken s b y) c')"
            using False y(4) cached(3,4) True b binv_bufsD(2) [OF I, of c' b] by (cases "c' = b") simp_all
        qed
        then show ?thesis by simp
      qed
      then show ?thesis using cached True old by simp
    next
      case False
      then show ?thesis using view_valid [of "taken s b y" "memdisk s" "disksize s" c] I' cached by simp
    qed
  next
    case uncached
    have "view (taken s b y) m = memdisk (taken s b y) m"
    proof (rule view_uncached)
      fix c
      assume "c < NBUF" "b_dev (bufs (taken s b y) c) = 1" "b_sector (bufs (taken s b y) c) = m"
      then show "\<not> b_valid (bufs (taken s b y) c)"
        using uncached(1) [of c] False y(4) by (cases "c = b") simp_all
    qed
    then show ?thesis using uncached(2) by simp
  qed
qed
qed

lemma bread_hit:
  assumes "binv s" and "n \<notin> busyset s" and "n < disksize s"
    and "\<exists>c<NBUF. b_dev (bufs s c) = 1 \<and> b_sector (bufs s c) = n"
  shows "\<exists>b y. bread 1 n s = Ok b (taken s b y) \<and> takes s b n y"
proof -
  have I: "binv_bufs (bufs s) (memdisk s) (disksize s)" using assms(1) by (simp add: binv_def)
  obtain b where b: "b < NBUF" "b_dev (bufs s b) = 1" "b_sector (bufs s b) = n" "\<not> b_busy (bufs s b)"
    and get: "bget 1 n s = Ok b (s\<lparr>bufs := upd_buf b hit_upd (bufs s)\<rparr>)"
    using bget_hit [OF assms(1,2,4)] by blast
  show ?thesis
  proof (cases "b_valid (bufs s b)")
    case True
    have "bread 1 n s = Ok b (taken s b (hit_upd (bufs s b)))"
      using get True by (simp add: bread_def kmonad upd_buf_def hit_upd_def)
    moreover have "takes s b n (hit_upd (bufs s b))"
      using assms(1,3) b True view_valid [OF I b(1) True] by (simp add: takes_def hit_upd_def)
    ultimately show ?thesis by blast
  next
    case False
    have nd: "\<not> b_dirty (bufs s b)" using binv_bufsD(3) [OF I b(1)] False by blast
    have v: "view s n = memdisk s n"
    proof (rule view_uncached)
      fix c
      assume "c < NBUF" "b_dev (bufs s c) = 1" "b_sector (bufs s c) = n"
      then have "c = b" using b by (intro binv_bufsD(2) [OF I, of c b]) simp_all
      then show "\<not> b_valid (bufs s c)" using False by simp
    qed
    let ?y = "(hit_upd (bufs s b))\<lparr>b_data := memdisk s n, b_valid := True\<rparr>"
    have "bread 1 n s = Ok b (taken s b ?y)"
      using get False b(2,3) nd assms(3) by (simp add: bread_def iderw_def Let_def kmonad upd_buf_def hit_upd_def)
    moreover have "takes s b n ?y"
      using assms(1,3) b v by (simp add: takes_def hit_upd_def)
    ultimately show ?thesis by blast
  qed
qed

lemma bread_miss:
  assumes "binv s" and "n < disksize s" and "card (busyset s \<union> dirtyset s) < NBUF"
    and none: "\<not> (\<exists>c<NBUF. b_dev (bufs s c) = 1 \<and> b_sector (bufs s c) = n)"
  shows "\<exists>b y. bread 1 n s = Ok b (taken s b y) \<and> takes s b n y"
proof -
  obtain b where b: "b < NBUF" "\<not> b_busy (bufs s b)" "\<not> b_dirty (bufs s b)"
    and get: "bget 1 n s = Ok b (s\<lparr>bufs := upd_buf b (miss_upd n) (bufs s)\<rparr>)"
    using bget_miss [OF assms(1,3,4)] by blast
  have v: "view s n = memdisk s n" using none by (intro view_uncached) blast
  let ?y = "(miss_upd n (bufs s b))\<lparr>b_data := memdisk s n, b_valid := True\<rparr>"
  have "bread 1 n s = Ok b (taken s b ?y)"
    using get assms(2) by (simp add: bread_def iderw_def Let_def kmonad upd_buf_def miss_upd_def)
  moreover have "takes s b n ?y"
    using assms(1,2) b v none by (simp add: takes_def miss_upd_def)
  ultimately show ?thesis by blast
qed

lemma dirty_cached: "binv s \<Longrightarrow> n \<in> dirtyset s \<Longrightarrow> \<exists>c<NBUF. b_dev (bufs s c) = 1 \<and> b_sector (bufs s c) = n"
  using binv_bufsD(3,4) [of "bufs s" "memdisk s" "disksize s"] by (auto simp: binv_def dirtyset_def)

lemma bread_takes:
  assumes "binv s" and "n \<notin> busyset s" and "n < disksize s" and "bavail s n"
  shows "\<exists>b y. bread 1 n s = Ok b (taken s b y) \<and> takes s b n y"
proof (cases "\<exists>c<NBUF. b_dev (bufs s c) = 1 \<and> b_sector (bufs s c) = n")
  case True
  then show ?thesis using bread_hit assms by blast
next
  case False
  then have "n \<notin> dirtyset s" using dirty_cached [OF assms(1)] by blast
  then show ?thesis using bread_miss [OF assms(1,3) _ False] assms(4) by (simp add: bavail_def)
qed

text \<open>A client changes the buffer it holds.\<close>

definition reworks :: "'a bio_st_scheme \<Rightarrow> nat \<Rightarrow> nat \<Rightarrow> buf \<Rightarrow> 'a bio_st_scheme \<Rightarrow> bool" where
  "reworks s b n y t \<longleftrightarrow> binv s \<and> handle s b n \<and> held t = {} \<and> disksize t = disksize s \<and>
     bufs t = (bufs s)(b := y) \<and> (\<forall>m. m \<noteq> n \<longrightarrow> memdisk t m = memdisk s m) \<and>
     b_busy y \<and> b_valid y \<and> b_dev y = 1 \<and> b_sector y = n \<and>
     b_next y = b_next (bufs s b) \<and> b_prev y = b_prev (bufs s b)"

lemma reworksD:
  assumes "reworks s b n y t"
  shows "binv s" "b < NBUF" "b_busy (bufs s b)" "b_dev (bufs s b) = 1" "b_sector (bufs s b) = n"
    "b_valid (bufs s b)" "held t = {}" "disksize t = disksize s" "bufs t = (bufs s)(b := y)"
    "m \<noteq> n \<Longrightarrow> memdisk t m = memdisk s m" "b_busy y" "b_valid y" "b_dev y = 1" "b_sector y = n"
    "b_next y = b_next (bufs s b)" "b_prev y = b_prev (bufs s b)"
    "binv_bufs (bufs s) (memdisk s) (disksize s)"
  using assms handle_valid [of s b n] unfolding reworks_def handle_def binv_def by simp_all

lemma reworks_inv:
  assumes T: "reworks s b n y t"
  shows "binv t"
proof -
  note D = reworksD [OF T]
  obtain xs where "lru (bufs s) xs" using binv_lru [OF D(1)] by blast
  then have "lru (bufs t) xs" by (rule lru_fields) (simp_all add: D(9,15,16))
  then have "binv_bufs (bufs t) (memdisk t) (disksize t)"
  proof (rule binv_bufsI)
    fix i j
    assume "i < NBUF" "j < NBUF" "b_dev (bufs t i) = 1" "b_dev (bufs t j) = 1" "b_sector (bufs t i) = b_sector (bufs t j)"
    then show "i = j"
      using binv_bufsD(2) [OF D(17), of i j] D(4,5,13,14)
      by (cases "i = b"; cases "j = b") (simp_all add: D(9))
  next
    fix i
    assume "i < NBUF"
    then show "b_busy (bufs t i) \<or> b_dirty (bufs t i) \<Longrightarrow> b_valid (bufs t i)"
      using binv_bufsD(3) [OF D(17), of i] D(12) by (cases "i = b") (simp_all add: D(9))
  next
    fix i
    assume "i < NBUF" "b_valid (bufs t i)"
    then show "b_dev (bufs t i) = 1 \<and> b_sector (bufs t i) < disksize t"
      using binv_bufsD(4,5) [OF D(17), of i] D(5,6,13,14) by (cases "i = b") (simp_all add: D(8,9))
  next
    fix i
    assume i: "i < NBUF" "b_valid (bufs t i)" "\<not> b_busy (bufs t i)" "\<not> b_dirty (bufs t i)"
    then have nb: "i \<noteq> b" using D(9,11) by auto
    then have "b_dev (bufs s i) = 1" using binv_bufsD(4) [OF D(17), of i] i D(9) by simp
    then have "b_sector (bufs s i) \<noteq> n" using binv_bufsD(2) [OF D(17), of i b] i(1) nb D(2,4,5) by metis
    then show "b_data (bufs t i) = memdisk t (b_sector (bufs t i))"
      using binv_bufsD(6) [OF D(17), of i] i nb D(9,10) by simp
  qed
  then show ?thesis using D(7) by (simp add: binv_def)
qed

lemma reworks_handle: "reworks s b n y t \<Longrightarrow> handle t c m \<longleftrightarrow> handle s c m"
  using reworksD(3-5,9,11,13,14) [of s b n y t] by (auto simp: handle_def)

lemma reworks_busy: "reworks s b n y t \<Longrightarrow> busyset t = busyset s"
  using reworksD(2,3,5,9,11,14) [of s b n y t] by (auto simp: busyset_def)

lemma reworks_dirty:
  assumes T: "reworks s b n y t"
  shows "dirtyset t = (if b_dirty y then insert n (dirtyset s) else dirtyset s - {n})"
proof -
  note D = reworksD [OF T]
  have other: "c < NBUF \<Longrightarrow> c \<noteq> b \<Longrightarrow> b_dirty (bufs s c) \<Longrightarrow> b_sector (bufs s c) \<noteq> n" for c
    using binv_bufsD(2) [OF D(17), of c b] binv_bufsD(3,4) [OF D(17), of c] D(2,4,5) by auto
  have "dirtyset t = (if b_dirty y then {n} else {}) \<union> {b_sector (bufs s c) |c. c < NBUF \<and> c \<noteq> b \<and> b_dirty (bufs s c)}"
    using D(2,9,14) by (auto simp: dirtyset_def)
  moreover have "dirtyset s - {n} = {b_sector (bufs s c) |c. c < NBUF \<and> c \<noteq> b \<and> b_dirty (bufs s c)}"
    using D(5) other by (auto simp: dirtyset_def)
  ultimately show ?thesis by auto
qed

lemma reworks_view:
  assumes T: "reworks s b n y t"
  shows "view t m = (if m = n then b_data y else view s m)"
proof (cases "m = n")
  case True
  have "handle t b n" using T reworks_handle [OF T] by (simp add: reworks_def)
  from handle_view [OF reworks_inv [OF T] this] show ?thesis using True reworksD(9) [OF T] by simp
next
  case False
  note D = reworksD [OF T]
  have I': "binv_bufs (bufs t) (memdisk t) (disksize t)" using reworks_inv [OF T] by (simp add: binv_def)
  show ?thesis
  proof (cases rule: view_cases [of s m])
    case (cached c)
    then have "c \<noteq> b" using D(5) False by auto
    then show ?thesis using view_valid [OF I', of c] cached D(9) False by simp
  next
    case uncached
    have "view t m = memdisk t m"
    proof (rule view_uncached)
      fix c
      assume "c < NBUF" "b_dev (bufs t c) = 1" "b_sector (bufs t c) = m"
      then show "\<not> b_valid (bufs t c)"
        using uncached(1) [of c] False D(9,14) by (cases "c = b") simp_all
    qed
    then show ?thesis using uncached(2) D(10) False by simp
  qed
qed

section \<open>bwrite, assignments and brelse\<close>

lemma bwrite_run:
  assumes "binv s" and "handle s b n"
  shows "\<exists>t. bwrite b s = Ok () t \<and> reworks s b n ((bufs s b)\<lparr>b_dirty := False, b_valid := True\<rparr>) t \<and>
    t = s\<lparr>memdisk := (memdisk s)(n := view s n), diskhist := diskhist s @ [(n, view s n)],
          bufs := (bufs s)(b := (bufs s b)\<lparr>b_dirty := False, b_valid := True\<rparr>)\<rparr>"
proof -
  have I: "binv_bufs (bufs s) (memdisk s) (disksize s)" using assms(1) by (simp add: binv_def)
  have h: "b < NBUF" "b_busy (bufs s b)" "b_dev (bufs s b) = 1" "b_sector (bufs s b) = n"
    using assms(2) by (auto simp: handle_def)
  have v: "b_valid (bufs s b)" using handle_valid [OF assms] .
  have sz: "n < disksize s" using binv_bufsD(5) [OF I h(1) v] h(4) by simp
  show ?thesis
    using assms h v sz handle_view [OF assms]
    by (simp add: bwrite_def mod_buf_def iderw_def Let_def kmonad upd_buf_def reworks_def binv_def)
qed

lemma set_data_run:
  assumes "binv s" and "handle s b n"
  shows "\<exists>t. set_data b u s = Ok () t \<and> reworks s b n ((bufs s b)\<lparr>b_data := u (view s n)\<rparr>) t \<and>
    t = s\<lparr>bufs := (bufs s)(b := (bufs s b)\<lparr>b_data := u (view s n)\<rparr>)\<rparr>"
  using assms handle_valid [OF assms] handle_view [OF assms]
  by (simp add: set_data_def mod_buf_def kmonad upd_buf_def reworks_def binv_def handle_def)

lemma set_dirty_run:
  assumes "binv s" and "handle s b n"
  shows "\<exists>t. set_dirty b s = Ok () t \<and> reworks s b n ((bufs s b)\<lparr>b_dirty := True\<rparr>) t \<and>
    t = s\<lparr>bufs := (bufs s)(b := (bufs s b)\<lparr>b_dirty := True\<rparr>)\<rparr>"
  using assms handle_valid [OF assms]
  by (simp add: set_dirty_def mod_buf_def kmonad upd_buf_def reworks_def binv_def handle_def)

lemma brelse_core:
  "same_core (upd_buf b (\<lambda>x. x\<lparr>b_busy := False\<rparr>) (brelse_links b B) i) (if i = b then (B b)\<lparr>b_busy := False\<rparr> else B i)"
  using brelse_links_core [of b B i] by (auto simp: upd_buf_def same_core_def)

lemma lru_move: "lru B xs \<Longrightarrow> b < NBUF \<Longrightarrow> \<exists>ys. lru (brelse_links b B) ys"
proof -
  assume a: "lru B xs" "b < NBUF"
  then have "b \<in> set xs" by (simp add: lru_def)
  then obtain us vs where "xs = us @ b # vs" by (metis split_list)
  then show ?thesis using brelse_links_lru a(1) by blast
qed

lemma brelse_run:
  assumes "binv s" and "handle s b n"
  shows "\<exists>C. brelse b s = Ok () (s\<lparr>bufs := C, ptable := wakeup1_tab (ChBuf b) (ptable s)\<rparr>) \<and>
    (\<exists>xs. lru C xs) \<and> (\<forall>i. same_core (C i) (if i = b then (bufs s b)\<lparr>b_busy := False\<rparr> else bufs s i))"
proof -
  let ?C = "upd_buf b (\<lambda>x. x\<lparr>b_busy := False\<rparr>) (brelse_links b (bufs s))"
  have h: "b < NBUF" "b_busy (bufs s b)" using assms(2) by (auto simp: handle_def)
  obtain xs where "lru (bufs s) xs" using binv_lru [OF assms(1)] by blast
  then obtain ys where "lru (brelse_links b (bufs s)) ys" using lru_move h(1) by blast
  then have "lru ?C ys" by (rule lru_fields) (simp_all add: upd_buf_def)
  moreover have "held s = {}" using assms(1) by (simp add: binv_def)
  ultimately show ?thesis
    using h brelse_core [of b "bufs s"]
    by (intro exI [of _ ?C]) (auto simp: brelse_def mod_buf_def kmonad)
qed

text \<open>The state after a release: only the lock flag of \<open>b\<close> and list pointers change.\<close>

definition released :: "'a bio_st_scheme \<Rightarrow> nat \<Rightarrow> 'a bio_st_scheme \<Rightarrow> bool" where
  "released s b t \<longleftrightarrow> held t = {} \<and> disksize t = disksize s \<and> memdisk t = memdisk s \<and> (\<exists>xs. lru (bufs t) xs) \<and>
     (\<forall>i. same_core (bufs t i) (if i = b then (bufs s b)\<lparr>b_busy := False\<rparr> else bufs s i))"

lemma released_fields:
  assumes "released s b t"
  shows "b_busy (bufs t i) = (i \<noteq> b \<and> b_busy (bufs s i))" "b_valid (bufs t i) = b_valid (bufs s i)"
    "b_dirty (bufs t i) = b_dirty (bufs s i)" "b_dev (bufs t i) = b_dev (bufs s i)"
    "b_sector (bufs t i) = b_sector (bufs s i)" "b_data (bufs t i) = b_data (bufs s i)"
proof -
  have "same_core (bufs t i) (if i = b then (bufs s b)\<lparr>b_busy := False\<rparr> else bufs s i)"
    using assms by (simp add: released_def)
  then show "b_busy (bufs t i) = (i \<noteq> b \<and> b_busy (bufs s i))" "b_valid (bufs t i) = b_valid (bufs s i)"
    "b_dirty (bufs t i) = b_dirty (bufs s i)" "b_dev (bufs t i) = b_dev (bufs s i)"
    "b_sector (bufs t i) = b_sector (bufs s i)" "b_data (bufs t i) = b_data (bufs s i)"
    by (simp_all add: same_core_def split: if_splits)
qed

lemma released_view:
  assumes R: "released s b t"
  shows "view t m = view s m"
proof -
  have "memdisk t = memdisk s" using R by (simp add: released_def)
  then show ?thesis by (simp add: view_def bfind_def released_fields [OF R] cong: option.case_cong)
qed

lemma released_dirty: "released s b t \<Longrightarrow> dirtyset t = dirtyset s"
  by (simp add: dirtyset_def released_fields)

lemma released_inv:
  assumes R: "released s b t" and "binv s" and h: "handle s b n" and c: "n \<in> dirtyset s \<or> view s n = memdisk s n"
  shows "binv t"
proof -
  have I: "binv_bufs (bufs s) (memdisk s) (disksize s)" using assms(2) by (simp add: binv_def)
  have t: "memdisk t = memdisk s" "disksize t = disksize s" "held t = {}" using R by (auto simp: released_def)
  obtain xs where "lru (bufs t) xs" using R by (auto simp: released_def)
  then have "binv_bufs (bufs t) (memdisk t) (disksize t)"
  proof (rule binv_bufsI)
    fix i
    assume i: "i < NBUF" "b_valid (bufs t i)" "\<not> b_busy (bufs t i)" "\<not> b_dirty (bufs t i)"
    show "b_data (bufs t i) = memdisk t (b_sector (bufs t i))"
    proof (cases "i = b")
      case True
      have "n \<notin> dirtyset s"
      proof
        assume "n \<in> dirtyset s"
        then obtain c where "c < NBUF" "b_dirty (bufs s c)" "b_sector (bufs s c) = n"
          by (auto simp: dirtyset_def)
        moreover have "c \<noteq> b" using calculation i(4) True by (auto simp: released_fields [OF R])
        ultimately show False
          using binv_bufsD(2) [OF I, of c b] binv_bufsD(3,4) [OF I, of c] h by (auto simp: handle_def)
      qed
      then show ?thesis
        using c handle_view [OF assms(2) h] h True by (simp add: released_fields [OF R] t handle_def)
    next
      case False
      then show ?thesis using i binv_bufsD(6) [OF I, of i] by (simp add: released_fields [OF R] t)
    qed
  qed (use binv_bufsD(2-5) [OF I] in \<open>auto simp: released_fields [OF R] t\<close>)
  then show ?thesis using t by (simp add: binv_def)
qed

lemma released_busy:
  assumes R: "released s b t" and "binv s" and h: "handle s b n"
  shows "busyset t = busyset s - {n}"
proof -
  have I: "binv_bufs (bufs s) (memdisk s) (disksize s)" using assms(2) by (simp add: binv_def)
  have other: "c < NBUF \<Longrightarrow> c \<noteq> b \<Longrightarrow> b_busy (bufs s c) \<Longrightarrow> b_sector (bufs s c) \<noteq> n" for c
    using binv_bufsD(2) [OF I, of c b] binv_bufsD(3,4) [OF I, of c] h by (auto simp: handle_def)
  show ?thesis
    using h other by (auto simp: busyset_def released_fields [OF R] handle_def)
qed

lemma released_handle: "released s b t \<Longrightarrow> handle s c m \<Longrightarrow> c \<noteq> b \<Longrightarrow> handle t c m"
  by (simp add: handle_def released_fields)

lemma handle_inj: "binv s \<Longrightarrow> handle s b n \<Longrightarrow> handle s c n \<Longrightarrow> c = b"
  using binv_bufsD(2) [of "bufs s" "memdisk s" "disksize s" c b] by (simp add: binv_def handle_def)

section \<open>The contract\<close>

text \<open>What a client can observe of the cache: contents, disk, order of disk writes, locked and
  dirty sectors.\<close>

record cache_abs =
  c_view :: "nat \<Rightarrow> bytes"
  c_disk :: "nat \<Rightarrow> bytes"
  c_hist :: "(nat \<times> bytes) list"
  c_busy :: "nat set"
  c_dirty :: "nat set"
  c_size :: nat

locale block_cache =
  fixes bread :: "nat \<Rightarrow> ('s, chan, 'h) km"
    and buf_data :: "'h \<Rightarrow> ('s, chan, bytes) km"
    and set_data :: "'h \<Rightarrow> (bytes \<Rightarrow> bytes) \<Rightarrow> ('s, chan, unit) km"
    and set_dirty :: "'h \<Rightarrow> ('s, chan, unit) km"
    and bwrite :: "'h \<Rightarrow> ('s, chan, unit) km"
    and brelse :: "'h \<Rightarrow> ('s, chan, unit) km"
    and inv :: "'s \<Rightarrow> bool"
    and abs :: "'s \<Rightarrow> cache_abs"
    and handle :: "'s \<Rightarrow> 'h \<Rightarrow> nat \<Rightarrow> bool"
    and rest :: "'s \<Rightarrow> 'r"
    and capacity :: nat
  assumes clean: "inv s \<Longrightarrow> n \<notin> c_busy (abs s) \<Longrightarrow> n \<notin> c_dirty (abs s) \<Longrightarrow>
      c_view (abs s) n = c_disk (abs s) n"
    and finite_abs: "finite (c_busy (abs s))" "finite (c_dirty (abs s))"
    and handle_busy: "handle s h n \<Longrightarrow> n \<in> c_busy (abs s)"
    and bread: "inv s \<Longrightarrow> n \<notin> c_busy (abs s) \<Longrightarrow> n < c_size (abs s) \<Longrightarrow>
      n \<in> c_dirty (abs s) \<or> card (c_busy (abs s) \<union> c_dirty (abs s)) < capacity \<Longrightarrow>
      \<exists>h t. bread n s = Ok h t \<and> inv t \<and> handle t h n \<and> (\<forall>k m. handle s k m \<longrightarrow> handle t k m) \<and>
        abs t = (abs s)\<lparr>c_busy := insert n (c_busy (abs s))\<rparr> \<and> rest t = rest s"
    and buf_data: "inv s \<Longrightarrow> handle s h n \<Longrightarrow> buf_data h s = Ok (c_view (abs s) n) s"
    and set_data: "inv s \<Longrightarrow> handle s h n \<Longrightarrow>
      \<exists>t. set_data h u s = Ok () t \<and> inv t \<and> (\<forall>k m. handle t k m = handle s k m) \<and>
        abs t = (abs s)\<lparr>c_view := (c_view (abs s))(n := u (c_view (abs s) n))\<rparr> \<and> rest t = rest s"
    and set_dirty: "inv s \<Longrightarrow> handle s h n \<Longrightarrow>
      \<exists>t. set_dirty h s = Ok () t \<and> inv t \<and> (\<forall>k m. handle t k m = handle s k m) \<and>
        abs t = (abs s)\<lparr>c_dirty := insert n (c_dirty (abs s))\<rparr> \<and> rest t = rest s"
    and bwrite: "inv s \<Longrightarrow> handle s h n \<Longrightarrow>
      \<exists>t. bwrite h s = Ok () t \<and> inv t \<and> (\<forall>k m. handle t k m = handle s k m) \<and>
        abs t = (abs s)\<lparr>c_disk := (c_disk (abs s))(n := c_view (abs s) n),
                        c_hist := c_hist (abs s) @ [(n, c_view (abs s) n)],
                        c_dirty := c_dirty (abs s) - {n}\<rparr> \<and> rest t = rest s"
    and brelse: "inv s \<Longrightarrow> handle s h n \<Longrightarrow>
      n \<in> c_dirty (abs s) \<or> c_view (abs s) n = c_disk (abs s) n \<Longrightarrow>
      \<exists>t. brelse h s = Ok () t \<and> inv t \<and> (\<forall>k m. handle s k m \<longrightarrow> m \<noteq> n \<longrightarrow> handle t k m) \<and>
        abs t = (abs s)\<lparr>c_busy := c_busy (abs s) - {n}\<rparr> \<and> rest t = rest s"
begin

text \<open>Reading a sector: \<open>bread\<close>, look at the data, \<open>brelse\<close>.\<close>

lemma read_block:
  assumes "inv s" and "n \<notin> c_busy (abs s)" and "n < c_size (abs s)"
    and "n \<in> c_dirty (abs s) \<or> card (c_busy (abs s) \<union> c_dirty (abs s)) < capacity"
  shows "\<exists>t. kbind (bread n) (\<lambda>h. kbind (buf_data h) (\<lambda>v. kseq (brelse h) (kreturn (f v)))) s
      = Ok (f (c_view (abs s) n)) t \<and> inv t \<and> abs t = abs s \<and> rest t = rest s \<and>
      (\<forall>k m. handle s k m \<longrightarrow> handle t k m)"
proof -
  obtain h s1 where 1: "bread n s = Ok h s1" "inv s1" "handle s1 h n" "\<forall>k m. handle s k m \<longrightarrow> handle s1 k m"
      "abs s1 = (abs s)\<lparr>c_busy := insert n (c_busy (abs s))\<rparr>" "rest s1 = rest s"
    using bread [OF assms] by blast
  have d: "n \<in> c_dirty (abs s1) \<or> c_view (abs s1) n = c_disk (abs s1) n"
    using clean [OF assms(1,2)] 1(5) by auto
  obtain s2 where 2: "brelse h s1 = Ok () s2" "inv s2" "\<forall>k m. handle s1 k m \<longrightarrow> m \<noteq> n \<longrightarrow> handle s2 k m"
      "abs s2 = (abs s1)\<lparr>c_busy := c_busy (abs s1) - {n}\<rparr>" "rest s2 = rest s1"
    using brelse [OF 1(2,3) d] by blast
  have "\<forall>k m. handle s k m \<longrightarrow> handle s2 k m"
    using 1(4) 2(3) handle_busy assms(2) by blast
  moreover have "abs s2 = abs s" using 2(4) 1(5) assms(2) by simp
  ultimately show ?thesis
    using 1 2 buf_data [OF 1(2,3)] by (simp add: kmonad)
qed

text \<open>Rewriting a sector through to the disk: \<open>bread\<close>, assign, \<open>bwrite\<close>, \<open>brelse\<close>.\<close>

lemma write_block:
  assumes "inv s" and "n \<notin> c_busy (abs s)" and "n < c_size (abs s)"
    and "n \<in> c_dirty (abs s) \<or> card (c_busy (abs s) \<union> c_dirty (abs s)) < capacity"
  shows "\<exists>t. kbind (bread n) (\<lambda>h. kseq (set_data h u) (kseq (bwrite h) (brelse h))) s = Ok () t \<and> inv t \<and>
      abs t = (let v = u (c_view (abs s) n) in
        (abs s)\<lparr>c_view := (c_view (abs s))(n := v), c_disk := (c_disk (abs s))(n := v),
                c_hist := c_hist (abs s) @ [(n, v)], c_dirty := c_dirty (abs s) - {n}\<rparr>) \<and>
      rest t = rest s \<and> (\<forall>k m. handle s k m \<longrightarrow> handle t k m)"
proof -
  obtain h s1 where 1: "bread n s = Ok h s1" "inv s1" "handle s1 h n" "\<forall>k m. handle s k m \<longrightarrow> handle s1 k m"
      "abs s1 = (abs s)\<lparr>c_busy := insert n (c_busy (abs s))\<rparr>" "rest s1 = rest s"
    using bread [OF assms] by blast
  obtain s2 where 2: "set_data h u s1 = Ok () s2" "inv s2" "\<forall>k m. handle s2 k m = handle s1 k m"
      "abs s2 = (abs s1)\<lparr>c_view := (c_view (abs s1))(n := u (c_view (abs s1) n))\<rparr>" "rest s2 = rest s1"
    using set_data [OF 1(2,3)] by blast
  have h2: "handle s2 h n" using 2(3) 1(3) by simp
  obtain s3 where 3: "bwrite h s2 = Ok () s3" "inv s3" "\<forall>k m. handle s3 k m = handle s2 k m"
      "abs s3 = (abs s2)\<lparr>c_disk := (c_disk (abs s2))(n := c_view (abs s2) n),
                        c_hist := c_hist (abs s2) @ [(n, c_view (abs s2) n)],
                        c_dirty := c_dirty (abs s2) - {n}\<rparr>" "rest s3 = rest s2"
    using bwrite [OF 2(2) h2] by blast
  have h3: "handle s3 h n" using 3(3) h2 by simp
  have d: "n \<in> c_dirty (abs s3) \<or> c_view (abs s3) n = c_disk (abs s3) n" using 3(4) by simp
  obtain s4 where 4: "brelse h s3 = Ok () s4" "inv s4" "\<forall>k m. handle s3 k m \<longrightarrow> m \<noteq> n \<longrightarrow> handle s4 k m"
      "abs s4 = (abs s3)\<lparr>c_busy := c_busy (abs s3) - {n}\<rparr>" "rest s4 = rest s3"
    using brelse [OF 3(2) h3 d] by blast
  have "\<forall>k m. handle s k m \<longrightarrow> handle s4 k m"
    using 1(4) 2(3) 3(3) 4(3) handle_busy assms(2) by blast
  moreover have "abs s4 = (let v = u (c_view (abs s) n) in
        (abs s)\<lparr>c_view := (c_view (abs s))(n := v), c_disk := (c_disk (abs s))(n := v),
                c_hist := c_hist (abs s) @ [(n, v)], c_dirty := c_dirty (abs s) - {n}\<rparr>)"
    using 1(5) 2(4) 3(4) 4(4) assms(2) by (simp add: Let_def)
  ultimately show ?thesis using 1 2 3 4 by (simp add: kmonad)
qed

text \<open>Copying sector \<open>a\<close> to sector \<open>b\<close>, as the log does when it installs a block.\<close>

lemma copy_block:
  assumes "inv s" and "a \<notin> c_busy (abs s)" and "b \<notin> c_busy (abs s)" and "a \<noteq> b"
    and "a < c_size (abs s)" and "b < c_size (abs s)"
    and "a \<in> c_dirty (abs s) \<or> card (c_busy (abs s) \<union> c_dirty (abs s)) < capacity"
    and "b \<in> c_dirty (abs s) \<or> card (insert a (c_busy (abs s) \<union> c_dirty (abs s))) < capacity"
  shows "\<exists>t. kbind (bread a) (\<lambda>l. kbind (bread b) (\<lambda>d. kbind (buf_data l) (\<lambda>v.
        kseq (set_data d (\<lambda>_. v)) (kseq (bwrite d) (kseq (brelse l) (brelse d)))))) s = Ok () t \<and> inv t \<and>
      abs t = (let v = c_view (abs s) a in
        (abs s)\<lparr>c_view := (c_view (abs s))(b := v), c_disk := (c_disk (abs s))(b := v),
                c_hist := c_hist (abs s) @ [(b, v)], c_dirty := c_dirty (abs s) - {b}\<rparr>) \<and>
      rest t = rest s"
proof -
  obtain l s1 where 1: "bread a s = Ok l s1" "inv s1" "handle s1 l a"
      "abs s1 = (abs s)\<lparr>c_busy := insert a (c_busy (abs s))\<rparr>" "rest s1 = rest s"
    using bread [OF assms(1,2,5,7)] by blast
  have "b \<notin> c_busy (abs s1)" "b < c_size (abs s1)"
    "b \<in> c_dirty (abs s1) \<or> card (c_busy (abs s1) \<union> c_dirty (abs s1)) < capacity"
    using 1(4) assms(3,4,6,8) by simp_all
  then obtain d s2 where 2: "bread b s1 = Ok d s2" "inv s2" "handle s2 d b" "handle s2 l a"
      "abs s2 = (abs s1)\<lparr>c_busy := insert b (c_busy (abs s1))\<rparr>" "rest s2 = rest s1"
    using bread [OF 1(2)] 1(3) by blast
  let ?v = "c_view (abs s2) a"
  obtain s3 where 3: "set_data d (\<lambda>_. ?v) s2 = Ok () s3" "inv s3" "\<forall>k m. handle s3 k m = handle s2 k m"
      "abs s3 = (abs s2)\<lparr>c_view := (c_view (abs s2))(b := ?v)\<rparr>" "rest s3 = rest s2"
    using set_data [OF 2(2,3), of "\<lambda>_. ?v"] by blast
  have h3: "handle s3 d b" "handle s3 l a" using 3(3) 2(3,4) by simp_all
  obtain s4 where 4: "bwrite d s3 = Ok () s4" "inv s4" "\<forall>k m. handle s4 k m = handle s3 k m"
      "abs s4 = (abs s3)\<lparr>c_disk := (c_disk (abs s3))(b := c_view (abs s3) b),
                        c_hist := c_hist (abs s3) @ [(b, c_view (abs s3) b)],
                        c_dirty := c_dirty (abs s3) - {b}\<rparr>" "rest s4 = rest s3"
    using bwrite [OF 3(2) h3(1)] by blast
  have h4: "handle s4 d b" "handle s4 l a" using 4(3) h3 by simp_all
  have "a \<in> c_dirty (abs s4) \<or> c_view (abs s4) a = c_disk (abs s4) a"
    using clean [OF assms(1,2)] 1(4) 2(5) 3(4) 4(4) assms(4) by auto
  then obtain s5 where 5: "brelse l s4 = Ok () s5" "inv s5" "handle s5 d b"
      "abs s5 = (abs s4)\<lparr>c_busy := c_busy (abs s4) - {a}\<rparr>" "rest s5 = rest s4"
    using brelse [OF 4(2) h4(2)] h4(1) assms(4) by blast
  have "b \<in> c_dirty (abs s5) \<or> c_view (abs s5) b = c_disk (abs s5) b" using 5(4) 4(4) by simp
  then obtain s6 where 6: "brelse d s5 = Ok () s6" "inv s6"
      "abs s6 = (abs s5)\<lparr>c_busy := c_busy (abs s5) - {b}\<rparr>" "rest s6 = rest s5"
    using brelse [OF 5(2,3)] by blast
  have "insert b (insert a (c_busy (abs s))) - {a} - {b} = c_busy (abs s)" using assms(2,3) by auto
  then have "abs s6 = (let v = c_view (abs s) a in
        (abs s)\<lparr>c_view := (c_view (abs s))(b := v), c_disk := (c_disk (abs s))(b := v),
                c_hist := c_hist (abs s) @ [(b, v)], c_dirty := c_dirty (abs s) - {b}\<rparr>)"
    using 1(4) 2(5) 3(4) 4(4) 5(4) 6(3) by (simp add: Let_def)
  then show ?thesis
    using 1 2 3 4 5 6 buf_data [OF 2(2,4)] by (simp add: kmonad)
qed

end

section \<open>The cache of bio.c keeps the contract\<close>

definition cabs :: "'a bio_st_scheme \<Rightarrow> cache_abs" where
  "cabs s = \<lparr>c_view = view s, c_disk = memdisk s, c_hist = diskhist s, c_busy = busyset s,
     c_dirty = dirtyset s, c_size = disksize s\<rparr>"

definition brest :: "'a bio_st_scheme \<Rightarrow> nat \<times> 'a" where
  "brest s = (curproc s, bio_st.more s)"

interpretation bc: block_cache "bread 1" buf_data set_data set_dirty bwrite brelse binv cabs handle brest NBUF
proof
  fix s :: "'a bio_st_scheme" and n h u
  show "finite (c_busy (cabs s))" "finite (c_dirty (cabs s))"
    using finite_busy_dirty by (simp_all add: cabs_def)
  show "handle s h n \<Longrightarrow> n \<in> c_busy (cabs s)"
    using handle_busy by (simp add: cabs_def)
  assume inv: "binv s"
  show "n \<notin> c_busy (cabs s) \<Longrightarrow> n \<notin> c_dirty (cabs s) \<Longrightarrow> c_view (cabs s) n = c_disk (cabs s) n"
    using view_clean [OF inv] by (simp add: cabs_def)
  show "\<exists>h t. bread 1 n s = Ok h t \<and> binv t \<and> handle t h n \<and> (\<forall>k m. handle s k m \<longrightarrow> handle t k m) \<and>
      cabs t = (cabs s)\<lparr>c_busy := insert n (c_busy (cabs s))\<rparr> \<and> brest t = brest s"
    if "n \<notin> c_busy (cabs s)" "n < c_size (cabs s)"
      "n \<in> c_dirty (cabs s) \<or> card (c_busy (cabs s) \<union> c_dirty (cabs s)) < NBUF"
  proof -
    have "n \<notin> busyset s" "n < disksize s" "bavail s n" using that by (simp_all add: cabs_def bavail_def)
    then obtain b y where b: "bread 1 n s = Ok b (taken s b y)" "takes s b n y"
      using bread_takes [OF inv] by blast
    have "cabs (taken s b y) = (cabs s)\<lparr>c_busy := insert n (c_busy (cabs s))\<rparr>"
      using taken_busy [OF b(2)] taken_dirty [OF b(2)] taken_view [OF b(2)]
      by (simp add: cabs_def fun_eq_iff)
    moreover have "brest (taken s b y) = brest s" by (simp add: brest_def)
    ultimately show ?thesis
      using b(1) taken_inv [OF b(2)] taken_handle [OF b(2)] taken_handles [OF b(2)] by blast
  qed
  assume h: "handle s h n"
  show "buf_data h s = Ok (c_view (cabs s) n) s"
    using handle_view [OF inv h] by (simp add: buf_data_def kmonad cabs_def)
  show "\<exists>t. set_data h u s = Ok () t \<and> binv t \<and> (\<forall>k m. handle t k m = handle s k m) \<and>
      cabs t = (cabs s)\<lparr>c_view := (c_view (cabs s))(n := u (c_view (cabs s) n))\<rparr> \<and> brest t = brest s"
  proof -
    obtain t where t: "set_data h u s = Ok () t" and R: "reworks s h n ((bufs s h)\<lparr>b_data := u (view s n)\<rparr>) t"
      and eq: "t = s\<lparr>bufs := (bufs s)(h := (bufs s h)\<lparr>b_data := u (view s n)\<rparr>)\<rparr>"
      using set_data_run [OF inv h] by blast
    have "dirtyset t = dirtyset s" unfolding dirtyset_def eq by auto
    then have "cabs t = (cabs s)\<lparr>c_view := (c_view (cabs s))(n := u (c_view (cabs s) n))\<rparr>"
      using reworks_busy [OF R] reworks_view [OF R] by (simp add: cabs_def fun_eq_iff eq)
    moreover have "brest t = brest s" by (simp add: eq brest_def)
    ultimately show ?thesis using t reworks_inv [OF R] reworks_handle [OF R] by blast
  qed
  show "\<exists>t. set_dirty h s = Ok () t \<and> binv t \<and> (\<forall>k m. handle t k m = handle s k m) \<and>
      cabs t = (cabs s)\<lparr>c_dirty := insert n (c_dirty (cabs s))\<rparr> \<and> brest t = brest s"
  proof -
    obtain t where t: "set_dirty h s = Ok () t" and R: "reworks s h n ((bufs s h)\<lparr>b_dirty := True\<rparr>) t"
      and eq: "t = s\<lparr>bufs := (bufs s)(h := (bufs s h)\<lparr>b_dirty := True\<rparr>)\<rparr>"
      using set_dirty_run [OF inv h] by blast
    have "cabs t = (cabs s)\<lparr>c_dirty := insert n (c_dirty (cabs s))\<rparr>"
      using reworks_busy [OF R] reworks_dirty [OF R] reworks_view [OF R] handle_view [OF inv h]
      by (simp add: cabs_def fun_eq_iff eq)
    moreover have "brest t = brest s" by (simp add: eq brest_def)
    ultimately show ?thesis using t reworks_inv [OF R] reworks_handle [OF R] by blast
  qed
  show "\<exists>t. bwrite h s = Ok () t \<and> binv t \<and> (\<forall>k m. handle t k m = handle s k m) \<and>
      cabs t = (cabs s)\<lparr>c_disk := (c_disk (cabs s))(n := c_view (cabs s) n),
                        c_hist := c_hist (cabs s) @ [(n, c_view (cabs s) n)],
                        c_dirty := c_dirty (cabs s) - {n}\<rparr> \<and> brest t = brest s"
  proof -
    let ?y = "(bufs s h)\<lparr>b_dirty := False, b_valid := True\<rparr>"
    obtain t where t: "bwrite h s = Ok () t" and R: "reworks s h n ?y t"
      and eq: "t = s\<lparr>memdisk := (memdisk s)(n := view s n), diskhist := diskhist s @ [(n, view s n)],
          bufs := (bufs s)(h := ?y)\<rparr>"
      using bwrite_run [OF inv h] by blast
    have "view t m = view s m" for m
      using reworks_view [OF R, of m] handle_view [OF inv h] by simp
    then have v: "view t = view s" by (rule ext)
    have "memdisk t = (memdisk s)(n := view s n)" "diskhist t = diskhist s @ [(n, view s n)]" "disksize t = disksize s"
      by (simp_all add: eq)
    then have "cabs t = (cabs s)\<lparr>c_disk := (c_disk (cabs s))(n := c_view (cabs s) n),
                        c_hist := c_hist (cabs s) @ [(n, c_view (cabs s) n)],
                        c_dirty := c_dirty (cabs s) - {n}\<rparr>"
      using reworks_busy [OF R] reworks_dirty [OF R] v by (simp add: cabs_def)
    moreover have "brest t = brest s" by (simp add: eq brest_def)
    ultimately show ?thesis using t reworks_inv [OF R] reworks_handle [OF R] by blast
  qed
  show "\<exists>t. brelse h s = Ok () t \<and> binv t \<and> (\<forall>k m. handle s k m \<longrightarrow> m \<noteq> n \<longrightarrow> handle t k m) \<and>
      cabs t = (cabs s)\<lparr>c_busy := c_busy (cabs s) - {n}\<rparr> \<and> brest t = brest s"
    if "n \<in> c_dirty (cabs s) \<or> c_view (cabs s) n = c_disk (cabs s) n"
  proof -
    obtain C where C: "brelse h s = Ok () (s\<lparr>bufs := C, ptable := wakeup1_tab (ChBuf h) (ptable s)\<rparr>)"
      "\<exists>xs. lru C xs" "\<forall>i. same_core (C i) (if i = h then (bufs s h)\<lparr>b_busy := False\<rparr> else bufs s i)"
      using brelse_run [OF inv h] by blast
    let ?t = "s\<lparr>bufs := C, ptable := wakeup1_tab (ChBuf h) (ptable s)\<rparr>"
    have R: "released s h ?t" using C(2,3) inv by (simp add: released_def binv_def)
    have c: "n \<in> dirtyset s \<or> view s n = memdisk s n" using that by (simp add: cabs_def)
    have "cabs ?t = (cabs s)\<lparr>c_busy := c_busy (cabs s) - {n}\<rparr>"
      using released_busy [OF R inv h] released_dirty [OF R] released_view [OF R]
      by (simp add: cabs_def fun_eq_iff)
    moreover have "brest ?t = brest s" by (simp add: brest_def)
    moreover have "handle s k m \<Longrightarrow> m \<noteq> n \<Longrightarrow> handle ?t k m" for k m
      using released_handle [OF R, of k m] h by (auto simp: handle_def)
    ultimately show ?thesis using C(1) released_inv [OF R inv h c] by blast
  qed
qed

section \<open>After binit\<close>

lemma binit_run:
  assumes "held s = {}"
    and "\<And>i. i < NBUF \<Longrightarrow> \<not> b_busy (bufs s i) \<and> \<not> b_valid (bufs s i) \<and> \<not> b_dirty (bufs s i)"
  shows "\<exists>B. binit s = Ok () (s\<lparr>bufs := B\<rparr>) \<and> binv (s\<lparr>bufs := B\<rparr>) \<and>
    cabs (s\<lparr>bufs := B\<rparr>) = \<lparr>c_view = memdisk s, c_disk = memdisk s, c_hist = diskhist s, c_busy = {},
      c_dirty = {}, c_size = disksize s\<rparr>"
proof -
  let ?B = "binit_bufs (bufs s)" and ?t = "s\<lparr>bufs := binit_bufs (bufs s)\<rparr>"
  have f: "\<not> b_busy (?B i)" "\<not> b_valid (?B i)" "\<not> b_dirty (?B i)" "b_dev (?B i) = NODEV" if "i < NBUF" for i
    using assms(2) [OF that] that by (simp_all add: binit_bufs_def binit_fold_core upd_buf_def)
  have "binv_bufs ?B (memdisk s) (disksize s)"
    by (rule binv_bufsI [OF binit_lru]) (use f in auto)
  then have i: "binv ?t" using assms(1) by (simp add: binv_def)
  have bd: "busyset ?t = {}" "dirtyset ?t = {}" using f by (auto simp: busyset_def dirtyset_def)
  then have "view ?t n = memdisk s n" for n using view_clean [OF i, of n] by simp
  then have "view ?t = memdisk s" by (rule ext)
  with i bd show ?thesis by (intro exI [of _ ?B]) (simp add: binit_def kmonad cabs_def)
qed

end
