(* ===== verification/Log.thy ===== *)
theory Log
  imports Bio_Spec
begin

text \<open>
  The redo log of \<open>kernel/log.c\<close>, over the buffer cache, and \<open>readsb\<close> of \<open>kernel/fs.c\<close>.
  The header block on disk is \<open>struct logheader\<close>: a signed count at offset 0 and the home
  sectors at offsets 4, 8, ...  The copies of the logged blocks follow the header block.
\<close>

section \<open>State\<close>

abbreviation LOGSIZE :: nat where "LOGSIZE \<equiv> 10"
abbreviation ROOTDEV :: nat where "ROOTDEV \<equiv> 1"

record log_st = bio_st +
  l_start :: nat
  l_size :: int
  l_busy :: bool
  l_dev :: nat
  lh_n :: int
  lh_sector :: "nat \<Rightarrow> nat"

record superblock =
  sb_size :: u32
  sb_nblocks :: u32
  sb_ninodes :: u32
  sb_nlog :: u32

section \<open>Operations\<close>

definition sb_of :: "bytes \<Rightarrow> superblock" where
  "sb_of d = \<lparr>sb_size = ld32 d 0, sb_nblocks = ld32 d 4, sb_ninodes = ld32 d 8, sb_nlog = ld32 d 12\<rparr>"

definition readsb :: "nat \<Rightarrow> ('a bio_st_scheme, chan, superblock) km" where
  "readsb dev =
     kbind (bread dev 1) (\<lambda>bp.
     kbind (buf_data bp) (\<lambda>d.
     kseq (brelse bp)
     (kreturn (sb_of d))))"

definition install_trans :: "('a log_st_scheme, chan, unit) km" where
  "install_trans = (\<lambda>s. kfor [0..<nat (lh_n s)] (\<lambda>tail s.
     kbind (bread (l_dev s) (l_start s + tail + 1)) (\<lambda>lbuf.
     kbind (bread (l_dev s) (lh_sector s tail)) (\<lambda>dbuf.
     kbind (buf_data lbuf) (\<lambda>d.
     kseq (set_data dbuf (\<lambda>_. d))
     (kseq (bwrite dbuf)
     (kseq (brelse lbuf)
     (brelse dbuf)))))) s) s)"

definition read_head :: "('a log_st_scheme, chan, unit) km" where
  "read_head = (\<lambda>s.
     kbind (bread (l_dev s) (l_start s)) (\<lambda>buf.
     kbind (buf_data buf) (\<lambda>lh.
     kseq (kmod (\<lambda>s. s\<lparr>lh_n := sint (ld32 lh 0)\<rparr>))
     (kseq (kmod (\<lambda>s. s\<lparr>lh_sector := (\<lambda>i. if i < nat (lh_n s) then unat (ld32 lh (4 + 4 * i)) else lh_sector s i)\<rparr>))
     (brelse buf)))) s)"

text \<open>The assignments of \<open>write_head\<close> to the header block.\<close>

definition put_head :: "int \<Rightarrow> (nat \<Rightarrow> nat) \<Rightarrow> bytes \<Rightarrow> bytes" where
  "put_head n sec d = fold (\<lambda>i h. st32 h (4 + 4 * i) (of_nat (sec i))) [0..<nat n] (st32 d 0 (of_int n))"

definition write_head :: "('a log_st_scheme, chan, unit) km" where
  "write_head = (\<lambda>s.
     kbind (bread (l_dev s) (l_start s)) (\<lambda>buf.
     kseq (set_data buf (put_head (lh_n s) (lh_sector s)))
     (kseq (bwrite buf)
     (brelse buf))) s)"

definition recover_from_log :: "('a log_st_scheme, chan, unit) km" where
  "recover_from_log =
     kseq read_head
     (kseq install_trans
     (kseq (kmod (\<lambda>s. s\<lparr>lh_n := 0\<rparr>))
     write_head))"

text \<open>\<open>sizeof(struct logheader)\<close> is \<open>4 + 4 * LOGSIZE\<close>.\<close>

definition initlog :: "('a log_st_scheme, chan, unit) km" where
  "initlog =
     (if 4 + 4 * LOGSIZE \<ge> BSIZE then kpanic ''initlog: too big logheader''
      else kbind (readsb ROOTDEV) (\<lambda>sb.
        kseq (kmod (\<lambda>s. s\<lparr>l_start := unat (sb_size sb - sb_nlog sb), l_size := sint (sb_nlog sb), l_dev := ROOTDEV\<rparr>))
        recover_from_log))"

definition begin_trans :: "('a log_st_scheme, chan, unit) km" where
  "begin_trans = kseq (acquire LLog) (\<lambda>s.
     if l_busy s then Sleep ChLog
     else kseq (kmod (\<lambda>s. s\<lparr>l_busy := True\<rparr>)) (release LLog) s)"

definition commit_trans :: "('a log_st_scheme, chan, unit) km" where
  "commit_trans = (\<lambda>s.
     kseq (kwhen (0 < lh_n s)
       (kseq write_head
       (kseq install_trans
       (kseq (kmod (\<lambda>s. s\<lparr>lh_n := 0\<rparr>))
       write_head))))
     (kseq (acquire LLog)
     (kseq (kmod (\<lambda>s. s\<lparr>l_busy := False\<rparr>))
     (kseq (wakeup ChLog)
     (release LLog)))) s)"

text \<open>Index of the block in the log, or the count when it is not there (log absorption).\<close>

definition log_slot :: "nat \<Rightarrow> (nat \<Rightarrow> nat) \<Rightarrow> nat \<Rightarrow> nat" where
  "log_slot n sec home = (case find (\<lambda>i. sec i = home) [0..<n] of Some i \<Rightarrow> i | None \<Rightarrow> n)"

definition log_write :: "nat \<Rightarrow> ('a log_st_scheme, chan, unit) km" where
  "log_write b = (\<lambda>s.
     if int LOGSIZE \<le> lh_n s \<or> l_size s - 1 \<le> lh_n s then Panic ''too big a transaction''
     else if \<not> l_busy s then Panic ''write outside of trans''
     else let home = b_sector (bufs s b); i = log_slot (nat (lh_n s)) (lh_sector s) home in
       kseq (kmod (\<lambda>s. s\<lparr>lh_sector := (lh_sector s)(i := home)\<rparr>))
       (kbind (bread (b_dev (bufs s b)) (l_start s + i + 1)) (\<lambda>lbuf.
       kbind (buf_data b) (\<lambda>d.
       kseq (set_data lbuf (\<lambda>_. d))
       (kseq (bwrite lbuf)
       (kseq (brelse lbuf)
       (kseq (kmod (\<lambda>s. if int i = lh_n s then s\<lparr>lh_n := lh_n s + 1\<rparr> else s))
       (set_dirty b))))))) s)"

section \<open>The state at power on\<close>

text \<open>The kernel's zeroed data in front of a disk with content \<open>D\<close>; \<open>m\<close> is the rest of the state.\<close>

definition boot_with :: "'a \<Rightarrow> nat \<Rightarrow> (nat \<Rightarrow> bytes) \<Rightarrow> 'a log_st_scheme" where
  "boot_with m limit D = \<lparr>held = {}, ptable = [], curproc = 0, memdisk = D, disksize = limit, diskhist = [],
     bufs = (\<lambda>_. \<lparr>b_busy = False, b_valid = False, b_dirty = False, b_dev = 0, b_sector = 0,
       b_prev = 0, b_next = 0, b_data = (\<lambda>_. 0)\<rparr>),
     l_start = 0, l_size = 0, l_busy = False, l_dev = 0, lh_n = 0, lh_sector = (\<lambda>_. 0), \<dots> = m\<rparr>"

end
