(* ===== verification/Kstring.thy ===== *)
theory Kstring
  imports Prelude
begin

text \<open>
  The memory and string routines of \<open>kernel/string.c\<close>.  Routines that can be called on
  overlapping regions work on one memory and addresses; the comparisons and the string copies,
  which the kernel calls on separate arrays, take the arrays.  The loops are those of the code;
  \<open>stosb\<close> and \<open>stosl\<close> are the string instructions of \<open>include/sys/x86.h\<close>.
\<close>

section \<open>Memory\<close>

primrec stosb :: "bytes \<Rightarrow> nat \<Rightarrow> u8 \<Rightarrow> nat \<Rightarrow> bytes" where
  "stosb m a c 0 = m"
| "stosb m a c (Suc n) = (stosb m a c n)(a + n := c)"

fun stosl :: "bytes \<Rightarrow> nat \<Rightarrow> u32 \<Rightarrow> nat \<Rightarrow> bytes" where
  "stosl m a v 0 = m"
| "stosl m a v (Suc n) = stosl (st32 m a v) (a + 4) v n"

definition memset :: "bytes \<Rightarrow> nat \<Rightarrow> u32 \<Rightarrow> nat \<Rightarrow> bytes" where
  "memset m dst c n =
     (if dst mod 4 = 0 \<and> n mod 4 = 0 then
        let c = c AND 0xFF in
        stosl m dst (push_bit 24 c OR push_bit 16 c OR push_bit 8 c OR c) (n div 4)
      else stosb m dst (ucast c) n)"

fun memcmp_at :: "bytes \<Rightarrow> bytes \<Rightarrow> nat \<Rightarrow> nat \<Rightarrow> int" where
  "memcmp_at s1 s2 i 0 = 0"
| "memcmp_at s1 s2 i (Suc n) = (if s1 i \<noteq> s2 i then uint (s1 i) - uint (s2 i) else memcmp_at s1 s2 (i + 1) n)"

definition memcmp :: "bytes \<Rightarrow> bytes \<Rightarrow> nat \<Rightarrow> int" where
  "memcmp v1 v2 n = memcmp_at v1 v2 0 n"

fun copy_down :: "bytes \<Rightarrow> nat \<Rightarrow> nat \<Rightarrow> nat \<Rightarrow> bytes" where
  "copy_down m d s 0 = m"
| "copy_down m d s (Suc n) = copy_down (m(d - 1 := m (s - 1))) (d - 1) (s - 1) n"

fun copy_up :: "bytes \<Rightarrow> nat \<Rightarrow> nat \<Rightarrow> nat \<Rightarrow> bytes" where
  "copy_up m d s 0 = m"
| "copy_up m d s (Suc n) = copy_up (m(d := m s)) (d + 1) (s + 1) n"

definition memmove :: "bytes \<Rightarrow> nat \<Rightarrow> nat \<Rightarrow> nat \<Rightarrow> bytes" where
  "memmove m dst src n =
     (if src < dst \<and> dst < src + n then copy_down m (dst + n) (src + n) n else copy_up m dst src n)"

definition memcpy :: "bytes \<Rightarrow> nat \<Rightarrow> nat \<Rightarrow> nat \<Rightarrow> bytes" where
  "memcpy m dst src n = memmove m dst src n"

section \<open>Strings\<close>

fun strncmp_at :: "bytes \<Rightarrow> bytes \<Rightarrow> nat \<Rightarrow> nat \<Rightarrow> int" where
  "strncmp_at p q i 0 = 0"
| "strncmp_at p q i (Suc n) = (if p i \<noteq> 0 \<and> p i = q i then strncmp_at p q (i + 1) n else uint (p i) - uint (q i))"

definition strncmp :: "bytes \<Rightarrow> bytes \<Rightarrow> nat \<Rightarrow> int" where
  "strncmp p q n = strncmp_at p q 0 n"

text \<open>The first loop copies up to and including a null byte; the second pads with null bytes.\<close>

fun strncpy_at :: "bytes \<Rightarrow> bytes \<Rightarrow> nat \<Rightarrow> nat \<Rightarrow> bytes" where
  "strncpy_at s t i 0 = s"
| "strncpy_at s t i (Suc n) = (if t i \<noteq> 0 then strncpy_at (s(i := t i)) t (i + 1) n
     else stosb (s(i := t i)) (i + 1) 0 n)"

definition strncpy :: "bytes \<Rightarrow> bytes \<Rightarrow> int \<Rightarrow> bytes" where
  "strncpy s t n = strncpy_at s t 0 (nat n)"

fun safestrcpy_at :: "bytes \<Rightarrow> bytes \<Rightarrow> nat \<Rightarrow> nat \<Rightarrow> bytes" where
  "safestrcpy_at s t i 0 = s(i := 0)"
| "safestrcpy_at s t i (Suc n) = (if t i \<noteq> 0 then safestrcpy_at (s(i := t i)) t (i + 1) n
     else s(i := t i, i + 1 := 0))"

definition safestrcpy :: "bytes \<Rightarrow> bytes \<Rightarrow> int \<Rightarrow> bytes" where
  "safestrcpy s t n = (if n \<le> 0 then s else safestrcpy_at s t 0 (nat (n - 1)))"

partial_function (option) strlen_at :: "bytes \<Rightarrow> nat \<Rightarrow> nat option" where
  "strlen_at s n = (if s n \<noteq> 0 then strlen_at s (n + 1) else Some n)"

definition strlen :: "bytes \<Rightarrow> nat option" where
  "strlen s = strlen_at s 0"

section \<open>Lemmas\<close>

lemma stosb_fill: "stosb m a c n = fill m a c n"
  by (induction n) (auto simp: fill_def fun_eq_iff)

lemma copy_up_blit:
  "d \<le> s \<or> s + n \<le> d \<Longrightarrow> copy_up m d s n = blit m d m s n"
proof (induction n arbitrary: m d s)
  case (Suc n)
  have "copy_up (m(d := m s)) (d + 1) (s + 1) n = blit (m(d := m s)) (d + 1) (m(d := m s)) (s + 1) n"
    using Suc.prems by (intro Suc.IH) auto
  also have "\<dots> = blit m d m s (Suc n)"
    using Suc.prems by (auto simp: blit_def fun_eq_iff Suc_diff_Suc) 
  finally show ?case by simp
qed simp

lemma copy_down_blit:
  "s \<le> d \<Longrightarrow> copy_down m (d + n) (s + n) n = blit m d m s n"
proof (induction n arbitrary: m)
  case (Suc n)
  have "copy_down (m(d + n := m (s + n))) (d + n) (s + n) n = blit (m(d + n := m (s + n))) d (m(d + n := m (s + n))) s n"
    using Suc.prems by (intro Suc.IH) auto
  also have "\<dots> = blit m d m s (Suc n)"
    using Suc.prems by (auto simp: blit_def fun_eq_iff less_Suc_eq)
  finally show ?case by simp
qed simp

text \<open>\<open>memmove\<close> is correct for every overlap: the destination gets the bytes the source had.\<close>

lemma memmove_blit: "memmove m dst src n = blit m dst m src n"
proof (cases "src < dst \<and> dst < src + n")
  case True
  then show ?thesis using copy_down_blit [of src dst m n] by (simp add: memmove_def)
next
  case False
  then have "dst \<le> src \<or> src + n \<le> dst" by auto
  then show ?thesis using copy_up_blit [of dst src n m] False by (auto simp: memmove_def)
qed

lemma splat_bytes:
  fixes c :: u32
  defines "v \<equiv> push_bit 24 (c AND 0xFF) OR push_bit 16 (c AND 0xFF) OR push_bit 8 (c AND 0xFF) OR (c AND 0xFF)"
  shows "st32 m a v = fill m a (ucast c) 4"
proof -
  have "c AND 0xFF = take_bit 8 c" by (simp add: take_bit_eq_mask mask_eq_exp_minus_1)
  then have v: "v = push_bit 24 (take_bit 8 c) OR push_bit 16 (take_bit 8 c) OR push_bit 8 (take_bit 8 c) OR take_bit 8 c"
    by (simp only: v_def)
  have b: "ucast (ucast v :: u16) = (ucast c :: u8)" "ucast (drop_bit 8 (ucast v :: u16)) = (ucast c :: u8)"
     "ucast (drop_bit 16 v) = (ucast v :: u16)" unfolding v
    by (rule bit_word_eqI, auto simp: bit_simps)+
  have "st32 m a v = m(a := ucast c, a + 1 := ucast c, a + 2 := ucast c, a + 3 := ucast c)"
    using b by (simp add: st32_def st16_def numeral_3_eq_3)
  also have "\<dots> = fill m a (ucast c) 4" by (auto simp: fill_def fun_eq_iff)
  finally show ?thesis .
qed

lemma fill_append: "fill (fill m a c k) (a + k) c n = fill m a c (k + n)"
  by (auto simp: fill_def fun_eq_iff)

lemma stosl_fill:
  "stosl m a (push_bit 24 (c AND 0xFF) OR push_bit 16 (c AND 0xFF) OR push_bit 8 (c AND 0xFF) OR (c AND 0xFF)) n
    = fill m a (ucast c) (4 * n)"
proof (induction n arbitrary: m a)
  case 0
  then show ?case by (auto simp: fill_def fun_eq_iff)
next
  case (Suc n)
  show ?case by (simp only: stosl.simps Suc splat_bytes fill_append mult_Suc_right)
qed

text \<open>Both ways \<open>memset\<close> fills memory, by words and by bytes, have the same effect.\<close>

lemma memset_fill: "memset m dst c n = fill m dst (ucast c) n"
proof (cases "dst mod 4 = 0 \<and> n mod 4 = 0")
  case True
  then have "4 * (n div 4) = n" by auto
  then show ?thesis using True by (simp only: memset_def stosl_fill Let_def simp_thms if_True)
next
  case False
  then show ?thesis by (auto simp: memset_def stosb_fill)
qed

lemma memcmp_at_eq: "memcmp_at s1 s2 i n = 0 \<longleftrightarrow> (\<forall>k<n. s1 (i + k) = s2 (i + k))"
proof (induction n arbitrary: i)
  case (Suc n)
  then show ?case by (auto simp: All_less_Suc2 word_uint_eq_iff)
qed simp

text \<open>
  Where \<open>strncmp\<close> stops: at the first of the \<open>n\<close> positions where the strings differ or end.
\<close>

definition cmp_stop :: "bytes \<Rightarrow> bytes \<Rightarrow> nat \<Rightarrow> bool" where
  "cmp_stop p q i \<longleftrightarrow> p i = 0 \<or> p i \<noteq> q i"

lemma strncmp_at_spec:
  "strncmp_at p q i n = (case find (cmp_stop p q) [i..<i + n] of None \<Rightarrow> 0 | Some k \<Rightarrow> uint (p k) - uint (q k))"
proof (induction n arbitrary: i)
  case (Suc n)
  have "[i..<i + Suc n] = i # [Suc i..<Suc i + n]" by (simp add: upt_conv_Cons)
  then show ?case using Suc [of "Suc i"] by (auto simp: cmp_stop_def)
qed simp

lemma strncmp_zero:
  "strncmp p q n = 0 \<longleftrightarrow> (\<forall>k<n. (\<forall>j<k. p j \<noteq> 0) \<longrightarrow> p k = q k)"
proof -
  have "strncmp_at p q i n = 0 \<longleftrightarrow> (\<forall>k<n. (\<forall>j<k. p (i + j) \<noteq> 0) \<longrightarrow> p (i + k) = q (i + k))" for i
  proof (induction n arbitrary: i)
    case (Suc n)
    show ?case
    proof (cases "p i \<noteq> 0 \<and> p i = q i")
      case True
      then show ?thesis using Suc [of "Suc i"] by (simp add: All_less_Suc2)
    next
      case False
      then show ?thesis by (cases "p i = q i") (auto simp: All_less_Suc2 word_uint_eq_iff)
    qed
  qed simp
  from this [of 0] show ?thesis by (simp add: strncmp_def)
qed

lemma safestrcpy_at_frame: "k < i \<or> i + n < k \<Longrightarrow> safestrcpy_at s t i n k = s k"
  by (induction n arbitrary: s i) auto

lemma safestrcpy_at_done: "k < i \<Longrightarrow> safestrcpy_at s t i n k = s k"
  by (rule safestrcpy_at_frame) simp

lemma safestrcpy_at_copy:
  "\<exists>k\<le>n. safestrcpy_at s t i n (i + k) = 0 \<and> (\<forall>j<k. t (i + j) \<noteq> 0 \<and> safestrcpy_at s t i n (i + j) = t (i + j)) \<and>
    (k = n \<or> t (i + k) = 0)"
proof (induction n arbitrary: s i)
  case (Suc n)
  show ?case
  proof (cases "t i = 0")
    case False
    obtain k where k: "k \<le> n" "safestrcpy_at (s(i := t i)) t (Suc i) n (Suc i + k) = 0"
      "\<forall>j<k. t (Suc i + j) \<noteq> 0 \<and> safestrcpy_at (s(i := t i)) t (Suc i) n (Suc i + j) = t (Suc i + j)" "k = n \<or> t (Suc i + k) = 0"
      using Suc by blast
    have "safestrcpy_at (s(i := t i)) t (Suc i) n i = t i" by (simp add: safestrcpy_at_done)
    then show ?thesis using False k by (intro exI [of _ "Suc k"]) (auto simp: All_less_Suc2)
  qed (intro exI [of _ 0], simp)
qed simp

lemma strlen_at_reaches: "s (n + k) = 0 \<Longrightarrow> \<forall>j<k. s (n + j) \<noteq> 0 \<Longrightarrow> strlen_at s n = Some (n + k)"
proof (induction k arbitrary: n)
  case 0
  then show ?case by (subst strlen_at.simps) simp
next
  case (Suc k)
  have "s n \<noteq> 0" using Suc.prems(2) by (metis add_0_right zero_less_Suc)
  moreover have "strlen_at s (Suc n) = Some (Suc n + k)" using Suc.prems by (intro Suc.IH) (auto simp: All_less_Suc2)
  ultimately show ?case by (subst strlen_at.simps) simp
qed

lemma strlen_at_null:
  assumes "strlen_at s n = Some k"
  shows "s k = 0"
  by (rule strlen_at.raw_induct [OF _ assms]) (auto split: if_splits)

text \<open>\<open>strlen\<close> returns exactly when the array has a null byte, and then the index of the first.\<close>

lemma strlen_iff: "strlen s = Some k \<longleftrightarrow> s k = 0 \<and> (\<forall>j<k. s j \<noteq> 0)"
proof
  assume a: "strlen s = Some k"
  then have k: "s k = 0" by (auto simp: strlen_def dest: strlen_at_null)
  define l where "l = (LEAST j. s j = 0)"
  have "s l = 0" "\<forall>j<l. s j \<noteq> 0" using k unfolding l_def by (auto intro: LeastI dest: not_less_Least)
  then show "s k = 0 \<and> (\<forall>j<k. s j \<noteq> 0)" using strlen_at_reaches [of s 0 l] a by (simp add: strlen_def)
qed (use strlen_at_reaches [of s 0 k] in \<open>simp add: strlen_def\<close>)

section \<open>Properties\<close>

text \<open>
  C16: the optimised memory routines do what their byte-by-byte descriptions say: \<open>memmove\<close>, which copies
  downwards when the ranges overlap that way, leaves the old bytes of the source in the target
  for every overlap; \<open>memset\<close>, which stores words when address and count are aligned, stores
  the same bytes as the byte loop; \<open>memcmp\<close> is 0 exactly on equal ranges.
\<close>

theorem mem_routines:
  "memmove m dst src n = (\<lambda>a. if dst \<le> a \<and> a < dst + n then m (src + (a - dst)) else m a) \<and>
   memset m dst c n = stosb m dst (ucast c) n \<and>
   (memcmp v1 v2 n = 0 \<longleftrightarrow> map v1 [0..<n] = map v2 [0..<n])"
  by (auto simp: memmove_blit blit_def memset_fill stosb_fill memcmp_def memcmp_at_eq cong: if_cong)

text \<open>
  C17: \<open>safestrcpy\<close> with room for \<open>n\<close> bytes writes only the first \<open>n\<close>, always leaves a terminated string, and
  that string is the longest prefix of the source that fits.
\<close>

theorem safestrcpy_bounded:
  assumes "0 < n"
  shows "\<exists>k. int k < n \<and> strlen (safestrcpy s t n) = Some k \<and> (\<forall>j<k. safestrcpy s t n j = t j) \<and>
    (int k = n - 1 \<or> t k = 0) \<and> (\<forall>j. n \<le> int j \<longrightarrow> safestrcpy s t n j = s j)"
proof -
  let ?r = "safestrcpy s t n" and ?n = "nat (n - 1)"
  have r: "?r = safestrcpy_at s t 0 ?n" using assms by (simp add: safestrcpy_def)
  obtain k where k: "k \<le> ?n" "?r k = 0" "\<forall>j<k. t j \<noteq> 0 \<and> ?r j = t j" "k = ?n \<or> t k = 0"
    using safestrcpy_at_copy [of ?n s t 0] unfolding r by auto
  have "strlen ?r = Some k" using k(2,3) by (auto simp: strlen_iff)
  moreover have "?r j = s j" if "n \<le> int j" for j
    unfolding r by (rule safestrcpy_at_frame) (use that assms in linarith)
  ultimately show ?thesis using k assms by (intro exI [of _ k]) auto
qed

theorem safestrcpy_bounded_witness:
  "(0 :: int) < 3 \<and> (\<exists>k. int k < 3 \<and> strlen (safestrcpy (\<lambda>_. 9) (\<lambda>_. 65) 3) = Some k)"
  using safestrcpy_bounded [of 3 "\<lambda>_. 9" "\<lambda>_. 65"] by auto

text \<open>
  C18: \<open>strlen\<close> returns exactly on arrays that have a null byte, and then the index of the first one.
  \<open>strncmp\<close> is 0 exactly when the arrays agree up to the first null byte or the limit.
\<close>

theorem strlen_returns:
  "((\<exists>k. strlen s = Some k) \<longleftrightarrow> (\<exists>k. s k = 0)) \<and>
   (\<forall>k. strlen s = Some k \<longleftrightarrow> s k = 0 \<and> (\<forall>j<k. s j \<noteq> 0)) \<and>
   (strncmp s t n = 0 \<longleftrightarrow> (\<forall>k<n. (\<forall>j<k. s j \<noteq> 0) \<longrightarrow> s k = t k))"
proof -
  have "\<exists>k. s k = 0 \<and> (\<forall>j<k. s j \<noteq> 0)" if "s k = 0" for k
    using that by (intro exI [of _ "LEAST j. s j = 0"]) (auto intro: LeastI dest: not_less_Least)
  then show ?thesis by (auto simp: strlen_iff strncmp_zero)
qed

theorem strlen_returns_witness:
  "strlen ((\<lambda>_. 0)(0 := 104, 1 := 105)) = Some 2 \<and> strncmp ((\<lambda>_. 0)(0 := 104, 1 := 105)) ((\<lambda>_. 7)(0 := 104, 1 := 105, 2 := 0)) 9 = 0"
  (is "strlen ?s = _ \<and> strncmp _ ?t _ = 0")
proof -
  have a: "k < 2 \<Longrightarrow> ?s k \<noteq> 0" "?s 2 = 0" "k \<le> 2 \<Longrightarrow> ?s k = ?t k" for k by (auto simp: less_2_cases_iff le_less)
  moreover have "k \<le> 2" if "\<forall>j<k. ?s j \<noteq> 0" for k using that a(2) by (metis not_le)
  ultimately show ?thesis using strlen_returns [of ?s ?t 9] by blast
qed

end
