(* ===== verification/Fs.thy ===== *)
theory Fs
  imports Log Kstring
begin

text \<open>
  The file system of \<open>kernel/fs.c\<close>: the block allocator, the inode cache, file contents,
  directories and path names.  An inode pointer is an index into \<open>icache.inode\<close>, \<open>None\<close> where the
  code returns the null pointer.  A path is the list of its bytes before the null byte; a path
  element is the \<open>DIRSIZ\<close>-byte array the code passes around.  The device switch is a parameter of
  \<open>readi\<close> and \<open>writei\<close>; \<open>dst\<close> and \<open>src\<close> are the arrays the C pointers designate.
\<close>

section \<open>Layout\<close>

abbreviation NINODE :: nat where "NINODE \<equiv> 50"
abbreviation NDEV :: nat where "NDEV \<equiv> 10"
abbreviation ROOTINO :: nat where "ROOTINO \<equiv> 1"
abbreviation NDIRECT :: nat where "NDIRECT \<equiv> 12"
abbreviation NINDIRECT :: nat where "NINDIRECT \<equiv> BSIZE div 4"
abbreviation MAXFILE :: nat where "MAXFILE \<equiv> NDIRECT + NINDIRECT"
abbreviation DINODE :: nat where "DINODE \<equiv> 64"     \<comment> \<open>\<open>sizeof(struct dinode)\<close>\<close>
abbreviation DIRENT :: nat where "DIRENT \<equiv> 16"     \<comment> \<open>\<open>sizeof(struct dirent)\<close>\<close>
abbreviation DIRSIZ :: nat where "DIRSIZ \<equiv> 14"
abbreviation IPB :: nat where "IPB \<equiv> BSIZE div DINODE"
abbreviation BPB :: nat where "BPB \<equiv> BSIZE * 8"

abbreviation T_DIR :: u16 where "T_DIR \<equiv> 1"
abbreviation T_FILE :: u16 where "T_FILE \<equiv> 2"
abbreviation T_DEV :: u16 where "T_DEV \<equiv> 3"

definition IBLOCK :: "nat \<Rightarrow> nat" where
  "IBLOCK i = i div IPB + 2"

definition BBLOCK :: "nat \<Rightarrow> nat \<Rightarrow> nat" where
  "BBLOCK b ninodes = b div BPB + ninodes div IPB + 3"

text \<open>\<open>short\<close> fields are kept as the 16 bits stored on disk.\<close>

record dinode =
  d_type :: u16
  d_major :: u16
  d_minor :: u16
  d_nlink :: u16
  d_size :: u32
  d_addrs :: "nat \<Rightarrow> u32"

record inode =
  i_dev :: nat
  i_inum :: nat
  i_ref :: int
  i_busy :: bool
  i_valid :: bool
  i_type :: u16
  i_major :: u16
  i_minor :: u16
  i_nlink :: u16
  i_size :: u32
  i_addrs :: "nat \<Rightarrow> u32"

record stat =
  st_type :: u16
  st_dev :: nat
  st_ino :: nat
  st_nlink :: u16
  st_size :: u32

record fs_st = log_st +
  icache :: "nat \<Rightarrow> inode"

text \<open>A zeroed entry of the inode cache.\<close>

definition no_inode :: inode where
  "no_inode = \<lparr>i_dev = 0, i_inum = 0, i_ref = 0, i_busy = False, i_valid = False, i_type = 0, i_major = 0,
     i_minor = 0, i_nlink = 0, i_size = 0, i_addrs = (\<lambda>_. 0)\<rparr>"

text \<open>\<open>struct devsw\<close>: the operations of a major device, absent where the table has no entry.\<close>

record 's devsw =
  dev_read :: "nat \<Rightarrow> (nat \<Rightarrow> bytes \<Rightarrow> u32 \<Rightarrow> ('s, chan, int \<times> bytes) km) option"
  dev_write :: "nat \<Rightarrow> (nat \<Rightarrow> bytes \<Rightarrow> u32 \<Rightarrow> ('s, chan, int) km) option"

text \<open>Reading and writing the \<open>k\<close>th \<open>struct dinode\<close> of a block, field by field.\<close>

definition get_dinode :: "bytes \<Rightarrow> nat \<Rightarrow> dinode" where
  "get_dinode d k = (let p = DINODE * k in
     \<lparr>d_type = ld16 d p, d_major = ld16 d (p + 2), d_minor = ld16 d (p + 4), d_nlink = ld16 d (p + 6),
      d_size = ld32 d (p + 8), d_addrs = (\<lambda>i. ld32 d (p + 12 + 4 * i))\<rparr>)"

definition put_addrs :: "(nat \<Rightarrow> u32) \<Rightarrow> nat \<Rightarrow> nat \<Rightarrow> bytes \<Rightarrow> bytes" where
  "put_addrs a n off d = fold (\<lambda>i d. st32 d (off + 4 * i) (a i)) [0..<n] d"

definition put_dinode :: "nat \<Rightarrow> dinode \<Rightarrow> bytes \<Rightarrow> bytes" where
  "put_dinode k x d = (let p = DINODE * k in
     put_addrs (d_addrs x) (NDIRECT + 1) (p + 12)
       (st32 (st16 (st16 (st16 (st16 d p (d_type x)) (p + 2) (d_major x)) (p + 4) (d_minor x)) (p + 6) (d_nlink x))
          (p + 8) (d_size x)))"

definition upd_inode :: "nat \<Rightarrow> (inode \<Rightarrow> inode) \<Rightarrow> ('a fs_st_scheme, chan, unit) km" where
  "upd_inode ip f = kmod (\<lambda>s. s\<lparr>icache := (icache s)(ip := f (icache s ip))\<rparr>)"

definition get_inode :: "nat \<Rightarrow> ('a fs_st_scheme, chan, inode) km" where
  "get_inode ip = kget (\<lambda>s. icache s ip)"

section \<open>Blocks\<close>

definition bzero :: "nat \<Rightarrow> nat \<Rightarrow> ('a log_st_scheme, chan, unit) km" where
  "bzero dev bno =
     kbind (bread dev bno) (\<lambda>bp.
     kseq (set_data bp (\<lambda>d. fill d 0 0 BSIZE))
     (kseq (log_write bp)
     (brelse bp)))"

definition bit_clear :: "bytes \<Rightarrow> nat \<Rightarrow> bool" where
  "bit_clear d bi \<longleftrightarrow> d (bi div 8) AND push_bit (bi mod 8) 1 = 0"

definition set_bit_at :: "nat \<Rightarrow> bytes \<Rightarrow> bytes" where
  "set_bit_at bi d = d(bi div 8 := d (bi div 8) OR push_bit (bi mod 8) 1)"

definition clear_bit_at :: "nat \<Rightarrow> bytes \<Rightarrow> bytes" where
  "clear_bit_at bi d = d(bi div 8 := d (bi div 8) AND NOT (push_bit (bi mod 8) 1))"

text \<open>The outer loop of \<open>balloc\<close>, over the first blocks of the bitmap blocks; the inner loop is
  the search for a clear bit.\<close>

fun balloc_from :: "nat \<Rightarrow> superblock \<Rightarrow> nat list \<Rightarrow> ('a log_st_scheme, chan, nat) km" where
  "balloc_from dev sb [] = kpanic ''balloc: out of blocks''"
| "balloc_from dev sb (b # bs) =
     kbind (bread dev (BBLOCK b (unat (sb_ninodes sb)))) (\<lambda>bp.
     kbind (buf_data bp) (\<lambda>d.
     case find (bit_clear d) [0..<min BPB (unat (sb_size sb) - b)] of
       Some bi \<Rightarrow>
         kseq (set_data bp (set_bit_at bi))
         (kseq (log_write bp)
         (kseq (brelse bp)
         (kseq (bzero dev (b + bi))
         (kreturn (b + bi)))))
     | None \<Rightarrow>
         kseq (brelse bp)
         (balloc_from dev sb bs)))"

definition balloc :: "nat \<Rightarrow> ('a log_st_scheme, chan, nat) km" where
  "balloc dev =
     kbind (readsb dev) (\<lambda>sb.
     balloc_from dev sb (map ((*) BPB) [0..<(unat (sb_size sb) + BPB - 1) div BPB]))"

definition bfree :: "nat \<Rightarrow> nat \<Rightarrow> ('a log_st_scheme, chan, unit) km" where
  "bfree dev b =
     kbind (readsb dev) (\<lambda>sb.
     kbind (bread dev (BBLOCK b (unat (sb_ninodes sb)))) (\<lambda>bp.
     kbind (buf_data bp) (\<lambda>d.
     if bit_clear d (b mod BPB) then kpanic ''freeing free block''
     else
       kseq (set_data bp (clear_bit_at (b mod BPB)))
       (kseq (log_write bp)
       (brelse bp)))))"

section \<open>Inodes\<close>

definition iget :: "nat \<Rightarrow> nat \<Rightarrow> ('a fs_st_scheme, chan, nat) km" where
  "iget dev inum = kseq (acquire LIcache) (\<lambda>s.
     case find (\<lambda>ip. 0 < i_ref (icache s ip) \<and> i_dev (icache s ip) = dev \<and> i_inum (icache s ip) = inum) [0..<NINODE] of
       Some ip \<Rightarrow>
         kseq (upd_inode ip (\<lambda>x. x\<lparr>i_ref := i_ref x + 1\<rparr>))
         (kseq (release LIcache)
         (kreturn ip)) s
     | None \<Rightarrow>
         (case find (\<lambda>ip. i_ref (icache s ip) = 0) [0..<NINODE] of
            None \<Rightarrow> Panic ''iget: no inodes''
          | Some ip \<Rightarrow>
              kseq (upd_inode ip (\<lambda>x. x\<lparr>i_dev := dev, i_inum := inum, i_ref := 1, i_busy := False, i_valid := False\<rparr>))
              (kseq (release LIcache)
              (kreturn ip)) s))"

fun ialloc_from :: "nat \<Rightarrow> u16 \<Rightarrow> nat list \<Rightarrow> ('a fs_st_scheme, chan, nat) km" where
  "ialloc_from dev type [] = kpanic ''ialloc: no inodes''"
| "ialloc_from dev type (inum # is) =
     kbind (bread dev (IBLOCK inum)) (\<lambda>bp.
     kbind (buf_data bp) (\<lambda>d.
     if d_type (get_dinode d (inum mod IPB)) = 0 then
       kseq (set_data bp (\<lambda>d. st16 (fill d (DINODE * (inum mod IPB)) 0 DINODE) (DINODE * (inum mod IPB)) type))
       (kseq (log_write bp)
       (kseq (brelse bp)
       (iget dev inum)))
     else
       kseq (brelse bp)
       (ialloc_from dev type is)))"

definition ialloc :: "nat \<Rightarrow> u16 \<Rightarrow> ('a fs_st_scheme, chan, nat) km" where
  "ialloc dev type =
     kbind (readsb dev) (\<lambda>sb.
     ialloc_from dev type [1..<unat (sb_ninodes sb)])"

definition dinode_of :: "inode \<Rightarrow> dinode" where
  "dinode_of x = \<lparr>d_type = i_type x, d_major = i_major x, d_minor = i_minor x, d_nlink = i_nlink x,
     d_size = i_size x, d_addrs = i_addrs x\<rparr>"

definition iupdate :: "nat \<Rightarrow> ('a fs_st_scheme, chan, unit) km" where
  "iupdate ip =
     kbind (get_inode ip) (\<lambda>x.
     kbind (bread (i_dev x) (IBLOCK (i_inum x))) (\<lambda>bp.
     kseq (set_data bp (put_dinode (i_inum x mod IPB) (dinode_of x)))
     (kseq (log_write bp)
     (brelse bp))))"

definition idup :: "nat \<Rightarrow> ('a fs_st_scheme, chan, nat) km" where
  "idup ip =
     kseq (acquire LIcache)
     (kseq (upd_inode ip (\<lambda>x. x\<lparr>i_ref := i_ref x + 1\<rparr>))
     (kseq (release LIcache)
     (kreturn ip)))"

definition load_dinode :: "dinode \<Rightarrow> inode \<Rightarrow> inode" where
  "load_dinode d x = x\<lparr>i_type := d_type d, i_major := d_major d, i_minor := d_minor d, i_nlink := d_nlink d,
     i_size := d_size d, i_addrs := d_addrs d\<rparr>"

definition ilock :: "nat \<Rightarrow> ('a fs_st_scheme, chan, unit) km" where
  "ilock ip =
     kbind (get_inode ip) (\<lambda>x.
     if i_ref x < 1 then kpanic ''ilock''
     else
       kseq (acquire LIcache) (
       kbind (get_inode ip) (\<lambda>x.
       if i_busy x then ksleep (ChInode ip)
       else
         kseq (upd_inode ip (\<lambda>x. x\<lparr>i_busy := True\<rparr>))
         (kseq (release LIcache)
         (kbind (get_inode ip) (\<lambda>x.
         kwhen (\<not> i_valid x)
           (kbind (bread (i_dev x) (IBLOCK (i_inum x))) (\<lambda>bp.
           kbind (buf_data bp) (\<lambda>d.
           kseq (upd_inode ip (load_dinode (get_dinode d (i_inum x mod IPB))))
           (kseq (brelse bp)
           (kseq (upd_inode ip (\<lambda>x. x\<lparr>i_valid := True\<rparr>))
           (kbind (get_inode ip) (\<lambda>x.
           if i_type x = 0 then kpanic ''ilock: no type'' else kreturn ())))))))))))))"

definition iunlock :: "nat \<Rightarrow> ('a fs_st_scheme, chan, unit) km" where
  "iunlock ip =
     kbind (get_inode ip) (\<lambda>x.
     if \<not> i_busy x \<or> i_ref x < 1 then kpanic ''iunlock''
     else
       kseq (acquire LIcache)
       (kseq (upd_inode ip (\<lambda>x. x\<lparr>i_busy := False\<rparr>))
       (kseq (wakeup (ChInode ip))
       (release LIcache))))"

definition itrunc :: "nat \<Rightarrow> ('a fs_st_scheme, chan, unit) km" where
  "itrunc ip =
     kseq (kfor [0..<NDIRECT] (\<lambda>i.
       kbind (get_inode ip) (\<lambda>x.
       kwhen (i_addrs x i \<noteq> 0)
         (kseq (bfree (i_dev x) (unat (i_addrs x i)))
         (upd_inode ip (\<lambda>x. x\<lparr>i_addrs := (i_addrs x)(i := 0)\<rparr>))))))
     (kseq (kbind (get_inode ip) (\<lambda>x.
       kwhen (i_addrs x NDIRECT \<noteq> 0)
         (kbind (bread (i_dev x) (unat (i_addrs x NDIRECT))) (\<lambda>bp.
         kseq (kfor [0..<NINDIRECT] (\<lambda>j.
           kbind (buf_data bp) (\<lambda>a.
           kwhen (ld32 a (4 * j) \<noteq> 0) (bfree (i_dev x) (unat (ld32 a (4 * j)))))))
         (kseq (brelse bp)
         (kseq (bfree (i_dev x) (unat (i_addrs x NDIRECT)))
         (upd_inode ip (\<lambda>x. x\<lparr>i_addrs := (i_addrs x)(NDIRECT := 0)\<rparr>))))))))
     (kseq (upd_inode ip (\<lambda>x. x\<lparr>i_size := 0\<rparr>))
     (iupdate ip)))"

definition iput :: "nat \<Rightarrow> ('a fs_st_scheme, chan, unit) km" where
  "iput ip =
     kseq (acquire LIcache) (
     kbind (get_inode ip) (\<lambda>x.
     kseq (if i_ref x = 1 \<and> i_valid x \<and> i_nlink x = 0 then
         if i_busy x then kpanic ''iput busy''
         else
           kseq (upd_inode ip (\<lambda>x. x\<lparr>i_busy := True\<rparr>))
           (kseq (release LIcache)
           (kseq (itrunc ip)
           (kseq (upd_inode ip (\<lambda>x. x\<lparr>i_type := 0\<rparr>))
           (kseq (iupdate ip)
           (kseq (acquire LIcache)
           (kseq (upd_inode ip (\<lambda>x. x\<lparr>i_busy := False, i_valid := False\<rparr>))
           (wakeup (ChInode ip))))))))
       else kreturn ())
     (kseq (upd_inode ip (\<lambda>x. x\<lparr>i_ref := i_ref x - 1\<rparr>))
     (release LIcache))))"

definition iunlockput :: "nat \<Rightarrow> ('a fs_st_scheme, chan, unit) km" where
  "iunlockput ip = kseq (iunlock ip) (iput ip)"

section \<open>Inode content\<close>

definition bmap :: "nat \<Rightarrow> nat \<Rightarrow> ('a fs_st_scheme, chan, nat) km" where
  "bmap ip bn =
     (if bn < NDIRECT then
        kbind (get_inode ip) (\<lambda>x.
        if i_addrs x bn = 0 then
          kbind (balloc (i_dev x)) (\<lambda>addr.
          kseq (upd_inode ip (\<lambda>x. x\<lparr>i_addrs := (i_addrs x)(bn := of_nat addr)\<rparr>))
          (kreturn addr))
        else kreturn (unat (i_addrs x bn)))
      else if bn - NDIRECT < NINDIRECT then
        kbind (get_inode ip) (\<lambda>x.
        kbind (if i_addrs x NDIRECT = 0 then
            kbind (balloc (i_dev x)) (\<lambda>addr.
            kseq (upd_inode ip (\<lambda>x. x\<lparr>i_addrs := (i_addrs x)(NDIRECT := of_nat addr)\<rparr>))
            (kreturn addr))
          else kreturn (unat (i_addrs x NDIRECT))) (\<lambda>addr.
        kbind (bread (i_dev x) addr) (\<lambda>bp.
        kbind (buf_data bp) (\<lambda>a.
        kbind (if ld32 a (4 * (bn - NDIRECT)) = 0 then
            kbind (balloc (i_dev x)) (\<lambda>addr.
            kseq (set_data bp (\<lambda>a. st32 a (4 * (bn - NDIRECT)) (of_nat addr)))
            (kseq (log_write bp)
            (kreturn addr)))
          else kreturn (unat (ld32 a (4 * (bn - NDIRECT))))) (\<lambda>addr.
        kseq (brelse bp)
        (kreturn addr))))))
      else kpanic ''bmap: out of range'')"

definition stati :: "nat \<Rightarrow> ('a fs_st_scheme, chan, stat) km" where
  "stati ip = kbind (get_inode ip) (\<lambda>x.
     kreturn \<lparr>st_type = i_type x, st_dev = i_dev x, st_ino = i_inum x, st_nlink = i_nlink x, st_size = i_size x\<rparr>)"

text \<open>
  The copy loops.  \<open>tot\<close>, \<open>off\<close> and \<open>n\<close> are below the bounds the callers check, so they are
  natural numbers here; each turn moves at least one byte.
\<close>

definition chunk :: "nat \<Rightarrow> nat \<Rightarrow> nat \<Rightarrow> nat" where
  "chunk n tot off = min (n - tot) (BSIZE - off mod BSIZE)"

lemma chunk_pos: "tot < n \<Longrightarrow> 0 < chunk n tot off"
  by (simp add: chunk_def)

function readi_loop :: "nat \<Rightarrow> bytes \<Rightarrow> nat \<Rightarrow> nat \<Rightarrow> nat \<Rightarrow> ('a fs_st_scheme, chan, bytes) km" where
  "readi_loop ip dst off n tot =
     (if tot < n then
        kbind (bmap ip (off div BSIZE)) (\<lambda>addr.
        kbind (get_inode ip) (\<lambda>x.
        kbind (bread (i_dev x) addr) (\<lambda>bp.
        kbind (buf_data bp) (\<lambda>d.
        kseq (brelse bp)
        (readi_loop ip (blit dst tot d (off mod BSIZE) (chunk n tot off)) (off + chunk n tot off) n (tot + chunk n tot off))))))
      else kreturn dst)"
  by pat_completeness auto
termination
  by (relation "measure (\<lambda>(ip, dst, off, n, tot). n - tot)") (use chunk_pos in \<open>auto simp: diff_less_mono2\<close>)

function writei_loop :: "nat \<Rightarrow> bytes \<Rightarrow> nat \<Rightarrow> nat \<Rightarrow> nat \<Rightarrow> ('a fs_st_scheme, chan, unit) km" where
  "writei_loop ip src off n tot =
     (if tot < n then
        kbind (bmap ip (off div BSIZE)) (\<lambda>addr.
        kbind (get_inode ip) (\<lambda>x.
        kbind (bread (i_dev x) addr) (\<lambda>bp.
        kseq (set_data bp (\<lambda>d. blit d (off mod BSIZE) src tot (chunk n tot off)))
        (kseq (log_write bp)
        (kseq (brelse bp)
        (writei_loop ip src (off + chunk n tot off) n (tot + chunk n tot off)))))))
      else kreturn ())"
  by pat_completeness auto
termination
  by (relation "measure (\<lambda>(ip, src, off, n, tot). n - tot)") (use chunk_pos in \<open>auto simp: diff_less_mono2\<close>)

definition readi :: "'a fs_st_scheme devsw \<Rightarrow> nat \<Rightarrow> bytes \<Rightarrow> u32 \<Rightarrow> u32 \<Rightarrow> ('a fs_st_scheme, chan, int \<times> bytes) km" where
  "readi dv ip dst off n =
     kbind (get_inode ip) (\<lambda>x.
     if i_type x = T_DEV then
       (if sint (i_major x) < 0 \<or> int NDEV \<le> sint (i_major x) then kreturn (-1, dst)
        else case dev_read dv (unat (i_major x)) of None \<Rightarrow> kreturn (-1, dst) | Some r \<Rightarrow> r ip dst n)
     else if i_size x < off \<or> off + n < off then kreturn (-1, dst)
     else
       let n = (if i_size x < off + n then i_size x - off else n) in
       kbind (readi_loop ip dst (unat off) (unat n) 0) (\<lambda>dst.
       kreturn (sint n, dst)))"

definition writei :: "'a fs_st_scheme devsw \<Rightarrow> nat \<Rightarrow> bytes \<Rightarrow> u32 \<Rightarrow> u32 \<Rightarrow> ('a fs_st_scheme, chan, int) km" where
  "writei dv ip src off n =
     kbind (get_inode ip) (\<lambda>x.
     if i_type x = T_DEV then
       (if sint (i_major x) < 0 \<or> int NDEV \<le> sint (i_major x) then kreturn (-1)
        else case dev_write dv (unat (i_major x)) of None \<Rightarrow> kreturn (-1) | Some w \<Rightarrow> w ip src n)
     else if i_size x < off \<or> off + n < off then kreturn (-1)
     else if MAXFILE * BSIZE < unat (off + n) then kreturn (-1)
     else
       kseq (writei_loop ip src (unat off) (unat n) 0)
       (kbind (get_inode ip) (\<lambda>x.
       kseq (kwhen (0 < n \<and> i_size x < off + n)
         (kseq (upd_inode ip (\<lambda>x. x\<lparr>i_size := off + n\<rparr>))
         (iupdate ip)))
       (kreturn (sint n)))))"

section \<open>Directories\<close>

definition namecmp :: "bytes \<Rightarrow> bytes \<Rightarrow> int" where
  "namecmp s t = strncmp s t DIRSIZ"

text \<open>\<open>struct dirent\<close> is the number at offset 0 and the name at offset 2.\<close>

definition de_inum :: "bytes \<Rightarrow> u16" where
  "de_inum de = ld16 de 0"

definition de_name :: "bytes \<Rightarrow> bytes" where
  "de_name de = (\<lambda>i. de (2 + i))"

fun dirlookup_from :: "'a fs_st_scheme devsw \<Rightarrow> nat \<Rightarrow> bytes \<Rightarrow> nat list \<Rightarrow> ('a fs_st_scheme, chan, (nat \<times> nat) option) km" where
  "dirlookup_from dv dp name [] = kreturn None"
| "dirlookup_from dv dp name (off # offs) =
     kbind (readi dv dp (\<lambda>_. 0) (of_nat off) (of_nat DIRENT)) (\<lambda>(r, de).
     if r \<noteq> int DIRENT then kpanic ''dirlink read''
     else if de_inum de = 0 then dirlookup_from dv dp name offs
     else if namecmp name (de_name de) = 0 then
       kbind (get_inode dp) (\<lambda>x.
       kbind (iget (i_dev x) (unat (de_inum de))) (\<lambda>ip.
       kreturn (Some (ip, off))))
     else dirlookup_from dv dp name offs)"

text \<open>The offsets of the entries of a directory of the given size.\<close>

definition dir_offs :: "u32 \<Rightarrow> nat list" where
  "dir_offs sz = map ((*) DIRENT) [0..<(unat sz + DIRENT - 1) div DIRENT]"

text \<open>The result pairs the inode with the offset the code stores through \<open>poff\<close>.\<close>

definition dirlookup :: "'a fs_st_scheme devsw \<Rightarrow> nat \<Rightarrow> bytes \<Rightarrow> ('a fs_st_scheme, chan, (nat \<times> nat) option) km" where
  "dirlookup dv dp name =
     kbind (get_inode dp) (\<lambda>x.
     if i_type x \<noteq> T_DIR then kpanic ''dirlookup not DIR''
     else dirlookup_from dv dp name (dir_offs (i_size x)))"

text \<open>The search of \<open>dirlink\<close> for an empty entry; past the last entry the offset is the size.\<close>

fun dirlink_slot :: "'a fs_st_scheme devsw \<Rightarrow> nat \<Rightarrow> nat list \<Rightarrow> nat \<Rightarrow> ('a fs_st_scheme, chan, nat) km" where
  "dirlink_slot dv dp [] past = kreturn past"
| "dirlink_slot dv dp (off # offs) past =
     kbind (readi dv dp (\<lambda>_. 0) (of_nat off) (of_nat DIRENT)) (\<lambda>(r, de).
     if r \<noteq> int DIRENT then kpanic ''dirlink read''
     else if de_inum de = 0 then kreturn off
     else dirlink_slot dv dp offs past)"

definition make_dirent :: "bytes \<Rightarrow> u16 \<Rightarrow> bytes" where
  "make_dirent name inum = st16 (blit (\<lambda>_. 0) 2 (strncpy (\<lambda>_. 0) name (int DIRSIZ)) 0 DIRSIZ) 0 inum"

definition dirlink :: "'a fs_st_scheme devsw \<Rightarrow> nat \<Rightarrow> bytes \<Rightarrow> u32 \<Rightarrow> ('a fs_st_scheme, chan, int) km" where
  "dirlink dv dp name inum =
     kbind (dirlookup dv dp name) (\<lambda>e.
     case e of
       Some (ip, _) \<Rightarrow> kseq (iput ip) (kreturn (-1))
     | None \<Rightarrow>
         kbind (get_inode dp) (\<lambda>x.
         kbind (dirlink_slot dv dp (dir_offs (i_size x)) (DIRENT * length (dir_offs (i_size x)))) (\<lambda>off.
         kbind (writei dv dp (make_dirent name (ucast inum)) (of_nat off) (of_nat DIRENT)) (\<lambda>r.
         if r \<noteq> int DIRENT then kpanic ''dirlink'' else kreturn 0))))"

section \<open>Paths\<close>

definition slash :: u8 where "slash = 47"

definition cstr :: "u8 list \<Rightarrow> bytes" where
  "cstr xs = (\<lambda>i. if i < length xs then xs ! i else 0)"

definition skipelem :: "u8 list \<Rightarrow> bytes \<Rightarrow> (u8 list \<times> bytes) option" where
  "skipelem path name =
     (let path = dropWhile (\<lambda>c. c = slash) path in
      if path = [] then None
      else
        let s = takeWhile (\<lambda>c. c \<noteq> slash) path;
            path = dropWhile (\<lambda>c. c \<noteq> slash) path;
            len = length s;
            name = (if DIRSIZ \<le> len then blit name 0 (cstr s) 0 DIRSIZ else (blit name 0 (cstr s) 0 len)(len := 0))
        in Some (dropWhile (\<lambda>c. c = slash) path, name))"

lemma skipelem_shorter: "skipelem path name = Some (path', name') \<Longrightarrow> length path' < length path"
proof -
  assume a: "skipelem path name = Some (path', name')"
  define q where "q = dropWhile (\<lambda>c. c = slash) path"
  have q: "q \<noteq> []" "path' = dropWhile (\<lambda>c. c = slash) (dropWhile (\<lambda>c. c \<noteq> slash) q)"
    using a by (auto simp: skipelem_def q_def Let_def split: if_splits)
  have "hd q \<noteq> slash" using q(1) hd_dropWhile [of "\<lambda>c. c = slash" path] by (simp add: q_def)
  then have "length (dropWhile (\<lambda>c. c \<noteq> slash) q) < length q"
    using q(1) length_dropWhile_le [of "\<lambda>c. c \<noteq> slash" "tl q"] by (cases q) auto
  moreover have "length q \<le> length path" by (simp add: q_def length_dropWhile_le)
  ultimately show ?thesis using q(2) length_dropWhile_le [of "\<lambda>c. c = slash" "dropWhile (\<lambda>c. c \<noteq> slash) q"] by simp
qed

function namex_loop :: "'a fs_st_scheme devsw \<Rightarrow> nat \<Rightarrow> u8 list \<Rightarrow> bool \<Rightarrow> bytes \<Rightarrow> ('a fs_st_scheme, chan, nat option \<times> bytes) km" where
  "namex_loop dv ip path nameiparent name =
     (case skipelem path name of
        None \<Rightarrow> if nameiparent then kseq (iput ip) (kreturn (None, name)) else kreturn (Some ip, name)
      | Some (path, name) \<Rightarrow>
          kseq (ilock ip)
          (kbind (get_inode ip) (\<lambda>x.
          if i_type x \<noteq> T_DIR then kseq (iunlockput ip) (kreturn (None, name))
          else if nameiparent \<and> path = [] then kseq (iunlock ip) (kreturn (Some ip, name))
          else
            kbind (dirlookup dv ip name) (\<lambda>next.
            case next of
              None \<Rightarrow> kseq (iunlockput ip) (kreturn (None, name))
            | Some (next, _) \<Rightarrow>
                kseq (iunlockput ip)
                (namex_loop dv next path nameiparent name)))))"
  by pat_completeness auto
termination
  by (relation "measure (\<lambda>(dv, ip, path, np, name). length path)") (use skipelem_shorter in auto)

definition namex :: "'a fs_st_scheme devsw \<Rightarrow> u8 list \<Rightarrow> bool \<Rightarrow> bytes \<Rightarrow> ('a fs_st_scheme, chan, nat option \<times> bytes) km" where
  "namex dv path nameiparent name =
     kbind (if path \<noteq> [] \<and> hd path = slash then iget ROOTDEV ROOTINO
       else (\<lambda>s. case p_cwd (ptable s ! curproc s) of Some cwd \<Rightarrow> idup cwd s | None \<Rightarrow> Panic ''trap'')) (\<lambda>ip.
     namex_loop dv ip path nameiparent name)"

definition namei :: "'a fs_st_scheme devsw \<Rightarrow> u8 list \<Rightarrow> ('a fs_st_scheme, chan, nat option) km" where
  "namei dv path = kbind (namex dv path False (\<lambda>_. 0)) (\<lambda>(ip, _). kreturn ip)"

definition nameiparent :: "'a fs_st_scheme devsw \<Rightarrow> u8 list \<Rightarrow> bytes \<Rightarrow> ('a fs_st_scheme, chan, nat option \<times> bytes) km" where
  "nameiparent dv path name = namex dv path True name"

end
