(* ===== verification/Kalloc.thy ===== *)
theory Kalloc
  imports Fs
begin

text \<open>
  The physical page allocator of \<open>kernel/kalloc.c\<close> and the address arithmetic of
  \<open>include/sys/memlayout.h\<close> and \<open>include/sys/mmu.h\<close>.  Physical memory is one array of bytes; a kernel
  virtual address \<open>v\<close> is the byte \<open>v - KERNBASE\<close> of it.  The free list runs through the first word of
  each free page, as in the code.  The locale \<open>page_pool\<close> is the contract the address spaces and
  pipes rely on.
\<close>

section \<open>Addresses\<close>

abbreviation EXTMEM :: u32 where "EXTMEM \<equiv> 0x100000"
abbreviation PHYSTOP :: u32 where "PHYSTOP \<equiv> 0xE000000"
abbreviation DEVSPACE :: u32 where "DEVSPACE \<equiv> 0xFE000000"
abbreviation KERNBASE :: u32 where "KERNBASE \<equiv> 0x80000000"
abbreviation KERNLINK :: u32 where "KERNLINK \<equiv> KERNBASE + EXTMEM"
abbreviation PGSIZE :: u32 where "PGSIZE \<equiv> 4096"
abbreviation PGBYTES :: nat where "PGBYTES \<equiv> 4096"

definition v2p :: "u32 \<Rightarrow> u32" where
  "v2p a = a - KERNBASE"

definition p2v :: "u32 \<Rightarrow> u32" where
  "p2v a = a + KERNBASE"

definition PGROUNDUP :: "u32 \<Rightarrow> u32" where
  "PGROUNDUP sz = (sz + PGSIZE - 1) AND NOT (PGSIZE - 1)"

definition PGROUNDDOWN :: "u32 \<Rightarrow> u32" where
  "PGROUNDDOWN a = a AND NOT (PGSIZE - 1)"

section \<open>State\<close>

text \<open>\<open>k_end\<close> and \<open>k_data\<close> are the linker symbols \<open>end\<close> and \<open>data\<close>; no operation changes them.\<close>

record mem_st = fs_st +
  pmem :: bytes             \<comment> \<open>physical memory\<close>
  kmem_use_lock :: bool
  kmem_freelist :: u32      \<comment> \<open>kernel address of the first free page, 0 for none\<close>
  k_end :: u32
  k_data :: u32

text \<open>The byte of physical memory at a kernel virtual address.\<close>

definition at :: "u32 \<Rightarrow> nat" where
  "at v = unat (v2p v)"

section \<open>Operations\<close>

definition kfree :: "u32 \<Rightarrow> ('a mem_st_scheme, chan, unit) km" where
  "kfree v =
     kbind (kget k_end) (\<lambda>e.
     if v mod PGSIZE \<noteq> 0 \<or> v < e \<or> PHYSTOP \<le> v2p v then kpanic ''kfree''
     else
       kseq (kmod (\<lambda>s. s\<lparr>pmem := memset (pmem s) (at v) 1 PGBYTES\<rparr>))
       (kbind (kget kmem_use_lock) (\<lambda>use_lock.
       kseq (kwhen use_lock (acquire LKmem))
       (kseq (kmod (\<lambda>s. s\<lparr>pmem := st32 (pmem s) (at v) (kmem_freelist s)\<rparr>))
       (kseq (kmod (\<lambda>s. s\<lparr>kmem_freelist := v\<rparr>))
       (kwhen use_lock (release LKmem)))))))"

definition kalloc :: "('a mem_st_scheme, chan, u32) km" where
  "kalloc =
     kbind (kget kmem_use_lock) (\<lambda>use_lock.
     kseq (kwhen use_lock (acquire LKmem))
     (kbind (kget kmem_freelist) (\<lambda>r.
     kseq (kwhen (r \<noteq> 0) (kmod (\<lambda>s. s\<lparr>kmem_freelist := ld32 (pmem s) (at r)\<rparr>)))
     (kseq (kwhen use_lock (release LKmem))
     (kreturn r)))))"

text \<open>A round of the loop moves on by a page; the 32 bit address space has \<open>2 ^ 20\<close> pages.\<close>

definition freerange_body :: "u32 \<Rightarrow> u32 \<Rightarrow> ('a mem_st_scheme, chan, u32 + unit) km" where
  "freerange_body vend p = (if p + PGSIZE \<le> vend then kseq (kfree p) (kreturn (Inl (p + PGSIZE))) else kreturn (Inr ()))"

definition freerange :: "u32 \<Rightarrow> u32 \<Rightarrow> ('a mem_st_scheme, chan, unit) km" where
  "freerange vstart vend =
     kloop (2 ^ 20) (freerange_body vend) (PGROUNDUP vstart)"

definition kinit1 :: "u32 \<Rightarrow> u32 \<Rightarrow> ('a mem_st_scheme, chan, unit) km" where
  "kinit1 vstart vend =
     kseq (kmod (\<lambda>s. s\<lparr>kmem_use_lock := False\<rparr>)) (freerange vstart vend)"

definition kinit2 :: "u32 \<Rightarrow> u32 \<Rightarrow> ('a mem_st_scheme, chan, unit) km" where
  "kinit2 vstart vend =
     kseq (freerange vstart vend) (kmod (\<lambda>s. s\<lparr>kmem_use_lock := True\<rparr>))"

section \<open>Specification\<close>

text \<open>A page the allocator manages: aligned, above the kernel image and below the end of memory.\<close>

definition page_ok :: "u32 \<Rightarrow> u32 \<Rightarrow> bool" where
  "page_ok e v \<longleftrightarrow> v mod PGSIZE = 0 \<and> e \<le> v \<and> v2p v < PHYSTOP \<and> KERNBASE \<le> e"

text \<open>The list of pages the links of the free list run through.\<close>

fun free_chain :: "bytes \<Rightarrow> u32 \<Rightarrow> u32 list \<Rightarrow> bool" where
  "free_chain m h [] \<longleftrightarrow> h = 0"
| "free_chain m h (x # xs) \<longleftrightarrow> h = x \<and> free_chain m (ld32 m (at x)) xs"

definition kmem_ok :: "u32 list \<Rightarrow> 'a mem_st_scheme \<Rightarrow> bool" where
  "kmem_ok xs s \<longleftrightarrow> LKmem \<notin> held s \<and> distinct xs \<and> (\<forall>x\<in>set xs. page_ok (k_end s) x) \<and> free_chain (pmem s) (kmem_freelist s) xs"

text \<open>The bytes of a page.\<close>

definition page_range :: "u32 \<Rightarrow> nat set" where
  "page_range v = {at v..<at v + PGBYTES}"

text \<open>Memory agrees outside a set of pages.\<close>

definition same_outside :: "u32 set \<Rightarrow> bytes \<Rightarrow> bytes \<Rightarrow> bool" where
  "same_outside P m m' \<longleftrightarrow> (\<forall>i. (\<forall>p\<in>P. i \<notin> page_range p) \<longrightarrow> m' i = m i)"

section \<open>Pages\<close>

lemma page_okD:
  assumes "page_ok e v"
  shows "v \<noteq> 0" "KERNBASE \<le> v" "at v = unat v - 2147483648" "2147483648 \<le> unat v" "unat v mod 4096 = 0" "at v < 234881024"
    "at v mod 4096 = 0"
proof -
  show k: "KERNBASE \<le> v" using assms by (auto simp: page_ok_def)
  then show n: "2147483648 \<le> unat v" by (simp add: word_le_nat_alt)
  then show "v \<noteq> 0" by auto
  show a: "at v = unat v - 2147483648" using unat_sub [OF k] by (simp add: at_def v2p_def)
  have "v mod 4096 = 0" "v2p v < PHYSTOP" using assms by (simp_all add: page_ok_def)
  then have "unat (v mod 4096) = 0" "unat (v2p v) < 234881024" by (simp_all add: word_less_nat_alt)
  then show m: "unat v mod 4096 = 0" and "at v < 234881024" by (simp_all add: unat_mod at_def)
  have "(2147483648 :: nat) mod 4096 = 0" by simp
  then show "at v mod 4096 = 0" using m n unfolding a by (simp add: mod_eq_0_iff_dvd dvd_diff_nat)
qed

lemma at_inj: "page_ok e x \<Longrightarrow> page_ok e y \<Longrightarrow> at x = at y \<Longrightarrow> x = y"
  using page_okD(3,4) [of e x] page_okD(3,4) [of e y] by (simp add: word_unat_eq_iff)

lemma multiples_apart:
  fixes a b k :: nat
  assumes "a mod k = 0" "b mod k = 0" "a \<noteq> b"
  shows "a + k \<le> b \<or> b + k \<le> a"
proof -
  obtain i j where "a = k * i" "b = k * j" using assms(1,2) unfolding mod_eq_0_iff_dvd dvd_def by blast
  moreover have "k * i + k \<le> k * j" if "i < j" for i j :: nat
    using mult_le_mono2 [of "Suc i" j k] that by simp
  ultimately show ?thesis using assms(3) by (cases i j rule: linorder_cases) auto
qed

lemma pages_apart:
  assumes "page_ok e x" "page_ok e y" "x \<noteq> y"
  shows "at x + 4096 \<le> at y \<or> at y + 4096 \<le> at x"
  using multiples_apart [OF page_okD(7) [OF assms(1)] page_okD(7) [OF assms(2)]] at_inj [OF assms(1,2)] assms(3) by blast

lemma page_range_disjoint: "page_ok e x \<Longrightarrow> page_ok e y \<Longrightarrow> x \<noteq> y \<Longrightarrow> i \<in> page_range x \<Longrightarrow> i \<notin> page_range y"
  using pages_apart [of e x y] by (auto simp: page_range_def)

lemma same_outside_refl [simp]: "same_outside P m m"
  by (simp add: same_outside_def)

lemma same_outside_trans: "same_outside P m m1 \<Longrightarrow> same_outside Q m1 m2 \<Longrightarrow> P \<union> Q \<subseteq> R \<Longrightarrow> same_outside R m m2"
  unfolding same_outside_def by (metis UnI1 UnI2 subsetD)

lemma same_outside_mono: "same_outside P m m' \<Longrightarrow> P \<subseteq> Q \<Longrightarrow> same_outside Q m m'"
  by (auto simp: same_outside_def)

lemma same_outside_page:
  assumes "same_outside P m m'" and "page_ok e x" and "\<forall>p\<in>P. page_ok e p" and "x \<notin> P" and "i < 4096"
  shows "m' (at x + i) = m (at x + i)"
proof -
  have "at x + i \<in> page_range x" using assms(5) by (simp add: page_range_def)
  then have "\<forall>p\<in>P. at x + i \<notin> page_range p" using page_range_disjoint [OF assms(2)] assms(3,4) by metis
  then show ?thesis using assms(1) by (simp add: same_outside_def)
qed

lemma free_chain_same:
  assumes "free_chain m h xs" and "same_outside P m m'" and "\<forall>p\<in>P. page_ok e p" and "\<forall>x\<in>set xs. page_ok e x" and "P \<inter> set xs = {}"
  shows "free_chain m' h xs"
  using assms(1,4,5)
proof (induction xs arbitrary: h)
  case (Cons x xs)
  have "ld32 m' (at x) = ld32 m (at x)"
    by (rule ld32_cong) (rule same_outside_page [OF assms(2) _ assms(3)], use Cons.prems in auto)
  then show ?case using Cons by auto
qed simp

lemma kmem_ok_same:
  assumes "kmem_ok xs s" and "same_outside P (pmem s) (pmem t)" and "\<forall>p\<in>P. page_ok (k_end s) p" and "P \<inter> set xs = {}"
    and "kmem_freelist t = kmem_freelist s" and "k_end t = k_end s" and "LKmem \<notin> held t"
  shows "kmem_ok xs t"
  using assms free_chain_same [OF _ assms(2,3)] by (auto simp: kmem_ok_def)

section \<open>The operations\<close>

lemma at_run: "page_ok e v \<Longrightarrow> ld32 (st32 m (at v) w) (at v) = w" by simp

lemma kalloc_run:
  assumes "kmem_ok xs s"
  shows "\<exists>h. kalloc s = Ok (if xs = [] then 0 else hd xs) (s\<lparr>kmem_freelist := h\<rparr>) \<and> kmem_ok (tl xs) (s\<lparr>kmem_freelist := h\<rparr>)"
proof (cases xs)
  case Nil
  then have "kalloc s = Ok 0 s" "kmem_ok [] s" using assms
    by (cases "kmem_use_lock s"; cases s; auto simp: kalloc_def kmem_ok_def kmonad)+
  then show ?thesis using Nil by (intro exI [of _ "kmem_freelist s"]) (cases s; simp)
next
  case (Cons x ys)
  then have x: "kmem_freelist s = x" "x \<noteq> 0" "LKmem \<notin> held s"
    using assms page_okD(1) [of "k_end s" x] by (auto simp: kmem_ok_def)
  then have "kalloc s = Ok x (s\<lparr>kmem_freelist := ld32 (pmem s) (at x)\<rparr>)"
    by (cases "kmem_use_lock s") (auto simp: kalloc_def kmonad)
  then show ?thesis using Cons assms by (intro exI [of _ "ld32 (pmem s) (at x)"]) (auto simp: kmem_ok_def)
qed

lemma fill_outside_page: "same_outside {v} m (fill m (at v) c PGBYTES)"
  by (auto simp: same_outside_def page_range_def fill_def)

lemma st32_outside_page: "at v \<le> a \<Longrightarrow> a + 4 \<le> at v + PGBYTES \<Longrightarrow> same_outside {v} m (st32 m a w)"
  by (auto simp: same_outside_def page_range_def intro!: st32_other)

lemma kfree_run:
  assumes K: "kmem_ok xs s" and v: "page_ok (k_end s) v" "v \<notin> set xs"
  shows "\<exists>m. kfree v s = Ok () (s\<lparr>pmem := m, kmem_freelist := v\<rparr>) \<and> kmem_ok (v # xs) (s\<lparr>pmem := m, kmem_freelist := v\<rparr>) \<and>
    same_outside {v} (pmem s) m"
proof -
  define m where "m = st32 (fill (pmem s) (at v) 1 PGBYTES) (at v) (kmem_freelist s)"
  have "\<not> (v mod PGSIZE \<noteq> 0 \<or> v < k_end s \<or> PHYSTOP \<le> v2p v)" using v(1) by (auto simp: page_ok_def)
  then have "kfree v s = Ok () (s\<lparr>pmem := m, kmem_freelist := v\<rparr>)"
    using K by (cases "kmem_use_lock s") (auto simp: kfree_def kmem_ok_def kmonad memset_fill m_def)
  moreover have same: "same_outside {v} (pmem s) m"
    unfolding m_def by (rule same_outside_trans [OF fill_outside_page st32_outside_page]) auto
  moreover have "free_chain m (kmem_freelist s) xs"
    by (rule free_chain_same [OF _ same, of _ _ "k_end s"]) (use K v in \<open>auto simp: kmem_ok_def\<close>)
  then have "kmem_ok (v # xs) (s\<lparr>pmem := m, kmem_freelist := v\<rparr>)" using K v by (simp add: kmem_ok_def m_def)
  ultimately show ?thesis by blast
qed

lemma kfree_bad: "\<not> page_ok (k_end s) v \<Longrightarrow> KERNBASE \<le> k_end s \<Longrightarrow> kfree v s = Panic ''kfree''"
  by (auto simp: kfree_def page_ok_def kmonad not_le not_less)

section \<open>The contract of a pool of pages\<close>

text \<open>
  What the clients of the allocator rely on: a state has a list of free pages; \<open>alloc\<close> takes the first of
  them and changes no byte; \<open>free\<close> of a page that is not free puts it first and changes only the bytes
  of that page; a client that writes only to pages that are not free does not disturb the pool.
\<close>

locale page_pool =
  fixes alloc :: "('s, 'c, u32) km" and free :: "u32 \<Rightarrow> ('s, 'c, unit) km" and poke :: "bytes \<Rightarrow> 's \<Rightarrow> 's"
    and inv :: "u32 list \<Rightarrow> 's \<Rightarrow> bool" and content :: "'s \<Rightarrow> bytes" and valid :: "'s \<Rightarrow> u32 \<Rightarrow> bool"
  assumes inv: "inv xs s \<Longrightarrow> distinct xs \<and> (\<forall>x\<in>set xs. valid s x)"
    and nonzero: "valid s x \<Longrightarrow> x \<noteq> 0"
    and alloc: "inv xs s \<Longrightarrow> \<exists>t. alloc s = Ok (if xs = [] then 0 else hd xs) t \<and> inv (tl xs) t \<and> content t = content s \<and> valid t = valid s"
    and free: "inv xs s \<Longrightarrow> valid s v \<Longrightarrow> v \<notin> set xs \<Longrightarrow>
      \<exists>t. free v s = Ok () t \<and> inv (v # xs) t \<and> same_outside {v} (content s) (content t) \<and> valid t = valid s"
    and poke: "inv xs s \<Longrightarrow> same_outside P (content s) m \<Longrightarrow> \<forall>p\<in>P. valid s p \<and> p \<notin> set xs \<Longrightarrow>
      inv xs (poke m s) \<and> content (poke m s) = m \<and> valid (poke m s) = valid s"
begin

lemma alloc_fresh:
  assumes "inv xs s" and "alloc s = Ok p t" and "p \<noteq> 0"
  shows "inv (tl xs) t" "p \<in> set xs" "p \<notin> set (tl xs)" "valid s p" "content t = content s" "valid t = valid s"
proof -
  have "xs \<noteq> []" "p = hd xs" using alloc [OF assms(1)] assms(2,3) by (auto split: if_splits)
  then have x: "xs = p # tl xs" by simp
  then show "p \<in> set xs" "p \<notin> set (tl xs)" "valid s p"
    using inv [OF assms(1)] by (metis list.set_intros(1), metis distinct.simps(2), metis list.set_intros(1))
  show "inv (tl xs) t" "content t = content s" "valid t = valid s" using alloc [OF assms(1)] assms(2) by auto
qed

lemma alloc_none: "inv xs s \<Longrightarrow> alloc s = Ok 0 t \<Longrightarrow> xs = []"
  using alloc [of xs s] inv [of xs s] nonzero [of s "hd xs"] by (cases xs) auto

text \<open>Two pages handed out one after the other are not the same page.\<close>

lemma alloc_distinct:
  assumes "inv xs s" and "alloc s = Ok p t" and "alloc t = Ok q u" and "p \<noteq> 0" "q \<noteq> 0"
  shows "p \<noteq> q"
  using alloc_fresh(3) [OF assms(1,2,4)] alloc_fresh(2) [OF alloc_fresh(1) [OF assms(1,2,4)] assms(3,5)] by blast

text \<open>A page freed and handed out again: the pool is as before.\<close>

lemma free_alloc:
  assumes "inv xs s" and "valid s v" and "v \<notin> set xs"
  shows "\<exists>t u. free v s = Ok () t \<and> alloc t = Ok v u \<and> inv xs u \<and> same_outside {v} (content s) (content u)"
proof -
  obtain t where t: "free v s = Ok () t" "inv (v # xs) t" "same_outside {v} (content s) (content t)"
    using free [OF assms] by blast
  then show ?thesis using alloc [OF t(2)] by fastforce
qed

end

interpretation pool: page_pool kalloc kfree "\<lambda>m s. s\<lparr>pmem := m\<rparr>" kmem_ok pmem "\<lambda>s. page_ok (k_end s)"
proof unfold_locales
  fix xs and s :: "'a mem_st_scheme"
  show "kmem_ok xs s \<Longrightarrow> distinct xs \<and> (\<forall>x\<in>set xs. page_ok (k_end s) x)" by (simp add: kmem_ok_def)
  show "page_ok (k_end s) x \<Longrightarrow> x \<noteq> 0" for x by (rule page_okD(1))
  show "\<exists>t. kalloc s = Ok (if xs = [] then 0 else hd xs) t \<and> kmem_ok (tl xs) t \<and> pmem t = pmem s \<and> page_ok (k_end t) = page_ok (k_end s)"
    if "kmem_ok xs s"
    using kalloc_run [OF that] by auto
  show "\<exists>t. kfree v s = Ok () t \<and> kmem_ok (v # xs) t \<and> same_outside {v} (pmem s) (pmem t) \<and> page_ok (k_end t) = page_ok (k_end s)"
    if "kmem_ok xs s" "page_ok (k_end s) v" "v \<notin> set xs" for v
    using kfree_run [OF that] by auto
  show "kmem_ok xs (s\<lparr>pmem := m\<rparr>) \<and> pmem (s\<lparr>pmem := m\<rparr>) = m \<and> page_ok (k_end (s\<lparr>pmem := m\<rparr>)) = page_ok (k_end s)"
    if "kmem_ok xs s" "same_outside P (pmem s) m" "\<forall>p\<in>P. page_ok (k_end s) p \<and> p \<notin> set xs" for P m
    using kmem_ok_same [OF that(1), of P "s\<lparr>pmem := m\<rparr>"] that by (auto simp: kmem_ok_def)
qed

section \<open>Rounding\<close>

lemma and_not_mask12: "(x :: u32) AND NOT 0xFFF = push_bit 12 (drop_bit 12 x)"
proof -
  have m: "(0xFFF :: u32) = mask 12" by (simp add: mask_eq_exp_minus_1)
  show ?thesis unfolding m by (rule bit_word_eqI) (auto simp: bit_simps)
qed

lemma unat_round: "unat ((x :: u32) AND NOT 0xFFF) = unat x div 4096 * 4096"
proof -
  have b: "unat x div 4096 * 4096 < 2 ^ 32" using unat_u32_less [of x] le_less_trans [OF div_times_less_eq_dividend, of "unat x" _ 4096] by simp
  have "unat (push_bit 12 (drop_bit 12 x)) = unat x div 4096 * 4096 mod 2 ^ 32"
    by (simp add: push_bit_eq_mult drop_bit_eq_div unat_word_ariths unat_div mod_mult_left_eq)
  then show ?thesis unfolding and_not_mask12 using mod_less [OF b] by simp
qed

lemma unat_PGROUNDDOWN: "unat (PGROUNDDOWN a) = unat a div 4096 * 4096"
  using unat_round [of a] by (simp add: PGROUNDDOWN_def)

lemma unat_PGROUNDUP:
  assumes "unat sz + 4095 < 2 ^ 32"
  shows "unat (PGROUNDUP sz) = (unat sz + 4095) div 4096 * 4096"
proof -
  have "unat (sz + 4095) = unat sz + 4095" using assms by (simp add: unat_word_ariths)
  then show ?thesis using unat_round [of "sz + 4095"] by (simp add: PGROUNDUP_def algebra_simps)
qed

section \<open>Initialisation\<close>

text \<open>The pages \<open>p, p + PGSIZE, ...\<close>.\<close>

definition pages_from :: "u32 \<Rightarrow> nat \<Rightarrow> u32 list" where
  "pages_from p n = map (\<lambda>i. p + of_nat i * PGSIZE) [0..<n]"

lemma pages_from_Suc: "pages_from p (Suc n) = p # pages_from (p + PGSIZE) n"
  unfolding pages_from_def upt_conv_Cons [OF zero_less_Suc] by (simp add: map_Suc_upt [symmetric] algebra_simps del: upt_Suc)

lemma unat_pages_from:
  assumes "unat p + n * 4096 < 2 ^ 32"
  shows "map unat (pages_from p n) = map (\<lambda>i. unat p + i * 4096) [0..<n]"
proof -
  have "unat (p + of_nat i * PGSIZE) = unat p + i * 4096" if "i < n" for i
  proof -
    have "unat p + i * 4096 < 2 ^ 32" using that assms by (intro le_less_trans [OF _ assms]) simp
    moreover have "p + of_nat i * PGSIZE = of_nat (unat p + i * 4096)" by simp
    ultimately show ?thesis by (simp only: unat_of_nat) (simp add: take_bit_nat_eq_self)
  qed
  then show ?thesis by (simp add: pages_from_def)
qed

lemma freerange_loop:
  assumes "kmem_ok xs s" and "\<forall>v \<in> set (pages_from p n). page_ok (k_end s) v \<and> v \<notin> set xs" and "n < fuel"
    and "0 < n \<longrightarrow> unat p + n * 4096 \<le> unat vend" "unat vend < unat p + n * 4096 + 4096" "unat p + n * 4096 + 4096 < 2 ^ 32"
  shows "\<exists>t. kloop fuel (freerange_body vend) p s = Ok () t \<and> kmem_ok (rev (pages_from p n) @ xs) t \<and>
    (\<exists>m h. t = s\<lparr>pmem := m, kmem_freelist := h\<rparr>)"
  using assms
proof (induction n arbitrary: p xs s fuel)
  case 0
  then have "unat (p + PGSIZE) = unat p + 4096" by (simp add: unat_word_ariths)
  then have "freerange_body vend p s = Ok (Inr ()) s" using 0 by (simp add: freerange_body_def word_le_nat_alt kmonad)
  then show ?case using 0 by (intro exI [of _ s] conjI exI [of _ "pmem s"] exI [of _ "kmem_freelist s"]) (simp_all add: kloop_exit pages_from_def)
next
  case (Suc n)
  obtain f where f: "fuel = Suc f" "n < f" using Suc.prems(3) by (cases fuel) auto
  have u: "unat (p + PGSIZE) = unat p + 4096" using Suc.prems(6) by (simp add: unat_word_ariths)
  obtain m where m: "kfree p s = Ok () (s\<lparr>pmem := m, kmem_freelist := p\<rparr>)" "kmem_ok (p # xs) (s\<lparr>pmem := m, kmem_freelist := p\<rparr>)"
    using kfree_run [OF Suc.prems(1), of p] Suc.prems(2) by (auto simp: pages_from_Suc)
  have d: "\<forall>v \<in> set (pages_from (p + PGSIZE) n). unat v \<noteq> unat p"
  proof -
    have b: "unat (p + PGSIZE) + n * 4096 < 2 ^ 32" using u Suc.prems(6) by simp
    have "unat ` set (pages_from (p + PGSIZE) n) = set (map (\<lambda>i. unat p + 4096 + i * 4096) [0..<n])"
      using arg_cong [OF unat_pages_from [OF b], of set] unfolding set_map u .
    then have "unat v \<in> set (map (\<lambda>i. unat p + 4096 + i * 4096) [0..<n])" if "v \<in> set (pages_from (p + PGSIZE) n)" for v
      using that by blast
    then show ?thesis by force
  qed
  have "freerange_body vend p s = Ok (Inl (p + PGSIZE)) (s\<lparr>pmem := m, kmem_freelist := p\<rparr>)"
    using m(1) u Suc.prems(4) by (simp add: freerange_body_def word_le_nat_alt kmonad)
  then have "kloop fuel (freerange_body vend) p s = kloop f (freerange_body vend) (p + PGSIZE) (s\<lparr>pmem := m, kmem_freelist := p\<rparr>)"
    by (simp only: f(1) kloop_next)
  moreover have "\<exists>t. kloop f (freerange_body vend) (p + PGSIZE) (s\<lparr>pmem := m, kmem_freelist := p\<rparr>) = Ok () t \<and>
      kmem_ok (rev (pages_from (p + PGSIZE) n) @ p # xs) t \<and> (\<exists>m' h. t = s\<lparr>pmem := m, kmem_freelist := p\<rparr>\<lparr>pmem := m', kmem_freelist := h\<rparr>)"
    using Suc.prems(2,4,5,6) d u by (intro Suc.IH [OF m(2) _ f(2)]) (auto simp: pages_from_Suc)
  ultimately show ?case by (auto simp: pages_from_Suc)
qed

lemma page_ok_iff:
  assumes "KERNBASE \<le> e"
  shows "page_ok e v \<longleftrightarrow> unat v mod 4096 = 0 \<and> unat e \<le> unat v \<and> unat v < 2382364672"
proof -
  have m: "v mod PGSIZE = 0 \<longleftrightarrow> unat v mod 4096 = 0" by (simp add: unat_mod word_unat_eq_iff)
  have "v2p v < PHYSTOP \<longleftrightarrow> unat v < 2382364672" if "e \<le> v"
  proof -
    have "KERNBASE \<le> v" using assms that by (rule order_trans)
    then have "unat (v2p v) = unat v - 2147483648" "2147483648 \<le> unat v"
      using unat_sub [of KERNBASE v] by (simp_all add: v2p_def word_le_nat_alt)
    then show ?thesis by (simp add: word_less_nat_alt) linarith
  qed
  then show ?thesis using assms m by (auto simp: page_ok_def word_le_nat_alt)
qed

text \<open>The pages of a range, as \<open>freerange\<close> meets them.\<close>

lemma pages_of_range:
  fixes a b :: nat
  assumes "r = (a + 4095) div 4096 * 4096" and "n = (b - r) div 4096" and "k mod 4096 = 0"
  shows "(\<exists>i<n. k = r + i * 4096) \<longleftrightarrow> a \<le> k \<and> k + 4096 \<le> b"
proof -
  obtain j where j: "k = 4096 * j" using assms(3) unfolding mod_eq_0_iff_dvd dvd_def by blast
  define q where "q = (a + 4095) div 4096"
  have r: "r = 4096 * q" using assms(1) by (simp add: q_def)
  have q: "q \<le> j \<longleftrightarrow> a \<le> 4096 * j" unfolding q_def by linarith
  have "(\<exists>i<n. k = r + i * 4096) \<longleftrightarrow> q \<le> j \<and> j < q + n"
    unfolding j r by (auto intro: exI [of _ "j - q"])
  also have "\<dots> \<longleftrightarrow> a \<le> k \<and> k + 4096 \<le> b" unfolding j q [symmetric] assms(2) r by auto
  finally show ?thesis .
qed

lemma freerange_run:
  assumes K: "kmem_ok xs s" and e: "KERNBASE \<le> k_end s" "k_end s \<le> vstart" and b: "unat vend \<le> 2382364672"
    and d: "\<forall>x\<in>set xs. \<not> (vstart \<le> x \<and> unat x + 4096 \<le> unat vend)" and lo: "vstart \<le> vend"
  shows "\<exists>t ys. freerange vstart vend s = Ok () t \<and> kmem_ok (ys @ xs) t \<and> (\<exists>m h. t = s\<lparr>pmem := m, kmem_freelist := h\<rparr>) \<and>
    ys = rev (pages_from (PGROUNDUP vstart) ((unat vend - unat (PGROUNDUP vstart)) div 4096)) \<and>
    set ys = {v. unat v mod 4096 = 0 \<and> vstart \<le> v \<and> unat v + 4096 \<le> unat vend}"
proof -
  let ?p = "PGROUNDUP vstart" and ?n = "(unat vend - unat (PGROUNDUP vstart)) div 4096"
  have l: "unat vstart \<le> unat vend" using lo by (simp add: word_le_nat_alt)
  have p: "unat ?p = (unat vstart + 4095) div 4096 * 4096" using l b by (intro unat_PGROUNDUP) simp
  then have pb: "unat ?p \<le> unat vstart + 4095" by linarith
  have n: "unat ?p + ?n * 4096 < 2 ^ 32" "?n < 2 ^ 20" "0 < ?n \<longrightarrow> unat ?p + ?n * 4096 \<le> unat vend" "unat vend < unat ?p + ?n * 4096 + 4096"
      "unat ?p + ?n * 4096 + 4096 < 2 ^ 32"
    using pb l b by auto
  let ?S = "{v. unat v mod 4096 = 0 \<and> vstart \<le> v \<and> unat v + 4096 \<le> unat vend}"
  have S: "set (pages_from ?p ?n) = ?S"
  proof (intro set_eqI)
    fix v :: u32
    have "v \<in> set (pages_from ?p ?n) \<longleftrightarrow> unat v \<in> unat ` set (pages_from ?p ?n)"
      using inj_image_mem_iff [of "unat :: u32 \<Rightarrow> nat"] by (simp add: inj_def word_unat_eq_iff)
    also have "\<dots> \<longleftrightarrow> (\<exists>i < ?n. unat v = unat ?p + i * 4096)" using arg_cong [OF unat_pages_from [OF n(1)], of set] by auto
    also have "\<dots> \<longleftrightarrow> unat v mod 4096 = 0 \<and> (\<exists>i < ?n. unat v = unat ?p + i * 4096)" using p by auto
    also have "\<dots> \<longleftrightarrow> v \<in> ?S" using pages_of_range [OF p refl, of "unat v" "unat vend"] by (auto simp: word_le_nat_alt)
    finally show "v \<in> set (pages_from ?p ?n) \<longleftrightarrow> v \<in> ?S" .
  qed
  have "\<forall>v\<in>?S. page_ok (k_end s) v \<and> v \<notin> set xs" using e d b by (auto simp: page_ok_iff word_le_nat_alt)
  then have "\<forall>v\<in>set (pages_from ?p ?n). page_ok (k_end s) v \<and> v \<notin> set xs" unfolding S .
  from freerange_loop [OF K this n(2,3,4,5)] obtain t where "freerange vstart vend s = Ok () t" "kmem_ok (rev (pages_from ?p ?n) @ xs) t"
      "\<exists>m h. t = s\<lparr>pmem := m, kmem_freelist := h\<rparr>"
    unfolding freerange_def by blast
  then show ?thesis using S by (intro exI [of _ t] exI [of _ "rev (pages_from ?p ?n)"] conjI) (simp_all only: set_rev)
qed

section \<open>Properties\<close>

text \<open>
  C19: the allocator starts with every whole page of the range it is given, each once: \<open>kinit1\<close> on an
  empty free list returns, and the free list then runs through exactly the aligned pages between
  \<open>vstart\<close> and \<open>vend\<close>, none of them twice.
\<close>

theorem kinit1_pages:
  assumes "LKmem \<notin> held s" and "kmem_freelist s = 0" and "KERNBASE \<le> k_end s" and "k_end s \<le> vstart" and "vstart \<le> vend"
    and "vend \<le> p2v PHYSTOP"
  shows "\<exists>t xs. kinit1 vstart vend s = Ok () t \<and> kmem_ok xs t \<and> distinct xs \<and>
    set xs = {v. v mod PGSIZE = 0 \<and> vstart \<le> v \<and> unat v + PGBYTES \<le> unat vend}"
proof -
  let ?s = "s\<lparr>kmem_use_lock := False\<rparr>"
  have "kmem_ok [] ?s" using assms(1,2) by (simp add: kmem_ok_def)
  moreover have "unat vend \<le> 2382364672" using assms(6) by (simp add: p2v_def word_le_nat_alt)
  ultimately obtain t ys where t: "freerange vstart vend ?s = Ok () t" "kmem_ok ys t"
      "set ys = {v. unat v mod 4096 = 0 \<and> vstart \<le> v \<and> unat v + 4096 \<le> unat vend}"
    using freerange_run [of "[]" ?s vstart vend] assms(3,4,5) by auto
  have "kinit1 vstart vend s = Ok () t" using t(1) by (simp add: kinit1_def kmonad)
  moreover have "distinct ys" using t(2) by (simp add: kmem_ok_def)
  moreover have "v mod PGSIZE = 0 \<longleftrightarrow> unat v mod 4096 = 0" for v :: u32 by (simp add: unat_mod word_unat_eq_iff)
  ultimately show ?thesis using t(2,3) by auto
qed

text \<open>A small machine: the kernel's data starts at \<open>0x80108000\<close> and its image ends at \<open>0x80110000\<close>.\<close>

definition sample_mem :: mem_st where
  "sample_mem = boot_with \<lparr>icache = \<lambda>_. no_inode, pmem = \<lambda>_. 0, kmem_use_lock = False, kmem_freelist = 0,
     k_end = 0x80110000, k_data = 0x80108000\<rparr> 0 (\<lambda>_ _. 0)"

theorem kinit1_pages_witness:
  "\<exists>t xs. kinit1 0x80110010 0x80400000 sample_mem = Ok () t \<and> kmem_ok xs t \<and> 0x80111000 \<in> set xs \<and> 0x80110000 \<notin> set xs"
  using kinit1_pages [of sample_mem "0x80110010" "0x80400000"] by (force simp: sample_mem_def boot_with_def p2v_def)

lemma sample_pool:
  "\<exists>s m h. kinit1 0x80110000 0x80400000 sample_mem = Ok () s \<and> kmem_ok (rev (pages_from 0x80110000 752)) s \<and>
    s = sample_mem\<lparr>pmem := m, kmem_freelist := h\<rparr>"
proof -
  have e: "sample_mem\<lparr>kmem_use_lock := False\<rparr> = sample_mem" by (simp add: sample_mem_def boot_with_def)
  have "kmem_ok [] sample_mem" by (simp add: kmem_ok_def sample_mem_def boot_with_def)
  from freerange_run [OF this, of "0x80110000" "0x80400000"] obtain t m h where
    "freerange 0x80110000 0x80400000 sample_mem = Ok () t" "kmem_ok (rev (pages_from 0x80110000 752)) t"
    "t = sample_mem\<lparr>pmem := m, kmem_freelist := h\<rparr>"
    by (auto simp: sample_mem_def boot_with_def PGROUNDUP_def)
  then show ?thesis using e by (auto simp: kinit1_def kmonad)
qed

text \<open>
  C20: the free list is a stack of pages: \<open>kalloc\<close> takes the first page of the list and changes no byte of
  memory (0 when there is none); \<open>kfree\<close> of a page that is not free puts it first and changes only the
  bytes of that page; a page handed out is not free, so it is not handed out again before it is
  freed; an address that is not such a page makes \<open>kfree\<close> panic.
\<close>

theorem kalloc_kfree:
  assumes K: "kmem_ok xs s" and e: "KERNBASE \<le> k_end s"
  shows "(\<exists>t. kalloc s = Ok (if xs = [] then 0 else hd xs) t \<and> kmem_ok (tl xs) t \<and> pmem t = pmem s \<and>
      (\<forall>p. kalloc s = Ok p t \<and> p \<noteq> 0 \<longrightarrow> p \<in> set xs \<and> p \<notin> set (tl xs) \<and> (\<forall>q u. kalloc t = Ok q u \<longrightarrow> q \<noteq> p))) \<and>
    (if page_ok (k_end s) v then v \<notin> set xs \<longrightarrow>
       (\<exists>t u. kfree v s = Ok () t \<and> kmem_ok (v # xs) t \<and> same_outside {v} (pmem s) (pmem t) \<and> kalloc t = Ok v u \<and> kmem_ok xs u)
     else kfree v s = Panic ''kfree'')"
proof (intro conjI)
  obtain t where t: "kalloc s = Ok (if xs = [] then 0 else hd xs) t" "kmem_ok (tl xs) t" "pmem t = pmem s" "k_end t = k_end s"
    using kalloc_run [OF K] by auto
  have "p \<in> set xs \<and> p \<notin> set (tl xs) \<and> (\<forall>q u. kalloc t = Ok q u \<longrightarrow> q \<noteq> p)" if p: "kalloc s = Ok p t" "p \<noteq> 0" for p
    using pool.alloc_fresh(2,3) [OF K p] pool.alloc_distinct [OF K p(1) _ p(2)] p(2) by metis
  then show "\<exists>t. kalloc s = Ok (if xs = [] then 0 else hd xs) t \<and> kmem_ok (tl xs) t \<and> pmem t = pmem s \<and>
      (\<forall>p. kalloc s = Ok p t \<and> p \<noteq> 0 \<longrightarrow> p \<in> set xs \<and> p \<notin> set (tl xs) \<and> (\<forall>q u. kalloc t = Ok q u \<longrightarrow> q \<noteq> p))"
    using t by blast
next
  show "if page_ok (k_end s) v then v \<notin> set xs \<longrightarrow>
       (\<exists>t u. kfree v s = Ok () t \<and> kmem_ok (v # xs) t \<and> same_outside {v} (pmem s) (pmem t) \<and> kalloc t = Ok v u \<and> kmem_ok xs u)
     else kfree v s = Panic ''kfree''"
  proof (cases "page_ok (k_end s) v \<and> v \<notin> set xs")
    case True
    then obtain t where "kfree v s = Ok () t" "kmem_ok (v # xs) t" "same_outside {v} (pmem s) (pmem t)"
      using pool.free [OF K, of v] by blast
    moreover obtain u where "kalloc t = Ok v u" "kmem_ok xs u" using pool.alloc [OF calculation(2)] by auto
    ultimately show ?thesis using True by auto
  qed (use kfree_bad [OF _ e, of v] in auto)
qed

theorem kalloc_kfree_witness:
  "\<exists>t u. kfree 0x80110000 sample_mem = Ok () t \<and> kmem_ok [0x80110000] t \<and> kalloc t = Ok 0x80110000 u \<and>
    kfree 0x80110001 sample_mem = Panic ''kfree''"
proof -
  have K: "kmem_ok [] sample_mem" "KERNBASE \<le> k_end sample_mem" by (simp_all add: kmem_ok_def sample_mem_def boot_with_def)
  have "page_ok (k_end sample_mem) 0x80110000" "\<not> page_ok (k_end sample_mem) 0x80110001"
    by (simp_all add: page_ok_def sample_mem_def boot_with_def v2p_def)
  then show ?thesis using kalloc_kfree [OF K, of "0x80110000"] kalloc_kfree [OF K, of "0x80110001"] by auto
qed

end
