(* ===== verification/Vm.thy ===== *)
theory Vm
  imports Kalloc
begin

text \<open>
  The address spaces of \<open>kernel/vm.c\<close>: two-level page tables in physical memory, the kernel's mappings,
  growing, shrinking, copying and freeing the user part, and copying out to another address space.
  Page table entries are words of the page that holds them; addresses are 32 bit words and all
  address arithmetic wraps.  The loops move by whole pages and the address space has \<open>2 ^ 20\<close> pages,
  which is the fuel.
\<close>

section \<open>Page table entries\<close>

abbreviation PTE_P :: u32 where "PTE_P \<equiv> 1"
abbreviation PTE_W :: u32 where "PTE_W \<equiv> 2"
abbreviation PTE_U :: u32 where "PTE_U \<equiv> 4"
abbreviation NPDENTRIES :: nat where "NPDENTRIES \<equiv> 1024"
abbreviation NPTENTRIES :: u32 where "NPTENTRIES \<equiv> 1024"

definition PDX :: "u32 \<Rightarrow> u32" where
  "PDX va = drop_bit 22 va AND 0x3FF"

definition PTX :: "u32 \<Rightarrow> u32" where
  "PTX va = drop_bit 12 va AND 0x3FF"

definition PTE_ADDR :: "u32 \<Rightarrow> u32" where
  "PTE_ADDR pte = pte AND NOT 0xFFF"

definition PTE_FLAGS :: "u32 \<Rightarrow> u32" where
  "PTE_FLAGS pte = pte AND 0xFFF"

text \<open>Reading and writing the word at a kernel address, and filling a page.\<close>

definition ldw :: "u32 \<Rightarrow> ('a mem_st_scheme, chan, u32) km" where
  "ldw v = kget (\<lambda>s. ld32 (pmem s) (at v))"

definition stw :: "u32 \<Rightarrow> u32 \<Rightarrow> ('a mem_st_scheme, chan, unit) km" where
  "stw v w = kmod (\<lambda>s. s\<lparr>pmem := st32 (pmem s) (at v) w\<rparr>)"

definition zero_page :: "u32 \<Rightarrow> ('a mem_st_scheme, chan, unit) km" where
  "zero_page v = kmod (\<lambda>s. s\<lparr>pmem := memset (pmem s) (at v) 0 PGBYTES\<rparr>)"

section \<open>Page tables\<close>

text \<open>The kernel address of the entry for \<open>va\<close>, or 0.\<close>

definition walkpgdir :: "u32 \<Rightarrow> u32 \<Rightarrow> bool \<Rightarrow> ('a mem_st_scheme, chan, u32) km" where
  "walkpgdir pgdir va alloc =
     kbind (ldw (pgdir + 4 * PDX va)) (\<lambda>pde.
     if pde AND PTE_P \<noteq> 0 then kreturn (p2v (PTE_ADDR pde) + 4 * PTX va)
     else if \<not> alloc then kreturn 0
     else
       kbind kalloc (\<lambda>pgtab.
       if pgtab = 0 then kreturn 0
       else
         kseq (zero_page pgtab)
         (kseq (stw (pgdir + 4 * PDX va) (v2p pgtab OR PTE_P OR PTE_W OR PTE_U))
         (kreturn (pgtab + 4 * PTX va)))))"

definition mappages_body :: "u32 \<Rightarrow> u32 \<Rightarrow> u32 \<Rightarrow> u32 \<times> u32 \<Rightarrow> ('a mem_st_scheme, chan, (u32 \<times> u32) + int) km" where
  "mappages_body pgdir last_a perm = (\<lambda>(a, pa).
     kbind (walkpgdir pgdir a True) (\<lambda>pte.
     if pte = 0 then kreturn (Inr (-1))
     else
       kbind (ldw pte) (\<lambda>e.
       if e AND PTE_P \<noteq> 0 then kpanic ''remap''
       else
         kseq (stw pte (pa OR perm OR PTE_P))
         (if a = last_a then kreturn (Inr 0) else kreturn (Inl (a + PGSIZE, pa + PGSIZE))))))"

definition mappages :: "u32 \<Rightarrow> u32 \<Rightarrow> u32 \<Rightarrow> u32 \<Rightarrow> u32 \<Rightarrow> ('a mem_st_scheme, chan, int) km" where
  "mappages pgdir va sz pa perm =
     kloop (2 ^ 20) (mappages_body pgdir (PGROUNDDOWN (va + sz - 1)) perm) (PGROUNDDOWN va, pa)"

section \<open>The kernel part\<close>

text \<open>\<open>kmap\<close>: virtual start, physical start, physical end and permissions.\<close>

definition kmap :: "u32 \<Rightarrow> (u32 \<times> u32 \<times> u32 \<times> u32) list" where
  "kmap data =
     [(KERNBASE, 0, EXTMEM, PTE_W),
      (KERNLINK, v2p KERNLINK, v2p data, 0),
      (data, v2p data, PHYSTOP, PTE_W),
      (DEVSPACE, DEVSPACE, 0, PTE_W)]"

fun map_kernel :: "u32 \<Rightarrow> (u32 \<times> u32 \<times> u32 \<times> u32) list \<Rightarrow> ('a mem_st_scheme, chan, int) km" where
  "map_kernel pgdir [] = kreturn 0"
| "map_kernel pgdir ((virt, phys_start, phys_end, perm) # ks) =
     kbind (mappages pgdir virt (phys_end - phys_start) phys_start perm) (\<lambda>r.
     if r < 0 then kreturn (-1) else map_kernel pgdir ks)"

definition setupkvm :: "('a mem_st_scheme, chan, u32) km" where
  "setupkvm =
     kbind kalloc (\<lambda>pgdir.
     if pgdir = 0 then kreturn 0
     else
       kseq (zero_page pgdir)
       (if DEVSPACE < p2v PHYSTOP then kpanic ''PHYSTOP too high''
        else
          kbind (kget k_data) (\<lambda>data.
          kbind (map_kernel pgdir (kmap data)) (\<lambda>r.
          if r < 0 then kreturn 0 else kreturn pgdir))))"

section \<open>The user part\<close>

definition inituvm :: "u32 \<Rightarrow> bytes \<Rightarrow> u32 \<Rightarrow> ('a mem_st_scheme, chan, unit) km" where
  "inituvm pgdir init sz =
     (if PGSIZE \<le> sz then kpanic ''inituvm: more than a page''
      else
        kbind kalloc (\<lambda>mem.
        kseq (zero_page mem)
        (kseq (mappages pgdir 0 PGSIZE (v2p mem) (PTE_W OR PTE_U))
        (kmod (\<lambda>s. s\<lparr>pmem := blit (pmem s) (at mem) init 0 (unat sz)\<rparr>)))))"

definition loaduvm_body :: "'a mem_st_scheme devsw \<Rightarrow> u32 \<Rightarrow> u32 \<Rightarrow> nat \<Rightarrow> u32 \<Rightarrow> u32 \<Rightarrow> u32 \<Rightarrow> ('a mem_st_scheme, chan, u32 + int) km" where
  "loaduvm_body dv pgdir addr ip offset sz i =
     (if i < sz then
        kbind (walkpgdir pgdir (addr + i) False) (\<lambda>pte.
        if pte = 0 then kpanic ''loaduvm: address should exist''
        else
          kbind (ldw pte) (\<lambda>e.
          let pa = PTE_ADDR e; n = (if sz - i < PGSIZE then sz - i else PGSIZE) in
          kbind (kget (\<lambda>s j. pmem s (at (p2v pa) + j))) (\<lambda>dst.
          kbind (readi dv ip dst (offset + i) n) (\<lambda>(r, buf).
          kseq (kmod (\<lambda>s. s\<lparr>pmem := blit (pmem s) (at (p2v pa)) buf 0 (unat n)\<rparr>))
          (if r \<noteq> int (unat n) then kreturn (Inr (-1)) else kreturn (Inl (i + PGSIZE)))))))
      else kreturn (Inr 0))"

definition loaduvm :: "'a mem_st_scheme devsw \<Rightarrow> u32 \<Rightarrow> u32 \<Rightarrow> nat \<Rightarrow> u32 \<Rightarrow> u32 \<Rightarrow> ('a mem_st_scheme, chan, int) km" where
  "loaduvm dv pgdir addr ip offset sz =
     (if addr mod PGSIZE \<noteq> 0 then kpanic ''loaduvm: addr must be page aligned''
      else kloop (2 ^ 20) (loaduvm_body dv pgdir addr ip offset sz) 0)"

definition deallocuvm_body :: "u32 \<Rightarrow> u32 \<Rightarrow> u32 \<Rightarrow> ('a mem_st_scheme, chan, u32 + unit) km" where
  "deallocuvm_body pgdir oldsz a =
     (if a < oldsz then
        kbind (walkpgdir pgdir a False) (\<lambda>pte.
        if pte = 0 then kreturn (Inl (a + (NPTENTRIES - 1) * PGSIZE + PGSIZE))
        else
          kbind (ldw pte) (\<lambda>e.
          kseq
            (kwhen (e AND PTE_P \<noteq> 0)
              (let pa = PTE_ADDR e in
               kseq (kwhen (pa = 0) (kpanic ''kfree''))
               (kseq (kfree (p2v pa))
               (stw pte 0))))
          (kreturn (Inl (a + PGSIZE)))))
      else kreturn (Inr ()))"

definition deallocuvm :: "u32 \<Rightarrow> u32 \<Rightarrow> u32 \<Rightarrow> ('a mem_st_scheme, chan, u32) km" where
  "deallocuvm pgdir oldsz newsz =
     (if oldsz \<le> newsz then kreturn oldsz
      else kseq (kloop (2 ^ 20) (deallocuvm_body pgdir oldsz) (PGROUNDUP newsz)) (kreturn newsz))"

text \<open>The C function returns an \<open>int\<close> that every caller stores in a \<open>uint\<close>.  Its message on the console is left out.\<close>

definition allocuvm_body :: "u32 \<Rightarrow> u32 \<Rightarrow> u32 \<Rightarrow> u32 \<Rightarrow> ('a mem_st_scheme, chan, u32 + u32) km" where
  "allocuvm_body pgdir oldsz newsz a =
     (if a < newsz then
        kbind kalloc (\<lambda>mem.
        if mem = 0 then
          kseq (deallocuvm pgdir newsz oldsz)
          (kreturn (Inr 0))
        else
          kseq (zero_page mem)
          (kseq (mappages pgdir a PGSIZE (v2p mem) (PTE_W OR PTE_U))
          (kreturn (Inl (a + PGSIZE)))))
      else kreturn (Inr newsz))"

definition allocuvm :: "u32 \<Rightarrow> u32 \<Rightarrow> u32 \<Rightarrow> ('a mem_st_scheme, chan, u32) km" where
  "allocuvm pgdir oldsz newsz =
     (if KERNBASE \<le> newsz then kreturn 0
      else if newsz < oldsz then kreturn oldsz
      else kloop (2 ^ 20) (allocuvm_body pgdir oldsz newsz) (PGROUNDUP oldsz))"

definition freevm :: "u32 \<Rightarrow> ('a mem_st_scheme, chan, unit) km" where
  "freevm pgdir =
     (if pgdir = 0 then kpanic ''freevm: no pgdir''
      else
        kseq (deallocuvm pgdir KERNBASE 0)
        (kseq (kfor [0..<NPDENTRIES] (\<lambda>i.
           kbind (ldw (pgdir + 4 * of_nat i)) (\<lambda>pde.
           kwhen (pde AND PTE_P \<noteq> 0) (kfree (p2v (PTE_ADDR pde))))))
        (kfree pgdir)))"

definition clearpteu :: "u32 \<Rightarrow> u32 \<Rightarrow> ('a mem_st_scheme, chan, unit) km" where
  "clearpteu pgdir uva =
     kbind (walkpgdir pgdir uva False) (\<lambda>pte.
     if pte = 0 then kpanic ''clearpteu''
     else kbind (ldw pte) (\<lambda>e. stw pte (e AND NOT PTE_U)))"

definition copyuvm_body :: "u32 \<Rightarrow> u32 \<Rightarrow> u32 \<Rightarrow> u32 \<Rightarrow> ('a mem_st_scheme, chan, u32 + u32) km" where
  "copyuvm_body pgdir sz d i =
     (if i < sz then
        kbind (walkpgdir pgdir i False) (\<lambda>pte.
        if pte = 0 then kpanic ''copyuvm: pte should exist''
        else
          kbind (ldw pte) (\<lambda>e.
          if e AND PTE_P = 0 then kpanic ''copyuvm: page not present''
          else
            let pa = PTE_ADDR e; flags = PTE_FLAGS e in
            kbind kalloc (\<lambda>mem.
            if mem = 0 then kseq (freevm d) (kreturn (Inr 0))
            else
              kseq (kmod (\<lambda>s. s\<lparr>pmem := memmove (pmem s) (at mem) (at (p2v pa)) PGBYTES\<rparr>))
              (kbind (mappages d i PGSIZE (v2p mem) flags) (\<lambda>r.
              if r < 0 then kseq (freevm d) (kreturn (Inr 0))
              else kreturn (Inl (i + PGSIZE)))))))
      else kreturn (Inr d))"

definition copyuvm :: "u32 \<Rightarrow> u32 \<Rightarrow> ('a mem_st_scheme, chan, u32) km" where
  "copyuvm pgdir sz =
     kbind setupkvm (\<lambda>d.
     if d = 0 then kreturn 0
     else kloop (2 ^ 20) (copyuvm_body pgdir sz d) 0)"

text \<open>
  The code does not test the result of \<open>walkpgdir\<close>: without a page table it reads the word at address 0
  of the address space that is active, the argument \<open>null\<close>.
\<close>

definition uva2ka :: "u32 \<Rightarrow> u32 \<Rightarrow> u32 \<Rightarrow> ('a mem_st_scheme, chan, u32) km" where
  "uva2ka null pgdir uva =
     kbind (walkpgdir pgdir uva False) (\<lambda>pte.
     kbind (if pte = 0 then kreturn null else ldw pte) (\<lambda>e.
     if e AND PTE_P = 0 then kreturn 0
     else if e AND PTE_U = 0 then kreturn 0
     else kreturn (p2v (PTE_ADDR e))))"

definition copyout_body :: "u32 \<Rightarrow> u32 \<Rightarrow> bytes \<Rightarrow> u32 \<times> nat \<times> u32 \<Rightarrow> ('a mem_st_scheme, chan, (u32 \<times> nat \<times> u32) + int) km" where
  "copyout_body null pgdir p = (\<lambda>(va, buf, len).
     if 0 < len then
       let va0 = PGROUNDDOWN va in
       kbind (uva2ka null pgdir va0) (\<lambda>pa0.
       if pa0 = 0 then kreturn (Inr (-1))
       else
         let n = PGSIZE - (va - va0);
             n = (if len < n then len else n) in
         kseq (kmod (\<lambda>s. s\<lparr>pmem := blit (pmem s) (at (pa0 + (va - va0))) p buf (unat n)\<rparr>))
         (kreturn (Inl (va0 + PGSIZE, buf + unat n, len - n))))
     else kreturn (Inr 0))"

definition copyout :: "u32 \<Rightarrow> u32 \<Rightarrow> u32 \<Rightarrow> bytes \<Rightarrow> u32 \<Rightarrow> ('a mem_st_scheme, chan, int) km" where
  "copyout null pgdir va p len = kloop (2 ^ 20 + 2) (copyout_body null pgdir p) (va, 0, len)"

end
