(* ===== verification/Vm_Spec.thy ===== *)
theory Vm_Spec
  imports Vm
begin

text \<open>
  What the page tables mean: the entry of every virtual page as a function of the memory that holds the
  tables, and the effect of walking, mapping and growing on that function, on the pages the tables
  take and on the free list.
\<close>

section \<open>Definitions\<close>

text \<open>Virtual pages are numbered from 0; entries are words of the directory and of its tables.\<close>

definition present :: "u32 \<Rightarrow> bool" where
  "present e \<longleftrightarrow> e AND PTE_P \<noteq> 0"

definition pde_at :: "bytes \<Rightarrow> u32 \<Rightarrow> nat \<Rightarrow> u32" where
  "pde_at m d i = ld32 m (at d + 4 * i)"

definition tab_of :: "u32 \<Rightarrow> u32" where
  "tab_of e = p2v (PTE_ADDR e)"

definition pte_at :: "bytes \<Rightarrow> u32 \<Rightarrow> nat \<Rightarrow> u32" where
  "pte_at m d vp = (let e = pde_at m d (vp div 1024) in if present e then ld32 m (at (tab_of e) + 4 * (vp mod 1024)) else 0)"

definition vpn :: "u32 \<Rightarrow> nat" where
  "vpn va = unat va div 4096"

text \<open>Every table is a page of its own.\<close>

definition pt_ok :: "u32 \<Rightarrow> bytes \<Rightarrow> u32 \<Rightarrow> bool" where
  "pt_ok e m d \<longleftrightarrow> page_ok e d \<and>
     (\<forall>i<1024. present (pde_at m d i) \<longrightarrow> page_ok e (tab_of (pde_at m d i)) \<and> tab_of (pde_at m d i) \<noteq> d) \<and>
     (\<forall>i<1024. \<forall>j<1024. present (pde_at m d i) \<and> present (pde_at m d j) \<and> tab_of (pde_at m d i) = tab_of (pde_at m d j) \<longrightarrow> i = j)"

definition pt_pages :: "bytes \<Rightarrow> u32 \<Rightarrow> u32 set" where
  "pt_pages m d = insert d (tab_of ` pde_at m d ` {i. i < 1024 \<and> present (pde_at m d i)})"

text \<open>The directory \<open>d\<close> in a state with free pages \<open>xs\<close>.\<close>

definition vm_inv :: "u32 \<Rightarrow> u32 list \<Rightarrow> 'a mem_st_scheme \<Rightarrow> bool" where
  "vm_inv d xs s \<longleftrightarrow> kmem_ok xs s \<and> pt_ok (k_end s) (pmem s) d \<and> pt_pages (pmem s) d \<inter> set xs = {}"

text \<open>From \<open>s\<close> to \<open>t\<close> the tables of \<open>d\<close> took pages from the free list, and only they were written.\<close>

definition grown :: "u32 \<Rightarrow> u32 list \<Rightarrow> 'a mem_st_scheme \<Rightarrow> u32 list \<Rightarrow> 'a mem_st_scheme \<Rightarrow> bool" where
  "grown d xs s ys t \<longleftrightarrow> (\<exists>m h. t = s\<lparr>pmem := m, kmem_freelist := h\<rparr>) \<and>
     (\<exists>zs. xs = zs @ ys \<and> pt_pages (pmem t) d = pt_pages (pmem s) d \<union> set zs) \<and>
     same_outside (pt_pages (pmem t) d) (pmem s) (pmem t)"

section \<open>Indices and entries\<close>

lemma take_unat [simp]: "take_bit 32 (unat (w :: u32)) = unat w"
  by (rule take_bit_nat_eq_self) (simp add: unat_u32_less)

lemma unat_PDX: "unat (PDX va) = vpn va div 1024"
proof -
  have "PDX va = take_bit 10 (drop_bit 22 va)" by (simp add: PDX_def take_bit_eq_mask mask_eq_exp_minus_1)
  then have "unat (PDX va) = take_bit 10 (drop_bit 22 (unat va))" by (simp add: unsigned_take_bit_eq unsigned_drop_bit_eq)
  also have "\<dots> = unat va div 4194304 mod 1024" by (simp add: take_bit_eq_mod drop_bit_eq_div)
  also have "\<dots> = unat va div 4194304" using unat_u32_less [of va] by simp
  finally show ?thesis by (simp add: vpn_def div_mult2_eq [symmetric])
qed

lemma unat_PTX: "unat (PTX va) = vpn va mod 1024"
proof -
  have "PTX va = take_bit 10 (drop_bit 12 va)" by (simp add: PTX_def take_bit_eq_mask mask_eq_exp_minus_1)
  then have "unat (PTX va) = take_bit 10 (drop_bit 12 (unat va))" by (simp add: unsigned_take_bit_eq unsigned_drop_bit_eq)
  then show ?thesis by (simp add: take_bit_eq_mod drop_bit_eq_div vpn_def)
qed

lemma vpn_bound: "vpn va < 1048576" "vpn va div 1024 < 1024"
  using unat_u32_less [of va] by (simp_all add: vpn_def)

lemma at_add:
  assumes "page_ok e v" and "unat k < 4096"
  shows "at (v + k) = at v + unat k" "v + k \<noteq> 0"
proof -
  have b: "unat (v2p v) + unat k < 2 ^ 32" using page_okD(6) [OF assms(1)] assms(2) by (simp add: at_def)
  have "v2p (v + k) = v2p v + k" by (simp add: v2p_def)
  then show "at (v + k) = at v + unat k" using b by (simp add: at_def unat_word_ariths)
  have "unat v < 2382364672" using page_okD(3,6) [OF assms(1)] by simp
  then have "unat (v + k) = unat v + unat k" using assms(2) by (simp add: unat_word_ariths)
  then show "v + k \<noteq> 0" using page_okD(4) [OF assms(1)] by (metis add_is_0 not_numeral_le_zero unat_0)
qed

lemma index4: "unat (k :: u32) < 1024 \<Longrightarrow> unat (4 * k) = 4 * unat k"
  by (simp add: unat_word_ariths)

lemma at_entry:
  assumes "page_ok e v" and "unat k < 1024"
  shows "at (v + 4 * k) = at v + 4 * unat k" "v + 4 * k \<noteq> 0"
  using at_add [OF assms(1), of "4 * k"] index4 [OF assms(2)] assms(2) by simp_all

lemma present_or: "present (x OR y) \<longleftrightarrow> present x \<or> present y" "present 1" "\<not> present 0"
proof -
  have p: "present e \<longleftrightarrow> odd e" for e by (simp add: present_def and_one_eq odd_iff_mod_2_eq_one)
  show "present (x OR y) \<longleftrightarrow> present x \<or> present y" by (simp add: p even_or_iff)
  show "present 1" "\<not> present 0" by (simp_all add: present_def)
qed

lemma addr_or:
  assumes "a mod PGSIZE = 0" and "unat f < 4096"
  shows "PTE_ADDR (a OR f) = a" "PTE_ADDR a = a"
proof -
  have "unat (a mod 4096) = 0" using assms(1) by simp
  then have "unat a mod 4096 = 0" by (simp add: unat_mod)
  then have "unat a div 4096 * 4096 = unat a" by auto
  then have a: "a AND NOT 0xFFF = a" using unat_round [of a] by (simp only: word_unat_eq_iff)
  moreover have "f AND NOT 0xFFF = 0" using unat_round [of f] assms(2) by (simp add: word_unat_eq_iff)
  ultimately show "PTE_ADDR (a OR f) = a" unfolding PTE_ADDR_def bit.conj_disj_distrib2 by simp
  show "PTE_ADDR a = a" unfolding PTE_ADDR_def by (rule a)
qed

lemma v2p_aligned: "page_ok e x \<Longrightarrow> v2p x mod PGSIZE = 0"
  using page_okD(7) [of e x] by (simp add: at_def word_unat_eq_iff unat_mod)

lemma tab_of_new: "page_ok e x \<Longrightarrow> tab_of (v2p x OR PTE_P OR PTE_W OR PTE_U) = x"
  using addr_or(1) [OF v2p_aligned, of e x "7"] by (simp add: tab_of_def p2v_def v2p_def)

lemma present_new: "present (a OR PTE_P OR PTE_W OR PTE_U)"
  by (simp only: present_or) simp

section \<open>Frames\<close>

lemma pt_okD:
  assumes "pt_ok e m d"
  shows "page_ok e d" "\<And>i. i < 1024 \<Longrightarrow> present (pde_at m d i) \<Longrightarrow> page_ok e (tab_of (pde_at m d i))"
    "\<And>i. i < 1024 \<Longrightarrow> present (pde_at m d i) \<Longrightarrow> tab_of (pde_at m d i) \<noteq> d"
    "\<And>i j. i < 1024 \<Longrightarrow> j < 1024 \<Longrightarrow> present (pde_at m d i) \<Longrightarrow> present (pde_at m d j) \<Longrightarrow>
      tab_of (pde_at m d i) = tab_of (pde_at m d j) \<Longrightarrow> i = j"
  using assms unfolding pt_ok_def by blast+

lemma pt_pages_ok: "pt_ok e m d \<Longrightarrow> p \<in> pt_pages m d \<Longrightarrow> page_ok e p"
  using pt_okD(1,2) [of e m d] by (auto simp: pt_pages_def)

lemma pt_pagesI: "i < 1024 \<Longrightarrow> present (pde_at m d i) \<Longrightarrow> tab_of (pde_at m d i) \<in> pt_pages m d" "d \<in> pt_pages m d"
  by (auto simp: pt_pages_def)

lemma word_same:
  assumes "same_outside P m m'" "page_ok e x" "\<forall>p\<in>P. page_ok e p" "x \<notin> P" "k < 1024"
  shows "ld32 m' (at x + 4 * k) = ld32 m (at x + 4 * k)"
proof (rule ld32_cong)
  fix i :: nat
  assume "i < 4"
  then show "m' (at x + 4 * k + i) = m (at x + 4 * k + i)"
    using same_outside_page [OF assms(1-4), of "4 * k + i"] assms(5) by (simp add: add.assoc)
qed

text \<open>Writing to pages that are not the directory's leaves it alone.\<close>

lemma pt_same:
  assumes pt: "pt_ok e m d" and P: "same_outside P m m'" "\<forall>p\<in>P. page_ok e p" "P \<inter> pt_pages m d = {}"
  shows "i < 1024 \<Longrightarrow> pde_at m' d i = pde_at m d i" "pt_ok e m' d" "pt_pages m' d = pt_pages m d"
    "vp < 1048576 \<Longrightarrow> pte_at m' d vp = pte_at m d vp"
proof -
  have pde: "pde_at m' d i = pde_at m d i" if "i < 1024" for i
    unfolding pde_at_def using pt_pagesI(2) P(3) by (intro word_same [OF P(1) pt_okD(1) [OF pt] P(2) _ that]) blast
  then show "i < 1024 \<Longrightarrow> pde_at m' d i = pde_at m d i" by blast
  show "pt_ok e m' d" using pt pde unfolding pt_ok_def by simp
  have "pde_at m' d ` {i. i < 1024 \<and> present (pde_at m' d i)} = pde_at m d ` {i. i < 1024 \<and> present (pde_at m d i)}"
    using pde by (intro image_cong) auto
  then show "pt_pages m' d = pt_pages m d" by (simp add: pt_pages_def)
  show "pte_at m' d vp = pte_at m d vp" if "vp < 1048576"
  proof -
    have i: "vp div 1024 < 1024" using that by simp
    have "ld32 m' (at (tab_of (pde_at m d (vp div 1024))) + 4 * (vp mod 1024)) = ld32 m (at (tab_of (pde_at m d (vp div 1024))) + 4 * (vp mod 1024))"
      if pr: "present (pde_at m d (vp div 1024))"
      using pt_pagesI(1) [OF i pr] P(3) by (intro word_same [OF P(1) pt_okD(2) [OF pt i pr] P(2)]) auto
    then show ?thesis using pde [OF i] by (simp add: pte_at_def Let_def)
  qed
qed

lemma grown_refl: "vm_inv d xs s \<Longrightarrow> grown d xs s xs s"
  unfolding grown_def by (intro conjI exI [of _ "pmem s"] exI [of _ "kmem_freelist s"] exI [of _ "[]"]) simp_all

lemma grown_trans:
  assumes "grown d xs s ys t" "grown d ys t zs u"
  shows "grown d xs s zs u"
proof -
  obtain m h as m' h' bs where a: "t = s\<lparr>pmem := m, kmem_freelist := h\<rparr>" "xs = as @ ys" "pt_pages (pmem t) d = pt_pages (pmem s) d \<union> set as"
      "same_outside (pt_pages (pmem t) d) (pmem s) (pmem t)"
    and b: "u = t\<lparr>pmem := m', kmem_freelist := h'\<rparr>" "ys = bs @ zs" "pt_pages (pmem u) d = pt_pages (pmem t) d \<union> set bs"
      "same_outside (pt_pages (pmem u) d) (pmem t) (pmem u)"
    using assms unfolding grown_def by blast
  have "u = s\<lparr>pmem := m', kmem_freelist := h'\<rparr>" using a(1) b(1) by simp
  moreover have "xs = (as @ bs) @ zs" "pt_pages (pmem u) d = pt_pages (pmem s) d \<union> set (as @ bs)" using a(2,3) b(2,3) by auto
  moreover have "same_outside (pt_pages (pmem u) d) (pmem s) (pmem u)"
    by (rule same_outside_trans [OF a(4) b(4)]) (use b(3) in auto)
  ultimately show ?thesis unfolding grown_def by blast
qed

lemma grown_end [simp]: "grown d xs s ys t \<Longrightarrow> k_end t = k_end s"
  by (auto simp: grown_def)

section \<open>Walking\<close>

lemma walk_run:
  assumes pt: "pt_ok e (pmem s) d" and i: "i = vpn va div 1024"
  shows "present (pde_at (pmem s) d i) \<Longrightarrow> walkpgdir d va alloc s = Ok (tab_of (pde_at (pmem s) d i) + 4 * PTX va) s"
    "\<not> present (pde_at (pmem s) d i) \<Longrightarrow> walkpgdir d va False s = Ok 0 s"
    "ldw (d + 4 * PDX va) s = Ok (pde_at (pmem s) d i) s"
proof -
  have "at (d + 4 * PDX va) = at d + 4 * i" using at_entry(1) [OF pt_okD(1) [OF pt], of "PDX va"] unat_PDX [of va] vpn_bound(2) [of va] i by simp
  then show l: "ldw (d + 4 * PDX va) s = Ok (pde_at (pmem s) d i) s" by (simp add: ldw_def kmonad pde_at_def)
  show "present (pde_at (pmem s) d i) \<Longrightarrow> walkpgdir d va alloc s = Ok (tab_of (pde_at (pmem s) d i) + 4 * PTX va) s"
    "\<not> present (pde_at (pmem s) d i) \<Longrightarrow> walkpgdir d va False s = Ok 0 s"
    using l by (simp_all add: walkpgdir_def kmonad present_def tab_of_def)
qed

text \<open>The entry a walk leads to.\<close>

lemma slot_at:
  assumes "pt_ok e m d" and "present (pde_at m d (vpn va div 1024))"
  shows "at (tab_of (pde_at m d (vpn va div 1024)) + 4 * PTX va) = at (tab_of (pde_at m d (vpn va div 1024))) + 4 * (vpn va mod 1024)"
    "tab_of (pde_at m d (vpn va div 1024)) + 4 * PTX va \<noteq> 0"
  using at_entry [OF pt_okD(2) [OF assms(1) vpn_bound(2) assms(2)], of "PTX va"] unat_PTX [of va] by simp_all

text \<open>A new table: the directory gains a page of zeros, and no entry changes.\<close>

lemma zero_word: "k < 1024 \<Longrightarrow> ld32 (fill m a 0 4096) (a + 4 * k) = 0"
  by (rule ld32_zero) (simp add: fill_def)

lemma words_apart: "i \<noteq> j \<Longrightarrow> a + 4 * i + 4 \<le> a + 4 * j \<or> a + 4 * j + 4 \<le> (a + 4 * i :: nat)"
  by linarith

lemma new_table:
  assumes pt: "pt_ok e m d" and x: "page_ok e x" "x \<notin> pt_pages m d" and i: "i < 1024" "\<not> present (pde_at m d i)"
  defines "m' \<equiv> st32 (fill m (at x) 0 4096) (at d + 4 * i) (v2p x OR PTE_P OR PTE_W OR PTE_U)"
  shows "j < 1024 \<Longrightarrow> pde_at m' d j = (if j = i then v2p x OR PTE_P OR PTE_W OR PTE_U else pde_at m d j)"
    "pt_ok e m' d" "pt_pages m' d = insert x (pt_pages m d)" "same_outside {d, x} m m'"
    "vp < 1048576 \<Longrightarrow> pte_at m' d vp = pte_at m d vp"
proof -
  let ?w = "v2p x OR PTE_P OR PTE_W OR PTE_U"
  note D = pt_okD [OF pt]
  have dx: "x \<noteq> d" using x(2) pt_pagesI(2) [of d m] by blast
  have tw: "tab_of ?w = x" "present ?w" using tab_of_new [OF x(1)] present_new by blast+
  have fx: "same_outside {x} m (fill m (at x) 0 4096)" using fill_outside_page [of x m 0] by simp
  have sd: "same_outside {d} (fill m (at x) 0 4096) m'" unfolding m'_def by (rule st32_outside_page) (use i in simp_all)
  show same: "same_outside {d, x} m m'" by (rule same_outside_trans [OF fx sd]) auto
  have pde: "pde_at m' d j = (if j = i then ?w else pde_at m d j)" if "j < 1024" for j
  proof (cases "j = i")
    case True
    then show ?thesis by (simp add: pde_at_def m'_def)
  next
    case False
    then have "pde_at m' d j = pde_at (fill m (at x) 0 4096) d j"
      using words_apart [of i j "at d"] unfolding pde_at_def m'_def by (simp add: ld32_st32_other)
    also have "\<dots> = pde_at m d j" unfolding pde_at_def by (rule word_same [OF fx D(1) _ _ that]) (use x(1) dx in auto)
    finally show ?thesis using False by simp
  qed
  then show "j < 1024 \<Longrightarrow> pde_at m' d j = (if j = i then ?w else pde_at m d j)" by blast
  have nx: "j < 1024 \<Longrightarrow> present (pde_at m d j) \<Longrightarrow> tab_of (pde_at m d j) \<noteq> x" for j
    using pt_pagesI(1) [of j m d] x(2) by metis
  show "pt_ok e m' d" unfolding pt_ok_def
  proof (intro conjI allI impI)
    show "page_ok e d" by (rule D(1))
    show "page_ok e (tab_of (pde_at m' d j))" "tab_of (pde_at m' d j) \<noteq> d" if "j < 1024" "present (pde_at m' d j)" for j
      using that D(2,3) [of j] pde x(1) dx tw by (auto split: if_splits)
    show "j = k" if "j < 1024" "k < 1024" "present (pde_at m' d j) \<and> present (pde_at m' d k) \<and> tab_of (pde_at m' d j) = tab_of (pde_at m' d k)" for j k
      using that D(4) [of j k] pde [of j] pde [of k] tw nx [of j] nx [of k] by (auto split: if_splits)
  qed
  have "{j. j < 1024 \<and> present (pde_at m' d j)} = insert i {j. j < 1024 \<and> present (pde_at m d j)}"
    using pde tw(2) i by (auto split: if_splits)
  moreover have "pde_at m' d ` {j. j < 1024 \<and> present (pde_at m d j)} = pde_at m d ` {j. j < 1024 \<and> present (pde_at m d j)}"
    using pde i by (intro image_cong) auto
  ultimately show "pt_pages m' d = insert x (pt_pages m d)" using pde [OF i(1)] tw(1) by (auto simp: pt_pages_def)
  show "pte_at m' d vp = pte_at m d vp" if "vp < 1048576"
  proof -
    let ?j = "vp div 1024" and ?k = "vp mod 1024"
    have j: "?j < 1024" using that by simp
    have k: "?k < 1024" by simp
    show ?thesis
    proof (cases "?j = i")
      case True
      have "ld32 m' (at x + 4 * ?k) = ld32 (fill m (at x) 0 4096) (at x + 4 * ?k)"
        by (rule word_same [OF sd x(1) _ _ k]) (use D(1) dx in auto)
      also have "\<dots> = 0" by (rule zero_word [OF k])
      finally show ?thesis using True pde [OF j] tw i(2) by (simp add: pte_at_def)
    next
      case False
      have "ld32 m' (at (tab_of (pde_at m d ?j)) + 4 * ?k) = ld32 m (at (tab_of (pde_at m d ?j)) + 4 * ?k)" if p: "present (pde_at m d ?j)"
        by (rule word_same [OF same D(2) [OF j p] _ _ k]) (use D(1) x(1) D(3) [OF j p] nx [OF j p] in auto)
      then show ?thesis using False pde [OF j] by (simp add: pte_at_def Let_def)
    qed
  qed
qed

text \<open>Storing an entry.\<close>

lemma set_entry:
  fixes w :: u32
  assumes pt: "pt_ok e m d" and vp: "vp < 1048576" "present (pde_at m d (vp div 1024))"
  defines "m' \<equiv> st32 m (at (tab_of (pde_at m d (vp div 1024))) + 4 * (vp mod 1024)) w"
  shows "pt_ok e m' d" "pt_pages m' d = pt_pages m d" "same_outside (pt_pages m d) m m'"
    "\<And>j. j < 1024 \<Longrightarrow> pde_at m' d j = pde_at m d j"
    "\<And>vq. vq < 1048576 \<Longrightarrow> pte_at m' d vq = (if vq = vp then w else pte_at m d vq)"
proof -
  let ?T = "tab_of (pde_at m d (vp div 1024))"
  note D = pt_okD [OF pt]
  have i: "vp div 1024 < 1024" using vp(1) by simp
  have s: "same_outside {?T} m m'" unfolding m'_def by (rule st32_outside_page) simp_all
  then show "same_outside (pt_pages m d) m m'" by (rule same_outside_mono) (use pt_pagesI(1) [OF i vp(2)] in simp)
  have pde: "pde_at m' d j = pde_at m d j" if "j < 1024" for j
    unfolding pde_at_def by (rule word_same [OF s D(1) _ _ that]) (use D(2,3) [OF i vp(2)] in auto)
  then show "\<And>j. j < 1024 \<Longrightarrow> pde_at m' d j = pde_at m d j" .
  show "pt_ok e m' d" using pt pde unfolding pt_ok_def by simp
  have "pde_at m' d ` {i. i < 1024 \<and> present (pde_at m' d i)} = pde_at m d ` {i. i < 1024 \<and> present (pde_at m d i)}"
    using pde by (intro image_cong) auto
  then show "pt_pages m' d = pt_pages m d" by (simp add: pt_pages_def)
  fix vq :: nat
  assume q: "vq < 1048576"
  then have j: "vq div 1024 < 1024" by simp
  have k: "vq mod 1024 < 1024" by simp
  show "pte_at m' d vq = (if vq = vp then w else pte_at m d vq)"
  proof (cases "vq div 1024 = vp div 1024")
    case True
    then have "vq \<noteq> vp \<Longrightarrow> vq mod 1024 \<noteq> vp mod 1024" by (metis div_mult_mod_eq)
    then have "vq \<noteq> vp \<Longrightarrow> ld32 m' (at ?T + 4 * (vq mod 1024)) = ld32 m (at ?T + 4 * (vq mod 1024))"
      using words_apart [of "vp mod 1024" "vq mod 1024" "at ?T"] unfolding m'_def by (simp add: ld32_st32_other)
    then show ?thesis using True pde [OF j] vp(2) by (auto simp: pte_at_def Let_def m'_def)
  next
    case False
    have "ld32 m' (at (tab_of (pde_at m d (vq div 1024))) + 4 * (vq mod 1024)) = ld32 m (at (tab_of (pde_at m d (vq div 1024))) + 4 * (vq mod 1024))"
      if p: "present (pde_at m d (vq div 1024))"
      by (rule word_same [OF s D(2) [OF j p] _ _ k]) (use D(2) [OF i vp(2)] D(4) [OF j i p vp(2)] False in auto)
    then show ?thesis using False pde [OF j] by (auto simp: pte_at_def Let_def)
  qed
qed

section \<open>Mapping\<close>

text \<open>After a walk that may allocate, the table is there and no entry changed.\<close>

lemma walk_alloc:
  assumes I: "vm_inv d xs s" and i: "i = vpn va div 1024" and room: "present (pde_at (pmem s) d i) \<or> xs \<noteq> []"
  shows "\<exists>ys t. walkpgdir d va True s = Ok (tab_of (pde_at (pmem t) d i) + 4 * PTX va) t \<and> vm_inv d ys t \<and> grown d xs s ys t \<and>
    present (pde_at (pmem t) d i) \<and> (\<forall>j<1024. j \<noteq> i \<longrightarrow> pde_at (pmem t) d j = pde_at (pmem s) d j) \<and>
    (\<forall>vp<1048576. pte_at (pmem t) d vp = pte_at (pmem s) d vp) \<and>
    ys = (if present (pde_at (pmem s) d i) then xs else tl xs)"
proof (cases "present (pde_at (pmem s) d i)")
  case True
  have "pt_ok (k_end s) (pmem s) d" using I by (simp add: vm_inv_def)
  from walk_run(1) [OF this i True, of True] True I grown_refl [OF I] show ?thesis
    by (intro exI [of _ xs] exI [of _ s]) simp
next
  case False
  then obtain x ys where xs: "xs = x # ys" using room by (cases xs) auto
  have K: "kmem_ok (x # ys) s" and pt: "pt_ok (k_end s) (pmem s) d" and fr: "pt_pages (pmem s) d \<inter> set (x # ys) = {}"
    using I xs by (simp_all add: vm_inv_def)
  obtain h where h: "kalloc s = Ok x (s\<lparr>kmem_freelist := h\<rparr>)" "kmem_ok ys (s\<lparr>kmem_freelist := h\<rparr>)"
    using kalloc_run [OF K] by auto
  have x: "page_ok (k_end s) x" "x \<notin> pt_pages (pmem s) d" "x \<notin> set ys" using K fr by (auto simp: kmem_ok_def)
  have ib: "i < 1024" using i vpn_bound(2) by simp
  let ?m = "st32 (fill (pmem s) (at x) 0 4096) (at d + 4 * i) (v2p x OR PTE_P OR PTE_W OR PTE_U)"
  let ?t = "s\<lparr>kmem_freelist := h, pmem := ?m\<rparr>"
  note N = new_table [OF pt x(1,2) ib False]
  have slot: "at (d + 4 * PDX va) = at d + 4 * i"
    using at_entry(1) [OF pt_okD(1) [OF pt], of "PDX va"] unat_PDX [of va] vpn_bound(2) [of va] i by simp
  have tab: "present (pde_at ?m d i)" "tab_of (pde_at ?m d i) = x"
    unfolding N(1) [OF ib] using tab_of_new [OF x(1)] present_new by simp_all
  have "walkpgdir d va True s = Ok (x + 4 * PTX va) ?t"
    using walk_run(3) [OF pt i] False h(1) page_okD(1) [OF x(1)] slot
    by (simp add: walkpgdir_def present_def kmonad zero_page_def stw_def memset_fill)
  moreover have "kmem_ok ys ?t"
    by (rule kmem_ok_same [OF h(2), of "{d, x}"]) (use N(4) x fr pt_okD(1) [OF pt] pt_pagesI(2) [of d "pmem s"] K in \<open>auto simp: kmem_ok_def\<close>)
  then have "vm_inv d ys ?t" using N(2,3) x(3) fr by (auto simp: vm_inv_def)
  moreover have "grown d xs s ys ?t" unfolding grown_def
    by (intro conjI exI [of _ ?m] exI [of _ h] exI [of _ "[x]"]) (use N(3) same_outside_mono [OF N(4)] xs pt_pagesI(2) [of d "pmem s"] in auto)
  ultimately show ?thesis using False xs tab N(1,5) by (intro exI [of _ ys] exI [of _ ?t]) auto
qed

text \<open>One round of \<open>mappages\<close>.\<close>

lemma map_step:
  assumes I: "vm_inv d xs s" and i: "i = vpn a div 1024" and room: "present (pde_at (pmem s) d i) \<or> xs \<noteq> []"
    and free: "\<not> present (pte_at (pmem s) d (vpn a))"
  shows "\<exists>ys t. mappages_body d last_a perm (a, pa) s = Ok (if a = last_a then Inr 0 else Inl (a + PGSIZE, pa + PGSIZE)) t \<and>
    vm_inv d ys t \<and> grown d xs s ys t \<and> present (pde_at (pmem t) d i) \<and>
    (\<forall>j<1024. j \<noteq> i \<longrightarrow> pde_at (pmem t) d j = pde_at (pmem s) d j) \<and>
    (\<forall>vp<1048576. pte_at (pmem t) d vp = (if vp = vpn a then pa OR perm OR PTE_P else pte_at (pmem s) d vp)) \<and>
    ys = (if present (pde_at (pmem s) d i) then xs else tl xs)"
proof -
  obtain ys s1 where s1: "walkpgdir d a True s = Ok (tab_of (pde_at (pmem s1) d i) + 4 * PTX a) s1" "vm_inv d ys s1" "grown d xs s ys s1"
      "present (pde_at (pmem s1) d i)" "\<forall>j<1024. j \<noteq> i \<longrightarrow> pde_at (pmem s1) d j = pde_at (pmem s) d j"
      "\<forall>vp<1048576. pte_at (pmem s1) d vp = pte_at (pmem s) d vp" "ys = (if present (pde_at (pmem s) d i) then xs else tl xs)"
    using walk_alloc [OF I i room] by blast
  let ?w = "pa OR perm OR PTE_P" and ?slot = "tab_of (pde_at (pmem s1) d i) + 4 * PTX a"
  let ?m = "st32 (pmem s1) (at (tab_of (pde_at (pmem s1) d i)) + 4 * (vpn a mod 1024)) ?w"
  let ?t = "s1\<lparr>pmem := ?m\<rparr>"
  have pt: "pt_ok (k_end s1) (pmem s1) d" using s1(2) by (simp add: vm_inv_def)
  note S = slot_at [OF pt, of a] and E = set_entry [OF pt vpn_bound(1) [of a], where w = ?w]
  have pr: "present (pde_at (pmem s1) d (vpn a div 1024))" using s1(4) i by simp
  have "ldw ?slot s1 = Ok (pte_at (pmem s1) d (vpn a)) s1"
    using S(1) [OF pr] pr i by (simp add: ldw_def kmonad pte_at_def)
  then have "ldw ?slot s1 = Ok (pte_at (pmem s) d (vpn a)) s1" using s1(6) vpn_bound(1) [of a] by simp
  then have "mappages_body d last_a perm (a, pa) s = Ok (if a = last_a then Inr 0 else Inl (a + PGSIZE, pa + PGSIZE)) ?t"
    using s1(1) S [OF pr] free i by (simp add: mappages_body_def kmonad present_def stw_def)
  moreover have K: "kmem_ok ys ?t"
    by (rule kmem_ok_same [of _ s1 "pt_pages (pmem s1) d"])
      (use s1(2) E(3) [OF pr] pt_pages_ok [OF pt] i in \<open>auto simp: vm_inv_def kmem_ok_def\<close>)
  have "vm_inv d ys ?t" using K s1(2) E(1,2) [OF pr] i by (simp add: vm_inv_def)
  moreover have "grown d ys s1 ys ?t" unfolding grown_def
    by (intro conjI exI [of _ ?m] exI [of _ "kmem_freelist s1"] exI [of _ "[]"]) (use E(2,3) [OF pr] i in \<open>auto\<close>)
  then have "grown d xs s ys ?t" by (rule grown_trans [OF s1(3)])
  moreover have pde: "\<forall>j<1024. pde_at (pmem ?t) d j = pde_at (pmem s1) d j" using E(4) [OF pr] i by simp
  then have "present (pde_at (pmem ?t) d i)" using s1(4) i vpn_bound(2) [of a] by simp
  moreover have "\<forall>j<1024. j \<noteq> i \<longrightarrow> pde_at (pmem ?t) d j = pde_at (pmem s) d j" using pde s1(5) by simp
  moreover have "\<forall>vp<1048576. pte_at (pmem ?t) d vp = (if vp = vpn a then ?w else pte_at (pmem s) d vp)"
    using E(5) [OF pr] s1(6) i by simp
  ultimately show ?thesis using s1(7) by blast
qed

text \<open>The tables still missing for the virtual pages \<open>vp, ..., vp + k\<close>.\<close>

definition missing :: "bytes \<Rightarrow> u32 \<Rightarrow> nat \<Rightarrow> nat \<Rightarrow> nat set" where
  "missing m d vp k = {i. vp div 1024 \<le> i \<and> i \<le> (vp + k) div 1024 \<and> \<not> present (pde_at m d i)}"

lemma finite_missing [simp]: "finite (missing m d vp k)"
  by (rule finite_subset [of _ "{..(vp + k) div 1024}"]) (auto simp: missing_def)

lemma vpn_aligned:
  assumes "unat a = vp * 4096"
  shows "vpn a = vp" "vp < 1048576"
  using assms unat_u32_less [of a] by (simp_all add: vpn_def)

lemma missing_step:
  assumes "vp + Suc k < 1048576" and "present (pde_at m' d (vp div 1024))" and "\<forall>j<1024. j \<noteq> vp div 1024 \<longrightarrow> pde_at m' d j = pde_at m d j"
  shows "missing m' d (Suc vp) k \<subseteq> missing m d vp (Suc k) - {vp div 1024}"
proof
  fix i
  assume "i \<in> missing m' d (Suc vp) k"
  then have i: "Suc vp div 1024 \<le> i" "i \<le> (vp + Suc k) div 1024" "\<not> present (pde_at m' d i)" by (simp_all add: missing_def)
  have "vp div 1024 \<le> i" using i(1) div_le_mono [of vp "Suc vp" 1024] by simp
  moreover have "(vp + Suc k) div 1024 < 1024" using assms(1) by simp
  then have "i < 1024" using i(2) by simp
  ultimately show "i \<in> missing m d vp (Suc k) - {vp div 1024}" using i assms(2,3) by (auto simp: missing_def)
qed

lemma missing_room: "card (missing m d vp k) \<le> length xs \<Longrightarrow> present (pde_at m d (vp div 1024)) \<or> xs \<noteq> []"
proof (rule ccontr)
  assume c: "card (missing m d vp k) \<le> length xs" and "\<not> (present (pde_at m d (vp div 1024)) \<or> xs \<noteq> [])"
  then have "vp div 1024 \<in> missing m d vp k" "xs = []" by (auto simp: missing_def div_le_mono)
  then show False using c by (auto simp: card_eq_0_iff)
qed

lemma mappages_loop:
  assumes "vm_inv d xs s" and "unat a = vp * 4096" and "vp + k < 1048576" and "unat last_a = (vp + k) * 4096"
    and "\<forall>j\<le>k. \<not> present (pte_at (pmem s) d (vp + j))" and "card (missing (pmem s) d vp k) \<le> length xs" and "k < fuel"
  shows "\<exists>ys t. kloop fuel (mappages_body d last_a perm) (a, pa) s = Ok 0 t \<and> vm_inv d ys t \<and> grown d xs s ys t \<and>
    (\<forall>vq<1048576. pte_at (pmem t) d vq =
      (if vp \<le> vq \<and> vq \<le> vp + k then (pa + of_nat (vq - vp) * PGSIZE) OR perm OR PTE_P else pte_at (pmem s) d vq)) \<and>
    length xs - card (missing (pmem s) d vp k) \<le> length ys"
  using assms
proof (induction k arbitrary: a vp pa xs s fuel)
  case 0
  note v = vpn_aligned [OF 0(2)]
  have last_a: "a = last_a" using 0(2,4) by (simp add: word_unat_eq_iff)
  obtain ys t where t: "mappages_body d last_a perm (a, pa) s = Ok (Inr 0) t" "vm_inv d ys t" "grown d xs s ys t"
      "\<forall>vq<1048576. pte_at (pmem t) d vq = (if vq = vp then pa OR perm OR PTE_P else pte_at (pmem s) d vq)"
      "ys = (if present (pde_at (pmem s) d (vp div 1024)) then xs else tl xs)"
    using map_step [OF 0(1) refl, of a last_a perm pa] missing_room [OF 0(6)] 0(5) v last_a by auto
  have "missing (pmem s) d vp 0 = (if present (pde_at (pmem s) d (vp div 1024)) then {} else {vp div 1024})"
    by (auto simp: missing_def)
  then have "length xs - card (missing (pmem s) d vp 0) \<le> length ys" using t(5) by simp
  moreover have "kloop fuel (mappages_body d last_a perm) (a, pa) s = Ok 0 t" using t(1) 0(7) by (simp add: kloop_exit)
  ultimately show ?case using t(2,3,4) by (intro exI [of _ ys] exI [of _ t]) auto
next
  case (Suc k)
  note v = vpn_aligned [OF Suc.prems(2)]
  let ?i = "vp div 1024"
  have ne: "a \<noteq> last_a" using Suc.prems(2,4) by auto
  have fr: "\<not> present (pte_at (pmem s) d (vpn a))" using Suc.prems(5) [rule_format, of 0] v(1) by simp
  obtain ys s1 where s1: "mappages_body d last_a perm (a, pa) s = Ok (Inl (a + PGSIZE, pa + PGSIZE)) s1" "vm_inv d ys s1" "grown d xs s ys s1"
      "present (pde_at (pmem s1) d ?i)" "\<forall>j<1024. j \<noteq> ?i \<longrightarrow> pde_at (pmem s1) d j = pde_at (pmem s) d j"
      "\<forall>vq<1048576. pte_at (pmem s1) d vq = (if vq = vp then pa OR perm OR PTE_P else pte_at (pmem s) d vq)"
      "ys = (if present (pde_at (pmem s) d ?i) then xs else tl xs)"
    using map_step [OF Suc.prems(1) _ missing_room [OF Suc.prems(6)] fr, of last_a perm pa] v(1) ne by auto
  have sub: "missing (pmem s1) d (Suc vp) k \<subseteq> missing (pmem s) d vp (Suc k) - {?i}"
    using missing_step [OF Suc.prems(3) s1(4,5)] .
  then have c0: "card (missing (pmem s1) d (Suc vp) k) \<le> card (missing (pmem s) d vp (Suc k) - {?i})"
    by (intro card_mono) simp_all
  have "?i \<in> missing (pmem s) d vp (Suc k)" if "\<not> present (pde_at (pmem s) d ?i)"
    using that by (simp add: missing_def div_le_mono)
  then have c: "card (missing (pmem s1) d (Suc vp) k) + (length xs - length ys) \<le> card (missing (pmem s) d vp (Suc k))"
    using c0 s1(7) card_Diff_singleton [of ?i "missing (pmem s) d vp (Suc k)"] card_gt_0_iff [of "missing (pmem s) d vp (Suc k)"]
      card_Diff1_le [of "missing (pmem s) d vp (Suc k)" ?i]
    by (cases "present (pde_at (pmem s) d ?i)"; cases xs) force+
  obtain f where f: "fuel = Suc f" "k < f" using Suc.prems(7) by (cases fuel) auto
  have a': "unat (a + PGSIZE) = Suc vp * 4096" using Suc.prems(2,3) by (simp add: unat_word_ariths)
  have len: "length ys \<le> length xs" using s1(7) by simp
  have "\<forall>j\<le>k. \<not> present (pte_at (pmem s1) d (Suc vp + j))" using s1(6) Suc.prems(3,5) by auto
  moreover have "Suc vp + k < 1048576" "unat last_a = (Suc vp + k) * 4096" using Suc.prems(3,4) by simp_all
  moreover have "card (missing (pmem s1) d (Suc vp) k) \<le> length ys" using c Suc.prems(6) len by simp
  ultimately obtain zs t where t: "kloop f (mappages_body d last_a perm) (a + PGSIZE, pa + PGSIZE) s1 = Ok 0 t" "vm_inv d zs t" "grown d ys s1 zs t"
      "\<forall>vq<1048576. pte_at (pmem t) d vq = (if Suc vp \<le> vq \<and> vq \<le> Suc vp + k
        then (pa + PGSIZE + of_nat (vq - Suc vp) * PGSIZE) OR perm OR PTE_P else pte_at (pmem s1) d vq)"
      "length ys - card (missing (pmem s1) d (Suc vp) k) \<le> length zs"
    using Suc.IH [OF s1(2) a' _ _ _ _ f(2), of "pa + PGSIZE"] by blast
  have "pa + PGSIZE + of_nat (vq - Suc vp) * PGSIZE = pa + of_nat (vq - vp) * PGSIZE" if "Suc vp \<le> vq" for vq
  proof -
    have "vq - vp = Suc (vq - Suc vp)" using that by simp
    then show ?thesis by (simp add: algebra_simps)
  qed
  then have "\<forall>vq<1048576. pte_at (pmem t) d vq = (if vp \<le> vq \<and> vq \<le> vp + Suc k
        then (pa + of_nat (vq - vp) * PGSIZE) OR perm OR PTE_P else pte_at (pmem s) d vq)"
    using t(4) s1(6) by auto
  moreover have "kloop fuel (mappages_body d last_a perm) (a, pa) s = Ok 0 t" using s1(1) t(1) by (simp only: f(1) kloop_next)
  moreover have "length xs - card (missing (pmem s) d vp (Suc k)) \<le> length zs" using t(5) c len by simp
  ultimately show ?case using t(2) grown_trans [OF s1(3) t(3)] by blast
qed

text \<open>A whole range of bytes: the virtual pages it meets are mapped to consecutive physical pages.\<close>

lemma unat_range_end:
  fixes va sz :: u32
  assumes "0 < unat sz" and "unat va + unat sz \<le> 2 ^ 32"
  shows "unat (va + sz - 1) = unat va + unat sz - 1"
proof -
  have "va + sz - 1 = of_nat (unat va + unat sz - 1)" using assms(1) by (simp add: of_nat_diff)
  moreover have "unat va + unat sz - 1 < 2 ^ 32" using assms by simp
  ultimately show ?thesis by (simp only: unat_of_nat) (simp add: take_bit_nat_eq_self)
qed

lemma mappages_run:
  assumes I: "vm_inv d xs s" and sz: "0 < unat sz" "unat va + unat sz \<le> 2 ^ 32"
    and vp: "vp = vpn va" "vp + k = (unat va + unat sz - 1) div 4096"
    and free: "\<forall>j\<le>k. \<not> present (pte_at (pmem s) d (vp + j))" and room: "card (missing (pmem s) d vp k) \<le> length xs"
  shows "\<exists>ys t. mappages d va sz pa perm s = Ok 0 t \<and> vm_inv d ys t \<and> grown d xs s ys t \<and>
    (\<forall>vq<1048576. pte_at (pmem t) d vq =
      (if vp \<le> vq \<and> vq \<le> vp + k then (pa + of_nat (vq - vp) * PGSIZE) OR perm OR PTE_P else pte_at (pmem s) d vq)) \<and>
    length xs - card (missing (pmem s) d vp k) \<le> length ys"
proof -
  have "unat (PGROUNDDOWN va) = vp * 4096" using unat_PGROUNDDOWN vp(1) by (simp add: vpn_def)
  moreover have "unat (PGROUNDDOWN (va + sz - 1)) = (vp + k) * 4096" using unat_PGROUNDDOWN unat_range_end [OF sz] vp(2) by simp
  moreover have b: "vp + k < 1048576" using vp(2) sz by simp
  ultimately show ?thesis unfolding mappages_def using mappages_loop [OF I _ b _ free room, of _ _ "2 ^ 20" perm pa] by simp
qed

end
