(* ===== verification/Vm_Space.thy ===== *)
theory Vm_Space
  imports Vm_Spec
begin

text \<open>
  Whole address spaces: what \<open>setupkvm\<close> maps, and how \<open>allocuvm\<close> grows the user part.
\<close>

section \<open>The kernel part\<close>

text \<open>The tables that a range touches at most.\<close>

lemma card_missing: "card (missing m d vp k) \<le> Suc ((vp + k) div 1024 - vp div 1024)"
proof -
  have "missing m d vp k \<subseteq> {vp div 1024..(vp + k) div 1024}" by (auto simp: missing_def)
  then have "card (missing m d vp k) \<le> card {vp div 1024..(vp + k) div 1024}" by (rule card_mono [rotated]) simp
  moreover have "vp div 1024 \<le> (vp + k) div 1024" by (simp add: div_le_mono)
  ultimately show ?thesis by (simp add: Suc_diff_le)
qed

text \<open>The entry the kernel's table gives to a virtual page; \<open>dp\<close> is the page of the symbol \<open>data\<close>.\<close>

definition kernel_pte :: "nat \<Rightarrow> nat \<Rightarrow> u32" where
  "kernel_pte dp vp =
     (if 0x80000 \<le> vp \<and> vp < 0x8E000 then
        of_nat (vp - 0x80000) * PGSIZE OR (if 0x80100 \<le> vp \<and> vp < dp then 0 else PTE_W) OR PTE_P
      else if 0xFE000 \<le> vp then of_nat vp * PGSIZE OR PTE_W OR PTE_P
      else 0)"

lemma fresh_dir:
  assumes x: "page_ok e x"
  shows "pt_ok e (fill m (at x) 0 4096) x" "pt_pages (fill m (at x) 0 4096) x = {x}" "pte_at (fill m (at x) 0 4096) x vp = 0 \<or> 1048576 \<le> vp"
proof -
  have z: "i < 1024 \<Longrightarrow> pde_at (fill m (at x) 0 4096) x i = 0" for i by (simp add: pde_at_def zero_word)
  then show "pt_ok e (fill m (at x) 0 4096) x" using x present_or(3) by (simp add: pt_ok_def)
  show "pt_pages (fill m (at x) 0 4096) x = {x}" using z present_or(3) by (auto simp: pt_pages_def)
  show "pte_at (fill m (at x) 0 4096) x vp = 0 \<or> 1048576 \<le> vp" using z [of "vp div 1024"] present_or(3) by (auto simp: pte_at_def)
qed

text \<open>One line of \<open>kmap\<close>, in page numbers.\<close>

lemma map_kernel_step:
  assumes I: "vm_inv d xs s" and va: "unat va = vp * 4096" and sz: "unat (pe - ps) = Suc k * 4096" and b: "vp + k < 1048576"
    and free: "\<forall>j\<le>k. pte_at (pmem s) d (vp + j) = 0" and room: "Suc ((vp + k) div 1024 - vp div 1024) \<le> length xs"
  shows "\<exists>ys t. map_kernel d ((va, ps, pe, perm) # ks) s = map_kernel d ks t \<and> vm_inv d ys t \<and> grown d xs s ys t \<and>
    (\<forall>vq<1048576. pte_at (pmem t) d vq =
      (if vp \<le> vq \<and> vq \<le> vp + k then (ps + of_nat (vq - vp) * PGSIZE) OR perm OR PTE_P else pte_at (pmem s) d vq)) \<and>
    length xs - Suc ((vp + k) div 1024 - vp div 1024) \<le> length ys"
proof -
  have c: "card (missing (pmem s) d vp k) \<le> Suc ((vp + k) div 1024 - vp div 1024)" by (rule card_missing)
  have "unat va + unat (pe - ps) \<le> 2 ^ 32" "0 < unat (pe - ps)" "vp + k = (unat va + unat (pe - ps) - 1) div 4096" using va sz b by simp_all
  moreover have "\<forall>j\<le>k. \<not> present (pte_at (pmem s) d (vp + j))" using free present_or(3) by simp
  ultimately obtain ys t where t: "mappages d va (pe - ps) ps perm s = Ok 0 t" "vm_inv d ys t" "grown d xs s ys t"
      "\<forall>vq<1048576. pte_at (pmem t) d vq =
        (if vp \<le> vq \<and> vq \<le> vp + k then (ps + of_nat (vq - vp) * PGSIZE) OR perm OR PTE_P else pte_at (pmem s) d vq)"
      "length xs - card (missing (pmem s) d vp k) \<le> length ys"
    using mappages_run [OF I, of "pe - ps" va vp k ps perm] vpn_aligned(1) [OF va] c room by auto
  have "map_kernel d ((va, ps, pe, perm) # ks) s = map_kernel d ks t" using t(1) by (simp add: kmonad)
  moreover have "length xs - Suc ((vp + k) div 1024 - vp div 1024) \<le> length ys" using t(5) c by linarith
  ultimately show ?thesis using t(2,3,4) by blast
qed

lemma v2p_page: "unat a = p * 4096 \<Longrightarrow> 0x80000 \<le> p \<Longrightarrow> unat (v2p a) = (p - 0x80000) * 4096 \<and> v2p a = of_nat (p - 0x80000) * PGSIZE"
proof -
  assume a: "unat a = p * 4096" "0x80000 \<le> p"
  then have "KERNBASE \<le> a" by (simp add: word_le_nat_alt)
  then have u: "unat (v2p a) = (p - 0x80000) * 4096" using unat_sub [of KERNBASE a] a by (simp add: v2p_def diff_mult_distrib)
  have "v2p a = of_nat ((p - 0x80000) * 4096)" unfolding u [symmetric] by simp
  then show ?thesis using u by simp
qed

lemma page_sum: "b \<le> a \<Longrightarrow> a \<le> v \<Longrightarrow> of_nat (a - b) * PGSIZE + of_nat (v - a) * PGSIZE = of_nat (v - b) * PGSIZE"
proof -
  assume "b \<le> a" "a \<le> v"
  then have "v - b = (a - b) + (v - a)" by simp
  then show ?thesis by (simp only: of_nat_add distrib_right)
qed

lemma setupkvm_maps:
  assumes I: "vm_inv d xs s" and z: "\<forall>vq<1048576. pte_at (pmem s) d vq = 0" and len: "129 \<le> length xs"
    and dp: "unat data = dp * 4096" "0x80100 < dp" "dp < 0x8E000"
  shows "\<exists>ys t. map_kernel d (kmap data) s = Ok 0 t \<and> vm_inv d ys t \<and> grown d xs s ys t \<and>
    (\<forall>vp<1048576. pte_at (pmem t) d vp = kernel_pte dp vp) \<and> length xs - 129 \<le> length ys"
proof -
  have "0x80000 \<le> dp" using dp(2) by simp
  note D = v2p_page [OF dp(1) this, THEN conjunct1] v2p_page [OF dp(1) this, THEN conjunct2]
  have L: "unat (v2p KERNLINK) = 0x100 * 4096" "v2p KERNLINK = of_nat 0x100 * PGSIZE" by (simp_all add: v2p_def)
  let ?k2 = "dp - 0x80101" and ?k3 = "0x8DFFF - dp"
  have "v2p KERNLINK \<le> v2p data" using D L dp(2) by (simp add: word_le_nat_alt)
  then have sz2: "unat (v2p data - v2p KERNLINK) = Suc ?k2 * 4096" using D(1) L(1) dp(2) unat_sub [of "v2p KERNLINK" "v2p data"] by (simp add: diff_mult_distrib)
  have "v2p data \<le> PHYSTOP" using D dp(3) by (simp add: word_le_nat_alt)
  then have sz3: "unat (PHYSTOP - v2p data) = Suc ?k3 * 4096" using D(1) dp(2,3) unat_sub [of "v2p data" PHYSTOP] by (simp add: diff_mult_distrib)
  let ?l2 = "[(KERNLINK, v2p KERNLINK, v2p data, 0), (data, v2p data, PHYSTOP, PTE_W), (DEVSPACE, DEVSPACE, 0, PTE_W)]"
  have u: "unat KERNBASE = 0x80000 * 4096" "unat KERNLINK = 0x80100 * 4096" "unat DEVSPACE = 0xFE000 * 4096" by simp_all
  have sz1: "unat (EXTMEM - 0) = Suc 255 * 4096" "unat (0 - DEVSPACE) = Suc 8191 * 4096" by simp_all
  have f1: "\<forall>j\<le>255. pte_at (pmem s) d (0x80000 + j) = 0" using z by simp
  have r1: "Suc ((0x80000 + 255) div 1024 - 0x80000 div 1024) \<le> length xs" using len by simp
  from map_kernel_step [OF I u(1) sz1(1) _ f1 r1, of PTE_W ?l2] obtain xs1 s1 where
    s1: "map_kernel d (kmap data) s = map_kernel d ?l2 s1" "vm_inv d xs1 s1" "grown d xs s xs1 s1"
      "\<forall>vq<1048576. pte_at (pmem s1) d vq =
        (if 0x80000 \<le> vq \<and> vq \<le> 0x80000 + 255 then (0 + of_nat (vq - 0x80000) * PGSIZE) OR PTE_W OR PTE_P else pte_at (pmem s) d vq)"
      "length xs - 1 \<le> length xs1"
    unfolding kmap_def by auto
  have f2: "\<forall>j\<le>?k2. pte_at (pmem s1) d (0x80100 + j) = 0" using s1(4) z dp(2,3) by auto
  define n2 n3 where "n2 = Suc ((0x80100 + ?k2) div 1024 - 0x80100 div 1024)" and "n3 = Suc ((dp + ?k3) div 1024 - dp div 1024)"
  have r2: "n2 \<le> 57" using dp by (simp add: n2_def)
  have r3: "n3 \<le> 57" using dp by (simp add: n3_def)
  have r2': "n2 \<le> length xs1" using r2 len s1(5) by linarith
  have b2: "0x80100 + ?k2 < 1048576" "dp + ?k3 < 1048576" "(0xFE000 :: nat) + 8191 < 1048576" using dp by simp_all
  from map_kernel_step [OF s1(2) u(2) sz2 b2(1) f2 r2' [unfolded n2_def], of 0 "tl ?l2"] obtain xs2 s2 where
    s2: "map_kernel d ?l2 s1 = map_kernel d (tl ?l2) s2" "vm_inv d xs2 s2" "grown d xs1 s1 xs2 s2"
      "\<forall>vq<1048576. pte_at (pmem s2) d vq = (if 0x80100 \<le> vq \<and> vq \<le> 0x80100 + ?k2 then (v2p KERNLINK + of_nat (vq - 0x80100) * PGSIZE) OR 0 OR PTE_P
        else pte_at (pmem s1) d vq)"
      "length xs1 - n2 \<le> length xs2"
    unfolding list.sel n2_def by blast
  have f3: "\<forall>j\<le>?k3. pte_at (pmem s2) d (dp + j) = 0" using s1(4) s2(4) z dp(2,3) by auto
  have r3': "n3 \<le> length xs2" using r2 r3 len s1(5) s2(5) by linarith
  from map_kernel_step [OF s2(2) dp(1) sz3 b2(2) f3 r3' [unfolded n3_def], of PTE_W "tl (tl ?l2)"] obtain xs3 s3 where
    s3: "map_kernel d (tl ?l2) s2 = map_kernel d (tl (tl ?l2)) s3" "vm_inv d xs3 s3" "grown d xs2 s2 xs3 s3"
      "\<forall>vq<1048576. pte_at (pmem s3) d vq = (if dp \<le> vq \<and> vq \<le> dp + ?k3 then (v2p data + of_nat (vq - dp) * PGSIZE) OR PTE_W OR PTE_P
        else pte_at (pmem s2) d vq)"
      "length xs2 - n3 \<le> length xs3"
    unfolding list.sel n3_def by blast
  have f4: "\<forall>j\<le>8191. pte_at (pmem s3) d (0xFE000 + j) = 0" using s1(4) s2(4) s3(4) z dp(2,3) by auto
  have r4: "8 \<le> length xs3" using s1(5) s2(5) s3(5) r2 r3 len by linarith
  have r4': "Suc ((0xFE000 + 8191) div 1024 - 0xFE000 div 1024) \<le> length xs3" using r4 by simp
  from map_kernel_step [OF s3(2) u(3) sz1(2) b2(3) f4 r4', of PTE_W "[]"] obtain ys t where
    t: "map_kernel d (tl (tl ?l2)) s3 = Ok 0 t" "vm_inv d ys t" "grown d xs3 s3 ys t"
      "\<forall>vq<1048576. pte_at (pmem t) d vq = (if 0xFE000 \<le> vq \<and> vq \<le> 0xFE000 + 8191 then (DEVSPACE + of_nat (vq - 0xFE000) * PGSIZE) OR PTE_W OR PTE_P
        else pte_at (pmem s3) d vq)"
      "length xs3 - 8 \<le> length ys"
    by (auto simp: kmonad)
  have "pte_at (pmem t) d vp = kernel_pte dp vp" if vp: "vp < 1048576" for vp
  proof -
    have "DEVSPACE + of_nat (vp - 0xFE000) * PGSIZE = of_nat vp * PGSIZE" if "0xFE000 \<le> vp"
      using page_sum [of 0 "0xFE000" vp] that by simp
    moreover have "v2p data + of_nat (vp - dp) * PGSIZE = of_nat (vp - 0x80000) * PGSIZE" if "dp \<le> vp"
      using page_sum [of "0x80000" dp vp] D(2) dp(2) that by simp
    moreover have "v2p KERNLINK + of_nat (vp - 0x80100) * PGSIZE = of_nat (vp - 0x80000) * PGSIZE" if "0x80100 \<le> vp"
      using page_sum [of "0x80000" "0x80100" vp] L(2) that by simp
    ultimately show ?thesis
      using vp dp(2,3) t(4) s3(4) s2(4) s1(4) z 
      by (simp add: kernel_pte_def del: of_nat_diff) (auto simp del: of_nat_diff)
  qed
  moreover have "length xs - 129 \<le> length ys" using s1(5) s2(5) s3(5) t(5) r2 r3 by linarith
  ultimately show ?thesis
    using s1(1) s2(1) s3(1) t(1,2) grown_trans [OF grown_trans [OF grown_trans [OF s1(3) s2(3)] s3(3)] t(3)] by auto
qed

lemma fresh_inv:
  assumes K: "kmem_ok (d # xs) s"
  shows "\<exists>h. kalloc s = Ok d (s\<lparr>kmem_freelist := h\<rparr>) \<and> kmem_ok xs (s\<lparr>kmem_freelist := h, pmem := fill (pmem s) (at d) 0 4096\<rparr>) \<and>
    zero_page d (s\<lparr>kmem_freelist := h\<rparr>) = Ok () (s\<lparr>kmem_freelist := h, pmem := fill (pmem s) (at d) 0 4096\<rparr>)"
proof -
  obtain h where h: "kalloc s = Ok d (s\<lparr>kmem_freelist := h\<rparr>)" "kmem_ok xs (s\<lparr>kmem_freelist := h\<rparr>)" using kalloc_run [OF K] by auto
  have "kmem_ok xs (s\<lparr>kmem_freelist := h, pmem := fill (pmem s) (at d) 0 4096\<rparr>)"
    by (rule kmem_ok_same [OF h(2), of "{d}"]) (use K fill_outside_page [of d "pmem s" 0] in \<open>auto simp: kmem_ok_def\<close>)
  then show ?thesis using h by (auto simp: zero_page_def kmonad memset_fill)
qed

lemma setupkvm_run:
  assumes K: "kmem_ok (d # xs) s" and len: "129 \<le> length xs" and dp: "unat (k_data s) = dp * 4096" "0x80100 < dp" "dp < 0x8E000"
  shows "\<exists>ys t m h zs. setupkvm s = Ok d t \<and> vm_inv d ys t \<and> (\<forall>vp<1048576. pte_at (pmem t) d vp = kernel_pte dp vp) \<and>
    t = s\<lparr>pmem := m, kmem_freelist := h\<rparr> \<and> xs = zs @ ys \<and> pt_pages (pmem t) d = insert d (set zs) \<and>
    same_outside (pt_pages (pmem t) d) (pmem s) (pmem t) \<and> length xs - 129 \<le> length ys"
proof -
  let ?m0 = "fill (pmem s) (at d) 0 4096"
  obtain h where h: "kalloc s = Ok d (s\<lparr>kmem_freelist := h\<rparr>)" "kmem_ok xs (s\<lparr>kmem_freelist := h, pmem := ?m0\<rparr>)"
      "zero_page d (s\<lparr>kmem_freelist := h\<rparr>) = Ok () (s\<lparr>kmem_freelist := h, pmem := ?m0\<rparr>)"
    using fresh_inv [OF K] by blast
  let ?s0 = "s\<lparr>kmem_freelist := h, pmem := ?m0\<rparr>"
  have d: "page_ok (k_end s) d" "d \<notin> set xs" using K by (auto simp: kmem_ok_def)
  note F = fresh_dir [OF d(1), of "pmem s"]
  have I0: "vm_inv d xs ?s0" using F(1,2) d(2) h(2) by (simp add: vm_inv_def)
  have z: "\<forall>vq<1048576. pte_at (pmem ?s0) d vq = 0" using F(3) by (simp add: not_less [symmetric]) blast
  obtain ys t where t: "map_kernel d (kmap (k_data s)) ?s0 = Ok 0 t" "vm_inv d ys t" "grown d xs ?s0 ys t"
      "\<forall>vp<1048576. pte_at (pmem t) d vp = kernel_pte dp vp" "length xs - 129 \<le> length ys"
    using setupkvm_maps [OF I0 z len dp] by blast
  have "setupkvm s = Ok d t"
    using h(1,3) t(1) page_okD(1) [OF d(1)] by (simp add: setupkvm_def kmonad p2v_def)
  moreover obtain m' h' zs where g: "t = s\<lparr>pmem := m', kmem_freelist := h'\<rparr>" "xs = zs @ ys" "pt_pages (pmem t) d = insert d (set zs)"
      "same_outside (pt_pages (pmem t) d) ?m0 (pmem t)"
    using t(3) F(2) unfolding grown_def by auto
  moreover have "same_outside (pt_pages (pmem t) d) (pmem s) (pmem t)"
    by (rule same_outside_trans [OF fill_outside_page [of d "pmem s" 0] g(4)]) (use g(3) in auto)
  ultimately show ?thesis using t(2,4,5) by blast
qed

section \<open>Growing the user part\<close>

text \<open>One round of \<open>allocuvm\<close>: a zeroed page for the virtual page of \<open>a\<close>.\<close>

lemma alloc_step:
  assumes I: "vm_inv d (x # xs) s" and a: "unat a = vp * 4096" "a < newsz" and free: "\<not> present (pte_at (pmem s) d vp)"
    and room: "present (pde_at (pmem s) d (vp div 1024)) \<or> xs \<noteq> []"
  shows "\<exists>ys t m h zs. allocuvm_body d oldsz newsz a s = Ok (Inl (a + PGSIZE)) t \<and> vm_inv d ys t \<and>
    t = s\<lparr>pmem := m, kmem_freelist := h\<rparr> \<and> xs = zs @ ys \<and> ys = (if present (pde_at (pmem s) d (vp div 1024)) then xs else tl xs) \<and>
    pt_pages (pmem t) d = pt_pages (pmem s) d \<union> set zs \<and> same_outside (insert x (pt_pages (pmem t) d)) (pmem s) (pmem t) \<and>
    present (pde_at (pmem t) d (vp div 1024)) \<and> (\<forall>j<1024. j \<noteq> vp div 1024 \<longrightarrow> pde_at (pmem t) d j = pde_at (pmem s) d j) \<and>
    (\<forall>vq<1048576. pte_at (pmem t) d vq = (if vq = vp then v2p x OR (PTE_W OR PTE_U) OR PTE_P else pte_at (pmem s) d vq)) \<and>
    (\<forall>i<4096. pmem t (at x + i) = 0)"
proof -
  let ?m0 = "fill (pmem s) (at x) 0 4096"
  have K: "kmem_ok (x # xs) s" and pt: "pt_ok (k_end s) (pmem s) d" and fr: "pt_pages (pmem s) d \<inter> set (x # xs) = {}"
    using I by (simp_all add: vm_inv_def)
  obtain h where h: "kalloc s = Ok x (s\<lparr>kmem_freelist := h\<rparr>)" "kmem_ok xs (s\<lparr>kmem_freelist := h, pmem := ?m0\<rparr>)"
      "zero_page x (s\<lparr>kmem_freelist := h\<rparr>) = Ok () (s\<lparr>kmem_freelist := h, pmem := ?m0\<rparr>)"
    using fresh_inv [OF K] by blast
  let ?s0 = "s\<lparr>kmem_freelist := h, pmem := ?m0\<rparr>"
  have x: "page_ok (k_end s) x" "x \<notin> set xs" "x \<notin> pt_pages (pmem s) d" using K fr by (auto simp: kmem_ok_def)
  have f: "same_outside {x} (pmem s) ?m0" using fill_outside_page [of x "pmem s" 0] by simp
  note P = pt_same [OF pt f] 
  have P': "pt_ok (k_end s) ?m0 d" "pt_pages ?m0 d = pt_pages (pmem s) d" "\<forall>i<1024. pde_at ?m0 d i = pde_at (pmem s) d i"
      "\<forall>vq<1048576. pte_at ?m0 d vq = pte_at (pmem s) d vq"
    using P x(1,3) by auto
  have I0: "vm_inv d xs ?s0" using P'(1,2) h(2) fr by (simp add: vm_inv_def)
  note v = vpn_aligned [OF a(1)]
  have i: "vp div 1024 < 1024" using v(2) by simp
  obtain ys t where t: "mappages_body d a (PTE_W OR PTE_U) (a, v2p x) ?s0 = Ok (Inr 0) t" "vm_inv d ys t" "grown d xs ?s0 ys t"
      "present (pde_at (pmem t) d (vp div 1024))" "\<forall>j<1024. j \<noteq> vp div 1024 \<longrightarrow> pde_at (pmem t) d j = pde_at ?m0 d j"
      "\<forall>vq<1048576. pte_at (pmem t) d vq = (if vq = vp then v2p x OR (PTE_W OR PTE_U) OR PTE_P else pte_at ?m0 d vq)"
      "ys = (if present (pde_at ?m0 d (vp div 1024)) then xs else tl xs)"
    using map_step [OF I0, of "vp div 1024" a a "PTE_W OR PTE_U" "v2p x"] v P'(3,4) i room free by auto
  have "unat (PGROUNDDOWN a) = unat a" using unat_PGROUNDDOWN [of a] a(1) by simp
  then have r: "PGROUNDDOWN a = a" by (simp add: word_unat_eq_iff)
  have "unat a + 4095 < 2 ^ 32" using a(1) v(2) by simp
  then have "unat (a + 4095) = unat a + 4095" by (simp add: unat_word_ariths)
  then have "unat (PGROUNDDOWN (a + 4095)) = unat a" using unat_PGROUNDDOWN [of "a + 4095"] a(1) by simp
  then have "PGROUNDDOWN (a + PGSIZE - 1) = a" by (simp add: word_unat_eq_iff add.commute)
  then have "mappages d a PGSIZE (v2p x) (PTE_W OR PTE_U) ?s0 = Ok 0 t" using t(1) r by (simp add: mappages_def kloop_exit)
  then have run: "allocuvm_body d oldsz newsz a s = Ok (Inl (a + PGSIZE)) t"
    using a(2) h(1,3) page_okD(1) [OF x(1)] by (simp add: allocuvm_body_def kmonad)
  obtain m' h' zs where g: "t = s\<lparr>pmem := m', kmem_freelist := h'\<rparr>" "xs = zs @ ys" "pt_pages (pmem t) d = pt_pages (pmem s) d \<union> set zs"
      "same_outside (pt_pages (pmem t) d) ?m0 (pmem t)"
    using t(3) P'(2) unfolding grown_def by auto
  have "same_outside (insert x (pt_pages (pmem t) d)) (pmem s) (pmem t)" by (rule same_outside_trans [OF f g(4)]) auto
  moreover have "\<forall>p\<in>pt_pages (pmem t) d. page_ok (k_end s) p" using t(2) pt_pages_ok g(1) by (auto simp: vm_inv_def)
  then have "pmem t (at x + i) = 0" if "i < 4096" for i
    using same_outside_page [OF g(4) x(1) _ _ that] g(2,3) x(2,3) that by auto
  moreover have "\<forall>j<1024. j \<noteq> vp div 1024 \<longrightarrow> pde_at (pmem t) d j = pde_at (pmem s) d j" using t(5) P'(3) by simp
  moreover have "\<forall>vq<1048576. pte_at (pmem t) d vq = (if vq = vp then v2p x OR (PTE_W OR PTE_U) OR PTE_P else pte_at (pmem s) d vq)"
    using t(6) P'(4) by simp
  moreover have "ys = (if present (pde_at (pmem s) d (vp div 1024)) then xs else tl xs)" using t(7) P'(3) i by simp
  ultimately show ?thesis using run t(2,4) g(1,2,3) by blast
qed

text \<open>
  Pages \<open>ps\<close> back the virtual pages from \<open>vp\<close> on: they came from the free list, belong to nothing else and
  hold zeros; every other entry is as before.
\<close>

definition backed :: "u32 \<Rightarrow> nat \<Rightarrow> u32 list \<Rightarrow> u32 list \<Rightarrow> 'a mem_st_scheme \<Rightarrow> u32 list \<Rightarrow> 'a mem_st_scheme \<Rightarrow> bool" where
  "backed d vp ps xs s ys t \<longleftrightarrow> vm_inv d ys t \<and> (\<exists>m h. t = s\<lparr>pmem := m, kmem_freelist := h\<rparr>) \<and>
     distinct ps \<and> set ps \<subseteq> set xs \<and> set ps \<inter> (pt_pages (pmem t) d \<union> set ys) = {} \<and>
     pt_pages (pmem t) d \<union> set ys \<subseteq> pt_pages (pmem s) d \<union> set xs \<and>
     pt_pages (pmem s) d \<subseteq> pt_pages (pmem t) d \<and> set ys \<subseteq> set xs \<and>
     same_outside (set ps \<union> pt_pages (pmem t) d) (pmem s) (pmem t) \<and>
     (\<forall>vq<1048576. pte_at (pmem t) d vq =
       (if vp \<le> vq \<and> vq < vp + length ps then v2p (ps ! (vq - vp)) OR (PTE_W OR PTE_U) OR PTE_P else pte_at (pmem s) d vq)) \<and>
     (\<forall>p\<in>set ps. \<forall>i<4096. pmem t (at p + i) = 0)"

lemma backed_Nil: "vm_inv d xs s \<Longrightarrow> backed d vp [] xs s xs s"
  unfolding backed_def by (intro conjI exI [of _ "pmem s"] exI [of _ "kmem_freelist s"]) auto

lemma backed_Cons:
  assumes I: "vm_inv d (x # xs) s"
    and a: "vm_inv d ys t" "t = s\<lparr>pmem := m, kmem_freelist := h\<rparr>" "xs = zs @ ys" "pt_pages (pmem t) d = pt_pages (pmem s) d \<union> set zs"
      "same_outside (insert x (pt_pages (pmem t) d)) (pmem s) (pmem t)"
      "\<forall>vq<1048576. pte_at (pmem t) d vq = (if vq = vp then v2p x OR (PTE_W OR PTE_U) OR PTE_P else pte_at (pmem s) d vq)"
      "\<forall>i<4096. pmem t (at x + i) = 0"
    and b: "backed d (Suc vp) ps ys t ws u"
  shows "backed d vp (x # ps) (x # xs) s ws u"
proof -
  have K: "distinct (x # xs)" "\<forall>y\<in>set (x # xs). page_ok (k_end s) y" "pt_pages (pmem s) d \<inter> set (x # xs) = {}"
    using I by (auto simp: vm_inv_def kmem_ok_def)
  obtain m' h' where u: "u = t\<lparr>pmem := m', kmem_freelist := h'\<rparr>" using b unfolding backed_def by blast
  have B: "vm_inv d ws u" "distinct ps" "set ps \<subseteq> set ys" "set ps \<inter> (pt_pages (pmem u) d \<union> set ws) = {}"
     "pt_pages (pmem u) d \<union> set ws \<subseteq> pt_pages (pmem t) d \<union> set ys" "pt_pages (pmem t) d \<subseteq> pt_pages (pmem u) d" "set ws \<subseteq> set ys"
     "same_outside (set ps \<union> pt_pages (pmem u) d) (pmem t) (pmem u)"
     "\<forall>p\<in>set ps. \<forall>i<4096. pmem u (at p + i) = 0"
    using b unfolding backed_def by blast+
  have Bp: "\<forall>vq<1048576. pte_at (pmem u) d vq =
       (if Suc vp \<le> vq \<and> vq < Suc vp + length ps then v2p (ps ! (vq - Suc vp)) OR (PTE_W OR PTE_U) OR PTE_P else pte_at (pmem t) d vq)"
    using b unfolding backed_def by blast
  have x: "x \<notin> pt_pages (pmem u) d" "x \<notin> set ws" "x \<notin> set ps" using B(3,5,7) a(3,4) K(1,3) by auto
  have P: "\<forall>p\<in>set ps \<union> pt_pages (pmem u) d. page_ok (k_end s) p"
    using B(1,3) a(2,3) K(2) u pt_pages_ok [of "k_end u" "pmem u" d] by (auto simp: vm_inv_def)
  have "\<forall>i<4096. pmem u (at x + i) = 0" using same_outside_page [OF B(8) _ P] K(2) x a(7) by simp
  moreover have "same_outside (set (x # ps) \<union> pt_pages (pmem u) d) (pmem s) (pmem u)"
    by (rule same_outside_trans [OF a(5) B(8)]) (use B(6) in auto)
  moreover have "\<forall>vq<1048576. pte_at (pmem u) d vq =
       (if vp \<le> vq \<and> vq < vp + length (x # ps) then v2p ((x # ps) ! (vq - vp)) OR (PTE_W OR PTE_U) OR PTE_P else pte_at (pmem s) d vq)"
  proof (intro allI impI)
    fix vq :: nat
    assume q: "vq < 1048576"
    consider "vq = vp" | "Suc vp \<le> vq \<and> vq < Suc vp + length ps" | "\<not> (vp \<le> vq \<and> vq < vp + length (x # ps))" by fastforce
    then show "pte_at (pmem u) d vq =
       (if vp \<le> vq \<and> vq < vp + length (x # ps) then v2p ((x # ps) ! (vq - vp)) OR (PTE_W OR PTE_U) OR PTE_P else pte_at (pmem s) d vq)"
    proof cases
      case 2
      then have "vq - vp = Suc (vq - Suc vp)" by arith
      then show ?thesis using 2 Bp q by simp
    qed (use Bp a(6) q in auto)
  qed
  moreover have "\<exists>m h. u = s\<lparr>pmem := m, kmem_freelist := h\<rparr>" using u a(2) by auto
  ultimately show ?thesis using B x a(3,4) K unfolding backed_def by auto
qed

lemma allocuvm_loop:
  assumes "vm_inv d xs s" and "unat a = vp * 4096" and "vp + n < 1048576"
    and "unat newsz \<le> (vp + n) * 4096" "\<forall>j<n. (vp + j) * 4096 < unat newsz"
    and "\<forall>j<n. \<not> present (pte_at (pmem s) d (vp + j))"
    and "n + (if n = 0 then 0 else card (missing (pmem s) d vp (n - 1))) \<le> length xs" and "n < fuel"
  shows "\<exists>ps ys t. kloop fuel (allocuvm_body d oldsz newsz) a s = Ok newsz t \<and> length ps = n \<and> backed d vp ps xs s ys t"
  using assms
proof (induction n arbitrary: a vp xs s fuel)
  case 0
  then have "\<not> a < newsz" by (simp add: word_less_nat_alt)
  then have "kloop fuel (allocuvm_body d oldsz newsz) a s = Ok newsz s" using 0(8) by (simp add: allocuvm_body_def kmonad kloop_exit)
  then show ?case using backed_Nil [OF 0(1)] by auto
next
  case (Suc n)
  let ?i = "vp div 1024"
  obtain f where f: "fuel = Suc f" "n < f" using Suc.prems(8) by (cases fuel) auto
  obtain x zs where xs: "xs = x # zs" using Suc.prems(7) by (cases xs) auto
  have lt: "a < newsz" using Suc.prems(2) Suc.prems(5) [rule_format, of 0] by (simp add: word_less_nat_alt)
  have free: "\<not> present (pte_at (pmem s) d vp)" using Suc.prems(6) [rule_format, of 0] by simp
  have c1: "card (missing (pmem s) d vp n) + n \<le> length zs" using Suc.prems(7) xs by simp
  then have room: "present (pde_at (pmem s) d ?i) \<or> zs \<noteq> []" using missing_room [of "pmem s" d vp n zs] by simp
  have I: "vm_inv d (x # zs) s" using Suc.prems(1) xs by simp
  obtain ys t m h ws where t: "allocuvm_body d oldsz newsz a s = Ok (Inl (a + PGSIZE)) t" "vm_inv d ys t"
      "t = s\<lparr>pmem := m, kmem_freelist := h\<rparr>" "zs = ws @ ys" "ys = (if present (pde_at (pmem s) d ?i) then zs else tl zs)"
      "pt_pages (pmem t) d = pt_pages (pmem s) d \<union> set ws" "same_outside (insert x (pt_pages (pmem t) d)) (pmem s) (pmem t)"
      "present (pde_at (pmem t) d ?i)" "\<forall>j<1024. j \<noteq> ?i \<longrightarrow> pde_at (pmem t) d j = pde_at (pmem s) d j"
      "\<forall>vq<1048576. pte_at (pmem t) d vq = (if vq = vp then v2p x OR (PTE_W OR PTE_U) OR PTE_P else pte_at (pmem s) d vq)"
      "\<forall>i<4096. pmem t (at x + i) = 0"
    using alloc_step [OF I Suc.prems(2) lt free room, of oldsz] by blast
  have a': "unat (a + PGSIZE) = Suc vp * 4096" using Suc.prems(2,3) by (simp add: unat_word_ariths)
  have c: "n + (if n = 0 then 0 else card (missing (pmem t) d (Suc vp) (n - 1))) \<le> length ys"
  proof (cases n)
    case 0
    then show ?thesis using t(5) c1 by simp
  next
    case (Suc k)
    have "missing (pmem t) d (Suc vp) k \<subseteq> missing (pmem s) d vp (Suc k) - {?i}"
      using missing_step [OF _ t(8,9), of k] Suc.prems(3) Suc by simp
    then have "card (missing (pmem t) d (Suc vp) k) \<le> card (missing (pmem s) d vp (Suc k) - {?i})" by (intro card_mono) simp_all
    moreover have mem: "?i \<in> missing (pmem s) d vp (Suc k)" if "\<not> present (pde_at (pmem s) d ?i)"
      using that by (simp add: missing_def div_le_mono)
    moreover have "card (missing (pmem s) d vp (Suc k) - {?i}) \<le> card (missing (pmem s) d vp (Suc k))" by (rule card_Diff1_le)
    moreover have "0 < card (missing (pmem s) d vp (Suc k))" if "\<not> present (pde_at (pmem s) d ?i)"
      using mem [OF that] by (auto simp: card_gt_0_iff)
    ultimately show ?thesis using t(5) c1 Suc card_Diff_singleton [of ?i "missing (pmem s) d vp (Suc k)"]
      by (cases "present (pde_at (pmem s) d ?i)") auto
  qed
  have "\<forall>j<n. \<not> present (pte_at (pmem t) d (Suc vp + j))" using t(10) Suc.prems(3,6) by auto
  moreover have "Suc vp + n < 1048576" "unat newsz \<le> (Suc vp + n) * 4096" "\<forall>j<n. (Suc vp + j) * 4096 < unat newsz"
    using Suc.prems(3,4) Suc.prems(5) [rule_format, of "Suc _"] by simp_all
  ultimately obtain ps vs u where u: "kloop f (allocuvm_body d oldsz newsz) (a + PGSIZE) t = Ok newsz u" "length ps = n" "backed d (Suc vp) ps ys t vs u"
    using Suc.IH [OF t(2) a' _ _ _ _ c f(2)] by blast
  have "kloop fuel (allocuvm_body d oldsz newsz) a s = Ok newsz u" using t(1) u(1) by (simp only: f(1) kloop_next)
  moreover have "backed d vp (x # ps) xs s vs u"
    unfolding xs by (rule backed_Cons [OF I t(2,3,4,6,7,10,11) u(3)])
  moreover have "length (x # ps) = Suc n" using u(2) by simp
  ultimately show ?case by blast
qed

lemma allocuvm_run:
  assumes I: "vm_inv d xs s" and sz: "unat oldsz \<le> unat newsz" "newsz < KERNBASE"
    and vp: "vp = (unat oldsz + 4095) div 4096" and n: "vp + n = (unat newsz + 4095) div 4096"
    and free: "\<forall>j<n. \<not> present (pte_at (pmem s) d (vp + j))"
    and room: "n + (if n = 0 then 0 else card (missing (pmem s) d vp (n - 1))) \<le> length xs"
  shows "\<exists>ps ys t. allocuvm d oldsz newsz s = Ok newsz t \<and> length ps = n \<and> backed d vp ps xs s ys t"
proof -
  have nb: "unat newsz < 2147483648" using sz(2) by (simp add: word_less_nat_alt)
  then have a: "unat (PGROUNDUP oldsz) = vp * 4096" using unat_PGROUNDUP [of oldsz] sz(1) vp by simp
  have b: "vp + n < 1048576" "n < 2 ^ 20" using n nb by simp_all
  have lo: "unat newsz \<le> (vp + n) * 4096" unfolding n by linarith
  have "(vp + j) * 4096 < unat newsz" if "j < n" for j
  proof -
    have "vp + j + 1 \<le> (unat newsz + 4095) div 4096" using that n by simp
    then show ?thesis by (simp add: less_eq_div_iff_mult_less_eq)
  qed
  then have hi: "\<forall>j<n. (vp + j) * 4096 < unat newsz" by blast
  have "allocuvm d oldsz newsz s = kloop (2 ^ 20) (allocuvm_body d oldsz newsz) (PGROUNDUP oldsz) s"
    using sz nb by (simp add: allocuvm_def word_le_nat_alt word_less_nat_alt)
  then show ?thesis using allocuvm_loop [OF I a b(1) lo hi free room b(2), of oldsz] by simp
qed

section \<open>Copying out\<close>

text \<open>The byte at a user address, through the page table.\<close>

definition ubyte :: "bytes \<Rightarrow> u32 \<Rightarrow> nat \<Rightarrow> u8" where
  "ubyte m d k = m (at (tab_of (pte_at m d (k div 4096))) + k mod 4096)"

text \<open>The virtual pages of a range are user pages, each with a frame of its own.\<close>

definition user_pages :: "u32 \<Rightarrow> bytes \<Rightarrow> u32 \<Rightarrow> nat set \<Rightarrow> bool" where
  "user_pages e m d V \<longleftrightarrow> pt_ok e m d \<and> V \<subseteq> {..<1048576} \<and>
     (\<forall>vp\<in>V. present (pte_at m d vp) \<and> pte_at m d vp AND PTE_U \<noteq> 0 \<and> page_ok e (tab_of (pte_at m d vp)) \<and>
       tab_of (pte_at m d vp) \<notin> pt_pages m d) \<and>
     inj_on (\<lambda>vp. tab_of (pte_at m d vp)) V"

lemma user_pagesD:
  assumes "user_pages e m d V"
  shows "pt_ok e m d" "vp \<in> V \<Longrightarrow> vp < 1048576" "vp \<in> V \<Longrightarrow> present (pte_at m d vp)" "vp \<in> V \<Longrightarrow> pte_at m d vp AND PTE_U \<noteq> 0"
    "vp \<in> V \<Longrightarrow> page_ok e (tab_of (pte_at m d vp))" "vp \<in> V \<Longrightarrow> tab_of (pte_at m d vp) \<notin> pt_pages m d"
    "vp \<in> V \<Longrightarrow> vq \<in> V \<Longrightarrow> tab_of (pte_at m d vp) = tab_of (pte_at m d vq) \<Longrightarrow> vp = vq"
  using assms unfolding user_pages_def inj_on_def by blast+

lemma uva2ka_run:
  assumes U: "user_pages e (pmem s) d V" and vp: "vpn va \<in> V"
  shows "uva2ka null d va s = Ok (tab_of (pte_at (pmem s) d (vpn va))) s"
proof -
  note D = user_pagesD [OF U]
  have p: "present (pde_at (pmem s) d (vpn va div 1024))" using D(3) [OF vp] present_or(3) by (auto simp: pte_at_def Let_def split: if_splits)
  have "ldw (tab_of (pde_at (pmem s) d (vpn va div 1024)) + 4 * PTX va) s = Ok (pte_at (pmem s) d (vpn va)) s"
    using slot_at(1) [OF D(1) p] p by (simp add: ldw_def kmonad pte_at_def)
  then show ?thesis
    using walk_run(1) [OF D(1) refl p, of False] slot_at(2) [OF D(1) p] D(3,4) [OF vp]
    by (simp add: uva2ka_def kmonad present_def tab_of_def)
qed

text \<open>Writing into the frame of one user page.\<close>

lemma user_write:
  fixes p :: bytes and buf :: nat
  assumes U: "user_pages e m d V" and v: "v \<in> V" and b: "q + n \<le> 4096"
  defines "m' \<equiv> blit m (at (tab_of (pte_at m d v)) + q) p buf n"
  shows "user_pages e m' d V" "same_outside {tab_of (pte_at m d v)} m m'" "\<forall>vp<1048576. pte_at m' d vp = pte_at m d vp"
    "\<And>k. k div 4096 \<in> V \<Longrightarrow> ubyte m' d k = (if v * 4096 + q \<le> k \<and> k < v * 4096 + q + n then p (buf + (k - (v * 4096 + q))) else ubyte m d k)"
proof -
  let ?F = "tab_of (pte_at m d v)"
  note D = user_pagesD [OF U]
  show s: "same_outside {?F} m m'" using b by (auto simp: same_outside_def page_range_def m'_def blit_def)
  have P: "\<forall>p\<in>{?F}. page_ok e p" "{?F} \<inter> pt_pages m d = {}" using D(5,6) [OF v] by auto
  note T = pt_same [OF D(1) s P]
  show pte: "\<forall>vp<1048576. pte_at m' d vp = pte_at m d vp" using T(4) by blast
  have pteV: "vp \<in> V \<Longrightarrow> pte_at m' d vp = pte_at m d vp" for vp using pte D(2) by blast
  have "inj_on (\<lambda>vp. tab_of (pte_at m' d vp)) V = inj_on (\<lambda>vp. tab_of (pte_at m d vp)) V" by (rule inj_on_cong) (simp add: pteV)
  then show "user_pages e m' d V" using U T(2,3) pteV unfolding user_pages_def by simp
  fix k
  assume k: "k div 4096 \<in> V"
  have e: "ubyte m' d k = m' (at (tab_of (pte_at m d (k div 4096))) + k mod 4096)" using pteV [OF k] by (simp add: ubyte_def)
  show "ubyte m' d k = (if v * 4096 + q \<le> k \<and> k < v * 4096 + q + n then p (buf + (k - (v * 4096 + q))) else ubyte m d k)"
  proof (cases "k div 4096 = v")
    case True
    then have "k = v * 4096 + k mod 4096" using div_mult_mod_eq [of k 4096] by simp
    moreover define r where "r = k mod 4096"
    ultimately have kr: "k = v * 4096 + r" "r < 4096" by simp_all
    then show ?thesis using e True by (simp add: m'_def blit_def ubyte_def r_def [symmetric])
  next
    case False
    then have "tab_of (pte_at m d (k div 4096)) \<noteq> ?F" using D(7) [OF k v] by blast
    then have "m' (at (tab_of (pte_at m d (k div 4096))) + k mod 4096) = m (at (tab_of (pte_at m d (k div 4096))) + k mod 4096)"
      by (intro same_outside_page [OF s D(5) [OF k] P(1)]) auto
    moreover have "\<not> (v * 4096 + q \<le> k \<and> k < v * 4096 + q + n)"
    proof
      assume "v * 4096 + q \<le> k \<and> k < v * 4096 + q + n"
      then have "v * 4096 \<le> k" "k < v * 4096 + 4096" using b by linarith+
      then show False using False by linarith
    qed
    ultimately show ?thesis using e by (auto simp: ubyte_def)
  qed
qed

text \<open>The rounds the loop needs.\<close>

definition copy_rounds :: "nat \<Rightarrow> nat \<Rightarrow> nat" where
  "copy_rounds a n = (if n = 0 then 0 else Suc ((a + n - 1) div 4096 - a div 4096))"

lemma copy_round_split:
  assumes "0 < n" and "k = min n (4096 - a mod 4096)"
  shows "k < n \<Longrightarrow> a + k = Suc (a div 4096) * 4096" "copy_rounds (Suc (a div 4096) * 4096) (n - k) < copy_rounds a n"
proof -
  define v r where "v = a div 4096" and "r = a mod 4096"
  have a: "a = v * 4096 + r" "r < 4096" by (simp_all add: v_def r_def)
  show "k < n \<Longrightarrow> a + k = Suc (a div 4096) * 4096" using assms a by (simp add: v_def [symmetric] r_def [symmetric])
  have d: "a div 4096 = v" by (simp add: v_def)
  show "copy_rounds (Suc (a div 4096) * 4096) (n - k) < copy_rounds a n"
  proof (cases "k < n")
    case True
    have k: "k = 4096 - r" using True assms(2) by (simp add: r_def)
    have e: "Suc v * 4096 + (n - k) = a + n" using True a k by simp
    have "Suc v * 4096 \<le> a + n - 1" using True e by simp
    then have "Suc v \<le> (a + n - 1) div 4096" by (simp add: less_eq_div_iff_mult_less_eq)
    then have "(a + n - 1) div 4096 - Suc v < (a + n - 1) div 4096 - v" by (rule diff_less_mono2 [OF lessI Suc_le_lessD])
    then show ?thesis using True assms(1) d e by (simp add: copy_rounds_def)
  qed (use assms in \<open>simp add: copy_rounds_def\<close>)
qed

lemma copyout_loop:
  assumes "user_pages e (pmem s) d V" and "unat va + unat len \<le> 2 ^ 32" and "\<forall>k. unat va \<le> k \<and> k < unat va + unat len \<longrightarrow> k div 4096 \<in> V"
    and "copy_rounds (unat va) (unat len) < fuel"
  shows "\<exists>m. kloop fuel (copyout_body null d p) (va, buf, len) s = Ok 0 (s\<lparr>pmem := m\<rparr>) \<and> user_pages e m d V \<and>
    same_outside ((\<lambda>vp. tab_of (pte_at (pmem s) d vp)) ` V) (pmem s) m \<and> (\<forall>vp<1048576. pte_at m d vp = pte_at (pmem s) d vp) \<and>
    (\<forall>k. k div 4096 \<in> V \<longrightarrow> ubyte m d k = (if unat va \<le> k \<and> k < unat va + unat len then p (buf + (k - unat va)) else ubyte (pmem s) d k))"
  using assms
proof (induction fuel arbitrary: va buf len s)
  case (Suc f)
  show ?case
  proof (cases "len = 0")
    case True
    then have "copyout_body null d p (va, buf, len) s = Ok (Inr 0) s" by (simp add: copyout_body_def kmonad)
    then have "kloop (Suc f) (copyout_body null d p) (va, buf, len) s = Ok 0 s" by (rule kloop_exit) simp
    then show ?thesis using Suc.prems(1) True by (intro exI [of _ "pmem s"]) auto
  next
    case False
    let ?v = "vpn va" and ?q = "unat va mod 4096" and ?va0 = "PGROUNDDOWN va" and ?m = "pmem s"
    have l: "0 < unat len" using False by (simp add: unat_gt_0)
    have v: "?v \<in> V" using Suc.prems(3) l by (simp add: vpn_def)
    have va0: "unat ?va0 = ?v * 4096" using unat_PGROUNDDOWN [of va] by (simp add: vpn_def)
    have vq: "unat va = ?v * 4096 + ?q" by (simp add: vpn_def)
    have le: "?va0 \<le> va" using va0 by (simp add: word_le_nat_alt vpn_def)
    have q: "unat (va - ?va0) = ?q" using unat_sub [OF le] va0 minus_div_mult_eq_mod [of "unat va" 4096] by (simp add: vpn_def)
    have v0: "vpn ?va0 = ?v" using va0 by (simp add: vpn_def)
    define n where "n = (let n = PGSIZE - (va - ?va0) in if len < n then len else n)"
    have "va - ?va0 \<le> PGSIZE" using q by (simp add: word_le_nat_alt)
    then have "unat (PGSIZE - (va - ?va0)) = 4096 - ?q" using q unat_sub [of "va - ?va0" PGSIZE] by simp
    then have n: "unat n = min (unat len) (4096 - ?q)" by (auto simp: n_def Let_def word_less_nat_alt)
    let ?F = "tab_of (pte_at ?m d ?v)" and ?t = "\<lambda>m. s\<lparr>pmem := m\<rparr>"
    let ?m1 = "blit ?m (at ?F + ?q) p buf (unat n)" and ?va' = "?va0 + PGSIZE" and ?len' = "len - n"
    have F: "page_ok e ?F" using user_pagesD(5) [OF Suc.prems(1) v] .
    have pa: "at (?F + (va - ?va0)) = at ?F + ?q" using at_add(1) [OF F, of "va - ?va0"] q by simp
    have step: "copyout_body null d p (va, buf, len) s = Ok (Inl (?va', buf + unat n, ?len')) (?t ?m1)"
      using uva2ka_run [OF Suc.prems(1), of ?va0 null] v v0 False page_okD(1) [OF F] pa
      by (simp add: copyout_body_def kmonad Let_def n_def [unfolded Let_def, symmetric] word_gt_0)
    have b: "?q + unat n \<le> 4096" using n mod_less_divisor [of 4096 "unat va"] by simp
    note W = user_write [OF Suc.prems(1) v b, where p = p and buf = buf]
    have len': "unat ?len' = unat len - unat n" using n by (simp add: unat_sub word_le_nat_alt)
    note R = copy_round_split [OF l n]
    have vae: "unat n < unat len \<Longrightarrow> unat ?va' = unat va + unat n"
    proof -
      assume nl: "unat n < unat len"
      have "Suc ?v * 4096 < 2 ^ 32" using R(1) [OF nl] nl Suc.prems(2) by (simp add: vpn_def)
      then show ?thesis using va0 R(1) [OF nl] by (simp add: unat_word_ariths vpn_def)
    qed
    have r': "copy_rounds (unat ?va') (unat ?len') < f"
    proof (cases "unat n < unat len")
      case True
      then show ?thesis using R vae len' Suc.prems(4) by simp
    next
      case False
      then show ?thesis using R(2) len' Suc.prems(4) by (simp add: copy_rounds_def)
    qed
    have p2: "unat ?va' + unat ?len' \<le> 2 ^ 32"
    proof (cases "unat n < unat len")
      case True
      then show ?thesis using vae len' Suc.prems(2) by simp
    next
      case False
      then show ?thesis using len' unat_u32_less [of ?va'] by simp
    qed
    have p3: "\<forall>k. unat ?va' \<le> k \<and> k < unat ?va' + unat ?len' \<longrightarrow> k div 4096 \<in> V"
      using vae len' Suc.prems(3) by (cases "unat n < unat len") auto
    have U1: "user_pages e (pmem (?t ?m1)) d V" using W(1) by simp
    from Suc.IH [OF U1 p2 p3 r', of "buf + unat n"] obtain m where
      m: "kloop f (copyout_body null d p) (?va', buf + unat n, ?len') (?t ?m1) = Ok 0 (?t m)" "user_pages e m d V"
        "same_outside ((\<lambda>vp. tab_of (pte_at ?m1 d vp)) ` V) ?m1 m" "\<forall>vp<1048576. pte_at m d vp = pte_at ?m1 d vp"
        "\<forall>k. k div 4096 \<in> V \<longrightarrow> ubyte m d k = (if unat ?va' \<le> k \<and> k < unat ?va' + unat ?len' then p (buf + unat n + (k - unat ?va')) else ubyte ?m1 d k)"
      by auto
    have "kloop (Suc f) (copyout_body null d p) (va, buf, len) s = Ok 0 (?t m)" using step m(1) by (simp only: kloop_next)
    moreover have "(\<lambda>vp. tab_of (pte_at ?m1 d vp)) ` V = (\<lambda>vp. tab_of (pte_at ?m d vp)) ` V"
      using W(3) user_pagesD(2) [OF Suc.prems(1)] by (intro image_cong) auto
    then have "same_outside ((\<lambda>vp. tab_of (pte_at ?m d vp)) ` V) ?m m"
      using same_outside_trans [OF W(2) m(3)] v by auto
    moreover have "\<forall>vp<1048576. pte_at m d vp = pte_at ?m d vp" using m(4) W(3) by simp
    moreover have "ubyte m d k = (if unat va \<le> k \<and> k < unat va + unat len then p (buf + (k - unat va)) else ubyte ?m d k)" if k: "k div 4096 \<in> V" for k
    proof -
      have 1: "ubyte ?m1 d k = (if unat va \<le> k \<and> k < unat va + unat n then p (buf + (k - unat va)) else ubyte ?m d k)"
        using W(4) [OF k] vq by simp
      show ?thesis
      proof (cases "unat n < unat len")
        case True
        then show ?thesis using m(5) k 1 vae len' by (auto simp: diff_diff_left)
      next
        case False
        then show ?thesis using m(5) k 1 len' n by auto
      qed
    qed
    ultimately show ?thesis using m(2) by blast
  qed
qed simp

end
