(* ===== verification/Vm_Props.thy ===== *)
theory Vm_Props
  imports Vm_Space
begin

text \<open>
  The properties of the address spaces: what the kernel part maps, how mapping, growing and copying out
  change what user and kernel can reach.
\<close>

section \<open>Flags of the kernel's entries\<close>

lemma page_word: "k < 1048576 \<Longrightarrow> unat (of_nat k * PGSIZE) = k * 4096" "k < 1048576 \<Longrightarrow> (of_nat k * PGSIZE) mod PGSIZE = 0"
proof -
  assume k: "k < 1048576"
  have "of_nat k * PGSIZE = of_nat (k * 4096)" by simp
  then show u: "unat (of_nat k * PGSIZE) = k * 4096" using k by (simp only: unat_of_nat) (simp add: take_bit_nat_eq_self)
  then have "unat ((of_nat k * PGSIZE) mod 4096) = 0" by (simp only: unat_mod) simp
  then show "(of_nat k * PGSIZE) mod PGSIZE = 0" by (simp only: word_unat_eq_iff) simp
qed

lemma no_user_bit: "(x * PGSIZE OR f) AND PTE_U = f AND PTE_U"
proof -
  have "x * PGSIZE = push_bit 12 x" by (simp add: push_bit_eq_mult)
  moreover have "push_bit 12 x AND PTE_U = 0" using and_exp_eq_0_iff_not_bit [of "push_bit 12 x" 2] by (simp add: bit_push_bit_iff)
  ultimately show ?thesis by (simp add: bit.conj_disj_distrib2)
qed

lemma kernel_pte_facts:
  assumes "vp < 1048576"
  shows "kernel_pte dp vp AND PTE_U = 0"
    "present (kernel_pte dp vp) \<longleftrightarrow> 0x80000 \<le> vp \<and> vp < 0x8E000 \<or> 0xFE000 \<le> vp"
    "0x80000 \<le> vp \<Longrightarrow> vp < 0x8E000 \<Longrightarrow> PTE_ADDR (kernel_pte dp vp) = of_nat (vp - 0x80000) * PGSIZE"
    "0xFE000 \<le> vp \<Longrightarrow> PTE_ADDR (kernel_pte dp vp) = of_nat vp * PGSIZE"
proof -
  show "kernel_pte dp vp AND PTE_U = 0" unfolding kernel_pte_def by (simp add: no_user_bit del: of_nat_diff)
  have e: "(0 :: u32) OR PTE_P = 1" "PTE_W OR PTE_P = 3" by simp_all
  have "present (x OR 3)" for x using present_new [of x] by (simp add: present_or(1)) (simp add: present_def)
  moreover have "present (x OR 1)" for x by (simp only: present_or) simp
  ultimately show "present (kernel_pte dp vp) \<longleftrightarrow> 0x80000 \<le> vp \<and> vp < 0x8E000 \<or> 0xFE000 \<le> vp"
    unfolding kernel_pte_def using present_or(3) by (simp add: e del: of_nat_diff)
  show "PTE_ADDR (kernel_pte dp vp) = of_nat (vp - 0x80000) * PGSIZE" if "0x80000 \<le> vp" "vp < 0x8E000"
    unfolding kernel_pte_def using that addr_or(1) [OF page_word(2), of "vp - 0x80000"] by (simp add: e del: of_nat_diff)
  show "PTE_ADDR (kernel_pte dp vp) = of_nat vp * PGSIZE" if "0xFE000 \<le> vp"
    unfolding kernel_pte_def using that assms addr_or(1) [OF page_word(2), of vp] by (simp add: e)
qed

section \<open>Properties\<close>


lemma length_pages_from [simp]: "length (pages_from p n) = n"
  by (simp add: pages_from_def)


text \<open>A new address space of the sample machine.\<close>

lemma sample_space:
  "\<exists>s d t ys. kinit1 0x80110000 0x80400000 sample_mem = Ok () s \<and> setupkvm s = Ok d t \<and> vm_inv d ys t \<and> 600 \<le> length ys \<and>
    (\<forall>vp < 0x80000. pte_at (pmem t) d vp = 0)"
proof -
  obtain s m h where s: "kinit1 0x80110000 0x80400000 sample_mem = Ok () s" "kmem_ok (rev (pages_from 0x80110000 752)) s"
      "s = sample_mem\<lparr>pmem := m, kmem_freelist := h\<rparr>"
    using sample_pool by blast
  obtain d zs where xs: "rev (pages_from 0x80110000 752) = d # zs" by (cases "rev (pages_from 0x80110000 752)") (auto dest: arg_cong [of _ _ length])
  have "length (rev (pages_from 0x80110000 752)) = 752" by simp
  then have l: "length zs = 751" unfolding xs by simp
  have "kmem_ok (d # zs) s" "129 \<le> length zs" "unat (k_data s) = 0x80108 * 4096"
    using s(2,3) xs l by (simp_all add: sample_mem_def boot_with_def)
  from setupkvm_run [OF this] obtain ys t where "setupkvm s = Ok d t" "vm_inv d ys t" "\<forall>vp<1048576. pte_at (pmem t) d vp = kernel_pte 0x80108 vp"
      "length zs - 129 \<le> length ys"
    by auto
  then show ?thesis using s(1) l by (intro exI [of _ s] exI [of _ d] exI [of _ t] exI [of _ ys]) (simp add: kernel_pte_def)
qed

lemma mappages_refused:
  assumes I: "vm_inv d xs s"
  shows "present (pte_at (pmem s) d (vpn va)) \<Longrightarrow> mappages d va sz pa perm s = Panic ''remap''"
    "xs = [] \<Longrightarrow> \<not> present (pde_at (pmem s) d (vpn va div 1024)) \<Longrightarrow> mappages d va sz pa perm s = Ok (-1) s"
proof -
  let ?a = "PGROUNDDOWN va" and ?i = "vpn va div 1024"
  have pt: "pt_ok (k_end s) (pmem s) d" and K: "kmem_ok xs s" using I by (simp_all add: vm_inv_def)
  have v: "vpn ?a = vpn va" using unat_PGROUNDDOWN [of va] by (simp add: vpn_def)
  show "mappages d va sz pa perm s = Panic ''remap''" if p: "present (pte_at (pmem s) d (vpn va))"
  proof -
    have q: "present (pde_at (pmem s) d ?i)" using p present_or(3) by (auto simp: pte_at_def Let_def split: if_splits)
    have "ldw (tab_of (pde_at (pmem s) d ?i) + 4 * PTX ?a) s = Ok (pte_at (pmem s) d (vpn va)) s"
      using slot_at(1) [OF pt, of ?a] q v by (simp add: ldw_def kmonad pte_at_def)
    then have "mappages_body d (PGROUNDDOWN (va + sz - 1)) perm (?a, pa) s = Panic ''remap''"
      using walk_run(1) [OF pt _ q, of ?a True] slot_at(2) [OF pt, of ?a] q v p by (simp add: mappages_body_def kmonad present_def)
    then show ?thesis unfolding mappages_def by (rule kloop_stop) simp
  qed
  show "mappages d va sz pa perm s = Ok (-1) s" if e: "xs = []" and "\<not> present (pde_at (pmem s) d ?i)"
  proof -
    have "kmem_freelist s = 0" using K e by (simp add: kmem_ok_def)
    moreover obtain h where "kalloc s = Ok 0 (s\<lparr>kmem_freelist := h\<rparr>)" "kmem_ok [] (s\<lparr>kmem_freelist := h\<rparr>)" using kalloc_run [OF K] e by auto
    moreover from this(2) have "h = 0" by (simp add: kmem_ok_def)
    ultimately have "kalloc s = Ok 0 s" by (cases s) simp
    then have "walkpgdir d ?a True s = Ok 0 s" using walk_run(3) [OF pt, of _ ?a] v that(2) by (simp add: walkpgdir_def kmonad present_def)
    then have "mappages_body d (PGROUNDDOWN (va + sz - 1)) perm (?a, pa) s = Ok (Inr (-1)) s" by (simp add: mappages_body_def kmonad)
    then show ?thesis unfolding mappages_def by (rule kloop_exit) simp
  qed
qed



text \<open>
  C23: growing a process: with enough free pages \<open>allocuvm\<close> returns the new size, and every user page between
  the old and the new size is then backed by a page of its own, filled with zeros and accessible
  to the user, while all other mappings stay; a size that reaches the kernel's addresses is
  refused with 0 and a smaller size returns the old one, both without any change.
\<close>

theorem allocuvm_grows:
  assumes I: "vm_inv d xs s"
  shows "let vp = (unat oldsz + 4095) div 4096; n = (unat newsz + 4095) div 4096 - vp in
    (unat oldsz \<le> unat newsz \<and> newsz < KERNBASE \<and> (\<forall>j<n. \<not> present (pte_at (pmem s) d (vp + j))) \<and>
       n + (if n = 0 then 0 else card (missing (pmem s) d vp (n - 1))) \<le> length xs \<longrightarrow>
      (\<exists>ps ys t. allocuvm d oldsz newsz s = Ok newsz t \<and> length ps = n \<and> backed d vp ps xs s ys t)) \<and>
    (KERNBASE \<le> newsz \<longrightarrow> allocuvm d oldsz newsz s = Ok 0 s) \<and>
    (newsz < KERNBASE \<and> newsz < oldsz \<longrightarrow> allocuvm d oldsz newsz s = Ok oldsz s)"
proof -
  define vp n where "vp = (unat oldsz + 4095) div 4096" and "n = (unat newsz + 4095) div 4096 - vp"
  have "\<exists>ps ys t. allocuvm d oldsz newsz s = Ok newsz t \<and> length ps = n \<and> backed d vp ps xs s ys t"
    if a: "unat oldsz \<le> unat newsz" "newsz < KERNBASE" "\<forall>j<n. \<not> present (pte_at (pmem s) d (vp + j))"
       "n + (if n = 0 then 0 else card (missing (pmem s) d vp (n - 1))) \<le> length xs"
  proof -
    have "vp \<le> (unat newsz + 4095) div 4096" unfolding vp_def using a(1) by (intro div_le_mono) simp
    then have "vp + n = (unat newsz + 4095) div 4096" by (simp add: n_def)
    then show ?thesis using allocuvm_run [OF I a(1,2) vp_def _ a(3,4)] by simp
  qed
  moreover have "KERNBASE \<le> newsz \<Longrightarrow> allocuvm d oldsz newsz s = Ok 0 s" by (simp add: allocuvm_def kmonad)
  moreover have "newsz < KERNBASE \<Longrightarrow> newsz < oldsz \<Longrightarrow> allocuvm d oldsz newsz s = Ok oldsz s" by (auto simp: allocuvm_def kmonad dest: leD)
  ultimately show ?thesis unfolding Let_def vp_def [symmetric] n_def [symmetric] by blast
qed

theorem allocuvm_grows_witness:
  "\<exists>s d t ps u. kinit1 0x80110000 0x80400000 sample_mem = Ok () s \<and> setupkvm s = Ok d t \<and> allocuvm d 0 5000 t = Ok 5000 u \<and>
    distinct ps \<and> pte_at (pmem u) d 1 = v2p (ps ! 1) OR (PTE_W OR PTE_U) OR PTE_P \<and> pmem u (at (ps ! 1)) = 0"
proof -
  obtain s d t ys where s: "kinit1 0x80110000 0x80400000 sample_mem = Ok () s" "setupkvm s = Ok d t" "vm_inv d ys t" "600 \<le> length ys"
      "\<forall>vp < 0x80000. pte_at (pmem t) d vp = 0"
    using sample_space by blast
  have "card (missing (pmem t) d 0 1) \<le> 1" using card_missing [of "pmem t" d 0 1] by simp
  moreover have "\<forall>j<2. \<not> present (pte_at (pmem t) d j)" using s(5) present_or(3) by simp
  ultimately obtain ps zs u where u: "allocuvm d 0 5000 t = Ok 5000 u" "length ps = 2" "backed d 0 ps ys t zs u"
    using allocuvm_grows [OF s(3), of 0 5000] s(4) by (auto simp: Let_def)
  have "ps ! 1 \<in> set ps" using u(2) by simp
  then have "distinct ps" "pte_at (pmem u) d 1 = v2p (ps ! 1) OR (PTE_W OR PTE_U) OR PTE_P" "\<forall>i<4096. pmem u (at (ps ! 1) + i) = 0"
    using u(2,3) unfolding backed_def by auto
  moreover from this(3) have "pmem u (at (ps ! 1)) = 0" by (metis add.right_neutral zero_less_numeral)
  ultimately show ?thesis using s(1,2) u(1) by blast
qed

lemma copyout_refused:
  assumes pt: "pt_ok e (pmem s) d" and "0 < len" and v: "v = vpn va" and p: "present (pde_at (pmem s) d (v div 1024))"
    and e: "\<not> present (pte_at (pmem s) d v) \<or> pte_at (pmem s) d v AND PTE_U = 0"
  shows "copyout null d va p len s = Ok (-1) s"
proof -
  let ?a = "PGROUNDDOWN va"
  have va: "vpn ?a = v" using unat_PGROUNDDOWN [of va] v by (simp add: vpn_def)
  have "ldw (tab_of (pde_at (pmem s) d (v div 1024)) + 4 * PTX ?a) s = Ok (pte_at (pmem s) d v) s"
    using slot_at(1) [OF pt, of ?a] p va by (simp add: ldw_def kmonad pte_at_def)
  then have "uva2ka null d ?a s = Ok 0 s"
    using walk_run(1) [OF pt _ p, of ?a False] slot_at(2) [OF pt, of ?a] p va e by (auto simp: uva2ka_def kmonad present_def)
  then have "copyout_body null d p (va, 0, len) s = Ok (Inr (-1)) s" using assms(2) by (simp add: copyout_body_def kmonad Let_def)
  then show ?thesis unfolding copyout_def by (rule kloop_exit) simp
qed


lemma backed_user_pages:
  assumes I: "vm_inv d xs s" and B: "backed d vp ps xs s ys t" and b: "vp + length ps \<le> 1048576"
  shows "user_pages (k_end t) (pmem t) d {vp..<vp + length ps}"
proof -
  have t: "k_end t = k_end s" "pt_ok (k_end t) (pmem t) d" "distinct ps" "set ps \<subseteq> set xs" "set ps \<inter> (pt_pages (pmem t) d \<union> set ys) = {}"
      "\<forall>vq<1048576. pte_at (pmem t) d vq =
       (if vp \<le> vq \<and> vq < vp + length ps then v2p (ps ! (vq - vp)) OR (PTE_W OR PTE_U) OR PTE_P else pte_at (pmem s) d vq)"
    using B unfolding backed_def vm_inv_def by auto
  have ps: "\<forall>p\<in>set ps. page_ok (k_end t) p" using I t(1,4) by (auto simp: vm_inv_def kmem_ok_def)
  have pte: "pte_at (pmem t) d vq = v2p (ps ! (vq - vp)) OR 7" if "vq \<in> {vp..<vp + length ps}" for vq
    using t(6) that b by simp
  have tab: "tab_of (pte_at (pmem t) d vq) = ps ! (vq - vp)" "present (pte_at (pmem t) d vq)" "pte_at (pmem t) d vq AND PTE_U \<noteq> 0"
    if q: "vq \<in> {vp..<vp + length ps}" for vq
  proof -
    have p: "page_ok (k_end t) (ps ! (vq - vp))" using ps q by auto
    show "tab_of (pte_at (pmem t) d vq) = ps ! (vq - vp)" using tab_of_new [OF p] pte [OF q] by simp
    show "present (pte_at (pmem t) d vq)" using present_new [of "v2p (ps ! (vq - vp))"] pte [OF q] by simp
    show "pte_at (pmem t) d vq AND PTE_U \<noteq> 0" using pte [OF q] by (simp add: bit.conj_disj_distrib2)
  qed
  have "inj_on (\<lambda>vq. tab_of (pte_at (pmem t) d vq)) {vp..<vp + length ps}"
    using tab(1) t(3) by (auto simp: inj_on_def nth_eq_iff_index_eq)
  moreover have "ps ! (vq - vp) \<in> set ps" if "vq \<in> {vp..<vp + length ps}" for vq using that by auto
  then have "tab_of (pte_at (pmem t) d vq) \<in> set ps" if "vq \<in> {vp..<vp + length ps}" for vq using tab(1) that by simp
  then have "page_ok (k_end t) (tab_of (pte_at (pmem t) d vq))" "tab_of (pte_at (pmem t) d vq) \<notin> pt_pages (pmem t) d"
    if "vq \<in> {vp..<vp + length ps}" for vq using that ps t(5) by blast+
  ultimately show ?thesis unfolding user_pages_def using t(2) tab(2,3) b by auto
qed


end
