(* ===== verification/Pipe.thy ===== *)
theory Pipe
  imports Kalloc
begin

text \<open>
  Pipes (\<open>kernel/pipe.c\<close>) and the state they share with the open files of \<open>kernel/file.c\<close>.  The bytes
  written and read are counted in 32 bit words that wrap around; the ring buffer is indexed by the
  count modulo its size.  \<open>pipewrite\<close> and \<open>piperead\<close> run in segments: a segment ends with a result or at
  a call of \<open>sleep\<close>, after which the scheduler runs others, and the next segment starts where
  \<open>sleep\<close> returns.
\<close>

section \<open>State\<close>

abbreviation PIPESIZE :: nat where "PIPESIZE \<equiv> 512"
abbreviation NFILE :: nat where "NFILE \<equiv> 100"

record pipe =
  pi_data :: bytes
  pi_nread :: u32
  pi_nwrite :: u32
  pi_readopen :: bool
  pi_writeopen :: bool

datatype fdtype = FD_NONE | FD_PIPE | FD_INODE

record kfile =
  f_type :: fdtype
  f_ref :: int
  f_readable :: bool
  f_writable :: bool
  f_pipe :: u32
  f_ip :: nat
  f_off :: u32

text \<open>\<open>pipes\<close> is the \<open>struct pipe\<close> in each page that holds one.\<close>

record file_st = mem_st +
  ftable :: "nat \<Rightarrow> kfile"
  pipes :: "u32 \<Rightarrow> pipe"

definition upd_pipe :: "u32 \<Rightarrow> (pipe \<Rightarrow> pipe) \<Rightarrow> ('a file_st_scheme, chan, unit) km" where
  "upd_pipe p f = kmod (\<lambda>s. s\<lparr>pipes := (pipes s)(p := f (pipes s p))\<rparr>)"

definition get_pipe :: "u32 \<Rightarrow> ('a file_st_scheme, chan, pipe) km" where
  "get_pipe p = kget (\<lambda>s. pipes s p)"

abbreviation pipe_lock :: "u32 \<Rightarrow> lockid" where "pipe_lock p \<equiv> LPipe (unat p)"
abbreviation pipe_nread :: "u32 \<Rightarrow> chan" where "pipe_nread p \<equiv> ChPipeRead (unat p)"
abbreviation pipe_nwrite :: "u32 \<Rightarrow> chan" where "pipe_nwrite p \<equiv> ChPipeWrite (unat p)"

section \<open>Operations\<close>

definition pipeclose :: "u32 \<Rightarrow> bool \<Rightarrow> ('a file_st_scheme, chan, unit) km" where
  "pipeclose p writable =
     kseq (acquire (pipe_lock p))
     (kseq
       (if writable then
          kseq (upd_pipe p (\<lambda>q. q\<lparr>pi_writeopen := False\<rparr>))
          (wakeup (pipe_nread p))
        else
          kseq (upd_pipe p (\<lambda>q. q\<lparr>pi_readopen := False\<rparr>))
          (wakeup (pipe_nwrite p)))
     (kbind (get_pipe p) (\<lambda>q.
     if \<not> pi_readopen q \<and> \<not> pi_writeopen q then
       kseq (release (pipe_lock p))
       (kfree p)
     else
       release (pipe_lock p))))"

text \<open>
  The loop of \<open>pipewrite\<close> with \<open>k\<close> bytes left from index \<open>i\<close> on, the lock held.  \<open>Inr r\<close> is a return of \<open>r\<close>;
  \<open>Inl (i, k)\<close> says that the process sleeps with these bytes left.
\<close>

fun pipewrite_from :: "u32 \<Rightarrow> bytes \<Rightarrow> int \<Rightarrow> nat \<Rightarrow> nat \<Rightarrow> ('a file_st_scheme, chan, (nat \<times> nat) + int) km" where
  "pipewrite_from p addr n i 0 =
     kseq (wakeup (pipe_nread p))
     (kseq (release (pipe_lock p))
     (kreturn (Inr n)))"
| "pipewrite_from p addr n i (Suc k) =
     kbind (get_pipe p) (\<lambda>q.
     if pi_nwrite q = pi_nread q + of_nat PIPESIZE then
       kbind (kget (\<lambda>s. p_killed (this_proc s))) (\<lambda>killed.
       if \<not> pi_readopen q \<or> killed then
         kseq (release (pipe_lock p))
         (kreturn (Inr (-1)))
       else
         kseq (wakeup (pipe_nread p))
         (kseq (sleep_enter (pipe_nwrite p) (pipe_lock p))
         (kreturn (Inl (i, Suc k)))))
     else
       kseq (upd_pipe p (\<lambda>q. q\<lparr>pi_data := (pi_data q)(unat (pi_nwrite q) mod PIPESIZE := addr i),
         pi_nwrite := pi_nwrite q + 1\<rparr>))
       (pipewrite_from p addr n (i + 1) k))"

definition pipewrite_start :: "u32 \<Rightarrow> bytes \<Rightarrow> int \<Rightarrow> ('a file_st_scheme, chan, (nat \<times> nat) + int) km" where
  "pipewrite_start p addr n = kseq (acquire (pipe_lock p)) (pipewrite_from p addr n 0 (nat n))"

definition pipewrite_resume :: "u32 \<Rightarrow> bytes \<Rightarrow> int \<Rightarrow> nat \<times> nat \<Rightarrow> ('a file_st_scheme, chan, (nat \<times> nat) + int) km" where
  "pipewrite_resume p addr n ik = kseq (sleep_leave (pipe_lock p)) (pipewrite_from p addr n (fst ik) (snd ik))"

text \<open>The copy loop of \<open>piperead\<close>: at most \<open>k\<close> bytes to \<open>addr\<close> from index \<open>i\<close> on, with the index it stops at.\<close>

fun piperead_copy :: "u32 \<Rightarrow> bytes \<Rightarrow> nat \<Rightarrow> nat \<Rightarrow> ('a file_st_scheme, chan, nat \<times> bytes) km" where
  "piperead_copy p addr i 0 = kreturn (i, addr)"
| "piperead_copy p addr i (Suc k) =
     kbind (get_pipe p) (\<lambda>q.
     if pi_nread q = pi_nwrite q then kreturn (i, addr)
     else
       kseq (upd_pipe p (\<lambda>q. q\<lparr>pi_nread := pi_nread q + 1\<rparr>))
       (piperead_copy p (addr(i := pi_data q (unat (pi_nread q) mod PIPESIZE))) (i + 1) k))"

text \<open>The wait for bytes and the copy, the lock held; \<open>Inl ()\<close> says that the process sleeps.\<close>

definition piperead_from :: "u32 \<Rightarrow> bytes \<Rightarrow> int \<Rightarrow> ('a file_st_scheme, chan, unit + (int \<times> bytes)) km" where
  "piperead_from p addr n =
     kbind (get_pipe p) (\<lambda>q.
     if pi_nread q = pi_nwrite q \<and> pi_writeopen q then
       kbind (kget (\<lambda>s. p_killed (this_proc s))) (\<lambda>killed.
       if killed then
         kseq (release (pipe_lock p))
         (kreturn (Inr (-1, addr)))
       else
         kseq (sleep_enter (pipe_nread p) (pipe_lock p))
         (kreturn (Inl ())))
     else
       kbind (piperead_copy p addr 0 (nat n)) (\<lambda>(i, addr).
       kseq (wakeup (pipe_nwrite p))
       (kseq (release (pipe_lock p))
       (kreturn (Inr (int i, addr))))))"

definition piperead_start :: "u32 \<Rightarrow> bytes \<Rightarrow> int \<Rightarrow> ('a file_st_scheme, chan, unit + (int \<times> bytes)) km" where
  "piperead_start p addr n = kseq (acquire (pipe_lock p)) (piperead_from p addr n)"

definition piperead_resume :: "u32 \<Rightarrow> bytes \<Rightarrow> int \<Rightarrow> ('a file_st_scheme, chan, unit + (int \<times> bytes)) km" where
  "piperead_resume p addr n = kseq (sleep_leave (pipe_lock p)) (piperead_from p addr n)"

text \<open>Whole calls for code that only needs to know whether they sleep.\<close>

definition pipewrite :: "u32 \<Rightarrow> bytes \<Rightarrow> int \<Rightarrow> ('a file_st_scheme, chan, int) km" where
  "pipewrite p addr n = kbind (pipewrite_start p addr n) (\<lambda>r.
     case r of Inl ik \<Rightarrow> ksleep (pipe_nwrite p) | Inr r \<Rightarrow> kreturn r)"

definition piperead :: "u32 \<Rightarrow> bytes \<Rightarrow> int \<Rightarrow> ('a file_st_scheme, chan, int \<times> bytes) km" where
  "piperead p addr n = kbind (piperead_start p addr n) (\<lambda>r.
     case r of Inl _ \<Rightarrow> ksleep (pipe_nread p) | Inr r \<Rightarrow> kreturn r)"

section \<open>The pipe as a queue\<close>

text \<open>The bytes in the pipe, oldest first.\<close>

definition pipe_len :: "pipe \<Rightarrow> nat" where
  "pipe_len q = unat (pi_nwrite q - pi_nread q)"

definition pipe_bytes :: "pipe \<Rightarrow> u8 list" where
  "pipe_bytes q = map (\<lambda>j. pi_data q ((unat (pi_nread q) + j) mod PIPESIZE)) [0..<pipe_len q]"

definition pipe_ok :: "pipe \<Rightarrow> bool" where
  "pipe_ok q \<longleftrightarrow> pipe_len q \<le> PIPESIZE"

definition put_byte :: "u8 \<Rightarrow> pipe \<Rightarrow> pipe" where
  "put_byte b q = q\<lparr>pi_data := (pi_data q)(unat (pi_nwrite q) mod PIPESIZE := b), pi_nwrite := pi_nwrite q + 1\<rparr>"

definition take_byte :: "pipe \<Rightarrow> pipe" where
  "take_byte q = q\<lparr>pi_nread := pi_nread q + 1\<rparr>"

lemma pipe_bytes_length [simp]: "length (pipe_bytes q) = pipe_len q"
  by (simp add: pipe_bytes_def)

text \<open>The counts wrap around at a multiple of the size, so the indices agree.\<close>

lemma unat_mod_512: "unat (a + b :: u32) mod 512 = (unat a + unat b) mod 512"
proof -
  have "(512 :: nat) dvd 2 ^ 32" by (simp add: dvd_def)
  then show ?thesis by (simp add: unat_word_ariths mod_mod_cancel)
qed

lemma nwrite_index: "unat (pi_nwrite q) mod 512 = (unat (pi_nread q) + pipe_len q) mod 512"
  using unat_mod_512 [of "pi_nread q" "pi_nwrite q - pi_nread q"] by (simp add: pipe_len_def)

lemma pipe_full: "pi_nwrite q = pi_nread q + 512 \<longleftrightarrow> pipe_len q = 512"
proof
  assume "pipe_len q = 512"
  then have "unat (pi_nwrite q - pi_nread q) = unat (512 :: u32)" by (simp add: pipe_len_def)
  then have "pi_nwrite q - pi_nread q = 512" by (simp only: word_unat_eq_iff)
  then show "pi_nwrite q = pi_nread q + 512" by (simp add: algebra_simps)
qed (simp add: pipe_len_def)

lemma pipe_empty: "pi_nread q = pi_nwrite q \<longleftrightarrow> pipe_len q = 0"
  by (auto simp: pipe_len_def unat_eq_zero)

lemma put_byte_queue:
  assumes "pipe_len q < 512"
  shows "pipe_bytes (put_byte b q) = pipe_bytes q @ [b]" "pipe_ok (put_byte b q)"
proof -
  have l: "pipe_len (put_byte b q) = Suc (pipe_len q)"
  proof -
    have e: "pi_nwrite q + 1 - pi_nread q = (pi_nwrite q - pi_nread q) + 1" by simp
    have "unat ((pi_nwrite q - pi_nread q) + 1) = Suc (unat (pi_nwrite q - pi_nread q))"
      using assms by (simp add: pipe_len_def unat_word_ariths)
    moreover have "pi_nwrite (put_byte b q) = pi_nwrite q + 1" "pi_nread (put_byte b q) = pi_nread q" by (simp_all add: put_byte_def)
    ultimately show ?thesis unfolding pipe_len_def by (simp only: e)
  qed
  then show "pipe_ok (put_byte b q)" using assms by (simp add: pipe_ok_def)
  have "(unat (pi_nread q) + j) mod 512 \<noteq> unat (pi_nwrite q) mod 512" if "j < pipe_len q" for j
  proof
    assume "(unat (pi_nread q) + j) mod 512 = unat (pi_nwrite q) mod 512"
    then have "(unat (pi_nread q) + j) mod 512 = (unat (pi_nread q) + pipe_len q) mod 512" by (simp add: nwrite_index)
    then have "512 dvd (unat (pi_nread q) + pipe_len q) - (unat (pi_nread q) + j)"
      using that mod_eq_dvd_iff_nat [of "unat (pi_nread q) + j" "unat (pi_nread q) + pipe_len q" 512] by simp
    then show False using that assms by (auto dest: dvd_imp_le)
  qed
  then have "map (\<lambda>j. pi_data (put_byte b q) ((unat (pi_nread q) + j) mod 512)) [0..<pipe_len q] = pipe_bytes q"
    by (simp add: pipe_bytes_def put_byte_def)
  moreover have "pi_data (put_byte b q) ((unat (pi_nread q) + pipe_len q) mod 512) = b"
    by (simp add: put_byte_def nwrite_index [symmetric])
  ultimately show "pipe_bytes (put_byte b q) = pipe_bytes q @ [b]"
    unfolding pipe_bytes_def l by (simp add: put_byte_def)
qed

lemma take_byte_queue:
  assumes "0 < pipe_len q"
  shows "pipe_bytes q = pi_data q (unat (pi_nread q) mod 512) # pipe_bytes (take_byte q)" "pipe_len (take_byte q) = pipe_len q - 1"
proof -
  have e: "pi_nwrite q - (pi_nread q + 1) = (pi_nwrite q - pi_nread q) - 1" by simp
  have "1 \<le> pi_nwrite q - pi_nread q" using assms by (simp add: pipe_len_def word_le_nat_alt)
  then have "unat ((pi_nwrite q - pi_nread q) - 1) = pipe_len q - 1" using unat_sub [of 1 "pi_nwrite q - pi_nread q"] by (simp add: pipe_len_def)
  moreover have "pi_nwrite (take_byte q) = pi_nwrite q" "pi_nread (take_byte q) = pi_nread q + 1" by (simp_all add: take_byte_def)
  ultimately show l: "pipe_len (take_byte q) = pipe_len q - 1" unfolding pipe_len_def [of "take_byte q"] by (simp only: e)
  have "(unat (pi_nread q + 1) + j) mod 512 = (unat (pi_nread q) + Suc j) mod 512" for j
  proof -
    have "(unat (pi_nread q + 1) + j) mod 512 = (unat (pi_nread q + 1) mod 512 + j) mod 512" by (simp only: mod_add_left_eq)
    also have "\<dots> = ((unat (pi_nread q) + 1) mod 512 + j) mod 512" using unat_mod_512 [of "pi_nread q" 1] by simp
    also have "\<dots> = (unat (pi_nread q) + Suc j) mod 512" by (simp only: mod_add_left_eq) simp
    finally show ?thesis .
  qed
  then have "pipe_bytes (take_byte q) = map (\<lambda>j. pi_data q ((unat (pi_nread q) + Suc j) mod 512)) [0..<pipe_len q - 1]"
    unfolding pipe_bytes_def l by (simp add: take_byte_def)
  moreover have "[0..<pipe_len q] = 0 # map Suc [0..<pipe_len q - 1]" using assms by (simp add: map_Suc_upt upt_conv_Cons)
  ultimately show "pipe_bytes q = pi_data q (unat (pi_nread q) mod 512) # pipe_bytes (take_byte q)"
    by (simp add: pipe_bytes_def [of q])
qed

text \<open>Several bytes at once.\<close>

definition put_bytes :: "u8 list \<Rightarrow> pipe \<Rightarrow> pipe" where
  "put_bytes bs q = fold put_byte bs q"

definition take_bytes :: "nat \<Rightarrow> pipe \<Rightarrow> pipe" where
  "take_bytes n q = (take_byte ^^ n) q"

lemma put_byte_ends [simp]:
  "pi_readopen (put_byte b q) = pi_readopen q" "pi_writeopen (put_byte b q) = pi_writeopen q"
  "pi_readopen (take_byte q) = pi_readopen q" "pi_writeopen (take_byte q) = pi_writeopen q"
  by (simp_all add: put_byte_def take_byte_def)

lemma put_bytes_queue:
  assumes "pipe_len q + length bs \<le> 512"
  shows "pipe_bytes (put_bytes bs q) = pipe_bytes q @ bs \<and> pi_readopen (put_bytes bs q) = pi_readopen q \<and>
    pi_writeopen (put_bytes bs q) = pi_writeopen q"
  using assms
proof (induction bs arbitrary: q)
  case (Cons b bs)
  note P = put_byte_queue(1) [of q b]
  have "pipe_len (put_byte b q) + length bs \<le> 512" using Cons.prems arg_cong [OF P, of length] by simp
  from Cons.IH [OF this] P Cons.prems show ?case by (simp add: put_bytes_def)
qed (simp add: put_bytes_def)

lemma pipe_len_put: "pipe_len q + length bs \<le> 512 \<Longrightarrow> pipe_len (put_bytes bs q) = pipe_len q + length bs"
  using arg_cong [OF put_bytes_queue [THEN conjunct1], of q bs length] by simp

lemma take_bytes_queue:
  assumes "n \<le> pipe_len q"
  shows "pipe_bytes (take_bytes n q) = drop n (pipe_bytes q) \<and> pi_readopen (take_bytes n q) = pi_readopen q \<and>
    pi_writeopen (take_bytes n q) = pi_writeopen q"
  using assms
proof (induction n)
  case (Suc n)
  then have I: "pipe_bytes (take_bytes n q) = drop n (pipe_bytes q)" by simp
  have "length (pipe_bytes (take_bytes n q)) = length (drop n (pipe_bytes q))" by (simp only: I)
  then have "pipe_len (take_bytes n q) = pipe_len q - n" by simp
  then have "0 < pipe_len (take_bytes n q)" using Suc.prems by simp
  from take_byte_queue(1) [OF this] have "pipe_bytes (take_byte (take_bytes n q)) = tl (drop n (pipe_bytes q))" by (simp add: I)
  then show ?case using Suc by (simp add: take_bytes_def drop_Suc tl_drop)
qed (simp add: take_bytes_def)

section \<open>Segments\<close>

lemma this_proc_update [simp]: "this_proc (s\<lparr>pipes := x\<rparr>) = this_proc s" "this_proc (s\<lparr>held := h\<rparr>) = this_proc s"
  by (simp_all add: this_proc_def)

lemma pipewrite_from_run:
  assumes "held s = {pipe_lock p}" and "pipe_ok (pipes s p)" and "curproc s < length (ptable s)"
    and "j = min k (512 - pipe_len (pipes s p))" and "P = (pipes s)(p := put_bytes (map addr [i..<i + j]) (pipes s p))"
    and "T = wakeup1_tab (pipe_nread p) (ptable s)"
  shows "pipewrite_from p addr n i k s =
    (if j = k then Ok (Inr n) (s\<lparr>held := {}, ptable := T, pipes := P\<rparr>)
     else if \<not> pi_readopen (pipes s p) \<or> p_killed (this_proc s) then Ok (Inr (-1)) (s\<lparr>held := {}, pipes := P\<rparr>)
     else Ok (Inl (i + j, k - j)) (s\<lparr>held := {LPtable}, ptable := asleep (pipe_nwrite p) (curproc s) T, pipes := P\<rparr>))"
  using assms
proof (induction k arbitrary: i j s P T)
  case 0
  then show ?case by (simp add: kmonad put_bytes_def)
next
  case (Suc k)
  let ?q = "pipes s p"
  show ?case
  proof (cases "pipe_len ?q = 512")
    case True
    then have j: "j = 0" "j \<noteq> Suc k" using Suc.prems(4) by simp_all
    have P: "P = pipes s" using Suc.prems(5) j by (simp add: put_bytes_def)
    have f: "pi_nwrite ?q = pi_nread ?q + 512" using True by (simp add: pipe_full)
    show ?thesis
    proof (cases "\<not> pi_readopen ?q \<or> p_killed (this_proc s)")
      case True
      then show ?thesis using f j P Suc.prems(1) by (simp add: kmonad get_pipe_def)
    next
      case False
      let ?s = "s\<lparr>ptable := T\<rparr>"
      have w: "wakeup (pipe_nread p) s = Ok () ?s" using Suc.prems(1,6) by (simp add: wakeup_run)
      have "sleep_enter (pipe_nwrite p) (pipe_lock p) ?s = Ok () (?s\<lparr>held := {LPtable}, ptable := asleep (pipe_nwrite p) (curproc s) T\<rparr>)"
        using sleep_enter_run [of ?s "pipe_lock p"] Suc.prems(1,3,6) by simp
      then show ?thesis using False f j P w by (simp add: kmonad get_pipe_def)
    qed
  next
    case False
    then have lt: "pipe_len ?q < 512" using Suc.prems(2) by (simp add: pipe_ok_def)
    have f: "pi_nwrite ?q \<noteq> pi_nread ?q + 512" using False by (simp add: pipe_full)
    let ?s = "s\<lparr>pipes := (pipes s)(p := put_byte (addr i) ?q)\<rparr>"
    note B = put_byte_queue [OF lt, of "addr i"]
    have l: "pipe_len (put_byte (addr i) ?q) = Suc (pipe_len ?q)" using arg_cong [OF B(1), of length] by simp
    have step: "pipewrite_from p addr n i (Suc k) s = pipewrite_from p addr n (i + 1) k ?s"
      using f by (simp add: kmonad get_pipe_def upd_pipe_def put_byte_def)
    obtain j' where j': "j = Suc j'" "j' = min k (512 - pipe_len (pipes ?s p))" using Suc.prems(4) lt l by (cases j) auto
    have u: "[i..<i + j] = i # [i + 1..<(i + 1) + j']" using j'(1) by (simp add: upt_conv_Cons del: upt_Suc)
    have "P = (pipes ?s)(p := put_bytes (map addr [i + 1..<(i + 1) + j']) (pipes ?s p))"
      unfolding Suc.prems(5) u by (simp add: put_bytes_def del: upt_Suc)
    from Suc.IH [OF _ _ _ j'(2) this, of T] show ?thesis
      unfolding step using Suc.prems(1,2,3,6) B(2) j'(1) by simp
  qed
qed

lemma piperead_copy_run:
  assumes "pipe_ok (pipes s p)" and "j = min k (pipe_len (pipes s p))"
  shows "piperead_copy p addr i k s =
    Ok (i + j, \<lambda>x. if i \<le> x \<and> x < i + j then pipe_bytes (pipes s p) ! (x - i) else addr x)
      (s\<lparr>pipes := (pipes s)(p := take_bytes j (pipes s p))\<rparr>)"
  using assms
proof (induction k arbitrary: addr i j s)
  case 0
  then show ?case by (auto simp: kmonad take_bytes_def fun_eq_iff)
next
  case (Suc k)
  let ?q = "pipes s p"
  show ?case
  proof (cases "pipe_len ?q = 0")
    case True
    then have "pi_nread ?q = pi_nwrite ?q" "j = 0" using Suc.prems(2) by (simp_all add: pipe_empty)
    then show ?thesis by (auto simp: kmonad get_pipe_def take_bytes_def fun_eq_iff)
  next
    case False
    then have pos: "0 < pipe_len ?q" and ne: "pi_nread ?q \<noteq> pi_nwrite ?q" by (simp_all add: pipe_empty)
    note B = take_byte_queue [OF pos]
    let ?s = "s\<lparr>pipes := (pipes s)(p := take_byte ?q)\<rparr>" and ?b = "pi_data ?q (unat (pi_nread ?q) mod 512)"
    obtain j' where j': "j = Suc j'" "j' = min k (pipe_len (take_byte ?q))" using Suc.prems(2) pos B(2) by (cases j) auto
    have q: "pipes ?s p = take_byte ?q" by simp
    have ok: "pipe_ok (take_byte ?q)" using Suc.prems(1) B(2) by (simp add: pipe_ok_def)
    have IH: "piperead_copy p (addr(i := ?b)) (i + 1) k ?s =
      Ok (i + 1 + j', \<lambda>x. if i + 1 \<le> x \<and> x < i + 1 + j' then pipe_bytes (take_byte ?q) ! (x - (i + 1)) else (addr(i := ?b)) x)
        (?s\<lparr>pipes := (pipes ?s)(p := take_bytes j' (take_byte ?q))\<rparr>)"
      using Suc.IH [of ?s j' "addr(i := ?b)" "i + 1", unfolded q, OF ok j'(2)] .
    have step: "piperead_copy p addr i (Suc k) s = piperead_copy p (addr(i := ?b)) (i + 1) k ?s"
      using ne by (simp add: kmonad get_pipe_def upd_pipe_def take_byte_def)
    have "take_bytes j' (take_byte ?q) = take_bytes j ?q" by (simp add: take_bytes_def j'(1) funpow_swap1)
    then have st: "?s\<lparr>pipes := (pipes ?s)(p := take_bytes j' (take_byte ?q))\<rparr> = s\<lparr>pipes := (pipes s)(p := take_bytes j ?q)\<rparr>" by simp
    have ij: "i + 1 + j' = i + j" using j'(1) by simp
    have buf: "(\<lambda>x. if i + 1 \<le> x \<and> x < i + 1 + j' then pipe_bytes (take_byte ?q) ! (x - (i + 1)) else (addr(i := ?b)) x) =
      (\<lambda>x. if i \<le> x \<and> x < i + j then pipe_bytes ?q ! (x - i) else addr x)"
    proof
      fix x
      show "(if i + 1 \<le> x \<and> x < i + 1 + j' then pipe_bytes (take_byte ?q) ! (x - (i + 1)) else (addr(i := ?b)) x) =
        (if i \<le> x \<and> x < i + j then pipe_bytes ?q ! (x - i) else addr x)"
        unfolding B(1) using j'(1) by (auto simp: nth_Cons')
    qed
    show ?thesis unfolding step IH st buf unfolding ij by (rule refl)
  qed
qed

lemma piperead_from_run:
  assumes "held s = {pipe_lock p}" and "pipe_ok (pipes s p)" and "curproc s < length (ptable s)"
    and "j = min (nat n) (pipe_len (pipes s p))" and "P = (pipes s)(p := take_bytes j (pipes s p))"
    and "T = wakeup1_tab (pipe_nwrite p) (ptable s)"
  shows "piperead_from p addr n s =
    (if pipe_len (pipes s p) = 0 \<and> pi_writeopen (pipes s p) then
       if p_killed (this_proc s) then Ok (Inr (-1, addr)) (s\<lparr>held := {}\<rparr>)
       else Ok (Inl ()) (s\<lparr>held := {LPtable}, ptable := asleep (pipe_nread p) (curproc s) (ptable s)\<rparr>)
     else Ok (Inr (int j, \<lambda>x. if x < j then pipe_bytes (pipes s p) ! x else addr x)) (s\<lparr>held := {}, ptable := T, pipes := P\<rparr>))"
proof (cases "pipe_len (pipes s p) = 0 \<and> pi_writeopen (pipes s p)")
  case True
  then have e: "pi_nread (pipes s p) = pi_nwrite (pipes s p)" by (simp add: pipe_empty)
  show ?thesis using True e assms(1,3) sleep_enter_run [of s "pipe_lock p" "pipe_nread p"]
    by (cases "p_killed (this_proc s)") (simp_all add: piperead_from_def kmonad get_pipe_def)
next
  case False
  then have e: "\<not> (pi_nread (pipes s p) = pi_nwrite (pipes s p) \<and> pi_writeopen (pipes s p))" by (simp add: pipe_empty)
  have "piperead_copy p addr 0 (nat n) s = Ok (j, \<lambda>x. if x < j then pipe_bytes (pipes s p) ! x else addr x) (s\<lparr>pipes := P\<rparr>)"
    using piperead_copy_run [OF assms(2,4), of addr 0] assms(5) by (simp cong: if_cong)
  then show ?thesis using False e assms(1,6) by (simp add: piperead_from_def kmonad get_pipe_def)
qed

end
