(* ===== verification/Pipe_Props.thy ===== *)
theory Pipe_Props
  imports Pipe
begin

text \<open>
  Many processes on one pipe.  A step runs one segment of one process: a call of \<open>pipewrite\<close> or \<open>piperead\<close> up
  to its return or its first sleep, the rest of a call after a wakeup, or a close.  An end is closed when
  the last descriptor for it goes, so no call on that end is under way then, and none starts
  later.  The state carries the bytes stored so far and the bytes handed to readers so far.
\<close>

section \<open>The steps\<close>

type_synonym 'a pipe_st = "'a file_st_scheme \<times> u8 list \<times> u8 list"

definition awake :: "'a file_st_scheme \<Rightarrow> nat \<Rightarrow> bool" where
  "awake s c \<longleftrightarrow> c < length (ptable s) \<and> p_state (ptable s ! c) \<noteq> SLEEPING"

definition sleeps :: "proc list \<Rightarrow> chan \<Rightarrow> nat \<Rightarrow> bool" where
  "sleeps ps ch c \<longleftrightarrow> c < length ps \<and> p_state (ps ! c) = SLEEPING \<and> p_chan (ps ! c) = Some ch"

text \<open>The bytes a segment that began at index \<open>i\<close> stored.\<close>

definition stored :: "u32 \<Rightarrow> bytes \<Rightarrow> nat \<Rightarrow> 'a file_st_scheme \<Rightarrow> 'a file_st_scheme \<Rightarrow> u8 list" where
  "stored p addr i s t = map addr [i..<i + unat (pi_nwrite (pipes t p) - pi_nwrite (pipes s p))]"

datatype pipe_act = Write_by nat | Read_by nat | Close_end

inductive pipe_step :: "u32 \<Rightarrow> pipe_act \<Rightarrow> 'a pipe_st \<Rightarrow> 'a pipe_st \<Rightarrow> bool" for p where
  write_start: "awake s c \<Longrightarrow> pi_writeopen (pipes s p) \<Longrightarrow> pipewrite_start p addr n (s\<lparr>curproc := c\<rparr>) = Ok r t \<Longrightarrow>
    pipe_step p (Write_by c) (s, sent, got) (t\<lparr>held := {}\<rparr>, sent @ stored p addr 0 s t, got)"
| write_resume: "awake s c \<Longrightarrow> pi_writeopen (pipes s p) \<Longrightarrow> pipewrite_resume p addr n ik (s\<lparr>curproc := c, held := {LPtable}\<rparr>) = Ok r t \<Longrightarrow>
    pipe_step p (Write_by c) (s, sent, got) (t\<lparr>held := {}\<rparr>, sent @ stored p addr (fst ik) s t, got)"
| read_start: "awake s c \<Longrightarrow> pi_readopen (pipes s p) \<Longrightarrow> piperead_start p addr n (s\<lparr>curproc := c\<rparr>) = Ok r t \<Longrightarrow>
    pipe_step p (Read_by c) (s, sent, got)
      (t\<lparr>held := {}\<rparr>, sent, got @ (case r of Inl _ \<Rightarrow> [] | Inr (m, buf) \<Rightarrow> map buf [0..<nat m]))"
| read_resume: "awake s c \<Longrightarrow> pi_readopen (pipes s p) \<Longrightarrow> piperead_resume p addr n (s\<lparr>curproc := c, held := {LPtable}\<rparr>) = Ok r t \<Longrightarrow>
    pipe_step p (Read_by c) (s, sent, got)
      (t\<lparr>held := {}\<rparr>, sent, got @ (case r of Inl _ \<Rightarrow> [] | Inr (m, buf) \<Rightarrow> map buf [0..<nat m]))"
| close_end: "(if w then pi_writeopen (pipes s p) else pi_readopen (pipes s p)) \<Longrightarrow>
    \<forall>c. \<not> sleeps (ptable s) (if w then pipe_nwrite p else pipe_nread p) c \<Longrightarrow> pipeclose p w s = Ok () t \<Longrightarrow>
    pipe_step p Close_end (s, sent, got) (t, sent, got)"

inductive_cases pipe_stepE: "pipe_step p a x y"

inductive pipe_reach :: "u32 \<Rightarrow> 'a pipe_st \<Rightarrow> 'a pipe_st \<Rightarrow> bool" for p x where
  start: "pipe_reach p x x"
| step: "pipe_reach p x y \<Longrightarrow> pipe_step p a y z \<Longrightarrow> pipe_reach p x z"

section \<open>Invariants\<close>

definition pipe_inv :: "u32 \<Rightarrow> 'a pipe_st \<Rightarrow> bool" where
  "pipe_inv p x \<longleftrightarrow> (case x of (s, sent, got) \<Rightarrow> held s = {} \<and> pipe_ok (pipes s p) \<and> sent = got @ pipe_bytes (pipes s p))"

definition pipe_wakes :: "u32 \<Rightarrow> 'a file_st_scheme \<Rightarrow> bool" where
  "pipe_wakes p s \<longleftrightarrow>
     (\<forall>c. sleeps (ptable s) (pipe_nread p) c \<longrightarrow> pipe_len (pipes s p) = 0 \<and> pi_readopen (pipes s p) \<and> pi_writeopen (pipes s p)) \<and>
     (\<forall>c. sleeps (ptable s) (pipe_nwrite p) c \<longrightarrow> pipe_len (pipes s p) = 512 \<and> pi_readopen (pipes s p) \<and> pi_writeopen (pipes s p))"

section \<open>Segments from a step\<close>

text \<open>The state in which the body of a call runs.\<close>

definition entered :: "u32 \<Rightarrow> nat \<Rightarrow> proc list \<Rightarrow> 'a file_st_scheme \<Rightarrow> 'a file_st_scheme" where
  "entered p c T s = s\<lparr>curproc := c, held := {pipe_lock p}, ptable := T\<rparr>"

definition dechan :: "nat \<Rightarrow> proc list \<Rightarrow> proc list" where
  "dechan c ps = ps[c := (ps ! c)\<lparr>p_chan := None\<rparr>]"

lemma start_run:
  assumes "held s = {}"
  shows "pipewrite_start p addr n (s\<lparr>curproc := c\<rparr>) = pipewrite_from p addr n 0 (nat n) (entered p c (ptable s) s)"
    "piperead_start p addr n (s\<lparr>curproc := c\<rparr>) = piperead_from p addr n (entered p c (ptable s) s)"
  using assms by (simp_all add: pipewrite_start_def piperead_start_def kmonad entered_def)

lemma resume_run:
  assumes "held s = {}"
  shows "pipewrite_resume p addr n ik (s\<lparr>curproc := c, held := {LPtable}\<rparr>) =
      pipewrite_from p addr n (fst ik) (snd ik) (entered p c (dechan c (ptable s)) s)"
    "piperead_resume p addr n (s\<lparr>curproc := c, held := {LPtable}\<rparr>) = piperead_from p addr n (entered p c (dechan c (ptable s)) s)"
proof -
  have "sleep_leave (pipe_lock p) (s\<lparr>curproc := c, held := {LPtable}\<rparr>) = Ok () (entered p c (dechan c (ptable s)) s)"
    by (simp add: sleep_leave_def upd_proc_def kmonad entered_def dechan_def)
  then show "pipewrite_resume p addr n ik (s\<lparr>curproc := c, held := {LPtable}\<rparr>) =
      pipewrite_from p addr n (fst ik) (snd ik) (entered p c (dechan c (ptable s)) s)"
    "piperead_resume p addr n (s\<lparr>curproc := c, held := {LPtable}\<rparr>) = piperead_from p addr n (entered p c (dechan c (ptable s)) s)"
    by (simp_all add: pipewrite_resume_def piperead_resume_def kmonad)
qed

text \<open>A write segment in both cases: from a table \<open>T\<close> that is the old one up to the channel of the process.\<close>

definition near :: "nat \<Rightarrow> proc list \<Rightarrow> proc list \<Rightarrow> bool" where
  "near c T ps \<longleftrightarrow> T = ps \<or> T = dechan c ps"

lemma nearD:
  assumes "near c T ps" "c < length ps"
  shows "length T = length ps" "T ! c = ps ! c \<or> T ! c = (ps ! c)\<lparr>p_chan := None\<rparr>" "\<And>d. d \<noteq> c \<Longrightarrow> T ! d = ps ! d"
  using assms by (auto simp: near_def dechan_def)

lemma unat_sub_len: "pipe_len q + length bs \<le> 512 \<Longrightarrow> unat (pi_nwrite (put_bytes bs q) - pi_nwrite q) = length bs"
proof (induction bs arbitrary: q)
  case Nil
  then show ?case by (simp add: put_bytes_def)
next
  case (Cons b bs)
  have l: "pipe_len (put_byte b q) = Suc (pipe_len q)" using pipe_len_put [of q "[b]"] Cons.prems by (simp add: put_bytes_def)
  then have IH: "unat (pi_nwrite (put_bytes bs (put_byte b q)) - pi_nwrite (put_byte b q)) = length bs" using Cons by simp
  have e: "pi_nwrite (put_bytes (b # bs) q) - pi_nwrite q = (pi_nwrite (put_bytes bs (put_byte b q)) - pi_nwrite (put_byte b q)) + 1"
    by (simp add: put_bytes_def put_byte_def)
  have "length bs < 512" using Cons.prems by simp
  then show ?case unfolding e using IH by (simp add: unat_word_ariths)
qed

lemma write_segment:
  assumes I: "pipe_inv p (s, sent, got)" and c: "awake s c" and T: "near c T (ptable s)"
    and run: "pipewrite_from p addr n i k (entered p c T s) = Ok r t"
  shows "pipe_inv p (t\<lparr>held := {}\<rparr>, sent @ stored p addr i s t, got)"
proof -
  let ?q = "pipes s p" and ?s = "entered p c T s"
  define j where "j = min k (512 - pipe_len ?q)"
  have ok: "pipe_ok ?q" and h: "held s = {}" and f: "sent = got @ pipe_bytes ?q" using I by (simp_all add: pipe_inv_def)
  have c': "c < length T" using nearD(1) [OF T] c by (simp add: awake_def)
  have pp: "pipes t p = put_bytes (map addr [i..<i + j]) ?q"
    using pipewrite_from_run [of ?s p j k _ addr i _ n] ok c' run by (auto simp: entered_def j_def split: if_splits)
  have l: "pipe_len ?q + length (map addr [i..<i + j]) \<le> 512" using ok by (simp add: j_def pipe_ok_def)
  have "unat (pi_nwrite (pipes t p) - pi_nwrite ?q) = j" using unat_sub_len [OF l] pp by simp
  then have "stored p addr i s t = map addr [i..<i + j]" by (simp add: stored_def)
  then show ?thesis using put_bytes_queue [OF l] pipe_len_put [OF l] l f pp by (simp add: pipe_inv_def pipe_ok_def)
qed

lemma read_segment:
  assumes I: "pipe_inv p (s, sent, got)" and c: "awake s c" and T: "near c T (ptable s)"
    and run: "piperead_from p addr n (entered p c T s) = Ok r t"
  shows "pipe_inv p (t\<lparr>held := {}\<rparr>, sent, got @ (case r of Inl _ \<Rightarrow> [] | Inr (m, buf) \<Rightarrow> map buf [0..<nat m]))"
proof -
  let ?q = "pipes s p" and ?s = "entered p c T s"
  define j where "j = min (nat n) (pipe_len ?q)"
  have ok: "pipe_ok ?q" and h: "held s = {}" and f: "sent = got @ pipe_bytes ?q" using I by (simp_all add: pipe_inv_def)
  have c': "c < length T" using nearD(1) [OF T] c by (simp add: awake_def)
  note R = piperead_from_run [of ?s p j n _ _ addr, OF _ _ _ _ refl refl]
  show ?thesis
  proof (cases "pipe_len ?q = 0 \<and> pi_writeopen ?q")
    case True
    then have "pipes t p = ?q \<and> (case r of Inl _ \<Rightarrow> [] | Inr (m, buf) \<Rightarrow> map buf [0..<nat m]) = []"
      using R ok c' run by (auto simp: entered_def j_def split: if_splits)
    then show ?thesis using ok f by (simp add: pipe_inv_def)
  next
    case False
    then have rt: "r = Inr (int j, \<lambda>x. if x < j then pipe_bytes ?q ! x else addr x)" "pipes t p = take_bytes j ?q"
      using R ok c' run by (auto simp: entered_def j_def cong: if_cong)
    have j: "j \<le> pipe_len ?q" by (simp add: j_def)
    note Q = take_bytes_queue [OF j]
    have "map (\<lambda>x. if x < j then pipe_bytes ?q ! x else addr x) [0..<nat (int j)] = take j (pipe_bytes ?q)"
      using j by (intro nth_equalityI) auto
    moreover have "pipe_len (take_bytes j ?q) = pipe_len ?q - j" using arg_cong [OF Q [THEN conjunct1], of length] by simp
    ultimately show ?thesis using rt Q ok f by (simp add: pipe_inv_def pipe_ok_def)
  qed
qed

lemma kfree_Ok: "LKmem \<notin> held s \<Longrightarrow> kfree v s = Ok () t \<Longrightarrow> \<exists>m h. t = s\<lparr>pmem := m, kmem_freelist := h\<rparr>"
  by (cases "kmem_use_lock s") (auto simp: kfree_def kmonad split: if_splits)

lemma pipeclose_Ok:
  assumes "held s = {}" and "pipeclose p w s = Ok () t"
  shows "\<exists>m h. t = s\<lparr>pipes := (pipes s)(p := if w then (pipes s p)\<lparr>pi_writeopen := False\<rparr> else (pipes s p)\<lparr>pi_readopen := False\<rparr>),
    ptable := wakeup1_tab (if w then pipe_nread p else pipe_nwrite p) (ptable s), pmem := m, kmem_freelist := h\<rparr>"
proof -
  let ?q = "if w then (pipes s p)\<lparr>pi_writeopen := False\<rparr> else (pipes s p)\<lparr>pi_readopen := False\<rparr>"
  let ?s = "s\<lparr>pipes := (pipes s)(p := ?q), ptable := wakeup1_tab (if w then pipe_nread p else pipe_nwrite p) (ptable s)\<rparr>"
  have "pipeclose p w s = (if \<not> pi_readopen ?q \<and> \<not> pi_writeopen ?q then kfree p ?s else Ok () ?s)"
    using assms(1) by (cases w) (simp_all add: pipeclose_def kmonad upd_pipe_def get_pipe_def)
  then have "kfree p ?s = Ok () t \<or> t = ?s" using assms(2) by (auto split: if_splits)
  then show ?thesis
  proof
    assume "kfree p ?s = Ok () t"
    from kfree_Ok [OF _ this] show ?thesis using assms(1) by auto
  next
    assume "t = ?s"
    then show ?thesis by (intro exI [of _ "pmem s"] exI [of _ "kmem_freelist s"]) simp
  qed
qed

lemma pipe_bytes_ends [simp]: "pipe_bytes (q\<lparr>pi_writeopen := b\<rparr>) = pipe_bytes q" "pipe_bytes (q\<lparr>pi_readopen := b\<rparr>) = pipe_bytes q"
  "pipe_len (q\<lparr>pi_writeopen := b\<rparr>) = pipe_len q" "pipe_len (q\<lparr>pi_readopen := b\<rparr>) = pipe_len q"
  by (simp_all add: pipe_bytes_def pipe_len_def)

lemma pipe_inv_step:
  assumes "pipe_step p a x y" and "pipe_inv p x"
  shows "pipe_inv p y"
  using assms
proof cases
  case (write_start s c addr n r t sent got)
  then show ?thesis using write_segment [of p s sent got c "ptable s" addr n 0 "nat n" r t] assms(2) start_run(1) [of s p addr n c]
    by (simp add: near_def pipe_inv_def)
next
  case (write_resume s c addr n ik r t sent got)
  then show ?thesis using write_segment [of p s sent got c "dechan c (ptable s)" addr n "fst ik" "snd ik" r t] assms(2)
      resume_run(1) [of s p addr n ik c]
    by (simp add: near_def pipe_inv_def)
next
  case (read_start s c addr n r t sent got)
  then show ?thesis using read_segment [of p s sent got c "ptable s" addr n r t] assms(2) start_run(2) [of s p addr n c]
    by (simp add: near_def pipe_inv_def)
next
  case (read_resume s c addr n r t sent got)
  then show ?thesis using read_segment [of p s sent got c "dechan c (ptable s)" addr n r t] assms(2) resume_run(2) [of s p addr n c]
    by (simp add: near_def pipe_inv_def)
next
  case (close_end w s t sent got)
  then have h: "held s = {}" using assms(2) by (simp add: pipe_inv_def)
  from pipeclose_Ok [OF h close_end(6)] show ?thesis using close_end assms(2) by (auto simp: pipe_inv_def pipe_ok_def)
qed

section \<open>Wakeups\<close>

lemma sleeps_wakeup [simp]: "sleeps (wakeup1_tab ch T) ch' c \<longleftrightarrow> ch' \<noteq> ch \<and> sleeps T ch' c"
  by (auto simp: sleeps_def wakeup1_tab_nth split: if_splits)

lemma sleeps_near:
  assumes "near c T (ptable s)" and "awake s c"
  shows "sleeps T ch d \<longleftrightarrow> sleeps (ptable s) ch d"
  using nearD [OF assms(1)] assms(2) by (cases "d = c") (auto simp: sleeps_def awake_def)

lemma sleeps_asleep [simp]: "c < length T \<Longrightarrow> sleeps (asleep ch c T) ch' d \<longleftrightarrow> (if d = c then ch' = ch else sleeps T ch' d)"
  by (auto simp: sleeps_def asleep_def)

lemma write_wakes:
  assumes I: "pipe_inv p (s, sent, got)" and W: "pipe_wakes p s" and c: "awake s c" "\<not> p_killed (ptable s ! c)" and o: "pi_writeopen (pipes s p)"
    and T: "near c T (ptable s)" and run: "pipewrite_from p addr n i k (entered p c T s) = Ok r t"
  shows "pipe_wakes p (t\<lparr>held := {}\<rparr>)"
proof -
  let ?q = "pipes s p" and ?s = "entered p c T s"
  define j where "j = min k (512 - pipe_len ?q)"
  let ?bs = "map addr [i..<i + j]" and ?U = "wakeup1_tab (pipe_nread p) T"
  have ok: "pipe_ok ?q" using I by (simp add: pipe_inv_def)
  have c': "c < length T" using nearD(1) [OF T] c by (simp add: awake_def)
  have nk: "\<not> p_killed (T ! c)" using nearD(2) [OF T] c by (auto simp: awake_def)
  have l: "pipe_len ?q + length ?bs \<le> 512" using ok by (simp add: j_def pipe_ok_def)
  note Q = put_bytes_queue [OF l] pipe_len_put [OF l]
  note sn = sleeps_near [OF T c(1)]
  have res: "pipes t p = put_bytes ?bs ?q \<and> (ptable t = ?U \<or> ptable t = T \<and> \<not> pi_readopen ?q \<or>
      ptable t = asleep (pipe_nwrite p) c ?U \<and> j < k \<and> pi_readopen ?q)"
    using pipewrite_from_run [of ?s p j k _ addr i _ n, OF _ _ _ _ refl refl] ok c' nk run
    by (auto simp: entered_def j_def this_proc_def split: if_splits)
  have full: "sleeps (ptable s) (pipe_nwrite p) d \<Longrightarrow> pipe_len ?q = 512 \<and> pi_readopen ?q \<and> j = 0" for d
    using W by (auto simp: pipe_wakes_def j_def)
  have noread: "\<not> pi_readopen ?q \<Longrightarrow> \<not> sleeps (ptable s) (pipe_nread p) d" for d using W by (auto simp: pipe_wakes_def)
  have jk: "j < k \<Longrightarrow> pipe_len ?q + j = 512" using ok by (auto simp: j_def pipe_ok_def min_def split: if_splits)
  from res have pp: "pipes t p = put_bytes ?bs ?q" and
    "ptable t = ?U \<or> ptable t = T \<and> \<not> pi_readopen ?q \<or> ptable t = asleep (pipe_nwrite p) c ?U \<and> j < k \<and> pi_readopen ?q" by blast+
  from this(2) show ?thesis
  proof (elim disjE conjE)
    assume "ptable t = ?U"
    then show ?thesis using pp Q full sn o by (auto simp: pipe_wakes_def)
  next
    assume "ptable t = T" "\<not> pi_readopen ?q"
    then show ?thesis using full noread sn by (auto simp: pipe_wakes_def)
  next
    assume "ptable t = asleep (pipe_nwrite p) c ?U" "j < k" "pi_readopen ?q"
    then show ?thesis using pp Q full sn o jk c' by (auto simp: pipe_wakes_def split: if_splits)
  qed
qed

lemma read_wakes:
  assumes I: "pipe_inv p (s, sent, got)" and W: "pipe_wakes p s" and c: "awake s c" and o: "pi_readopen (pipes s p)"
    and T: "near c T (ptable s)" and run: "piperead_from p addr n (entered p c T s) = Ok r t"
  shows "pipe_wakes p (t\<lparr>held := {}\<rparr>)"
proof -
  let ?q = "pipes s p" and ?s = "entered p c T s"
  define j where "j = min (nat n) (pipe_len ?q)"
  have ok: "pipe_ok ?q" using I by (simp add: pipe_inv_def)
  have c': "c < length T" using nearD(1) [OF T] c by (simp add: awake_def)
  note R = piperead_from_run [of ?s p j n _ _ addr, OF _ _ _ _ refl refl]
  note sn = sleeps_near [OF T c]
  show ?thesis
  proof (cases "pipe_len ?q = 0 \<and> pi_writeopen ?q")
    case True
    then have "pipes t p = ?q \<and> (ptable t = T \<or> ptable t = asleep (pipe_nread p) c T)"
      using R ok c' run by (auto simp: entered_def j_def split: if_splits)
    then show ?thesis using True W o sn c' by (auto simp: pipe_wakes_def split: if_splits)
  next
    case False
    then have "ptable t = wakeup1_tab (pipe_nwrite p) T" using R ok c' run by (auto simp: entered_def j_def cong: if_cong)
    then show ?thesis using False W sn by (auto simp: pipe_wakes_def)
  qed
qed

lemma close_wakes:
  assumes "held s = {}" and "pipe_wakes p s" and "\<forall>c. \<not> sleeps (ptable s) (if w then pipe_nwrite p else pipe_nread p) c" and "pipeclose p w s = Ok () t"
  shows "pipe_wakes p t"
  using pipeclose_Ok [OF assms(1,4)] assms(2,3) by (cases w) (auto simp: pipe_wakes_def)

section \<open>Properties\<close>

text \<open>A machine with two processes: the second one sleeps in a read of the empty pipe at address 0.\<close>

definition new_pipe :: pipe where
  "new_pipe = \<lparr>pi_data = \<lambda>_. 0, pi_nread = 0, pi_nwrite = 0, pi_readopen = True, pi_writeopen = True\<rparr>"

definition sample_pipe_st :: "bool \<Rightarrow> file_st" where
  "sample_pipe_st k = (boot_with \<lparr>icache = \<lambda>_. no_inode, pmem = \<lambda>_. 0, kmem_use_lock = False, kmem_freelist = 0,
     k_end = 0x80110000, k_data = 0x80108000,
     ftable = \<lambda>_. \<lparr>f_type = FD_NONE, f_ref = 0, f_readable = False, f_writable = False, f_pipe = 0, f_ip = 0, f_off = 0\<rparr>,
     pipes = \<lambda>_. new_pipe\<rparr> 0 (\<lambda>_ _. 0))
     \<lparr>ptable := [no_proc\<lparr>p_state := RUNNING, p_killed := k\<rparr>, no_proc\<lparr>p_state := SLEEPING, p_chan := Some (pipe_nread 0)\<rparr>]\<rparr>"

lemma sample_pipe_facts:
  "held (sample_pipe_st k) = {}" "pipes (sample_pipe_st k) = (\<lambda>_. new_pipe)" "length (ptable (sample_pipe_st k)) = 2"
  "awake (sample_pipe_st k) 0" "sleeps (ptable (sample_pipe_st k)) (pipe_nread 0) 1" "p_killed (ptable (sample_pipe_st k) ! 0) = k"
  "sleeps (ptable (sample_pipe_st k)) ch c \<Longrightarrow> ch = pipe_nread 0"
  by (auto simp: sample_pipe_st_def boot_with_def awake_def sleeps_def less_Suc_eq numeral_2_eq_2)

lemma new_pipe_facts [simp]: "pipe_len new_pipe = 0" "pipe_ok new_pipe" "pi_readopen new_pipe" "pi_writeopen new_pipe" "pipe_bytes new_pipe = []"
  by (simp_all add: new_pipe_def pipe_len_def pipe_ok_def pipe_bytes_def)

text \<open>
  C25: a pipe is a bounded queue for any number of readers and writers: in every state that writes, reads,
  sleeps, wakeups and closes lead to, in any order, the bytes handed to readers followed by the
  at most 512 bytes in the ring buffer are exactly the bytes stored, in order, also when the 32 bit
  counters have wrapped around.
\<close>

theorem pipe_fifo:
  assumes "pipe_reach p (s0, [], []) (s, sent, got)" and "held s0 = {}" and "pipe_len (pipes s0 p) = 0"
  shows "sent = got @ pipe_bytes (pipes s p) \<and> pipe_len (pipes s p) \<le> PIPESIZE"
proof -
  have "pipe_inv p y" if "pipe_reach p (s0, [], []) y" for y
    using that
  proof induction
    case start
    then show ?case using assms(2,3) by (simp add: pipe_inv_def pipe_ok_def pipe_bytes_def)
  next
    case (step y a z)
    then show ?case using pipe_inv_step by blast
  qed
  from this [OF assms(1)] show ?thesis by (simp add: pipe_inv_def pipe_ok_def)
qed

lemma write_start_run:
  assumes "held s = {}" and "pipe_ok (pipes s p)" and "awake s c"
    and "j = min (nat n) (512 - pipe_len (pipes s p))" and "T = wakeup1_tab (pipe_nread p) (ptable s)"
    and "P = (pipes s)(p := put_bytes (map addr [0..<j]) (pipes s p))"
  shows "pipewrite_start p addr n (s\<lparr>curproc := c\<rparr>) =
    (if j = nat n then Ok (Inr n) (s\<lparr>curproc := c, held := {}, ptable := T, pipes := P\<rparr>)
     else if \<not> pi_readopen (pipes s p) \<or> p_killed (ptable s ! c) then Ok (Inr (-1)) (s\<lparr>curproc := c, held := {}, pipes := P\<rparr>)
     else Ok (Inl (j, nat n - j)) (s\<lparr>curproc := c, held := {LPtable}, ptable := asleep (pipe_nwrite p) c T, pipes := P\<rparr>))"
proof -
  have e: "entered p c (ptable s) s = s\<lparr>curproc := c, held := {pipe_lock p}\<rparr>" by (simp add: entered_def)
  let ?e = "entered p c (ptable s) s"
  have "held ?e = {pipe_lock p}" "pipe_ok (pipes ?e p)" "curproc ?e < length (ptable ?e)" "j = min (nat n) (512 - pipe_len (pipes ?e p))"
    "P = (pipes ?e)(p := put_bytes (map addr [0..<0 + j]) (pipes ?e p))" "T = wakeup1_tab (pipe_nread p) (ptable ?e)"
    using assms by (simp_all add: e awake_def)
  from pipewrite_from_run [OF this, of n] show ?thesis
    unfolding start_run(1) [OF assms(1)] by (simp add: e this_proc_def)
qed

theorem pipe_fifo_witness:
  "\<exists>s sent. pipe_reach 0 (sample_pipe_st False, [], []) (s, sent, []) \<and> sent = [65, 65, 65] \<and> pipe_bytes (pipes s 0) = [65, 65, 65]"
proof -
  let ?s = "sample_pipe_st False"
  note F = sample_pipe_facts [of False]
  obtain t where t: "pipewrite_start 0 (\<lambda>_. 65) 3 (?s\<lparr>curproc := 0\<rparr>) = Ok (Inr 3) t" "pipes t 0 = put_bytes [65, 65, 65] new_pipe"
    using write_start_run [OF F(1) _ F(4), of 0 3 3 _ _ "\<lambda>_. 65", OF _ _ refl refl] F(2) by (auto simp: numeral_eq_Suc)
  have "unat (pi_nwrite (put_bytes [65, 65, 65] new_pipe) - pi_nwrite new_pipe) = 3" using unat_sub_len [of new_pipe "[65, 65, 65]"] by simp
  then have "stored 0 (\<lambda>_. 65) 0 ?s t = [65, 65, 65]" using t(2) F(2) by (simp add: stored_def numeral_eq_Suc)
  then have r: "pipe_reach 0 (?s, [], []) (t\<lparr>held := {}\<rparr>, [65, 65, 65], [])"
    using pipe_reach.step [OF pipe_reach.start write_start [OF F(4) _ t(1), of "[]" "[]"]] F(2) by simp
  have "[65, 65, 65] = [] @ pipe_bytes (pipes (t\<lparr>held := {}\<rparr>) 0) \<and> pipe_len (pipes (t\<lparr>held := {}\<rparr>) 0) \<le> PIPESIZE"
    by (rule pipe_fifo [OF r F(1)]) (simp add: F(2))
  then show ?thesis using r by (intro exI [of _ "t\<lparr>held := {}\<rparr>"]) simp
qed

lemma pipe_wakes_step:
  assumes "pipe_step p a (s, sent, got) (t, sent', got')" and I: "pipe_inv p (s, sent, got)" and W: "pipe_wakes p s"
    and k: "\<forall>c. a = Write_by c \<longrightarrow> \<not> p_killed (ptable s ! c)"
  shows "pipe_wakes p t"
  using assms(1)
proof cases
  case (write_start c addr n r u)
  then show ?thesis using write_wakes [OF I W, of c "ptable s" addr n 0 "nat n" r u] k start_run(1) [of s p addr n c] I
    by (simp add: near_def pipe_inv_def)
next
  case (write_resume c addr n ik r u)
  then show ?thesis using write_wakes [OF I W, of c "dechan c (ptable s)" addr n "fst ik" "snd ik" r u] k resume_run(1) [of s p addr n ik c] I
    by (simp add: near_def pipe_inv_def)
next
  case (read_start c addr n r u)
  then show ?thesis using read_wakes [OF I W, of c "ptable s" addr n r u] start_run(2) [of s p addr n c] I by (simp add: near_def pipe_inv_def)
next
  case (read_resume c addr n r u)
  then show ?thesis using read_wakes [OF I W, of c "dechan c (ptable s)" addr n r u] resume_run(2) [of s p addr n c] I
    by (simp add: near_def pipe_inv_def)
next
  case (close_end w)
  then show ?thesis using close_wakes [of s p w t] I W by (simp add: pipe_inv_def)
qed

lemma wakeup1_runnable: "sleeps ps ch c \<Longrightarrow> p_state (wakeup1_tab ch ps ! c) = RUNNABLE"
  by (simp add: sleeps_def wakeup1_tab_nth)



text \<open>
  C27: the exception.  A killed process that writes more than fits returns -1 from \<open>pipewrite\<close> with the pipe full,
  but without a wakeup: a reader that was asleep on the empty pipe still sleeps although 512 bytes
  wait for it.
\<close>

theorem pipewrite_killed_strands_reader:
  assumes "held s = {}" and "pipe_len (pipes s p) = 0" and "awake s c" and "p_killed (ptable s ! c)"
    and "sleeps (ptable s) (pipe_nread p) d" and "int PIPESIZE < n"
  shows "\<exists>t. pipewrite_start p addr n (s\<lparr>curproc := c\<rparr>) = Ok (Inr (-1)) t \<and> pipe_len (pipes t p) = PIPESIZE \<and>
    sleeps (ptable t) (pipe_nread p) d"
proof -
  have ok: "pipe_ok (pipes s p)" using assms(2) by (simp add: pipe_ok_def)
  have j: "512 = min (nat n) (512 - pipe_len (pipes s p))" "512 \<noteq> nat n" using assms(2,6) by simp_all
  have "pipe_len (put_bytes (map addr [0..<512]) (pipes s p)) = 512" using pipe_len_put [of "pipes s p" "map addr [0..<512]"] assms(2) by simp
  then show ?thesis using write_start_run [OF assms(1) ok assms(3) j(1) refl refl, of addr] j(2) assms(4,5) by simp
qed

theorem pipewrite_killed_strands_reader_witness:
  "\<exists>t. pipewrite_start 0 (\<lambda>_. 65) 600 ((sample_pipe_st True)\<lparr>curproc := 0\<rparr>) = Ok (Inr (-1)) t \<and> pipe_len (pipes t 0) = 512 \<and>
    sleeps (ptable t) (pipe_nread 0) 1"
  using pipewrite_killed_strands_reader [OF sample_pipe_facts(1) _ sample_pipe_facts(4) _ sample_pipe_facts(5), of True 600 "\<lambda>_. 65"]
    sample_pipe_facts(2,6) [of True]
  by simp

end
