(* ===== verification/File.thy ===== *)
theory File
  imports Pipe
begin

text \<open>
  Open files (\<open>kernel/file.c\<close>) and the creation of pipes (\<open>pipealloc\<close> of \<open>kernel/pipe.c\<close>).  A file is an index
  of the table of open files; a buffer in user memory is passed and returned as its contents.
\<close>

section \<open>The table of open files\<close>

definition get_file :: "nat \<Rightarrow> ('a file_st_scheme, chan, kfile) km" where
  "get_file f = kget (\<lambda>s. ftable s f)"

definition upd_file :: "nat \<Rightarrow> (kfile \<Rightarrow> kfile) \<Rightarrow> ('a file_st_scheme, chan, unit) km" where
  "upd_file f u = kmod (\<lambda>s. s\<lparr>ftable := (ftable s)(f := u (ftable s f))\<rparr>)"

definition filealloc :: "('a file_st_scheme, chan, nat option) km" where
  "filealloc = kseq (acquire LFtable) (\<lambda>s.
     case find (\<lambda>f. f_ref (ftable s f) = 0) [0..<NFILE] of
       Some f \<Rightarrow>
         kseq (upd_file f (\<lambda>x. x\<lparr>f_ref := 1\<rparr>))
         (kseq (release LFtable)
         (kreturn (Some f))) s
     | None \<Rightarrow>
         kseq (release LFtable)
         (kreturn None) s)"

definition filedup :: "nat \<Rightarrow> ('a file_st_scheme, chan, nat) km" where
  "filedup f =
     kseq (acquire LFtable)
     (kbind (get_file f) (\<lambda>x.
     if f_ref x < 1 then kpanic ''filedup''
     else
       kseq (upd_file f (\<lambda>x. x\<lparr>f_ref := f_ref x + 1\<rparr>))
       (kseq (release LFtable)
       (kreturn f))))"

definition fileclose :: "nat \<Rightarrow> ('a file_st_scheme, chan, unit) km" where
  "fileclose f =
     kseq (acquire LFtable)
     (kbind (get_file f) (\<lambda>x.
     if f_ref x < 1 then kpanic ''fileclose''
     else
       kseq (upd_file f (\<lambda>x. x\<lparr>f_ref := f_ref x - 1\<rparr>))
       (kbind (get_file f) (\<lambda>ff.
       if 0 < f_ref ff then release LFtable
       else
         kseq (upd_file f (\<lambda>x. x\<lparr>f_ref := 0, f_type := FD_NONE\<rparr>))
         (kseq (release LFtable)
         (case f_type ff of
            FD_PIPE \<Rightarrow> pipeclose (f_pipe ff) (f_writable ff)
          | FD_INODE \<Rightarrow> kseq begin_trans (kseq (iput (f_ip ff)) commit_trans)
          | FD_NONE \<Rightarrow> kreturn ()))))))"

definition filestat :: "nat \<Rightarrow> ('a file_st_scheme, chan, int \<times> stat option) km" where
  "filestat f =
     kbind (get_file f) (\<lambda>x.
     if f_type x = FD_INODE then
       kseq (ilock (f_ip x))
       (kbind (stati (f_ip x)) (\<lambda>st.
       kseq (iunlock (f_ip x))
       (kreturn (0, Some st))))
     else kreturn (-1, None))"

section \<open>Reading and writing\<close>

definition fileread :: "'a file_st_scheme devsw \<Rightarrow> nat \<Rightarrow> bytes \<Rightarrow> int \<Rightarrow> ('a file_st_scheme, chan, int \<times> bytes) km" where
  "fileread dv f addr n =
     kbind (get_file f) (\<lambda>x.
     if \<not> f_readable x then kreturn (-1, addr)
     else if f_type x = FD_PIPE then piperead (f_pipe x) addr n
     else if f_type x = FD_INODE then
       kseq (ilock (f_ip x))
       (kbind (get_file f) (\<lambda>x.
       kbind (readi dv (f_ip x) addr (f_off x) (of_int n)) (\<lambda>(r, addr).
       kseq (kwhen (0 < r) (upd_file f (\<lambda>x. x\<lparr>f_off := f_off x + of_int r\<rparr>)))
       (kseq (iunlock (f_ip x))
       (kreturn (r, addr))))))
     else kpanic ''fileread'')"

text \<open>At most \<open>((LOGSIZE - 1 - 1 - 2) / 2) * 512\<close> bytes go into one transaction.\<close>

definition max_write :: int where
  "max_write = ((int LOGSIZE - 1 - 1 - 2) div 2) * 512"

definition filewrite_body :: "'a file_st_scheme devsw \<Rightarrow> nat \<Rightarrow> bytes \<Rightarrow> int \<Rightarrow> int \<Rightarrow> ('a file_st_scheme, chan, int + int) km" where
  "filewrite_body dv f addr n i =
     (if i < n then
        let n1 = min (n - i) max_write in
        kseq begin_trans
        (kbind (get_file f) (\<lambda>x.
        kseq (ilock (f_ip x))
        (kbind (get_file f) (\<lambda>x.
        kbind (writei dv (f_ip x) (\<lambda>j. addr (nat i + j)) (f_off x) (of_int n1)) (\<lambda>r.
        kseq (kwhen (0 < r) (upd_file f (\<lambda>x. x\<lparr>f_off := f_off x + of_int r\<rparr>)))
        (kseq (iunlock (f_ip x))
        (kseq commit_trans
        (if r < 0 then kreturn (Inr i)
         else if r \<noteq> n1 then kpanic ''short filewrite''
         else kreturn (Inl (i + r))))))))))
      else kreturn (Inr i))"

text \<open>Every round but the last moves \<open>i\<close> on, so \<open>n + 1\<close> rounds are enough.\<close>

definition filewrite :: "'a file_st_scheme devsw \<Rightarrow> nat \<Rightarrow> bytes \<Rightarrow> int \<Rightarrow> ('a file_st_scheme, chan, int) km" where
  "filewrite dv f addr n =
     kbind (get_file f) (\<lambda>x.
     if \<not> f_writable x then kreturn (-1)
     else if f_type x = FD_PIPE then pipewrite (f_pipe x) addr n
     else if f_type x = FD_INODE then
       kbind (kloop (nat n + 1) (filewrite_body dv f addr n) 0) (\<lambda>i.
       kreturn (if i = n then n else -1))
     else kpanic ''filewrite'')"

section \<open>Creating a pipe\<close>

definition close_opt :: "nat option \<Rightarrow> ('a file_st_scheme, chan, unit) km" where
  "close_opt f = (case f of None \<Rightarrow> kreturn () | Some f \<Rightarrow> fileclose f)"

definition pipealloc :: "('a file_st_scheme, chan, int \<times> nat option \<times> nat option) km" where
  "pipealloc =
     kbind filealloc (\<lambda>f0.
     kbind (if f0 = None then kreturn None else filealloc) (\<lambda>f1.
     kbind (if f0 = None \<or> f1 = None then kreturn 0 else kalloc) (\<lambda>p.
     if p = 0 then
       kseq (close_opt f0)
       (kseq (close_opt f1)
       (kreturn (-1, f0, f1)))
     else
       kseq (upd_pipe p (\<lambda>q. q\<lparr>pi_readopen := True, pi_writeopen := True, pi_nwrite := 0, pi_nread := 0\<rparr>))
       (kseq (upd_file (the f0) (\<lambda>x. x\<lparr>f_type := FD_PIPE, f_readable := True, f_writable := False, f_pipe := p\<rparr>))
       (kseq (upd_file (the f1) (\<lambda>x. x\<lparr>f_type := FD_PIPE, f_readable := False, f_writable := True, f_pipe := p\<rparr>))
       (kreturn (0, f0, f1)))))))"

section \<open>References\<close>

text \<open>The total of references held on the files of the table, and the entries in use.\<close>

definition ftable_ok :: "(nat \<Rightarrow> kfile) \<Rightarrow> bool" where
  "ftable_ok F \<longleftrightarrow> (\<forall>f<NFILE. 0 \<le> f_ref (F f))"

lemma filealloc_run:
  assumes "LFtable \<notin> held s"
  shows "filealloc s = (case find (\<lambda>f. f_ref (ftable s f) = 0) [0..<NFILE] of
    Some f \<Rightarrow> Ok (Some f) (s\<lparr>ftable := (ftable s)(f := (ftable s f)\<lparr>f_ref := 1\<rparr>)\<rparr>) | None \<Rightarrow> Ok None s)"
  using assms by (simp add: filealloc_def kmonad upd_file_def split: option.split)

lemma filedup_run:
  assumes "LFtable \<notin> held s" and "0 < f_ref (ftable s f)"
  shows "filedup f s = Ok f (s\<lparr>ftable := (ftable s)(f := (ftable s f)\<lparr>f_ref := f_ref (ftable s f) + 1\<rparr>)\<rparr>)"
  using assms by (simp add: filedup_def kmonad upd_file_def get_file_def)

lemma fileclose_shared:
  assumes "LFtable \<notin> held s" and "1 < f_ref (ftable s f)"
  shows "fileclose f s = Ok () (s\<lparr>ftable := (ftable s)(f := (ftable s f)\<lparr>f_ref := f_ref (ftable s f) - 1\<rparr>)\<rparr>)"
  using assms by (simp add: fileclose_def kmonad upd_file_def get_file_def)

lemma fileclose_last:
  assumes "LFtable \<notin> held s" and "f_ref (ftable s f) = 1"
  shows "fileclose f s =
    (case f_type (ftable s f) of
       FD_PIPE \<Rightarrow> pipeclose (f_pipe (ftable s f)) (f_writable (ftable s f))
     | FD_INODE \<Rightarrow> kseq begin_trans (kseq (iput (f_ip (ftable s f))) commit_trans)
     | FD_NONE \<Rightarrow> kreturn ())
    (s\<lparr>ftable := (ftable s)(f := (ftable s f)\<lparr>f_ref := 0, f_type := FD_NONE\<rparr>)\<rparr>)"
  using assms by (simp add: fileclose_def kmonad upd_file_def get_file_def split: fdtype.split)

lemma file_ref_panics:
  assumes "LFtable \<notin> held s" and "f_ref (ftable s f) < 1"
  shows "filedup f s = Panic ''filedup''" "fileclose f s = Panic ''fileclose''"
  using assms by (simp_all add: filedup_def fileclose_def kmonad get_file_def)

end
