(* ===== verification/Proc.thy ===== *)
theory Proc
  imports File Vm
begin

text \<open>
  Processes (\<open>kernel/proc.c\<close>) and the segments and page table register of \<open>kernel/vm.c\<close> that change with
  them.  A call that gives up the processor for good or for a while is split where it switches to
  the scheduler: \<open>exit\<close> ends there, \<open>wait\<close>, \<open>yield\<close> and \<open>sleep\<close> have a second part that
  runs when the scheduler comes back, and the scheduler itself runs in segments from one switch to the next.
\<close>

section \<open>Segment descriptors\<close>

abbreviation SEG_KCODE :: nat where "SEG_KCODE \<equiv> 1"
abbreviation SEG_KDATA :: nat where "SEG_KDATA \<equiv> 2"
abbreviation SEG_KCPU :: nat where "SEG_KCPU \<equiv> 3"
abbreviation SEG_UCODE :: nat where "SEG_UCODE \<equiv> 4"
abbreviation SEG_UDATA :: nat where "SEG_UDATA \<equiv> 5"
abbreviation SEG_TSS :: nat where "SEG_TSS \<equiv> 6"
abbreviation DPL_USER :: nat where "DPL_USER \<equiv> 3"
abbreviation FL_IF :: u32 where "FL_IF \<equiv> 0x200"
abbreviation KSTACKSIZE :: u32 where "KSTACKSIZE \<equiv> 4096"
abbreviation TSSIZE :: u32 where "TSSIZE \<equiv> 104"        \<comment> \<open>\<open>sizeof(struct taskstate)\<close>\<close>
abbreviation TFSIZE :: u32 where "TFSIZE \<equiv> 76"         \<comment> \<open>\<open>sizeof(struct trapframe)\<close>\<close>

record segdesc =
  sd_lim_15_0 :: "16 word"
  sd_base_15_0 :: "16 word"
  sd_base_23_16 :: "8 word"
  sd_type :: "4 word"
  sd_s :: "1 word"
  sd_dpl :: "2 word"
  sd_p :: "1 word"
  sd_lim_19_16 :: "4 word"
  sd_avl :: "1 word"
  sd_rsv1 :: "1 word"
  sd_db :: "1 word"
  sd_g :: "1 word"
  sd_base_31_24 :: "8 word"

definition SEG :: "4 word \<Rightarrow> u32 \<Rightarrow> u32 \<Rightarrow> 2 word \<Rightarrow> segdesc" where
  "SEG type base lim dpl =
     \<lparr>sd_lim_15_0 = ucast (drop_bit 12 lim), sd_base_15_0 = ucast base, sd_base_23_16 = ucast (drop_bit 16 base),
      sd_type = type, sd_s = 1, sd_dpl = dpl, sd_p = 1, sd_lim_19_16 = ucast (drop_bit 28 lim), sd_avl = 0,
      sd_rsv1 = 0, sd_db = 1, sd_g = 1, sd_base_31_24 = ucast (drop_bit 24 base)\<rparr>"

definition SEG16 :: "4 word \<Rightarrow> u32 \<Rightarrow> u32 \<Rightarrow> 2 word \<Rightarrow> segdesc" where
  "SEG16 type base lim dpl =
     \<lparr>sd_lim_15_0 = ucast lim, sd_base_15_0 = ucast base, sd_base_23_16 = ucast (drop_bit 16 base),
      sd_type = type, sd_s = 1, sd_dpl = dpl, sd_p = 1, sd_lim_19_16 = ucast (drop_bit 16 lim), sd_avl = 0,
      sd_rsv1 = 0, sd_db = 1, sd_g = 0, sd_base_31_24 = ucast (drop_bit 24 base)\<rparr>"

section \<open>State\<close>

text \<open>
  The processor's registers and tables that the code loads, and the variables of \<open>proc.c\<close> and
  \<open>trap.c\<close>.  The last four fields are addresses fixed by the linker.
\<close>

record proc_st = file_st +
  kpgdir :: u32
  cpu_gdt :: "nat \<Rightarrow> segdesc"
  cpu_gs :: nat
  cpu_ts_ss0 :: nat
  cpu_ts_esp0 :: u32
  cpu_tr :: nat
  cpu_cr3 :: u32
  initproc :: "nat option"
  nextpid :: int
  forkret_first :: bool
  ticks :: u32
  k_cpu :: u32
  k_ts :: u32
  k_forkret :: u32
  k_trapret :: u32

section \<open>Address spaces and the processor\<close>

definition seginit :: "('a proc_st_scheme, chan, unit) km" where
  "seginit = kmod (\<lambda>s. s\<lparr>cpu_gdt := (cpu_gdt s)
       (SEG_KCODE := SEG 0xA 0 0xFFFFFFFF 0,
        SEG_KDATA := SEG 0x2 0 0xFFFFFFFF 0,
        SEG_UCODE := SEG 0xA 0 0xFFFFFFFF (of_nat DPL_USER),
        SEG_UDATA := SEG 0x2 0 0xFFFFFFFF (of_nat DPL_USER),
        SEG_KCPU := SEG 0x2 (k_cpu s) 8 0),
      cpu_gs := SEG_KCPU * 8, curproc := length (ptable s)\<rparr>)"

definition switchkvm :: "('a proc_st_scheme, chan, unit) km" where
  "switchkvm = kmod (\<lambda>s. s\<lparr>cpu_cr3 := v2p (kpgdir s)\<rparr>)"

definition kvmalloc :: "('a proc_st_scheme, chan, unit) km" where
  "kvmalloc = kbind setupkvm (\<lambda>d. kseq (kmod (\<lambda>s. s\<lparr>kpgdir := d\<rparr>)) switchkvm)"

text \<open>The stack of the task state is the one of the current process, not of the argument.\<close>

definition switchuvm :: "nat \<Rightarrow> ('a proc_st_scheme, chan, unit) km" where
  "switchuvm p =
     kseq (kmod (\<lambda>s. s\<lparr>cpu_gdt := (cpu_gdt s)(SEG_TSS := (SEG16 0x9 (k_ts s) (TSSIZE - 1) 0)\<lparr>sd_s := 0\<rparr>),
       cpu_ts_ss0 := SEG_KDATA * 8,
       cpu_ts_esp0 := p_kstack (this_proc s) + KSTACKSIZE,
       cpu_tr := SEG_TSS * 8\<rparr>))
     (kbind (kget (\<lambda>s. p_pgdir (ptable s ! p))) (\<lambda>d.
     if d = 0 then kpanic ''switchuvm: no pgdir''
     else kmod (\<lambda>s. s\<lparr>cpu_cr3 := v2p d\<rparr>)))"

section \<open>Creating processes\<close>

text \<open>The word below the trap frame is the address \<open>forkret\<close> returns to.\<close>

definition allocproc :: "('a proc_st_scheme, chan, nat option) km" where
  "allocproc = kseq (acquire LPtable) (\<lambda>s.
     case find (\<lambda>i. p_state (ptable s ! i) = UNUSED) [0..<NPROC] of
       None \<Rightarrow> kseq (release LPtable) (kreturn None) s
     | Some i \<Rightarrow>
         kseq (upd_proc i (\<lambda>p. p\<lparr>p_state := EMBRYO, p_pid := nextpid s\<rparr>))
         (kseq (kmod (\<lambda>s. s\<lparr>nextpid := nextpid s + 1\<rparr>))
         (kseq (release LPtable)
         (kbind kalloc (\<lambda>kstack.
         kseq (upd_proc i (\<lambda>p. p\<lparr>p_kstack := kstack\<rparr>))
         (if kstack = 0 then
            kseq (upd_proc i (\<lambda>p. p\<lparr>p_state := UNUSED\<rparr>))
            (kreturn None)
          else
            kseq (stw (kstack + KSTACKSIZE - TFSIZE - 4) (k_trapret s))
            (kseq (upd_proc i (\<lambda>p. p\<lparr>p_context := zero_context\<lparr>cx_eip := k_forkret s\<rparr>\<rparr>))
            (kreturn (Some i)))))))) s)"

definition user_tf :: trapframe where
  "user_tf = zero_tf\<lparr>tf_cs := of_nat (SEG_UCODE * 8 + DPL_USER), tf_ds := of_nat (SEG_UDATA * 8 + DPL_USER),
     tf_es := of_nat (SEG_UDATA * 8 + DPL_USER), tf_ss := of_nat (SEG_UDATA * 8 + DPL_USER),
     tf_eflags := FL_IF, tf_esp := PGSIZE, tf_eip := 0\<rparr>"

text \<open>\<open>initcode\<close> is the program linked in as \<open>_binary_initcode_start\<close>; its name is set to \<open>initcode\<close>.\<close>

definition initcode_name :: bytes where
  "initcode_name = cstr [105, 110, 105, 116, 99, 111, 100, 101]"

definition userinit :: "'a proc_st_scheme devsw \<Rightarrow> bytes \<Rightarrow> u32 \<Rightarrow> ('a proc_st_scheme, chan, unit) km" where
  "userinit dv initcode initcode_size =
     kbind allocproc (\<lambda>p.
     kseq (kmod (\<lambda>s. s\<lparr>initproc := p\<rparr>))
     (case p of
        None \<Rightarrow> kpanic ''trap''
      | Some i \<Rightarrow>
          kbind setupkvm (\<lambda>d.
          kseq (upd_proc i (\<lambda>p. p\<lparr>p_pgdir := d\<rparr>))
          (if d = 0 then kpanic ''userinit: out of memory?''
           else
             kseq (inituvm d initcode initcode_size)
             (kseq (upd_proc i (\<lambda>p. p\<lparr>p_sz := PGSIZE, p_tf := user_tf,
               p_name := safestrcpy (p_name p) initcode_name 16\<rparr>))
             (kbind (namei dv [slash]) (\<lambda>cwd.
             kseq (upd_proc i (\<lambda>p. p\<lparr>p_cwd := cwd\<rparr>))
             (upd_proc i (\<lambda>p. p\<lparr>p_state := RUNNABLE\<rparr>)))))))))"

definition growproc :: "int \<Rightarrow> ('a proc_st_scheme, chan, int) km" where
  "growproc n =
     kbind (kget curproc) (\<lambda>i.
     kbind (kget this_proc) (\<lambda>p.
     kbind
       (if 0 < n then
          kbind (allocuvm (p_pgdir p) (p_sz p) (p_sz p + of_int n)) (\<lambda>sz. kreturn (if sz = 0 then None else Some sz))
        else if n < 0 then
          kbind (deallocuvm (p_pgdir p) (p_sz p) (p_sz p + of_int n)) (\<lambda>sz. kreturn (if sz = 0 then None else Some sz))
        else kreturn (Some (p_sz p))) (\<lambda>sz.
     case sz of
       None \<Rightarrow> kreturn (-1)
     | Some sz \<Rightarrow>
         kseq (upd_proc i (\<lambda>p. p\<lparr>p_sz := sz\<rparr>))
         (kseq (switchuvm i)
         (kreturn 0)))))"

definition dup_files :: "nat \<Rightarrow> nat \<Rightarrow> ('a proc_st_scheme, chan, unit) km" where
  "dup_files cur np =
     kfor [0..<NOFILE] (\<lambda>i.
       kbind (kget (\<lambda>s. p_ofile (ptable s ! cur) ! i)) (\<lambda>f.
       case f of
         None \<Rightarrow> kreturn ()
       | Some f \<Rightarrow> kbind (filedup f) (\<lambda>f. upd_proc np (\<lambda>p. p\<lparr>p_ofile := (p_ofile p)[i := Some f]\<rparr>))))"

definition fork :: "('a proc_st_scheme, chan, int) km" where
  "fork =
     kbind (kget curproc) (\<lambda>cur.
     kbind allocproc (\<lambda>np.
     case np of
       None \<Rightarrow> kreturn (-1)
     | Some np \<Rightarrow>
         kbind (kget this_proc) (\<lambda>p.
         kbind (copyuvm (p_pgdir p) (p_sz p)) (\<lambda>d.
         kseq (upd_proc np (\<lambda>p. p\<lparr>p_pgdir := d\<rparr>))
         (if d = 0 then
            kbind (kget (\<lambda>s. p_kstack (ptable s ! np))) (\<lambda>kstack.
            kseq (kfree kstack)
            (kseq (upd_proc np (\<lambda>p. p\<lparr>p_kstack := 0, p_state := UNUSED\<rparr>))
            (kreturn (-1))))
          else
            kseq (upd_proc np (\<lambda>q. q\<lparr>p_sz := p_sz p, p_parent := Some cur, p_tf := (p_tf p)\<lparr>tf_eax := 0\<rparr>\<rparr>))
            (kseq (dup_files cur np)
            (kseq (case p_cwd p of None \<Rightarrow> kpanic ''trap''
                   | Some cwd \<Rightarrow> kbind (idup cwd) (\<lambda>cwd. upd_proc np (\<lambda>q. q\<lparr>p_cwd := Some cwd\<rparr>)))
            (kbind (kget (\<lambda>s. p_pid (ptable s ! np))) (\<lambda>pid.
            kseq (upd_proc np (\<lambda>q. q\<lparr>p_state := RUNNABLE, p_name := safestrcpy (p_name q) (p_name p) 16\<rparr>))
            (kreturn pid))))))))))"

section \<open>Ending processes\<close>

text \<open>\<open>wakeup1\<close> on a process pointer, which may be null: the channel of a process that does not sleep.\<close>

definition wakeup_proc :: "nat option \<Rightarrow> ('a proc_st_scheme, chan, unit) km" where
  "wakeup_proc q = (case q of
     Some q \<Rightarrow> wakeup1 (ChProc q)
   | None \<Rightarrow> kmod (\<lambda>s. s\<lparr>ptable := map (\<lambda>p. if p_state p = SLEEPING \<and> p_chan p = None
       then p\<lparr>p_state := RUNNABLE\<rparr> else p) (ptable s)\<rparr>))"

definition exit_close :: "('a proc_st_scheme, chan, unit) km" where
  "exit_close =
     kbind (kget curproc) (\<lambda>cur.
     kbind (kget initproc) (\<lambda>ini.
     if Some cur = ini then kpanic ''init exiting''
     else
       kseq (kfor [0..<NOFILE] (\<lambda>fd.
         kbind (kget (\<lambda>s. p_ofile (ptable s ! cur) ! fd)) (\<lambda>f.
         case f of
           None \<Rightarrow> kreturn ()
         | Some f \<Rightarrow> kseq (fileclose f) (upd_proc cur (\<lambda>p. p\<lparr>p_ofile := (p_ofile p)[fd := None]\<rparr>)))))
       (kbind (kget (\<lambda>s. p_cwd (ptable s ! cur))) (\<lambda>cwd.
       case cwd of
         None \<Rightarrow> kpanic ''trap''
       | Some cwd \<Rightarrow> kseq (iput cwd) (upd_proc cur (\<lambda>p. p\<lparr>p_cwd := None\<rparr>))))))"

definition exit_zombie :: "('a proc_st_scheme, chan, unit) km" where
  "exit_zombie =
     kbind (kget curproc) (\<lambda>cur.
     kbind (kget initproc) (\<lambda>ini.
     kseq (acquire LPtable)
     (kseq (kbind (kget (\<lambda>s. p_parent (ptable s ! cur))) wakeup_proc)
     (kseq (kfor [0..<NPROC] (\<lambda>i.
       kbind (kget (\<lambda>s. ptable s ! i)) (\<lambda>p.
       kwhen (p_parent p = Some cur)
         (kseq (upd_proc i (\<lambda>p. p\<lparr>p_parent := ini\<rparr>))
         (kwhen (p_state p = ZOMBIE) (wakeup_proc ini))))))
     (kseq (upd_proc cur (\<lambda>p. p\<lparr>p_state := ZOMBIE\<rparr>))
     sched_enter)))))"

definition exit :: "('a proc_st_scheme, chan, unit) km" where
  "exit = kseq exit_close exit_zombie"

text \<open>
  A round of \<open>wait\<close>, the lock of the process table held: \<open>Inr r\<close> is a return of \<open>r\<close>, \<open>Inl ()\<close> says that
  the process sleeps.
\<close>

definition wait_round :: "('a proc_st_scheme, chan, unit + int) km" where
  "wait_round = (\<lambda>s. let cur = curproc s in
     case find (\<lambda>i. p_parent (ptable s ! i) = Some cur \<and> p_state (ptable s ! i) = ZOMBIE) [0..<NPROC] of
       Some i \<Rightarrow>
         kseq (kfree (p_kstack (ptable s ! i)))
         (kseq (upd_proc i (\<lambda>p. p\<lparr>p_kstack := 0\<rparr>))
         (kseq (freevm (p_pgdir (ptable s ! i)))
         (kseq (upd_proc i (\<lambda>p. p\<lparr>p_state := UNUSED, p_pid := 0, p_parent := None, p_name := (p_name p)(0 := 0),
           p_killed := False\<rparr>))
         (kseq (release LPtable)
         (kreturn (Inr (p_pid (ptable s ! i)))))))) s
     | None \<Rightarrow>
         if \<not> list_ex (\<lambda>i. p_parent (ptable s ! i) = Some cur) [0..<NPROC] \<or> p_killed (this_proc s) then
           kseq (release LPtable) (kreturn (Inr (-1))) s
         else
           kseq (sleep_enter (ChProc cur) LPtable) (kreturn (Inl ())) s)"

definition wait_start :: "('a proc_st_scheme, chan, unit + int) km" where
  "wait_start = kseq (acquire LPtable) wait_round"

definition wait_resume :: "('a proc_st_scheme, chan, unit + int) km" where
  "wait_resume = kseq (sleep_leave LPtable) wait_round"

definition wait :: "('a proc_st_scheme, chan, int) km" where
  "wait = kbind (kget curproc) (\<lambda>cur. kbind wait_start (\<lambda>r.
     case r of Inl _ \<Rightarrow> ksleep (ChProc cur) | Inr r \<Rightarrow> kreturn r))"

text \<open>The scan stops at the first process with the number, also when it is not in use.\<close>

definition kill :: "int \<Rightarrow> ('a proc_st_scheme, chan, int) km" where
  "kill pid = kseq (acquire LPtable) (\<lambda>s.
     case find (\<lambda>i. p_pid (ptable s ! i) = pid) [0..<NPROC] of
       Some i \<Rightarrow>
         kseq (upd_proc i (\<lambda>p. p\<lparr>p_killed := True, p_state := if p_state p = SLEEPING then RUNNABLE else p_state p\<rparr>))
         (kseq (release LPtable)
         (kreturn 0)) s
     | None \<Rightarrow> kseq (release LPtable) (kreturn (-1)) s)"

section \<open>Scheduling\<close>

text \<open>
  The scan of \<open>scheduler\<close> from entry \<open>i\<close> on, the lock held: \<open>Some p\<close> says that it switches to \<open>p\<close>,
  \<open>None\<close> that the scan is over and the lock released.
\<close>

definition scheduler_scan :: "nat \<Rightarrow> ('a proc_st_scheme, chan, nat option) km" where
  "scheduler_scan i = (\<lambda>s.
     case find (\<lambda>p. p_state (ptable s ! p) = RUNNABLE) [i..<NPROC] of
       Some p \<Rightarrow>
         kseq (kmod (\<lambda>s. s\<lparr>curproc := p\<rparr>))
         (kseq (switchuvm p)
         (kseq (upd_proc p (\<lambda>q. q\<lparr>p_state := RUNNING\<rparr>))
         (kreturn (Some p)))) s
     | None \<Rightarrow> kseq (release LPtable) (kreturn None) s)"

text \<open>A new scan, and the rest of a scan when \<open>p\<close> has switched back.\<close>

definition scheduler_start :: "('a proc_st_scheme, chan, nat option) km" where
  "scheduler_start = kseq (acquire LPtable) (scheduler_scan 0)"

definition scheduler_resume :: "nat \<Rightarrow> ('a proc_st_scheme, chan, nat option) km" where
  "scheduler_resume p =
     kseq switchkvm
     (kseq (kmod (\<lambda>s. s\<lparr>curproc := length (ptable s)\<rparr>))
     (scheduler_scan (p + 1)))"

definition yield_enter :: "('a proc_st_scheme, chan, unit) km" where
  "yield_enter =
     kseq (acquire LPtable)
     (kbind (kget curproc) (\<lambda>i.
     kseq (upd_proc i (\<lambda>p. p\<lparr>p_state := RUNNABLE\<rparr>))
     sched_enter))"

definition yield_leave :: "('a proc_st_scheme, chan, unit) km" where
  "yield_leave = release LPtable"

definition forkret :: "('a proc_st_scheme, chan, unit) km" where
  "forkret =
     kseq (release LPtable)
     (kbind (kget forkret_first) (\<lambda>first.
     kwhen first (kseq (kmod (\<lambda>s. s\<lparr>forkret_first := False\<rparr>)) initlog)))"

end
