(* ===== verification/Syscall.thy ===== *)
theory Syscall
  imports Proc
begin

text \<open>
  System call arguments (\<open>kernel/syscall.c\<close>) and the system calls on processes (\<open>kernel/sysproc.c\<close>).
  The kernel runs on the page table of the process, so a user address is dereferenced through the
  table in the page table register; without a mapping the access traps in the kernel, which panics.
\<close>

section \<open>User memory\<close>

definition active_pte :: "'a proc_st_scheme \<Rightarrow> u32 \<Rightarrow> u32" where
  "active_pte s va =
     (let pde = ld32 (pmem s) (at (p2v (cpu_cr3 s) + 4 * PDX va)) in
      if pde AND PTE_P = 0 then 0 else ld32 (pmem s) (at (p2v (PTE_ADDR pde) + 4 * PTX va)))"

definition phys :: "'a proc_st_scheme \<Rightarrow> u32 \<Rightarrow> nat" where
  "phys s va = unat (PTE_ADDR (active_pte s va) + (va AND 0xFFF))"

text \<open>The pages of \<open>n\<close> bytes from \<open>va\<close> on have the permissions.\<close>

definition accessible :: "'a proc_st_scheme \<Rightarrow> u32 \<Rightarrow> u32 \<Rightarrow> nat \<Rightarrow> bool" where
  "accessible s perm va n = list_all (\<lambda>i. active_pte s (va + of_nat i) AND perm = perm) [0..<n]"

definition ubuf :: "'a proc_st_scheme \<Rightarrow> u32 \<Rightarrow> bytes" where
  "ubuf s va = (\<lambda>i. pmem s (phys s (va + of_nat i)))"

definition uread :: "u32 \<Rightarrow> nat \<Rightarrow> ('a proc_st_scheme, chan, bytes) km" where
  "uread va n = (\<lambda>s. if accessible s PTE_P va n then Ok (ubuf s va) s else Panic ''trap'')"

definition uwrite :: "u32 \<Rightarrow> bytes \<Rightarrow> nat \<Rightarrow> ('a proc_st_scheme, chan, unit) km" where
  "uwrite va buf n = (\<lambda>s. if accessible s (PTE_P OR PTE_W) va n
     then Ok () (s\<lparr>pmem := fold (\<lambda>i m. m(phys s (va + of_nat i) := buf i)) [0..<n] (pmem s)\<rparr>) else Panic ''trap'')"

section \<open>Arguments\<close>

text \<open>\<open>None\<close> is a return of -1; \<open>Some\<close> carries what the code stores through its pointer argument.\<close>

definition fetchint :: "u32 \<Rightarrow> ('a proc_st_scheme, chan, u32 option) km" where
  "fetchint addr =
     kbind (kget (\<lambda>s. p_sz (this_proc s))) (\<lambda>sz.
     if sz \<le> addr \<or> sz < addr + 4 then kreturn None
     else kbind (uread addr 4) (\<lambda>m. kreturn (Some (ld32 m 0))))"

text \<open>The scan of \<open>fetchstr\<close> with \<open>k\<close> bytes left to the end of the process.  A string is the bytes before the null byte.\<close>

fun fetchstr_scan :: "u32 \<Rightarrow> nat \<Rightarrow> ('a proc_st_scheme, chan, u8 list option) km" where
  "fetchstr_scan s 0 = kreturn None"
| "fetchstr_scan s (Suc k) =
     kbind (uread s 1) (\<lambda>m.
     if m 0 = 0 then kreturn (Some [])
     else kbind (fetchstr_scan (s + 1) k) (\<lambda>r. kreturn (map_option ((#) (m 0)) r)))"

definition fetchstr :: "u32 \<Rightarrow> ('a proc_st_scheme, chan, u8 list option) km" where
  "fetchstr addr =
     kbind (kget (\<lambda>s. p_sz (this_proc s))) (\<lambda>sz.
     if sz \<le> addr then kreturn None else fetchstr_scan addr (unat sz - unat addr))"

definition argint :: "nat \<Rightarrow> ('a proc_st_scheme, chan, u32 option) km" where
  "argint n = kbind (kget (\<lambda>s. tf_esp (p_tf (this_proc s)))) (\<lambda>esp. fetchint (esp + 4 + 4 * of_nat n))"

definition argptr :: "nat \<Rightarrow> int \<Rightarrow> ('a proc_st_scheme, chan, u32 option) km" where
  "argptr n sz =
     kbind (argint n) (\<lambda>i.
     case i of
       None \<Rightarrow> kreturn None
     | Some i \<Rightarrow>
         kbind (kget (\<lambda>s. p_sz (this_proc s))) (\<lambda>psz.
         if psz \<le> i \<or> psz < i + of_int sz then kreturn None else kreturn (Some i)))"

definition argstr :: "nat \<Rightarrow> ('a proc_st_scheme, chan, u8 list option) km" where
  "argstr n =
     kbind (argint n) (\<lambda>addr.
     case addr of None \<Rightarrow> kreturn None | Some addr \<Rightarrow> fetchstr addr)"

text \<open>\<open>if ((x = m()) < 0) return -1;\<close> followed by the rest.\<close>

definition orfail :: "('s, 'c, 'x option) km \<Rightarrow> ('x \<Rightarrow> ('s, 'c, int) km) \<Rightarrow> ('s, 'c, int) km" where
  "orfail m f = kbind m (\<lambda>x. case x of None \<Rightarrow> kreturn (-1) | Some x \<Rightarrow> f x)"

section \<open>System calls on processes\<close>

definition sys_fork :: "('a proc_st_scheme, chan, int) km" where
  "sys_fork = fork"

definition sys_exit :: "('a proc_st_scheme, chan, unit) km" where
  "sys_exit = exit"

definition sys_wait :: "('a proc_st_scheme, chan, int) km" where
  "sys_wait = wait"

definition sys_kill :: "('a proc_st_scheme, chan, int) km" where
  "sys_kill = orfail (argint 0) (\<lambda>pid. kill (sint pid))"

definition sys_getpid :: "('a proc_st_scheme, chan, int) km" where
  "sys_getpid = kget (\<lambda>s. p_pid (this_proc s))"

definition sys_sbrk :: "('a proc_st_scheme, chan, int) km" where
  "sys_sbrk = orfail (argint 0) (\<lambda>n.
     kbind (kget (\<lambda>s. p_sz (this_proc s))) (\<lambda>addr.
     kbind (growproc (sint n)) (\<lambda>r.
     if r < 0 then kreturn (-1) else kreturn (sint addr))))"

text \<open>
  A round of the loop of \<open>sys_sleep\<close>, the lock held: \<open>Inl ()\<close> says that the process sleeps.  The
  comparison is one of unsigned numbers.
\<close>

definition sys_sleep_round :: "u32 \<Rightarrow> u32 \<Rightarrow> ('a proc_st_scheme, chan, unit + int) km" where
  "sys_sleep_round ticks0 n = (\<lambda>s.
     if ticks s - ticks0 < n then
       if p_killed (this_proc s) then kseq (release LTicks) (kreturn (Inr (-1))) s
       else kseq (sleep_enter ChTicks LTicks) (kreturn (Inl ())) s
     else kseq (release LTicks) (kreturn (Inr 0)) s)"

text \<open>The start returns the number of ticks it waits from as well.\<close>

definition sys_sleep_start :: "('a proc_st_scheme, chan, (u32 \<times> u32 \<times> (unit + int)) option) km" where
  "sys_sleep_start =
     kbind (argint 0) (\<lambda>n.
     case n of
       None \<Rightarrow> kreturn None
     | Some n \<Rightarrow>
         kseq (acquire LTicks)
         (kbind (kget ticks) (\<lambda>ticks0.
         kbind (sys_sleep_round ticks0 n) (\<lambda>r. kreturn (Some (ticks0, n, r))))))"

definition sys_sleep_resume :: "u32 \<Rightarrow> u32 \<Rightarrow> ('a proc_st_scheme, chan, unit + int) km" where
  "sys_sleep_resume ticks0 n = kseq (sleep_leave LTicks) (sys_sleep_round ticks0 n)"

definition sys_sleep :: "('a proc_st_scheme, chan, int) km" where
  "sys_sleep = orfail sys_sleep_start (\<lambda>(_, _, r). case r of Inl _ \<Rightarrow> ksleep ChTicks | Inr r \<Rightarrow> kreturn r)"

definition sys_uptime :: "('a proc_st_scheme, chan, int) km" where
  "sys_uptime =
     kseq (acquire LTicks)
     (kbind (kget ticks) (\<lambda>xticks.
     kseq (release LTicks)
     (kreturn (sint xticks))))"

end
