(* ===== verification/Exec.thy ===== *)
theory Exec
  imports Syscall
begin

text \<open>
  Loading a program (\<open>kernel/exec.c\<close>): the ELF header and program headers of \<open>include/sys/elf.h\<close>, the segments,
  the guard page and the stack with the environment and the arguments.  Strings are the bytes before
  their null byte.  \<open>elf0\<close> and \<open>ustack0\<close> are what the uninitialised stack variables hold.
\<close>

section \<open>ELF structures\<close>

abbreviation ELF_MAGIC :: u32 where "ELF_MAGIC \<equiv> 0x464C457F"
abbreviation ELFHDR :: nat where "ELFHDR \<equiv> 52"       \<comment> \<open>\<open>sizeof(struct elfhdr)\<close>\<close>
abbreviation PROGHDR :: nat where "PROGHDR \<equiv> 32"     \<comment> \<open>\<open>sizeof(struct proghdr)\<close>\<close>
abbreviation ELF_PROG_LOAD :: u32 where "ELF_PROG_LOAD \<equiv> 1"
abbreviation MAXARG :: nat where "MAXARG \<equiv> 32"

record elfhdr =
  e_magic :: u32
  e_elf :: "u8 list"
  e_type :: u16
  e_machine :: u16
  e_version :: u32
  e_entry :: u32
  e_phoff :: u32
  e_shoff :: u32
  e_flags :: u32
  e_ehsize :: u16
  e_phentsize :: u16
  e_phnum :: u16
  e_shentsize :: u16
  e_shnum :: u16
  e_shstrndx :: u16

definition get_elfhdr :: "bytes \<Rightarrow> elfhdr" where
  "get_elfhdr b =
     \<lparr>e_magic = ld32 b 0, e_elf = map (\<lambda>i. b (4 + i)) [0..<12], e_type = ld16 b 16, e_machine = ld16 b 18,
      e_version = ld32 b 20, e_entry = ld32 b 24, e_phoff = ld32 b 28, e_shoff = ld32 b 32, e_flags = ld32 b 36,
      e_ehsize = ld16 b 40, e_phentsize = ld16 b 42, e_phnum = ld16 b 44, e_shentsize = ld16 b 46, e_shnum = ld16 b 48,
      e_shstrndx = ld16 b 50\<rparr>"

record proghdr =
  ph_type :: u32
  ph_off :: u32
  ph_vaddr :: u32
  ph_paddr :: u32
  ph_filesz :: u32
  ph_memsz :: u32
  ph_flags :: u32
  ph_align :: u32

definition get_proghdr :: "bytes \<Rightarrow> proghdr" where
  "get_proghdr b =
     \<lparr>ph_type = ld32 b 0, ph_off = ld32 b 4, ph_vaddr = ld32 b 8, ph_paddr = ld32 b 12, ph_filesz = ld32 b 16,
      ph_memsz = ld32 b 20, ph_flags = ld32 b 24, ph_align = ld32 b 28\<rparr>"

section \<open>Steps of execve\<close>

text \<open>The label \<open>bad\<close>.\<close>

definition exec_bad :: "u32 \<Rightarrow> nat option \<Rightarrow> ('a proc_st_scheme, chan, int) km" where
  "exec_bad pgdir ip =
     kseq (kwhen (pgdir \<noteq> 0) (freevm pgdir))
     (kseq (case ip of None \<Rightarrow> kreturn () | Some ip \<Rightarrow> iunlockput ip)
     (kreturn (-1)))"

text \<open>The loop over the program headers; \<open>Inr None\<close> is a jump to \<open>bad\<close>.\<close>

definition exec_load_body :: "'a proc_st_scheme devsw \<Rightarrow> u32 \<Rightarrow> nat \<Rightarrow> elfhdr \<Rightarrow> nat \<times> u32 \<times> u32 \<Rightarrow>
    ('a proc_st_scheme, chan, (nat \<times> u32 \<times> u32) + u32 option) km" where
  "exec_load_body dv pgdir ip elf = (\<lambda>(i, off, sz).
     if i < unat (e_phnum elf) then
       kbind (readi dv ip (\<lambda>_. 0) off (of_nat PROGHDR)) (\<lambda>(r, buf).
       let ph = get_proghdr buf in
       if r \<noteq> int PROGHDR then kreturn (Inr None)
       else if ph_type ph \<noteq> ELF_PROG_LOAD then kreturn (Inl (i + 1, off + of_nat PROGHDR, sz))
       else if ph_memsz ph < ph_filesz ph then kreturn (Inr None)
       else
         kbind (allocuvm pgdir sz (ph_vaddr ph + ph_memsz ph)) (\<lambda>sz.
         if sz = 0 then kreturn (Inr None)
         else
           kbind (loaduvm dv pgdir (ph_vaddr ph) ip (ph_off ph) (ph_filesz ph)) (\<lambda>r.
           if r < 0 then kreturn (Inr None)
           else kreturn (Inl (i + 1, off + of_nat PROGHDR, sz)))))
     else kreturn (Inr (Some sz)))"

text \<open>A round moves on to the next of the at most 65535 headers.\<close>

definition exec_load :: "'a proc_st_scheme devsw \<Rightarrow> u32 \<Rightarrow> nat \<Rightarrow> elfhdr \<Rightarrow> ('a proc_st_scheme, chan, u32 option) km" where
  "exec_load dv pgdir ip elf = kloop (2 ^ 16) (exec_load_body dv pgdir ip elf) (0, e_phoff elf, 0)"

text \<open>
  The loops that push strings: \<open>full c\<close> is the test that ends in \<open>bad\<close>, \<open>base\<close> the index in \<open>ustack\<close> of the
  first pointer.
\<close>

fun push_strings :: "u32 \<Rightarrow> (nat \<Rightarrow> bool) \<Rightarrow> nat \<Rightarrow> u8 list list \<Rightarrow> nat \<Rightarrow> u32 \<Rightarrow> (nat \<Rightarrow> u32) \<Rightarrow>
    ('a proc_st_scheme, chan, (u32 \<times> (nat \<Rightarrow> u32)) option) km" where
  "push_strings pgdir full base [] c sp ustack = kreturn (Some (sp, ustack))"
| "push_strings pgdir full base (x # xs) c sp ustack =
     (if full c then kreturn None
      else
        let sp = (sp - (of_nat (length x) + 1)) AND NOT 3 in
        kbind (kget (\<lambda>s. ld32 (ubuf s 0) 0)) (\<lambda>null.
        kbind (copyout null pgdir sp (cstr x) (of_nat (length x) + 1)) (\<lambda>r.
        if r < 0 then kreturn None
        else push_strings pgdir full base xs (c + 1) sp (ustack(base + c := sp)))))"

definition words_bytes :: "(nat \<Rightarrow> u32) \<Rightarrow> bytes" where
  "words_bytes w = (\<lambda>i. ucast (drop_bit (8 * (i mod 4)) (w (i div 4))))"

definition copyout_words :: "u32 \<Rightarrow> u32 \<Rightarrow> (nat \<Rightarrow> u32) \<Rightarrow> nat \<Rightarrow> ('a proc_st_scheme, chan, int) km" where
  "copyout_words pgdir sp ustack n =
     kbind (kget (\<lambda>s. ld32 (ubuf s 0) 0)) (\<lambda>null.
     copyout null pgdir sp (words_bytes ustack) (of_nat (4 * n)))"

text \<open>
  Filling the stack from \<open>sp\<close> down: the environment with its table, then the arguments with theirs.  The test in
  the first loop is on \<open>i\<close>, which is still the number of program headers.  \<open>None\<close> is a jump to \<open>bad\<close>.
\<close>

definition exec_stack :: "u32 \<Rightarrow> nat \<Rightarrow> u8 list list \<Rightarrow> u8 list list \<Rightarrow> (nat \<Rightarrow> u32) \<Rightarrow> u32 \<Rightarrow>
    ('a proc_st_scheme, chan, u32 option) km" where
  "exec_stack pgdir i argv env ustack0 sp =
     kbind (push_strings pgdir (\<lambda>_. MAXARG \<le> i) 5 env 0 sp (ustack0(0 := 0xFFFFFFFF))) (\<lambda>r.
     case r of
       None \<Rightarrow> kreturn None
     | Some (sp, ustack) \<Rightarrow>
         let envc = length env;
             ustack = ustack(3 := sp - (of_nat envc + 1) * 4, 5 + envc := 0);
             sp = sp - (5 + of_nat envc + 1) * 4 in
         kbind (copyout_words pgdir sp ustack (4 + envc + 1)) (\<lambda>r.
         if r < 0 then kreturn None
         else
           kbind (push_strings pgdir (\<lambda>argc. MAXARG \<le> argc) 4 argv 0 sp ustack) (\<lambda>r.
           case r of
             None \<Rightarrow> kreturn None
           | Some (sp, ustack) \<Rightarrow>
               let argc = length argv;
                   ustack = ustack(1 := of_nat argc, 2 := sp - (of_nat argc + 1) * 4, 4 + argc := 0);
                   sp = sp - (4 + of_nat argc + 1) * 4 in
               kbind (copyout_words pgdir sp ustack (4 + argc + 1)) (\<lambda>r.
               if r < 0 then kreturn None else kreturn (Some sp)))))"

text \<open>The last component of the path names the process.\<close>

definition exec_name :: "u8 list \<Rightarrow> u8 list" where
  "exec_name path = rev (takeWhile (\<lambda>c. c \<noteq> slash) (rev path))"

definition exec_commit :: "u8 list \<Rightarrow> u32 \<Rightarrow> u32 \<Rightarrow> u32 \<Rightarrow> u32 \<Rightarrow> ('a proc_st_scheme, chan, int) km" where
  "exec_commit path pgdir sz entry sp =
     kbind (kget curproc) (\<lambda>cur.
     kseq (upd_proc cur (\<lambda>p. p\<lparr>p_name := safestrcpy (p_name p) (cstr (exec_name path)) 16\<rparr>))
     (kbind (kget (\<lambda>s. p_pgdir (ptable s ! cur))) (\<lambda>oldpgdir.
     kseq (upd_proc cur (\<lambda>p. p\<lparr>p_pgdir := pgdir, p_sz := sz, p_tf := (p_tf p)\<lparr>tf_eip := entry, tf_esp := sp\<rparr>\<rparr>))
     (kseq (switchuvm cur)
     (kseq (freevm oldpgdir)
     (kreturn 0))))))"

text \<open>
  The result of the first \<open>readi\<close> is compared as an unsigned number.  The last part: two pages, of which the
  first is made inaccessible, the stack, and the switch to the new image.
\<close>

definition exec_finish :: "u8 list \<Rightarrow> u8 list list \<Rightarrow> u8 list list \<Rightarrow> (nat \<Rightarrow> u32) \<Rightarrow> elfhdr \<Rightarrow> u32 \<Rightarrow> u32 \<Rightarrow>
    ('a proc_st_scheme, chan, int) km" where
  "exec_finish path argv env ustack0 elf pgdir sz =
     kbind (allocuvm pgdir (PGROUNDUP sz) (PGROUNDUP sz + 2 * PGSIZE)) (\<lambda>sz.
     if sz = 0 then exec_bad pgdir None
     else
       kseq (clearpteu pgdir (sz - 2 * PGSIZE))
       (kbind (exec_stack pgdir (unat (e_phnum elf)) argv env ustack0 sz) (\<lambda>r.
       case r of
         None \<Rightarrow> exec_bad pgdir None
       | Some sp \<Rightarrow> exec_commit path pgdir sz (e_entry elf) sp)))"

definition execve :: "'a proc_st_scheme devsw \<Rightarrow> bytes \<Rightarrow> (nat \<Rightarrow> u32) \<Rightarrow> u8 list \<Rightarrow> u8 list list \<Rightarrow> u8 list list \<Rightarrow>
    ('a proc_st_scheme, chan, int) km" where
  "execve dv elf0 ustack0 path argv env =
     orfail (namei dv path) (\<lambda>ip.
     kseq (ilock ip)
     (kbind (readi dv ip elf0 0 (of_nat ELFHDR)) (\<lambda>(r, buf).
     let elf = get_elfhdr buf in
     if (of_int r :: u32) < of_nat ELFHDR then exec_bad 0 (Some ip)
     else if e_magic elf \<noteq> ELF_MAGIC then exec_bad 0 (Some ip)
     else
       kbind setupkvm (\<lambda>pgdir.
       if pgdir = 0 then exec_bad 0 (Some ip)
       else
         kbind (exec_load dv pgdir ip elf) (\<lambda>sz.
         case sz of
           None \<Rightarrow> exec_bad pgdir (Some ip)
         | Some sz \<Rightarrow>
             kseq (iunlockput ip)
             (exec_finish path argv env ustack0 elf pgdir sz))))))"

end
