(* ===== verification/Sysfile.thy ===== *)
theory Sysfile
  imports Exec
begin

text \<open>
  The system calls on files (\<open>kernel/sysfile.c\<close>).  A buffer of the caller is read from and written back
  to user memory; paths are the strings \<open>argstr\<close> returns.
\<close>

section \<open>Descriptors\<close>

definition argfd :: "nat \<Rightarrow> ('a proc_st_scheme, chan, (nat \<times> nat) option) km" where
  "argfd n =
     kbind (argint n) (\<lambda>fd.
     case fd of
       None \<Rightarrow> kreturn None
     | Some fd \<Rightarrow>
         let fd = sint fd in
         if fd < 0 \<or> int NOFILE \<le> fd then kreturn None
         else
           kbind (kget (\<lambda>s. p_ofile (this_proc s) ! nat fd)) (\<lambda>f.
           case f of None \<Rightarrow> kreturn None | Some f \<Rightarrow> kreturn (Some (nat fd, f))))"

definition set_fd :: "nat \<Rightarrow> nat option \<Rightarrow> ('a proc_st_scheme, chan, unit) km" where
  "set_fd fd f = kbind (kget curproc) (\<lambda>cur. upd_proc cur (\<lambda>p. p\<lparr>p_ofile := (p_ofile p)[fd := f]\<rparr>))"

definition fdalloc :: "nat \<Rightarrow> ('a proc_st_scheme, chan, nat option) km" where
  "fdalloc f = (\<lambda>s.
     case find (\<lambda>fd. p_ofile (this_proc s) ! fd = None) [0..<NOFILE] of
       Some fd \<Rightarrow> kseq (set_fd fd (Some f)) (kreturn (Some fd)) s
     | None \<Rightarrow> kreturn None s)"

definition sys_dup :: "('a proc_st_scheme, chan, int) km" where
  "sys_dup =
     orfail (argfd 0) (\<lambda>(_, f).
     orfail (fdalloc f) (\<lambda>fd.
     kseq (filedup f)
     (kreturn (int fd))))"

definition sys_read :: "'a proc_st_scheme devsw \<Rightarrow> ('a proc_st_scheme, chan, int) km" where
  "sys_read dv =
     orfail (argfd 0) (\<lambda>(_, f).
     orfail (argint 2) (\<lambda>n.
     orfail (argptr 1 (sint n)) (\<lambda>p.
     kbind (kget (\<lambda>s. ubuf s p)) (\<lambda>buf.
     kbind (fileread dv f buf (sint n)) (\<lambda>(r, buf).
     kseq (uwrite p buf (nat r))
     (kreturn r))))))"

text \<open>All \<open>n\<close> bytes of the buffer are taken to be accessed.\<close>

definition sys_write :: "'a proc_st_scheme devsw \<Rightarrow> ('a proc_st_scheme, chan, int) km" where
  "sys_write dv =
     orfail (argfd 0) (\<lambda>(_, f).
     orfail (argint 2) (\<lambda>n.
     orfail (argptr 1 (sint n)) (\<lambda>p.
     kbind (uread p (nat (sint n))) (\<lambda>buf.
     filewrite dv f buf (sint n)))))"

definition sys_close :: "('a proc_st_scheme, chan, int) km" where
  "sys_close =
     orfail (argfd 0) (\<lambda>(fd, f).
     kseq (set_fd fd None)
     (kseq (fileclose f)
     (kreturn 0)))"

text \<open>\<open>struct stat\<close> in memory: the padding after the two short fields is left alone.\<close>

definition put_stat :: "stat \<Rightarrow> bytes \<Rightarrow> bytes" where
  "put_stat st b =
     st32 (st16 (st32 (st32 (st16 b 0 (st_type st)) 4 (of_nat (st_dev st))) 8 (of_nat (st_ino st))) 12 (st_nlink st))
       16 (st_size st)"

definition sys_fstat :: "('a proc_st_scheme, chan, int) km" where
  "sys_fstat =
     orfail (argfd 0) (\<lambda>(_, f).
     orfail (argptr 1 20) (\<lambda>p.
     kbind (filestat f) (\<lambda>(r, st).
     kseq (case st of None \<Rightarrow> kreturn () | Some st \<Rightarrow> kbind (uread p 20) (\<lambda>b. uwrite p (put_stat st b) 20))
     (kreturn r))))"

section \<open>Links\<close>

text \<open>The label \<open>bad\<close> of \<open>sys_link\<close>.\<close>

definition link_bad :: "nat \<Rightarrow> ('a proc_st_scheme, chan, int) km" where
  "link_bad ip =
     kseq (ilock ip)
     (kseq (upd_inode ip (\<lambda>x. x\<lparr>i_nlink := i_nlink x - 1\<rparr>))
     (kseq (iupdate ip)
     (kseq (iunlockput ip)
     (kseq commit_trans
     (kreturn (-1))))))"

definition sys_link :: "'a proc_st_scheme devsw \<Rightarrow> ('a proc_st_scheme, chan, int) km" where
  "sys_link dv =
     orfail (argstr 0) (\<lambda>old.
     orfail (argstr 1) (\<lambda>new.
     orfail (namei dv old) (\<lambda>ip.
     kseq begin_trans
     (kseq (ilock ip)
     (kbind (get_inode ip) (\<lambda>x.
     if i_type x = T_DIR then
       kseq (iunlockput ip)
       (kseq commit_trans
       (kreturn (-1)))
     else
       kseq (upd_inode ip (\<lambda>x. x\<lparr>i_nlink := i_nlink x + 1\<rparr>))
       (kseq (iupdate ip)
       (kseq (iunlock ip)
       (kbind (nameiparent dv new (\<lambda>_. 0)) (\<lambda>(dp, name).
       case dp of
         None \<Rightarrow> link_bad ip
       | Some dp \<Rightarrow>
           kseq (ilock dp)
           (kbind (kget (\<lambda>s. icache s dp)) (\<lambda>d.
           kbind (kget (\<lambda>s. icache s ip)) (\<lambda>x.
           kbind (if i_dev d \<noteq> i_dev x then kreturn (-1) else dirlink dv dp name (of_nat (i_inum x))) (\<lambda>r.
           if r < 0 then
             kseq (iunlockput dp)
             (link_bad ip)
           else
             kseq (iunlockput dp)
             (kseq (iput ip)
             (kseq commit_trans
             (kreturn 0)))))))))))))))))"

fun isdirempty_from :: "'a proc_st_scheme devsw \<Rightarrow> nat \<Rightarrow> nat list \<Rightarrow> ('a proc_st_scheme, chan, bool) km" where
  "isdirempty_from dv dp [] = kreturn True"
| "isdirempty_from dv dp (off # offs) =
     kbind (readi dv dp (\<lambda>_. 0) (of_nat off) (of_nat DIRENT)) (\<lambda>(r, de).
     if r \<noteq> int DIRENT then kpanic ''isdirempty: readi''
     else if de_inum de \<noteq> 0 then kreturn False
     else isdirempty_from dv dp offs)"

definition isdirempty :: "'a proc_st_scheme devsw \<Rightarrow> nat \<Rightarrow> ('a proc_st_scheme, chan, bool) km" where
  "isdirempty dv dp = kbind (get_inode dp) (\<lambda>x. isdirempty_from dv dp (drop 2 (dir_offs (i_size x))))"

definition dot :: bytes where "dot = cstr [46]"
definition dotdot :: bytes where "dotdot = cstr [46, 46]"

text \<open>The label \<open>bad\<close> of \<open>sys_unlink\<close>, and the part after all checks.\<close>

definition unlink_bad :: "nat \<Rightarrow> ('a proc_st_scheme, chan, int) km" where
  "unlink_bad dp =
     kseq (iunlockput dp)
     (kseq commit_trans
     (kreturn (-1)))"

definition unlink_entry :: "'a proc_st_scheme devsw \<Rightarrow> nat \<Rightarrow> nat \<Rightarrow> nat \<Rightarrow> ('a proc_st_scheme, chan, int) km" where
  "unlink_entry dv dp ip off =
     kbind (writei dv dp (\<lambda>_. 0) (of_nat off) (of_nat DIRENT)) (\<lambda>r.
     if r \<noteq> int DIRENT then kpanic ''unlink: writei''
     else
       kbind (get_inode ip) (\<lambda>x.
       kseq (kwhen (i_type x = T_DIR)
         (kseq (upd_inode dp (\<lambda>d. d\<lparr>i_nlink := i_nlink d - 1\<rparr>)) (iupdate dp)))
       (kseq (iunlockput dp)
       (kseq (upd_inode ip (\<lambda>x. x\<lparr>i_nlink := i_nlink x - 1\<rparr>))
       (kseq (iupdate ip)
       (kseq (iunlockput ip)
       (kseq commit_trans
       (kreturn 0))))))))"

text \<open>\<open>nlink\<close> is a signed number.\<close>

definition sys_unlink :: "'a proc_st_scheme devsw \<Rightarrow> ('a proc_st_scheme, chan, int) km" where
  "sys_unlink dv =
     orfail (argstr 0) (\<lambda>path.
     kbind (nameiparent dv path (\<lambda>_. 0)) (\<lambda>(dp, name).
     case dp of
       None \<Rightarrow> kreturn (-1)
     | Some dp \<Rightarrow>
         kseq begin_trans
         (kseq (ilock dp)
         (if namecmp name dot = 0 \<or> namecmp name dotdot = 0 then unlink_bad dp
          else
            kbind (dirlookup dv dp name) (\<lambda>e.
            case e of
              None \<Rightarrow> unlink_bad dp
            | Some (ip, off) \<Rightarrow>
                kseq (ilock ip)
                (kbind (get_inode ip) (\<lambda>x.
                if sint (i_nlink x) < 1 then kpanic ''unlink: nlink < 1''
                else
                  kbind (if i_type x = T_DIR then isdirempty dv ip else kreturn True) (\<lambda>ok.
                  if \<not> ok then
                    kseq (iunlockput ip)
                    (unlink_bad dp)
                  else unlink_entry dv dp ip off))))))))"

section \<open>Creating files\<close>

text \<open>The part of \<open>create\<close> for a new inode.\<close>

definition create_new :: "'a proc_st_scheme devsw \<Rightarrow> nat \<Rightarrow> bytes \<Rightarrow> u16 \<Rightarrow> u16 \<Rightarrow> u16 \<Rightarrow> ('a proc_st_scheme, chan, nat) km" where
  "create_new dv dp name type major minor =
     kbind (get_inode dp) (\<lambda>d.
     kbind (ialloc (i_dev d) type) (\<lambda>ip.
     kseq (ilock ip)
     (kseq (upd_inode ip (\<lambda>x. x\<lparr>i_major := major, i_minor := minor, i_nlink := 1\<rparr>))
     (kseq (iupdate ip)
     (kbind (get_inode ip) (\<lambda>x.
     kseq (kwhen (type = T_DIR)
       (kseq (upd_inode dp (\<lambda>d. d\<lparr>i_nlink := i_nlink d + 1\<rparr>))
       (kseq (iupdate dp)
       (kbind (dirlink dv ip dot (of_nat (i_inum x))) (\<lambda>r.
       kbind (if r < 0 then kreturn r else dirlink dv ip dotdot (of_nat (i_inum d))) (\<lambda>r.
       kwhen (r < 0) (kpanic ''create dots'')))))))
     (kbind (dirlink dv dp name (of_nat (i_inum x))) (\<lambda>r.
     if r < 0 then kpanic ''create: dirlink''
     else
       kseq (iunlockput dp)
       (kreturn ip)))))))))"

definition create :: "'a proc_st_scheme devsw \<Rightarrow> u8 list \<Rightarrow> u16 \<Rightarrow> u16 \<Rightarrow> u16 \<Rightarrow> ('a proc_st_scheme, chan, nat option) km" where
  "create dv path type major minor =
     kbind (nameiparent dv path (\<lambda>_. 0)) (\<lambda>(dp, name).
     case dp of
       None \<Rightarrow> kreturn None
     | Some dp \<Rightarrow>
         kseq (ilock dp)
         (kbind (dirlookup dv dp name) (\<lambda>e.
         case e of
           Some (ip, off) \<Rightarrow>
             kseq (iunlockput dp)
             (kseq (ilock ip)
             (kbind (get_inode ip) (\<lambda>x.
             if type = T_FILE \<and> i_type x = T_FILE then kreturn (Some ip)
             else
               kseq (iunlockput ip)
               (kreturn None))))
         | None \<Rightarrow> kbind (create_new dv dp name type major minor) (\<lambda>ip. kreturn (Some ip)))))"

abbreviation O_RDONLY :: u32 where "O_RDONLY \<equiv> 0"
abbreviation O_WRONLY :: u32 where "O_WRONLY \<equiv> 1"
abbreviation O_RDWR :: u32 where "O_RDWR \<equiv> 2"
abbreviation O_CREATE :: u32 where "O_CREATE \<equiv> 0x200"

text \<open>The inode a path names, locked; \<open>None\<close> is a return of -1.\<close>

definition open_inode :: "'a proc_st_scheme devsw \<Rightarrow> u8 list \<Rightarrow> u32 \<Rightarrow> ('a proc_st_scheme, chan, nat option) km" where
  "open_inode dv path omode =
     (if omode AND O_CREATE \<noteq> 0 then
        kseq begin_trans
        (kbind (create dv path T_FILE 0 0) (\<lambda>ip.
        kseq commit_trans
        (kreturn ip)))
      else
        kbind (namei dv path) (\<lambda>ip.
        case ip of
          None \<Rightarrow> kreturn None
        | Some ip \<Rightarrow>
            kseq (ilock ip)
            (kbind (get_inode ip) (\<lambda>x.
            if i_type x = T_DIR \<and> omode \<noteq> O_RDONLY then
              kseq (iunlockput ip)
              (kreturn None)
            else kreturn (Some ip)))))"

definition sys_open :: "'a proc_st_scheme devsw \<Rightarrow> ('a proc_st_scheme, chan, int) km" where
  "sys_open dv =
     orfail (argstr 0) (\<lambda>path.
     orfail (argint 1) (\<lambda>omode.
     orfail (open_inode dv path omode) (\<lambda>ip.
     kbind filealloc (\<lambda>f.
     kbind (case f of None \<Rightarrow> kreturn None | Some f \<Rightarrow> fdalloc f) (\<lambda>fd.
     case fd of
       None \<Rightarrow>
         kseq (close_opt f)
         (kseq (iunlockput ip)
         (kreturn (-1)))
     | Some fd \<Rightarrow>
         kseq (iunlock ip)
         (kseq (upd_file (the f) (\<lambda>x. x\<lparr>f_type := FD_INODE, f_ip := ip, f_off := 0,
            f_readable := (omode AND O_WRONLY = 0),
            f_writable := (omode AND O_WRONLY \<noteq> 0 \<or> omode AND O_RDWR \<noteq> 0)\<rparr>))
         (kreturn (int fd))))))))"

text \<open>\<open>sys_mkdir\<close> and \<open>sys_mknod\<close>: the arguments are fetched inside the transaction.\<close>

definition made :: "('a proc_st_scheme, chan, nat option) km \<Rightarrow> ('a proc_st_scheme, chan, int) km" where
  "made m =
     kseq begin_trans
     (kbind m (\<lambda>ip.
     case ip of
       None \<Rightarrow>
         kseq commit_trans
         (kreturn (-1))
     | Some ip \<Rightarrow>
         kseq (iunlockput ip)
         (kseq commit_trans
         (kreturn 0))))"

definition sys_mkdir :: "'a proc_st_scheme devsw \<Rightarrow> ('a proc_st_scheme, chan, int) km" where
  "sys_mkdir dv = made (
     kbind (argstr 0) (\<lambda>path.
     case path of None \<Rightarrow> kreturn None | Some path \<Rightarrow> create dv path T_DIR 0 0))"

definition sys_mknod :: "'a proc_st_scheme devsw \<Rightarrow> ('a proc_st_scheme, chan, int) km" where
  "sys_mknod dv = made (
     kbind (argstr 0) (\<lambda>path.
     case path of None \<Rightarrow> kreturn None | Some path \<Rightarrow>
     kbind (argint 1) (\<lambda>major.
     case major of None \<Rightarrow> kreturn None | Some major \<Rightarrow>
     kbind (argint 2) (\<lambda>minor.
     case minor of None \<Rightarrow> kreturn None | Some minor \<Rightarrow> create dv path T_DEV (ucast major) (ucast minor)))))"

section \<open>Directories, programs and pipes\<close>

definition sys_chdir :: "'a proc_st_scheme devsw \<Rightarrow> ('a proc_st_scheme, chan, int) km" where
  "sys_chdir dv =
     orfail (argstr 0) (\<lambda>path.
     orfail (namei dv path) (\<lambda>ip.
     kseq (ilock ip)
     (kbind (get_inode ip) (\<lambda>x.
     if i_type x \<noteq> T_DIR then
       kseq (iunlockput ip)
       (kreturn (-1))
     else
       kseq (iunlock ip)
       (kbind (kget curproc) (\<lambda>cur.
       kbind (kget (\<lambda>s. p_cwd (ptable s ! cur))) (\<lambda>cwd.
       kseq (case cwd of None \<Rightarrow> kpanic ''trap'' | Some cwd \<Rightarrow> iput cwd)
       (kseq (upd_proc cur (\<lambda>p. p\<lparr>p_cwd := Some ip\<rparr>))
       (kreturn 0)))))))))"

text \<open>The vector of strings at user address \<open>u\<close>, read from index \<open>i\<close> on with \<open>k\<close> entries of the array left.\<close>

fun fetch_vector :: "u32 \<Rightarrow> nat \<Rightarrow> nat \<Rightarrow> ('a proc_st_scheme, chan, u8 list list option) km" where
  "fetch_vector u i 0 = kreturn None"
| "fetch_vector u i (Suc k) =
     kbind (fetchint (u + 4 * of_nat i)) (\<lambda>a.
     case a of
       None \<Rightarrow> kreturn None
     | Some a \<Rightarrow>
         if a = 0 then kreturn (Some [])
         else
           kbind (fetchstr a) (\<lambda>x.
           case x of
             None \<Rightarrow> kreturn None
           | Some x \<Rightarrow> kbind (fetch_vector u (i + 1) k) (\<lambda>r. kreturn (map_option ((#) x) r))))"

definition sys_execve :: "'a proc_st_scheme devsw \<Rightarrow> bytes \<Rightarrow> (nat \<Rightarrow> u32) \<Rightarrow> ('a proc_st_scheme, chan, int) km" where
  "sys_execve dv elf0 ustack0 =
     orfail (argstr 0) (\<lambda>path.
     orfail (argint 1) (\<lambda>uargv.
     orfail (argint 2) (\<lambda>uenvp.
     orfail (fetch_vector uargv 0 MAXARG) (\<lambda>argv.
     orfail (fetch_vector uenvp 0 MAXARG) (\<lambda>envp.
     execve dv elf0 ustack0 path argv envp)))))"

definition sys_pipe :: "('a proc_st_scheme, chan, int) km" where
  "sys_pipe =
     orfail (argptr 0 8) (\<lambda>fd.
     kbind pipealloc (\<lambda>(r, rf, wf).
     if r < 0 then kreturn (-1)
     else
       kbind (fdalloc (the rf)) (\<lambda>fd0.
       kbind (if fd0 = None then kreturn None else fdalloc (the wf)) (\<lambda>fd1.
       if fd0 = None \<or> fd1 = None then
         kseq (case fd0 of None \<Rightarrow> kreturn () | Some fd0 \<Rightarrow> set_fd fd0 None)
         (kseq (fileclose (the rf))
         (kseq (fileclose (the wf))
         (kreturn (-1))))
       else
         kseq (uwrite fd (st32 (st32 (\<lambda>_. 0) 0 (of_nat (the fd0))) 4 (of_nat (the fd1))) 8)
         (kreturn 0)))))"

end
