(* ===== verification/Frame.thy ===== *)
theory Frame
  imports Sysfile
begin

text \<open>
  What operations leave alone.  \<open>keeps R m\<close> says that \<open>m\<close>, when it returns, relates the states before and after by
  \<open>R\<close>; for a reflexive and transitive \<open>R\<close> it follows the structure of the code.  The relation \<open>quiet\<close> is kept by
  the buffer cache, the log, the file system, the allocator and the address spaces: they change no
  process but to wake it, no open file, and none of the variables of the process layer.
\<close>

section \<open>Relations kept by a computation\<close>

definition ends :: "('s \<Rightarrow> bool) \<Rightarrow> ('s, 'c, 'a) kres \<Rightarrow> bool" where
  "ends P r \<longleftrightarrow> (\<forall>x t. r = Ok x t \<longrightarrow> P t)"

definition keeps :: "('s \<Rightarrow> 's \<Rightarrow> bool) \<Rightarrow> ('s, 'c, 'a) km \<Rightarrow> bool" where
  "keeps R m \<longleftrightarrow> (\<forall>s. ends (R s) (m s))"

lemma keepsI: "(\<And>s. ends (R s) (m s)) \<Longrightarrow> keeps R m"
  by (simp add: keeps_def)

lemma keepsD: "keeps R m \<Longrightarrow> m s = Ok x t \<Longrightarrow> R s t"
  by (simp add: keeps_def ends_def)

lemma keeps_at: "keeps R m \<Longrightarrow> ends (R s) (m s)"
  by (simp add: keeps_def)

named_theorems keeps \<open>operations that keep a relation\<close>

lemma ends_stop [keeps]: "ends P (Panic e)" "ends P (Sleep c)" "ends P Diverge"
  by (simp_all add: ends_def)

lemma ends_if [keeps]: "(b \<Longrightarrow> ends P r) \<Longrightarrow> (\<not> b \<Longrightarrow> ends P q) \<Longrightarrow> ends P (if b then r else q)"
  by simp

lemma ends_option [keeps]:
  "(z = None \<Longrightarrow> ends P r) \<Longrightarrow> (\<And>x. z = Some x \<Longrightarrow> ends P (q x)) \<Longrightarrow> ends P (case z of None \<Rightarrow> r | Some x \<Rightarrow> q x)"
  by (cases z) auto

lemma ends_let [keeps]: "(\<And>y. y = x \<Longrightarrow> ends P (f y)) \<Longrightarrow> ends P (let y = x in f y)"
  by simp

lemma ends_list [keeps]:
  "(z = [] \<Longrightarrow> ends P r) \<Longrightarrow> (\<And>x xs. z = x # xs \<Longrightarrow> ends P (q x xs)) \<Longrightarrow> ends P (case z of [] \<Rightarrow> r | x # xs \<Rightarrow> q x xs)"
  by (cases z) auto

lemma keeps_stop [keeps]: "keeps R (kpanic e)" "keeps R (ksleep c)" "keeps R kdiverge"
  by (simp_all add: keeps_def kpanic_def ksleep_def kdiverge_def ends_def)

lemma keeps_if [keeps]: "(b \<Longrightarrow> keeps R m) \<Longrightarrow> (\<not> b \<Longrightarrow> keeps R n) \<Longrightarrow> keeps R (if b then m else n)"
  by simp

lemma keeps_option [keeps]:
  "(z = None \<Longrightarrow> keeps R m) \<Longrightarrow> (\<And>x. z = Some x \<Longrightarrow> keeps R (n x)) \<Longrightarrow> keeps R (case z of None \<Rightarrow> m | Some x \<Rightarrow> n x)"
  by (cases z) auto

lemma keeps_sum [keeps]:
  "(\<And>x. keeps R (m x)) \<Longrightarrow> (\<And>x. keeps R (n x)) \<Longrightarrow> keeps R (case z of Inl x \<Rightarrow> m x | Inr x \<Rightarrow> n x)"
  by (cases z) auto

lemma keeps_prod [keeps]: "(\<And>x y. z = (x, y) \<Longrightarrow> keeps R (m x y)) \<Longrightarrow> keeps R (case z of (x, y) \<Rightarrow> m x y)"
  by (cases z) auto

lemma keeps_let [keeps]: "(\<And>y. keeps R (f y)) \<Longrightarrow> keeps R (let y = x in f y)"
  by simp

text \<open>A segment of a call that may end asleep (\<open>Inl\<close>) keeps the relation when it ends otherwise.\<close>

definition keeps_awake :: "('s \<Rightarrow> 's \<Rightarrow> bool) \<Rightarrow> ('s, 'c, 'w + 'a) km \<Rightarrow> bool" where
  "keeps_awake R m \<longleftrightarrow> (\<forall>s r t. m s = Ok (Inr r) t \<longrightarrow> R s t)"

lemma keeps_awakeD: "keeps_awake R m \<Longrightarrow> m s = Ok (Inr r) t \<Longrightarrow> R s t"
  by (simp add: keeps_awake_def)

lemma awake_asleep: "keeps_awake R (kbind m (\<lambda>_. kreturn (Inl y)))" "keeps_awake R (kreturn (Inl y))"
  by (auto simp: keeps_awake_def kbind_Ok_iff kreturn_def)

lemma awake_if: "(b \<Longrightarrow> keeps_awake R m) \<Longrightarrow> (\<not> b \<Longrightarrow> keeps_awake R n) \<Longrightarrow> keeps_awake R (if b then m else n)"
  by simp

lemma awake_keeps: "keeps R m \<Longrightarrow> keeps_awake R m"
  by (auto simp: keeps_awake_def keeps_def ends_def)

lemma wake_Ok:
  "kbind m (\<lambda>r. case r of Inl w \<Rightarrow> ksleep (c w) | Inr x \<Rightarrow> kreturn x) s = Ok y t \<longleftrightarrow> m s = Ok (Inr y) t"
  by (cases "m s") (auto simp: kbind_def ksleep_def kreturn_def split: sum.split)

lemma keeps_wake:
  "keeps_awake R m \<Longrightarrow> keeps R (kbind m (\<lambda>r. case r of Inl w \<Rightarrow> ksleep (c w) | Inr x \<Rightarrow> kreturn x))"
  by (simp add: keeps_def ends_def keeps_awake_def wake_Ok)

locale preorder_relation =
  fixes R :: "'s \<Rightarrow> 's \<Rightarrow> bool"
  assumes reflexive: "R s s"
    and transitive: "R s t \<Longrightarrow> R t u \<Longrightarrow> R s u"
begin

lemma bind: "keeps R m \<Longrightarrow> (\<And>x. keeps R (f x)) \<Longrightarrow> keeps R (kbind m f)"
  unfolding keeps_def ends_def kbind_def using transitive by (auto split: kres.splits) blast

lemma bind_at: "keeps R m \<Longrightarrow> (\<And>x. keeps R (f x)) \<Longrightarrow> ends (R s) (kbind m f s)"
  using bind [of m f] by (simp add: keeps_def)

lemma return: "keeps R (kreturn x)" "ends (R s) (kreturn x s)" "ends (R s) (Ok x s)"
  by (simp_all add: keeps_def ends_def kreturn_def reflexive)

lemma get: "keeps R (kget g)"
  by (simp add: keeps_def ends_def kget_def reflexive)

lemma modify: "(\<And>s. R s (u s)) \<Longrightarrow> keeps R (kmod u)"
  by (simp add: keeps_def ends_def kmod_def)

lemma result: "R s t \<Longrightarrow> ends (R s) (Ok x t)"
  by (simp add: ends_def)

lemma conditional: "(b \<Longrightarrow> keeps R m) \<Longrightarrow> keeps R (kwhen b m)"
  by (simp add: kwhen_def return)

lemma for_each: "(\<And>i. keeps R (f i)) \<Longrightarrow> keeps R (kfor is f)"
  by (induction "is") (auto intro: return bind)

lemma for_each_at: "(\<And>i. keeps R (f i)) \<Longrightarrow> ends (R s) (kfor is f s)"
  using for_each [of f "is"] by (simp add: keeps_def)

lemma awake_bind: "keeps R m \<Longrightarrow> (\<And>x. keeps_awake R (f x)) \<Longrightarrow> keeps_awake R (kbind m f)"
  using transitive by (fastforce simp: keeps_awake_def keeps_def ends_def kbind_Ok_iff)

lemma awake_cont:
  assumes "keeps_awake R m" and "\<And>x. keeps_awake R (g x)"
  shows "keeps_awake R (kbind m (\<lambda>r. case r of Inl w \<Rightarrow> kreturn (Inl w) | Inr x \<Rightarrow> g x))"
  unfolding keeps_awake_def
proof (intro allI impI)
  fix s r t
  assume "kbind m (\<lambda>r. case r of Inl w \<Rightarrow> kreturn (Inl w) | Inr x \<Rightarrow> g x) s = Ok (Inr r) t"
  then obtain q u where qu: "m s = Ok q u" "(case q of Inl w \<Rightarrow> kreturn (Inl w) | Inr x \<Rightarrow> g x) u = Ok (Inr r) t"
    by (auto simp: kbind_def split: kres.splits)
  then show "R s t" using assms transitive [of s u t]
    by (cases q) (auto simp: kreturn_def keeps_awake_def)
qed

lemma loop: "(\<And>x. keeps R (f x)) \<Longrightarrow> keeps R (kloop n f x)"
proof (induction n arbitrary: x)
  case (Suc n)
  show ?case using Suc.IH [OF Suc.prems] Suc.prems by (auto intro!: bind keeps_sum return)
qed (simp add: keeps_stop)

lemmas composed = bind bind_at return get conditional for_each for_each_at loop

end

section \<open>Quiet operations\<close>

text \<open>A process table in which some sleeping processes have been made runnable.\<close>

definition woken :: "proc list \<Rightarrow> proc list \<Rightarrow> bool" where
  "woken T U \<longleftrightarrow> list_all2 (\<lambda>p q. q = p \<or> p_state p = SLEEPING \<and> q = p\<lparr>p_state := RUNNABLE\<rparr>) T U"

lemma woken_refl [simp]: "woken T T"
  by (simp add: woken_def list_all2_refl)

lemma woken_trans: "woken T U \<Longrightarrow> woken U V \<Longrightarrow> woken T V"
  unfolding woken_def by (erule (1) list_all2_trans [rotated]) auto

lemma woken_wakeup [simp]: "woken T (wakeup1_tab c T)"
  by (auto simp: woken_def wakeup1_tab_def list_all2_conv_all_nth)

lemma woken_length: "woken T U \<Longrightarrow> length U = length T"
  by (simp add: woken_def list_all2_lengthD)

lemma woken_nth:
  "woken T U \<Longrightarrow> i < length T \<Longrightarrow> U ! i = T ! i \<or> p_state (T ! i) = SLEEPING \<and> U ! i = (T ! i)\<lparr>p_state := RUNNABLE\<rparr>"
  by (simp add: woken_def list_all2_conv_all_nth)

definition quiet :: "'a proc_st_scheme \<Rightarrow> 'a proc_st_scheme \<Rightarrow> bool" where
  "quiet s t \<longleftrightarrow> woken (ptable s) (ptable t) \<and> curproc t = curproc s \<and> ftable t = ftable s \<and>
     initproc t = initproc s \<and> nextpid t = nextpid s \<and> ticks t = ticks s \<and> cpu_cr3 t = cpu_cr3 s \<and> kpgdir t = kpgdir s"

interpretation qt: preorder_relation quiet
  by unfold_locales (auto simp: quiet_def intro: woken_trans)

lemmas quietD = keepsD [where R = quiet]

declare qt.composed [keeps]

lemma quiet_locks [keeps]: "keeps quiet (acquire l)" "keeps quiet (release l)"
  by (auto simp: acquire_def release_def keeps_def ends_def quiet_def)

lemma quiet_wakeup [keeps]: "keeps quiet (wakeup1 c)" "keeps quiet (wakeup c)"
  by (unfold wakeup_def wakeup1_def, ((rule keeps qt.modify)+; simp add: quiet_def)+)

lemma quiet_mod_buf [keeps]: "keeps quiet (mod_buf b u)"
  by (unfold mod_buf_def, rule qt.modify, simp add: quiet_def)

lemma quiet_upd_inode [keeps]: "keeps quiet (upd_inode ip u)"
  by (unfold upd_inode_def, rule qt.modify, simp add: quiet_def)

text \<open>The buffer cache and the log.\<close>

lemma quiet_iderw [keeps]: "keeps quiet (iderw b)"
  by (auto simp: iderw_def keeps_def ends_def quiet_def Let_def)

lemma quiet_data [keeps]: "keeps quiet (buf_data b)" "keeps quiet (set_data b f)" "keeps quiet (set_dirty b)"
  by (unfold buf_data_def set_data_def set_dirty_def, (rule keeps)+)

lemma quiet_bget [keeps]: "keeps quiet (bget dev n)"
  by (unfold bget_def, (rule keeps | (rule qt.modify, simp add: quiet_def) | rule keepsI)+)

lemma quiet_bread [keeps]: "keeps quiet (bread dev n)"
  by (unfold bread_def, (rule keeps | (rule qt.modify, simp add: quiet_def) | rule keepsI)+)

lemma quiet_bwrite [keeps]: "keeps quiet (bwrite b)"
  by (unfold bwrite_def, (rule keeps | (rule qt.modify, simp add: quiet_def) | rule keepsI)+)

lemma quiet_brelse [keeps]: "keeps quiet (brelse b)"
  by (unfold brelse_def, (rule keeps | (rule qt.modify, simp add: quiet_def) | rule keepsI)+)

lemma quiet_readsb [keeps]: "keeps quiet (readsb dev)"
  by (unfold readsb_def, (rule keeps | (rule qt.modify, simp add: quiet_def) | rule keepsI)+)

lemma quiet_install_trans [keeps]: "keeps quiet (install_trans)"
  by (unfold install_trans_def, (rule keeps | (rule qt.modify, simp add: quiet_def) | rule keepsI)+)

lemma quiet_read_head [keeps]: "keeps quiet (read_head)"
  by (unfold read_head_def, (rule keeps | (rule qt.modify, simp add: quiet_def) | rule keepsI)+)

lemma quiet_write_head [keeps]: "keeps quiet (write_head)"
  by (unfold write_head_def, (rule keeps | (rule qt.modify, simp add: quiet_def) | rule keepsI)+)

lemma quiet_recover_from_log [keeps]: "keeps quiet (recover_from_log)"
  by (unfold recover_from_log_def, (rule keeps | (rule qt.modify, simp add: quiet_def) | rule keepsI)+)

lemma quiet_initlog [keeps]: "keeps quiet (initlog)"
  by (unfold initlog_def, (rule keeps | (rule qt.modify, simp add: quiet_def) | rule keepsI)+)

lemma quiet_begin_trans [keeps]: "keeps quiet (begin_trans)"
  by (unfold begin_trans_def, (rule keeps | (rule qt.modify, simp add: quiet_def) | rule keepsI)+)

lemma quiet_commit_trans [keeps]: "keeps quiet (commit_trans)"
  by (unfold commit_trans_def, (rule keeps | (rule qt.modify, simp add: quiet_def) | rule keepsI)+)

lemma quiet_log_write [keeps]: "keeps quiet (log_write b)"
  by (unfold log_write_def, (rule keeps | (rule qt.modify, simp add: quiet_def) | rule keepsI)+)

text \<open>The file system.\<close>

lemma quiet_get_inode [keeps]: "keeps quiet (get_inode ip)"
  by (unfold get_inode_def, (rule keeps | (rule qt.modify, simp add: quiet_def) | rule keepsI)+)

lemma quiet_bzero [keeps]: "keeps quiet (bzero dev b)"
  by (unfold bzero_def, (rule keeps | (rule qt.modify, simp add: quiet_def) | rule keepsI)+)

lemma quiet_balloc_from [keeps]: "keeps quiet (balloc_from dev sb bs)"
  by (induction bs) (simp_all only: balloc_from.simps, (assumption | rule keeps)+)

lemma quiet_balloc [keeps]: "keeps quiet (balloc dev)"
  by (unfold balloc_def, (rule keeps | (rule qt.modify, simp add: quiet_def) | rule keepsI)+)

lemma quiet_bfree [keeps]: "keeps quiet (bfree dev b)"
  by (unfold bfree_def, (rule keeps | (rule qt.modify, simp add: quiet_def) | rule keepsI)+)

lemma quiet_iget [keeps]: "keeps quiet (iget dev inum)"
  by (unfold iget_def, (rule keeps | (rule qt.modify, simp add: quiet_def) | rule keepsI)+)

lemma quiet_ialloc_from [keeps]: "keeps quiet (ialloc_from dev type is)"
  by (induction "is") (simp_all only: ialloc_from.simps, (assumption | rule keeps)+)

lemma quiet_ialloc [keeps]: "keeps quiet (ialloc dev type)"
  by (unfold ialloc_def, (rule keeps | (rule qt.modify, simp add: quiet_def) | rule keepsI)+)

lemma quiet_iupdate [keeps]: "keeps quiet (iupdate ip)"
  by (unfold iupdate_def, (rule keeps | (rule qt.modify, simp add: quiet_def) | rule keepsI)+)

lemma quiet_idup [keeps]: "keeps quiet (idup ip)"
  by (unfold idup_def, (rule keeps | (rule qt.modify, simp add: quiet_def) | rule keepsI)+)

lemma quiet_ilock [keeps]: "keeps quiet (ilock ip)"
  by (unfold ilock_def, (rule keeps | (rule qt.modify, simp add: quiet_def) | rule keepsI)+)

lemma quiet_iunlock [keeps]: "keeps quiet (iunlock ip)"
  by (unfold iunlock_def, (rule keeps | (rule qt.modify, simp add: quiet_def) | rule keepsI)+)

lemma quiet_itrunc [keeps]: "keeps quiet (itrunc ip)"
  by (unfold itrunc_def, (rule keeps | (rule qt.modify, simp add: quiet_def) | rule keepsI)+)

lemma quiet_iput [keeps]: "keeps quiet (iput ip)"
  by (unfold iput_def, (rule keeps | (rule qt.modify, simp add: quiet_def) | rule keepsI)+)

lemma quiet_iunlockput [keeps]: "keeps quiet (iunlockput ip)"
  by (unfold iunlockput_def, (rule keeps | (rule qt.modify, simp add: quiet_def) | rule keepsI)+)

lemma quiet_bmap [keeps]: "keeps quiet (bmap ip bn)"
  by (unfold bmap_def, (rule keeps | (rule qt.modify, simp add: quiet_def) | rule keepsI)+)

lemma quiet_stati [keeps]: "keeps quiet (stati ip)"
  by (unfold stati_def, (rule keeps | (rule qt.modify, simp add: quiet_def) | rule keepsI)+)

text \<open>Reading and writing a device is up to the device.\<close>

definition quiet_dev :: "'a proc_st_scheme devsw \<Rightarrow> bool" where
  "quiet_dev dv \<longleftrightarrow> (\<forall>m f ip b n. dev_read dv m = Some f \<longrightarrow> keeps quiet (f ip b n)) \<and>
     (\<forall>m f ip b n. dev_write dv m = Some f \<longrightarrow> keeps quiet (f ip b n))"

lemma quiet_devD:
  "dev_read dv m = Some f \<Longrightarrow> quiet_dev dv \<Longrightarrow> keeps quiet (f ip b n)"
  "dev_write dv m = Some g \<Longrightarrow> quiet_dev dv \<Longrightarrow> keeps quiet (g ip b n)"
  by (auto simp: quiet_dev_def)

lemma quiet_readi_loop [keeps]: "keeps quiet (readi_loop ip dst off n tot)"
proof (induction ip dst off n tot rule: readi_loop.induct)
  case (1 ip dst off n tot)
  show ?case by (subst readi_loop.simps) (assumption | rule keeps 1)+
qed

lemma quiet_writei_loop [keeps]: "keeps quiet (writei_loop ip src off n tot)"
proof (induction ip src off n tot rule: writei_loop.induct)
  case (1 ip src off n tot)
  show ?case by (subst writei_loop.simps) (assumption | rule keeps 1)+
qed

lemma quiet_readi [keeps]: "quiet_dev dv \<Longrightarrow> keeps quiet (readi dv ip dst off n)"
  by (unfold readi_def, (assumption | rule keeps | erule (1) quiet_devD)+)

lemma quiet_writei [keeps]: "quiet_dev dv \<Longrightarrow> keeps quiet (writei dv ip src off n)"
  by (unfold writei_def, (assumption | rule keeps | erule (1) quiet_devD)+)

lemma quiet_dirlookup_from [keeps]:
  assumes "quiet_dev dv" shows "keeps quiet (dirlookup_from dv dp name offs)"
  by (induction offs) (simp_all only: dirlookup_from.simps, (assumption | rule keeps assms)+)

lemma quiet_dirlink_slot [keeps]:
  assumes "quiet_dev dv" shows "keeps quiet (dirlink_slot dv dp offs past)"
  by (induction offs) (simp_all only: dirlink_slot.simps, (assumption | rule keeps assms)+)

lemma quiet_dirlookup [keeps]: "quiet_dev dv \<Longrightarrow> keeps quiet (dirlookup dv dp name)"
  by (unfold dirlookup_def, (assumption | rule keeps | (rule qt.modify qt.result, simp add: quiet_def) | rule keepsI)+)

lemma quiet_dirlink [keeps]: "quiet_dev dv \<Longrightarrow> keeps quiet (dirlink dv dp name inum)"
  by (unfold dirlink_def, (assumption | rule keeps | (rule qt.modify qt.result, simp add: quiet_def) | rule keepsI)+)

lemma quiet_namex_loop [keeps]: "quiet_dev dv \<Longrightarrow> keeps quiet (namex_loop dv ip path np name)"
proof (induction dv ip path np name rule: namex_loop.induct)
  case (1 dv ip path np name)
  show ?case by (subst namex_loop.simps) (assumption | rule keeps | rule 1 refl | erule sym)+
qed

lemma quiet_idup_at [keeps]: "ends (quiet s) (idup ip s)"
  by (rule keeps_at [OF quiet_idup])

lemma quiet_namex [keeps]: "quiet_dev dv \<Longrightarrow> keeps quiet (namex dv path np name)"
  by (unfold namex_def, (assumption | rule keeps | (rule qt.modify qt.result, simp add: quiet_def) | rule keepsI)+)

lemma quiet_namei [keeps]: "quiet_dev dv \<Longrightarrow> keeps quiet (namei dv path)"
  by (unfold namei_def, (assumption | rule keeps | (rule qt.modify qt.result, simp add: quiet_def) | rule keepsI)+)

lemma quiet_nameiparent [keeps]: "quiet_dev dv \<Longrightarrow> keeps quiet (nameiparent dv path name)"
  by (unfold nameiparent_def, (assumption | rule keeps | (rule qt.modify qt.result, simp add: quiet_def) | rule keepsI)+)

text \<open>Pages and address spaces.\<close>

lemma quiet_kfree [keeps]: "keeps quiet (kfree v)"
  by (unfold kfree_def, (assumption | rule keeps | (rule qt.modify qt.result, simp add: quiet_def) | rule keepsI)+)

lemma quiet_kalloc [keeps]: "keeps quiet (kalloc)"
  by (unfold kalloc_def, (assumption | rule keeps | (rule qt.modify qt.result, simp add: quiet_def) | rule keepsI)+)

lemma quiet_ldw [keeps]: "keeps quiet (ldw v)"
  by (unfold ldw_def, (assumption | rule keeps | (rule qt.modify qt.result, simp add: quiet_def) | rule keepsI)+)

lemma quiet_stw [keeps]: "keeps quiet (stw v w)"
  by (unfold stw_def, (assumption | rule keeps | (rule qt.modify qt.result, simp add: quiet_def) | rule keepsI)+)

lemma quiet_zero_page [keeps]: "keeps quiet (zero_page v)"
  by (unfold zero_page_def, (assumption | rule keeps | (rule qt.modify qt.result, simp add: quiet_def) | rule keepsI)+)

lemma quiet_walkpgdir [keeps]: "keeps quiet (walkpgdir d va alloc)"
  by (unfold walkpgdir_def, (assumption | rule keeps | (rule qt.modify qt.result, simp add: quiet_def) | rule keepsI)+)

lemma quiet_mappages [keeps]: "keeps quiet (mappages d va n pa perm)"
  by (unfold mappages_def mappages_body_def, (assumption | rule keeps | (rule qt.modify qt.result, simp add: quiet_def) | rule keepsI)+)

lemma quiet_map_kernel [keeps]: "keeps quiet (map_kernel d ks)"
  by (induction d ks rule: map_kernel.induct) (simp_all only: map_kernel.simps, (assumption | rule keeps)+)

lemma quiet_setupkvm [keeps]: "keeps quiet (setupkvm)"
  by (unfold setupkvm_def, (assumption | rule keeps | (rule qt.modify qt.result, simp add: quiet_def) | rule keepsI)+)

lemma quiet_inituvm [keeps]: "keeps quiet (inituvm d init n)"
  by (unfold inituvm_def, (assumption | rule keeps | (rule qt.modify qt.result, simp add: quiet_def) | rule keepsI)+)

lemma quiet_loaduvm [keeps]: "quiet_dev dv \<Longrightarrow> keeps quiet (loaduvm dv d addr ip off n)"
  by (unfold loaduvm_def loaduvm_body_def, (assumption | rule keeps | (rule qt.modify qt.result, simp add: quiet_def) | rule keepsI)+)

lemma quiet_deallocuvm [keeps]: "keeps quiet (deallocuvm d a b)"
  by (unfold deallocuvm_def deallocuvm_body_def, (assumption | rule keeps | (rule qt.modify qt.result, simp add: quiet_def) | rule keepsI)+)

lemma quiet_allocuvm [keeps]: "keeps quiet (allocuvm d a b)"
  by (unfold allocuvm_def allocuvm_body_def, (assumption | rule keeps | (rule qt.modify qt.result, simp add: quiet_def) | rule keepsI)+)

lemma quiet_freevm [keeps]: "keeps quiet (freevm d)"
  by (unfold freevm_def, (assumption | rule keeps | (rule qt.modify qt.result, simp add: quiet_def) | rule keepsI)+)

lemma quiet_clearpteu [keeps]: "keeps quiet (clearpteu d a)"
  by (unfold clearpteu_def, (assumption | rule keeps | (rule qt.modify qt.result, simp add: quiet_def) | rule keepsI)+)

lemma quiet_copyuvm [keeps]: "keeps quiet (copyuvm d n)"
  by (unfold copyuvm_def copyuvm_body_def, (assumption | rule keeps | (rule qt.modify qt.result, simp add: quiet_def) | rule keepsI)+)

lemma quiet_uva2ka [keeps]: "keeps quiet (uva2ka null d a)"
  by (unfold uva2ka_def, (assumption | rule keeps | (rule qt.modify qt.result, simp add: quiet_def) | rule keepsI)+)

lemma quiet_copyout [keeps]: "keeps quiet (copyout null d va p n)"
  by (unfold copyout_def copyout_body_def, (assumption | rule keeps | (rule qt.modify qt.result, simp add: quiet_def) | rule keepsI)+)

text \<open>System call arguments and the parts of \<open>execve\<close> before the switch.\<close>

lemma quiet_uread [keeps]: "keeps quiet (uread va n)"
  by (unfold uread_def, (assumption | rule keeps | (rule qt.modify qt.result, simp add: quiet_def) | rule keepsI)+)

lemma quiet_uwrite [keeps]: "keeps quiet (uwrite va b n)"
  by (unfold uwrite_def, (assumption | rule keeps | (rule qt.modify qt.result, simp add: quiet_def) | rule keepsI)+)

lemma quiet_fetchint [keeps]: "keeps quiet (fetchint a)"
  by (unfold fetchint_def, (assumption | rule keeps | (rule qt.modify qt.result, simp add: quiet_def) | rule keepsI)+)

lemma quiet_fetchstr_scan [keeps]: "keeps quiet (fetchstr_scan a k)"
  by (induction a k rule: fetchstr_scan.induct) (simp_all only: fetchstr_scan.simps, (assumption | rule keeps)+)

lemma quiet_fetchstr [keeps]: "keeps quiet (fetchstr a)"
  by (unfold fetchstr_def, (assumption | rule keeps | (rule qt.modify qt.result, simp add: quiet_def) | rule keepsI)+)

lemma quiet_argint [keeps]: "keeps quiet (argint n)"
  by (unfold argint_def, (assumption | rule keeps | (rule qt.modify qt.result, simp add: quiet_def) | rule keepsI)+)

lemma quiet_argptr [keeps]: "keeps quiet (argptr n k)"
  by (unfold argptr_def, (assumption | rule keeps | (rule qt.modify qt.result, simp add: quiet_def) | rule keepsI)+)

lemma quiet_argstr [keeps]: "keeps quiet (argstr n)"
  by (unfold argstr_def, (assumption | rule keeps | (rule qt.modify qt.result, simp add: quiet_def) | rule keepsI)+)

lemma quiet_argfd [keeps]: "keeps quiet (argfd n)"
  by (unfold argfd_def, (assumption | rule keeps | (rule qt.modify qt.result, simp add: quiet_def) | rule keepsI)+)

lemma quiet_fetch_vector [keeps]: "keeps quiet (fetch_vector u i k)"
  by (induction u i k rule: fetch_vector.induct) (simp_all only: fetch_vector.simps, (assumption | rule keeps)+)

lemma quiet_exec_load [keeps]: "quiet_dev dv \<Longrightarrow> keeps quiet (exec_load dv d ip elf)"
  by (unfold exec_load_def exec_load_body_def, (assumption | rule keeps | (rule qt.modify qt.result, simp add: quiet_def) | rule keepsI)+)

lemma quiet_exec_bad [keeps]: "keeps quiet (exec_bad d ip)"
  by (unfold exec_bad_def, (assumption | rule keeps | (rule qt.modify qt.result, simp add: quiet_def) | rule keepsI)+)

lemma quiet_push_strings [keeps]: "keeps quiet (push_strings d full base xs c sp u)"
proof (induction xs arbitrary: c sp u)
  case Nil
  show ?case by (subst push_strings.simps) (rule keeps)
next
  case (Cons x xs)
  show ?case by (subst push_strings.simps) (rule keeps Cons)+
qed

lemma quiet_copyout_words [keeps]: "keeps quiet (copyout_words d sp u n)"
  by (unfold copyout_words_def, (assumption | rule keeps | (rule qt.modify qt.result, simp add: quiet_def) | rule keepsI)+)

lemma quiet_exec_stack [keeps]: "keeps quiet (exec_stack d i argv env u sp)"
  by (unfold exec_stack_def, (assumption | rule keeps | (rule qt.modify qt.result, simp add: quiet_def) | rule keepsI)+)

text \<open>A loop that returns keeps an invariant its body keeps.\<close>

lemma kfor_Ok:
  assumes "kfor [0..<n] f s = Ok x t" and "P 0 s"
    and "\<And>i u y v. i < n \<Longrightarrow> P i u \<Longrightarrow> f i u = Ok y v \<Longrightarrow> P (Suc i) v"
  shows "P n t"
  using assms
proof (induction n arbitrary: x t)
  case (Suc n)
  have "kfor ([0..<n] @ [n]) f s = Ok x t" using Suc.prems(1) by simp
  then obtain y u where u: "kfor [0..<n] f s = Ok y u" "f n u = Ok () t"
    by (auto simp: kfor_append kbind_Ok_iff kreturn_def)
  have "P n u" using Suc.IH [OF u(1) Suc.prems(2)] Suc.prems(3) by (meson less_Suc_eq)
  then show ?case using Suc.prems(3) u(2) by blast
qed (simp add: kreturn_def)

end
