(* ===== verification/Console.thy ===== *)
theory Console
  imports Syscall
begin

text \<open>
  The console (\<open>kernel/console.c\<close>) with the keyboard (\<open>kernel/kbd.c\<close>) and the serial port (\<open>kernel/uart.c\<close>).
  The devices are part of the state: the cells and the cursor of the screen, the bytes sent to the
  serial port, and the bytes that wait in the keyboard controller and the serial port.
\<close>

section \<open>State\<close>

abbreviation INPUT_BUF :: nat where "INPUT_BUF \<equiv> 128"
abbreviation BACKSPACE :: nat where "BACKSPACE \<equiv> 0x100"

record cons_st = proc_st +
  cons_locking :: bool
  panicked :: bool
  crt :: "nat \<Rightarrow> u16"          \<comment> \<open>the cells of the screen memory\<close>
  crt_cursor :: u16            \<comment> \<open>the cursor registers 14 and 15\<close>
  uart_on :: bool
  uart_out :: "u8 list"
  uart_in :: "u8 list"
  kbd_in :: "u8 list"
  kbd_shift :: u32
  input_buf :: bytes
  input_r :: u32
  input_w :: u32
  input_e :: u32

section \<open>Output\<close>

text \<open>Waiting for the transmitter has no effect but time.\<close>

definition uartputc :: "u8 \<Rightarrow> ('a cons_st_scheme, chan, unit) km" where
  "uartputc c = kmod (\<lambda>s. if uart_on s then s\<lparr>uart_out := uart_out s @ [c]\<rparr> else s)"

text \<open>The position after a character, and the screen with the character put.\<close>

definition cga_advance :: "nat \<Rightarrow> int \<Rightarrow> int" where
  "cga_advance c pos =
     (if c = 10 then pos + (80 - pos mod 80)
      else if c = BACKSPACE then (if 0 < pos then pos - 1 else pos)
      else pos + 1)"

definition cga_scroll :: "(nat \<Rightarrow> u16) \<times> int \<Rightarrow> (nat \<Rightarrow> u16) \<times> int" where
  "cga_scroll = (\<lambda>(m, pos).
     if 24 \<le> pos div 80 then
       let m = (\<lambda>i. if i < 23 * 80 then m (i + 80) else m i);
           pos = pos - 80;
           n = unat (of_int (2 * (24 * 80 - pos)) :: u32) div 2 in
       (\<lambda>i. if nat pos \<le> i \<and> i < nat pos + n then 0 else m i, pos)
     else (m, pos))"

definition cgaputc :: "nat \<Rightarrow> ('a cons_st_scheme, chan, unit) km" where
  "cgaputc c = kmod (\<lambda>s.
     let pos = int (unat (crt_cursor s));
         m = (if c = 10 \<or> c = BACKSPACE then crt s else (crt s)(nat pos := (of_nat c AND 0xFF) OR 0x0700));
         (m, pos) = cga_scroll (m, cga_advance c pos) in
     s\<lparr>crt := m(nat pos := 0x0720), crt_cursor := of_int pos\<rparr>)"

definition consputc :: "nat \<Rightarrow> ('a cons_st_scheme, chan, unit) km" where
  "consputc c =
     kbind (kget panicked) (\<lambda>p.
     if p then kdiverge
     else
       kseq (if c = BACKSPACE then kseq (uartputc 8) (kseq (uartputc 32) (uartputc 8)) else uartputc (of_nat c))
       (cgaputc c))"

definition consputs :: "u8 list \<Rightarrow> ('a cons_st_scheme, chan, unit) km" where
  "consputs cs = kfor cs (\<lambda>c. consputc (unat c))"

text \<open>The digits of \<open>printint\<close>, the last one first; it is called with the bases 10 and 16.\<close>

function print_digits :: "nat \<Rightarrow> nat \<Rightarrow> u8 list" where
  "print_digits base x =
     (let d = x mod base; c = (if d < 10 then 48 + of_nat d else 87 + of_nat d) in
      if x div base = 0 \<or> base < 2 then [c] else c # print_digits base (x div base))"
  by pat_completeness auto
termination
  by (relation "measure snd") (auto simp: div_greater_zero_iff)

declare print_digits.simps [simp del]

definition printint :: "u32 \<Rightarrow> nat \<Rightarrow> bool \<Rightarrow> u8 list" where
  "printint xx base sign =
     (let sign = (sign \<and> xx <s 0);
          x = (if sign then - xx else xx) in
      rev (print_digits base (unat x) @ (if sign then [45] else [])))"

text \<open>
  The text \<open>cprintf\<close> prints.  An argument is a word with the string it points to when it is used as a pointer.
  An argument that is missing reads as 0.
\<close>

definition next_arg :: "(u32 \<times> u8 list) list \<Rightarrow> u32 \<times> u8 list" where
  "next_arg args = (case args of [] \<Rightarrow> (0, []) | a # _ \<Rightarrow> a)"

fun cprintf_text :: "u8 list \<Rightarrow> (u32 \<times> u8 list) list \<Rightarrow> u8 list" where
  "cprintf_text [] args = []"
| "cprintf_text [c] args = (if c \<noteq> 37 then [c] else [])"
| "cprintf_text (c # d # fmt) args =
     (if c \<noteq> 37 then c # cprintf_text (d # fmt) args
      else if d = 100 then printint (fst (next_arg args)) 10 True @ cprintf_text fmt (tl args)
      else if d = 120 \<or> d = 112 then printint (fst (next_arg args)) 16 False @ cprintf_text fmt (tl args)
      else if d = 115 then
        (if fst (next_arg args) = 0 then [40, 110, 117, 108, 108, 41] else snd (next_arg args)) @ cprintf_text fmt (tl args)
      else if d = 37 then 37 # cprintf_text fmt args
      else 37 # d # cprintf_text fmt args)"

definition cprintf :: "u8 list \<Rightarrow> (u32 \<times> u8 list) list \<Rightarrow> ('a cons_st_scheme, chan, unit) km" where
  "cprintf fmt args =
     kbind (kget cons_locking) (\<lambda>locking.
     kseq (kwhen locking (acquire LCons))
     (kseq (consputs (cprintf_text fmt args))
     (kwhen locking (release LCons))))"

section \<open>Process listing\<close>

text \<open>The return addresses on a kernel stack, from the frame pointer \<open>ebp\<close> on, \<open>n\<close> at most.\<close>

fun callerpcs :: "bytes \<Rightarrow> u32 \<Rightarrow> nat \<Rightarrow> u32 list" where
  "callerpcs m ebp 0 = []"
| "callerpcs m ebp (Suc n) =
     (if ebp = 0 \<or> ebp < KERNBASE \<or> ebp = 0xFFFFFFFF then []
      else ld32 m (at (ebp + 4)) # callerpcs m (ld32 m (at ebp)) n)"

definition getcallerpcs :: "bytes \<Rightarrow> u32 \<Rightarrow> u32 list" where
  "getcallerpcs m v = (let pcs = callerpcs m (v - 8) 10 in pcs @ replicate (10 - length pcs) 0)"

definition str :: "string \<Rightarrow> u8 list" where
  "str cs = map (\<lambda>c. of_nat (of_char c)) cs"

definition state_name :: "procstate \<Rightarrow> u8 list" where
  "state_name st = (case st of
     UNUSED \<Rightarrow> str ''unused'' | EMBRYO \<Rightarrow> str ''embryo'' | SLEEPING \<Rightarrow> str ''sleep ''
   | RUNNABLE \<Rightarrow> str ''runble'' | RUNNING \<Rightarrow> str ''run   '' | ZOMBIE \<Rightarrow> str ''zombie'')"

text \<open>The name of a process, which is an array of 16 bytes with a null byte.\<close>

definition name_str :: "bytes \<Rightarrow> u8 list" where
  "name_str b = takeWhile (\<lambda>c. c \<noteq> 0) (map b [0..<16])"

definition dump_proc :: "proc \<Rightarrow> ('a cons_st_scheme, chan, unit) km" where
  "dump_proc p =
     kwhen (p_state p \<noteq> UNUSED)
       (kseq (cprintf (str ''%d %s %s'') [(of_int (p_pid p), []), (1, state_name (p_state p)), (1, name_str (p_name p))])
       (kseq (kwhen (p_state p = SLEEPING)
         (kbind (kget pmem) (\<lambda>m.
          kfor (takeWhile (\<lambda>pc. pc \<noteq> 0) (getcallerpcs m (cx_ebp (p_context p) + 8)))
            (\<lambda>pc. cprintf (str '' %p'') [(pc, [])]))))
       (cprintf [10] [])))"

definition procdump :: "('a cons_st_scheme, chan, unit) km" where
  "procdump = kbind (kget ptable) (\<lambda>ps. kfor ps dump_proc)"

section \<open>Input\<close>

text \<open>Both ways to get a character; -1 says that there is none.\<close>

definition uartgetc :: "('a cons_st_scheme, chan, int) km" where
  "uartgetc = (\<lambda>s.
     if \<not> uart_on s then Ok (-1) s
     else case uart_in s of
       [] \<Rightarrow> Ok (-1) s
     | c # cs \<Rightarrow> Ok (int (unat c)) (s\<lparr>uart_in := cs\<rparr>))"

text \<open>The loop of \<open>consoleintr\<close> that kills a line; it removes at most all characters of the buffer.\<close>

fun kill_line :: "nat \<Rightarrow> ('a cons_st_scheme, chan, unit) km" where
  "kill_line 0 = kreturn ()"
| "kill_line (Suc k) = (\<lambda>s.
     if input_e s \<noteq> input_w s \<and> input_buf s (unat (input_e s - 1) mod INPUT_BUF) \<noteq> 10 then
       kseq (kmod (\<lambda>s. s\<lparr>input_e := input_e s - 1\<rparr>))
       (kseq (consputc BACKSPACE)
       (kill_line k)) s
     else Ok () s)"

definition console_char :: "nat \<Rightarrow> ('a cons_st_scheme, chan, unit) km" where
  "console_char c = (\<lambda>s.
     if c = 16 then procdump s
     else if c = 21 then kill_line (unat (input_e s - input_w s)) s
     else if c = 8 \<or> c = 127 then
       (if input_e s \<noteq> input_w s then
          kseq (kmod (\<lambda>s. s\<lparr>input_e := input_e s - 1\<rparr>))
          (consputc BACKSPACE) s
        else Ok () s)
     else if c \<noteq> 0 \<and> input_e s - input_r s < of_nat INPUT_BUF then
       let c = (if c = 13 then 10 else c) in
       kseq (kmod (\<lambda>s. s\<lparr>input_buf := (input_buf s)(unat (input_e s) mod INPUT_BUF := of_nat c), input_e := input_e s + 1\<rparr>))
       (kseq (consputc c)
       (kbind (kget (\<lambda>s. input_e s = input_r s + of_nat INPUT_BUF)) (\<lambda>full.
       kwhen (c = 10 \<or> c = 4 \<or> full)
         (kseq (kmod (\<lambda>s. s\<lparr>input_w := input_e s\<rparr>))
         (wakeup ChInput))))) s
     else Ok () s)"

definition consoleintr_body :: "('a cons_st_scheme, chan, int) km \<Rightarrow> unit \<Rightarrow> ('a cons_st_scheme, chan, unit + unit) km" where
  "consoleintr_body getc = (\<lambda>_.
     kbind getc (\<lambda>c.
     if 0 \<le> c then kseq (console_char (nat c)) (kreturn (Inl ())) else kreturn (Inr ())))"

text \<open>Every round takes a character that waits; \<open>n\<close> of them wait.\<close>

definition consoleintr :: "('a cons_st_scheme, chan, int) km \<Rightarrow> nat \<Rightarrow> ('a cons_st_scheme, chan, unit) km" where
  "consoleintr getc n =
     kseq (acquire LInput)
     (kseq (kloop (n + 1) (consoleintr_body getc) ())
     (release LInput))"

definition uartintr :: "('a cons_st_scheme, chan, unit) km" where
  "uartintr = kbind (kget (\<lambda>s. length (uart_in s))) (consoleintr uartgetc)"

section \<open>The console as a device\<close>

text \<open>
  The loop of \<open>consoleread\<close>, the lock held, with \<open>n\<close> bytes left to \<open>dst\<close> from index \<open>i\<close> on: \<open>Inl\<close> says that
  the process sleeps, \<open>Inr (Some n)\<close> that the loop is left with \<open>n\<close> bytes to go, \<open>Inr None\<close> that the
  process has been killed.
\<close>

fun consoleread_from :: "nat \<Rightarrow> bytes \<Rightarrow> nat \<Rightarrow> nat \<Rightarrow> ('a cons_st_scheme, chan, (bytes \<times> nat \<times> nat) + (nat option \<times> bytes)) km" where
  "consoleread_from target dst i 0 = kreturn (Inr (Some 0, dst))"
| "consoleread_from target dst i (Suc n) = (\<lambda>s.
     if input_r s = input_w s then
       if p_killed (this_proc s) then Ok (Inr (None, dst)) s
       else kseq (sleep_enter ChInput LInput) (kreturn (Inl (dst, i, Suc n))) s
     else
       let c = input_buf s (unat (input_r s) mod INPUT_BUF); s = s\<lparr>input_r := input_r s + 1\<rparr> in
       if c = 4 then Ok (Inr (Some (Suc n), dst)) (if Suc n < target then s\<lparr>input_r := input_r s - 1\<rparr> else s)
       else if c = 10 then Ok (Inr (Some n, dst(i := c))) s
       else consoleread_from target (dst(i := c)) (i + 1) n s)"

definition consoleread_end :: "nat \<Rightarrow> nat \<Rightarrow> (bytes \<times> nat \<times> nat) + (nat option \<times> bytes) \<Rightarrow>
    ('a cons_st_scheme, chan, (bytes \<times> nat \<times> nat) + (int \<times> bytes)) km" where
  "consoleread_end ip target r = (case r of
     Inl w \<Rightarrow> kreturn (Inl w)
   | Inr (n, dst) \<Rightarrow>
       kseq (release LInput)
       (kseq (ilock ip)
       (kreturn (Inr (case n of None \<Rightarrow> (-1, dst) | Some n \<Rightarrow> (int target - int n, dst))))))"

definition consoleread_start :: "nat \<Rightarrow> bytes \<Rightarrow> int \<Rightarrow> ('a cons_st_scheme, chan, (bytes \<times> nat \<times> nat) + (int \<times> bytes)) km" where
  "consoleread_start ip dst n =
     kseq (iunlock ip)
     (kseq (acquire LInput)
     (kbind (consoleread_from (nat n) dst 0 (nat n)) (consoleread_end ip (nat n))))"

definition consoleread_resume :: "nat \<Rightarrow> int \<Rightarrow> bytes \<times> nat \<times> nat \<Rightarrow>
    ('a cons_st_scheme, chan, (bytes \<times> nat \<times> nat) + (int \<times> bytes)) km" where
  "consoleread_resume ip n = (\<lambda>(dst, i, k).
     kseq (sleep_leave LInput)
     (kbind (consoleread_from (nat n) dst i k) (consoleread_end ip (nat n))))"

definition consoleread :: "nat \<Rightarrow> bytes \<Rightarrow> u32 \<Rightarrow> ('a cons_st_scheme, chan, int \<times> bytes) km" where
  "consoleread ip dst n = kbind (consoleread_start ip dst (sint n)) (\<lambda>r.
     case r of Inl _ \<Rightarrow> ksleep ChInput | Inr r \<Rightarrow> kreturn r)"

definition consolewrite :: "nat \<Rightarrow> bytes \<Rightarrow> u32 \<Rightarrow> ('a cons_st_scheme, chan, int) km" where
  "consolewrite ip buf n =
     kseq (iunlock ip)
     (kseq (acquire LCons)
     (kseq (consputs (map buf [0..<nat (sint n)]))
     (kseq (release LCons)
     (kseq (ilock ip)
     (kreturn (sint n))))))"

text \<open>\<open>consoleinit\<close> puts the console into the table of devices.\<close>

definition console_devsw :: "'a cons_st_scheme devsw" where
  "console_devsw = \<lparr>dev_read = (\<lambda>m. if m = 1 then Some consoleread else None),
     dev_write = (\<lambda>m. if m = 1 then Some consolewrite else None)\<rparr>"

section \<open>The zeroed kernel\<close>

text \<open>The kernel's data before anything is set up, with an empty disk and an empty process table.\<close>

definition zero_file :: kfile where
  "zero_file = \<lparr>f_type = FD_NONE, f_ref = 0, f_readable = False, f_writable = False, f_pipe = 0, f_ip = 0, f_off = 0\<rparr>"

definition zero_pipe :: pipe where
  "zero_pipe = \<lparr>pi_data = \<lambda>_. 0, pi_nread = 0, pi_nwrite = 0, pi_readopen = False, pi_writeopen = False\<rparr>"

definition zero_kernel :: cons_st where
  "zero_kernel = (boot_with \<lparr>icache = \<lambda>_. no_inode, pmem = \<lambda>_. 0, kmem_use_lock = False, kmem_freelist = 0,
     k_end = 0x80110000, k_data = 0x80108000, ftable = \<lambda>_. zero_file, pipes = \<lambda>_. zero_pipe,
     kpgdir = 0, cpu_gdt = \<lambda>_. SEG 0 0 0 0, cpu_gs = 0, cpu_ts_ss0 = 0, cpu_ts_esp0 = 0, cpu_tr = 0, cpu_cr3 = 0,
     initproc = None, nextpid = 1, forkret_first = True, ticks = 0, k_cpu = 0x80108100, k_ts = 0x80108200,
     k_forkret = 0x80104000, k_trapret = 0x80105000,
     cons_locking = False, panicked = False, crt = \<lambda>_. 0, crt_cursor = 0, uart_on = False, uart_out = [], uart_in = [],
     kbd_in = [], kbd_shift = 0, input_buf = \<lambda>_. 0, input_r = 0, input_w = 0, input_e = 0\<rparr> 0 (\<lambda>_ _. 0))
     \<lparr>ptable := replicate NPROC no_proc\<rparr>"

lemma zero_kernel_simps [simp]:
  "ptable zero_kernel = replicate NPROC no_proc" "curproc zero_kernel = 0" "held zero_kernel = {}"
  "ftable zero_kernel = (\<lambda>_. zero_file)" "ticks zero_kernel = 0" "pmem zero_kernel = (\<lambda>_. 0)"
  "crt zero_kernel = (\<lambda>_. 0)" "crt_cursor zero_kernel = 0" "input_r zero_kernel = 0" "input_w zero_kernel = 0"
  "input_e zero_kernel = 0" "input_buf zero_kernel = (\<lambda>_. 0)" "panicked zero_kernel = False" "initproc zero_kernel = None"
  "nextpid zero_kernel = 1" "cpu_cr3 zero_kernel = 0" "uart_on zero_kernel = False" "pipes zero_kernel = (\<lambda>_. zero_pipe)"
  by (simp_all add: zero_kernel_def boot_with_def)

end
