(* ===== verification/Kbd.thy ===== *)
theory Kbd
  imports Console
begin

text \<open>
  The keyboard driver (\<open>kernel/kbd.c\<close>) with the tables of \<open>include/sys/kbd.h\<close>.  A table is given by its first
  entries and the entries at later places; all others are 0.
\<close>

section \<open>Tables\<close>

definition keymap :: "u8 list \<Rightarrow> (nat \<times> u8) list \<Rightarrow> nat \<Rightarrow> u8" where
  "keymap xs es i = (if i < length xs then xs ! i else case map_of es i of None \<Rightarrow> 0 | Some c \<Rightarrow> c)"

abbreviation SHIFT :: u32 where "SHIFT \<equiv> 1"
abbreviation CTL :: u32 where "CTL \<equiv> 2"
abbreviation ALT :: u32 where "ALT \<equiv> 4"
abbreviation CAPSLOCK :: u32 where "CAPSLOCK \<equiv> 8"
abbreviation NUMLOCK :: u32 where "NUMLOCK \<equiv> 16"
abbreviation SCROLLLOCK :: u32 where "SCROLLLOCK \<equiv> 32"
abbreviation E0ESC :: u32 where "E0ESC \<equiv> 64"

definition shiftcode :: "nat \<Rightarrow> u32" where
  "shiftcode i =
     (if i = 0x1D \<or> i = 0x9D then CTL else if i = 0x2A \<or> i = 0x36 then SHIFT
      else if i = 0x38 \<or> i = 0xB8 then ALT else 0)"

definition togglecode :: "nat \<Rightarrow> u32" where
  "togglecode i = (if i = 0x3A then CAPSLOCK else if i = 0x45 then NUMLOCK else if i = 0x46 then SCROLLLOCK else 0)"

definition normalmap :: "nat \<Rightarrow> u8" where
  "normalmap = keymap
     [
      0, 27, 49, 50, 51, 52, 53, 54, 55, 56, 57, 48, 45, 61, 8, 9,
      113, 119, 101, 114, 116, 121, 117, 105, 111, 112, 91, 93, 10, 0, 97, 115,
      100, 102, 103, 104, 106, 107, 108, 59, 39, 96, 0, 92, 122, 120, 99, 118,
      98, 110, 109, 44, 46, 47, 0, 42, 0, 32, 0, 0, 0, 0, 0, 0,
      0, 0, 0, 0, 0, 0, 0, 55, 56, 57, 45, 52, 53, 54, 43, 49,
      50, 51, 48, 46, 0, 0, 0, 0]
     [(156, 10), (181, 47), (200, 226), (208, 227), (201, 230), (209, 231), (203, 228), (205, 229), (151, 224), (207, 225), (210, 232), (211, 233)]"

definition shiftmap :: "nat \<Rightarrow> u8" where
  "shiftmap = keymap
     [
      0, 27, 33, 64, 35, 36, 37, 94, 38, 42, 40, 41, 95, 43, 8, 9,
      81, 87, 69, 82, 84, 89, 85, 73, 79, 80, 123, 125, 10, 0, 65, 83,
      68, 70, 71, 72, 74, 75, 76, 58, 34, 126, 0, 124, 90, 88, 67, 86,
      66, 78, 77, 60, 62, 63, 0, 42, 0, 32, 0, 0, 0, 0, 0, 0,
      0, 0, 0, 0, 0, 0, 0, 55, 56, 57, 45, 52, 53, 54, 43, 49,
      50, 51, 48, 46, 0, 0, 0, 0]
     [(156, 10), (181, 47), (200, 226), (208, 227), (201, 230), (209, 231), (203, 228), (205, 229), (151, 224), (207, 225), (210, 232), (211, 233)]"

definition ctlmap :: "nat \<Rightarrow> u8" where
  "ctlmap = keymap
     [
      0, 0, 0, 0, 0, 0, 0, 0, 0, 0, 0, 0, 0, 0, 0, 0,
      17, 23, 5, 18, 20, 25, 21, 9, 15, 16, 0, 0, 13, 0, 1, 19,
      4, 6, 7, 8, 10, 11, 12, 0, 0, 0, 0, 28, 26, 24, 3, 22,
      2, 14, 13, 0, 0, 239, 0, 0]
     [(156, 13), (181, 239), (200, 226), (208, 227), (201, 230), (209, 231), (203, 228), (205, 229), (151, 224), (207, 225), (210, 232), (211, 233)]"

section \<open>Reading a key\<close>

definition charcode :: "u32 \<Rightarrow> nat \<Rightarrow> u8" where
  "charcode k = (if k = 0 then normalmap else if k = 1 then shiftmap else ctlmap)"

text \<open>The effect of a byte of the keyboard on the state of the shift keys, and the character it gives.\<close>

definition kbd_byte :: "u32 \<Rightarrow> u32 \<Rightarrow> u32 \<times> int" where
  "kbd_byte shift data =
     (if data = 0xE0 then (shift OR E0ESC, 0)
      else if data AND 0x80 \<noteq> 0 then
        let data = (if shift AND E0ESC \<noteq> 0 then data else data AND 0x7F) in
        (shift AND NOT (shiftcode (unat data) OR E0ESC), 0)
      else
        let (data, shift) = (if shift AND E0ESC \<noteq> 0 then (data OR 0x80, shift AND NOT E0ESC) else (data, shift));
            shift = (shift OR shiftcode (unat data)) XOR togglecode (unat data);
            c = int (unat (charcode (shift AND (CTL OR SHIFT)) (unat data))) in
        (shift,
         if shift AND CAPSLOCK \<noteq> 0 then
           if 97 \<le> c \<and> c \<le> 122 then c - 32 else if 65 \<le> c \<and> c \<le> 90 then c + 32 else c
         else c))"

definition kbdgetc :: "('a cons_st_scheme, chan, int) km" where
  "kbdgetc = (\<lambda>s. case kbd_in s of
     [] \<Rightarrow> Ok (-1) s
   | data # ds \<Rightarrow>
       let (shift, c) = kbd_byte (kbd_shift s) (ucast data) in
       Ok c (s\<lparr>kbd_in := ds, kbd_shift := shift\<rparr>))"

definition kbdintr :: "('a cons_st_scheme, chan, unit) km" where
  "kbdintr = kbind (kget (\<lambda>s. length (kbd_in s))) (consoleintr kbdgetc)"

end
