(* ===== verification/Trap.thy ===== *)
theory Trap
  imports Sysfile Kbd
begin

text \<open>
  Traps (\<open>kernel/trap.c\<close>) and the dispatch of system calls (\<open>kernel/syscall.c\<close>): the interrupt descriptor table, the
  handler for system calls, device interrupts and faults, with the exit of killed processes and the
  yield on a clock tick.
\<close>

section \<open>Gates\<close>

record gatedesc =
  gd_off_15_0 :: "16 word"
  gd_cs :: "16 word"
  gd_args :: "5 word"
  gd_rsv1 :: "3 word"
  gd_type :: "4 word"
  gd_s :: "1 word"
  gd_dpl :: "2 word"
  gd_p :: "1 word"
  gd_off_31_16 :: "16 word"

definition SETGATE :: "bool \<Rightarrow> nat \<Rightarrow> u32 \<Rightarrow> nat \<Rightarrow> gatedesc" where
  "SETGATE istrap sel off d =
     \<lparr>gd_off_15_0 = ucast off, gd_cs = of_nat sel, gd_args = 0, gd_rsv1 = 0, gd_type = (if istrap then 0xF else 0xE),
      gd_s = 0, gd_dpl = of_nat d, gd_p = 1, gd_off_31_16 = ucast (drop_bit 16 off)\<rparr>"

abbreviation T_SYSCALL :: nat where "T_SYSCALL \<equiv> 64"
abbreviation T_IRQ0 :: nat where "T_IRQ0 \<equiv> 32"
abbreviation IRQ_TIMER :: nat where "IRQ_TIMER \<equiv> 0"
abbreviation IRQ_KBD :: nat where "IRQ_KBD \<equiv> 1"
abbreviation IRQ_COM1 :: nat where "IRQ_COM1 \<equiv> 4"
abbreviation IRQ_IDE :: nat where "IRQ_IDE \<equiv> 14"
abbreviation IRQ_SPURIOUS :: nat where "IRQ_SPURIOUS \<equiv> 31"

text \<open>The table \<open>tvinit\<close> sets up from the addresses of the entry points.\<close>

definition tvinit :: "(nat \<Rightarrow> u32) \<Rightarrow> nat \<Rightarrow> gatedesc" where
  "tvinit vectors = (\<lambda>i. SETGATE False (SEG_KCODE * 8) (vectors i) 0)
     (T_SYSCALL := SETGATE True (SEG_KCODE * 8) (vectors T_SYSCALL) DPL_USER)"

section \<open>System calls\<close>

text \<open>\<open>None\<close> says that the call does not return: the process has exited.\<close>

definition returns :: "('s, 'c, int) km \<Rightarrow> ('s, 'c, int option) km" where
  "returns m = kbind m (\<lambda>r. kreturn (Some r))"

definition syscalls :: "bytes \<Rightarrow> (nat \<Rightarrow> u32) \<Rightarrow> nat \<Rightarrow> ('a cons_st_scheme, chan, int option) km option" where
  "syscalls elf0 ustack0 num = (let dv = console_devsw in
     if num = 1 then Some (returns sys_fork)
     else if num = 2 then Some (kseq sys_exit (kreturn None))
     else if num = 3 then Some (returns sys_wait)
     else if num = 4 then Some (returns sys_pipe)
     else if num = 5 then Some (returns (sys_read dv))
     else if num = 6 then Some (returns sys_kill)
     else if num = 7 then Some (returns (sys_execve dv elf0 ustack0))
     else if num = 8 then Some (returns sys_fstat)
     else if num = 9 then Some (returns (sys_chdir dv))
     else if num = 10 then Some (returns sys_dup)
     else if num = 11 then Some (returns sys_getpid)
     else if num = 12 then Some (returns sys_sbrk)
     else if num = 13 then Some (returns sys_sleep)
     else if num = 14 then Some (returns sys_uptime)
     else if num = 15 then Some (returns (sys_open dv))
     else if num = 16 then Some (returns (sys_write dv))
     else if num = 17 then Some (returns (sys_mknod dv))
     else if num = 18 then Some (returns (sys_unlink dv))
     else if num = 19 then Some (returns (sys_link dv))
     else if num = 20 then Some (returns (sys_mkdir dv))
     else if num = 21 then Some (returns sys_close)
     else None)"

definition set_eax :: "int \<Rightarrow> ('a cons_st_scheme, chan, unit) km" where
  "set_eax r = kbind (kget curproc) (\<lambda>cur. upd_proc cur (\<lambda>p. p\<lparr>p_tf := (p_tf p)\<lparr>tf_eax := of_int r\<rparr>\<rparr>))"

text \<open>The result says whether the process still runs.\<close>

definition syscall :: "bytes \<Rightarrow> (nat \<Rightarrow> u32) \<Rightarrow> ('a cons_st_scheme, chan, bool) km" where
  "syscall elf0 ustack0 =
     kbind (kget this_proc) (\<lambda>p.
     let num = sint (tf_eax (p_tf p)) in
     case (if 0 < num \<and> num < 22 then syscalls elf0 ustack0 (nat num) else None) of
       Some f \<Rightarrow>
         kbind f (\<lambda>r.
         case r of
           None \<Rightarrow> kreturn False
         | Some r \<Rightarrow> kseq (set_eax r) (kreturn True))
     | None \<Rightarrow>
         kseq (cprintf (str ''%d %s: unknown sys call %d'' @ [10])
           [(of_int (p_pid p), []), (1, name_str (p_name p)), (of_int num, [])])
         (kseq (set_eax (-1))
         (kreturn True)))"

section \<open>The handler\<close>

text \<open>
  How a call of \<open>trap\<close> ends: it returns, the process has exited, or it has yielded and \<open>trap_resume\<close> runs
  when it is scheduled again.
\<close>

datatype trap_end = Return | Exited | Yielded

definition killed :: "'a cons_st_scheme \<Rightarrow> bool" where
  "killed s \<longleftrightarrow> p_killed (this_proc s)"

definition user_mode :: "trapframe \<Rightarrow> bool" where
  "user_mode tf \<longleftrightarrow> tf_cs tf AND 3 = of_nat DPL_USER"

definition trap_syscall :: "bytes \<Rightarrow> (nat \<Rightarrow> u32) \<Rightarrow> trapframe \<Rightarrow> ('a cons_st_scheme, chan, trap_end) km" where
  "trap_syscall elf0 ustack0 tf =
     kbind (kget killed) (\<lambda>k.
     if k then kseq exit (kreturn Exited)
     else
       kbind (kget curproc) (\<lambda>cur.
       kseq (upd_proc cur (\<lambda>p. p\<lparr>p_tf := tf\<rparr>))
       (kbind (syscall elf0 ustack0) (\<lambda>running.
       if \<not> running then kreturn Exited
       else
         kbind (kget killed) (\<lambda>k.
         if k then kseq exit (kreturn Exited) else kreturn Return)))))"

text \<open>
  The interrupt proper.  \<open>cpuid\<close> is the processor, \<open>cr2\<close> the register with the faulting address; acknowledging the
  interrupt at the local APIC has no effect in the model, and the disk interrupt is empty in \<open>memide.c\<close>.
\<close>

definition trap_interrupt :: "nat \<Rightarrow> u32 \<Rightarrow> trapframe \<Rightarrow> ('a cons_st_scheme, chan, unit) km" where
  "trap_interrupt cpuid cr2 tf =
     (let n = unat (tf_trapno tf) in
      if n = T_IRQ0 + IRQ_TIMER then
        kwhen (cpuid = 0)
          (kseq (acquire LTicks)
          (kseq (kmod (\<lambda>s. s\<lparr>ticks := ticks s + 1\<rparr>))
          (kseq (wakeup ChTicks)
          (release LTicks))))
      else if n = T_IRQ0 + IRQ_IDE then kreturn ()
      else if n = T_IRQ0 + IRQ_IDE + 1 then kreturn ()
      else if n = T_IRQ0 + IRQ_KBD then kbdintr
      else if n = T_IRQ0 + IRQ_COM1 then uartintr
      else if n = T_IRQ0 + 7 \<or> n = T_IRQ0 + IRQ_SPURIOUS then
        cprintf (str ''cpu%d: spurious interrupt at %x:%x'' @ [10])
          [(of_nat cpuid, []), (ucast (tf_cs tf), []), (tf_eip tf, [])]
      else
        kbind (kget no_curproc) (\<lambda>none.
        if none \<or> tf_cs tf AND 3 = 0 then
          kseq (cprintf (str ''unexpected trap %d from cpu %d eip %x (cr2=0x%x)'' @ [10])
            [(tf_trapno tf, []), (of_nat cpuid, []), (tf_eip tf, []), (cr2, [])])
          (kpanic ''trap'')
        else
          kbind (kget this_proc) (\<lambda>p.
          kseq (cprintf (str ''pid %d %s: trap %d err %d on cpu %d eip 0x%x addr 0x%x--kill proc'' @ [10])
            [(of_int (p_pid p), []), (1, name_str (p_name p)), (tf_trapno tf, []), (tf_err tf, []),
             (of_nat cpuid, []), (tf_eip tf, []), (cr2, [])])
          (kbind (kget curproc) (\<lambda>cur. upd_proc cur (\<lambda>p. p\<lparr>p_killed := True\<rparr>))))))"

text \<open>After the yield, or without it.\<close>

definition trap_tail :: "trapframe \<Rightarrow> ('a cons_st_scheme, chan, trap_end) km" where
  "trap_tail tf = (\<lambda>s.
     if \<not> no_curproc s \<and> killed s \<and> user_mode tf then kseq exit (kreturn Exited) s else Ok Return s)"

definition trap_resume :: "trapframe \<Rightarrow> ('a cons_st_scheme, chan, trap_end) km" where
  "trap_resume tf = kseq yield_leave (trap_tail tf)"

definition trap :: "bytes \<Rightarrow> (nat \<Rightarrow> u32) \<Rightarrow> nat \<Rightarrow> u32 \<Rightarrow> trapframe \<Rightarrow> ('a cons_st_scheme, chan, trap_end) km" where
  "trap elf0 ustack0 cpuid cr2 tf =
     (if unat (tf_trapno tf) = T_SYSCALL then trap_syscall elf0 ustack0 tf
      else
        kseq (trap_interrupt cpuid cr2 tf) (\<lambda>s.
        if \<not> no_curproc s \<and> killed s \<and> user_mode tf then kseq exit (kreturn Exited) s
        else if \<not> no_curproc s \<and> p_state (this_proc s) = RUNNING \<and> unat (tf_trapno tf) = T_IRQ0 + IRQ_TIMER then
          kseq yield_enter (kreturn Yielded) s
        else trap_tail tf s))"

end
