(* ===== verification/Fd_Refs.thy ===== *)
theory Fd_Refs
  imports Frame Trap
begin

text \<open>
  Reference counts of open files across all system calls.  The descriptors of all processes and the reference
  counts of the file table are projected out of the state; most operations keep this projection, and
  the few that change it do so in step, so that every count is the number of descriptors.
\<close>

section \<open>The projection\<close>

definition active :: "proc \<Rightarrow> bool" where
  "active p \<longleftrightarrow> p_state p \<noteq> UNUSED \<and> p_state p \<noteq> ZOMBIE"

type_synonym fd_table = "(nat option list \<times> bool) list"

definition fd_tab :: "'a proc_st_scheme \<Rightarrow> fd_table" where
  "fd_tab s = map (\<lambda>p. (p_ofile p, active p)) (ptable s)"

definition refs :: "'a proc_st_scheme \<Rightarrow> nat \<Rightarrow> int" where
  "refs s = (\<lambda>f. f_ref (ftable s f))"

definition same_fds :: "'a proc_st_scheme \<Rightarrow> 'a proc_st_scheme \<Rightarrow> bool" where
  "same_fds s t \<longleftrightarrow> fd_tab t = fd_tab s \<and> refs t = refs s \<and> curproc t = curproc s"

interpretation sf: preorder_relation same_fds
  by unfold_locales (auto simp: same_fds_def)

declare sf.composed [keeps]

lemma keeps_mono: "keeps R m \<Longrightarrow> (\<And>s t. R s t \<Longrightarrow> Q s t) \<Longrightarrow> keeps Q m"
  by (auto simp: keeps_def ends_def)

lemma quiet_same_fds: "quiet s t \<Longrightarrow> same_fds s t"
proof -
  assume q: "quiet s t"
  then have "woken (ptable s) (ptable t)" by (simp add: quiet_def)
  then have "fd_tab t = fd_tab s"
    using woken_length [of "ptable s" "ptable t"] woken_nth [of "ptable s" "ptable t"]
    by (auto simp: fd_tab_def active_def list_eq_iff_nth_eq) fastforce+
  then show ?thesis using q by (auto simp: same_fds_def refs_def quiet_def)
qed

lemma same_quiet: "keeps quiet m \<Longrightarrow> keeps same_fds m"
  by (erule keeps_mono) (rule quiet_same_fds)

lemma fd_tab_upd:
  "(\<And>p. p_ofile (f p) = p_ofile p) \<Longrightarrow> (\<And>p. active (f p) = active p) \<Longrightarrow>
   fd_tab (s\<lparr>ptable := (ptable s)[i := f (ptable s ! i)]\<rparr>) = fd_tab s"
  unfolding fd_tab_def by (cases "i < length (ptable s)", intro nth_equalityI) (auto simp: nth_list_update list_update_beyond)


section \<open>Operations that keep the projection\<close>

lemma same_upd_proc:
  "(\<And>p. p_ofile (f p) = p_ofile p) \<Longrightarrow> (\<And>p. active (f p) = active p) \<Longrightarrow> keeps same_fds (upd_proc i f)"
  by (unfold upd_proc_def, rule sf.modify) (auto simp: same_fds_def refs_def fd_tab_upd)

lemma same_upd_pipe [keeps]: "keeps same_fds (upd_pipe p f)"
  by (unfold upd_pipe_def, rule sf.modify) (auto simp: same_fds_def refs_def fd_tab_def)

lemma same_upd_file: "(\<And>x. f_ref (f x) = f_ref x) \<Longrightarrow> keeps same_fds (upd_file i f)"
  by (unfold upd_file_def, rule sf.modify) (auto simp: same_fds_def refs_def fd_tab_def)

lemma same_get [keeps]: "keeps same_fds (get_pipe p)" "keeps same_fds (get_file f)"
  by (unfold get_pipe_def get_file_def, (rule keeps)+)

lemma same_pipeclose [keeps]: "keeps same_fds (pipeclose p w)"
  by (unfold pipeclose_def, (rule keeps | (rule same_quiet, rule keeps))+)

lemma same_piperead_copy [keeps]: "keeps same_fds (piperead_copy p addr i k)"
proof (induction k arbitrary: addr i)
  case (Suc k)
  show ?case by (subst piperead_copy.simps) (rule keeps Suc)+
qed (simp add: keeps)

lemma same_pipewrite_from: "keeps_awake same_fds (pipewrite_from p addr n i k)"
proof (induction k arbitrary: i)
  case 0
  show ?case by (subst pipewrite_from.simps, rule awake_keeps) (rule keeps | (rule same_quiet, rule keeps))+
next
  case (Suc k)
  have keep: "keeps same_fds (kseq (release (pipe_lock p)) (kreturn (Inr (-1))))"
    by (rule keeps | (rule same_quiet, rule keeps))+
  show ?case
    by (subst pipewrite_from.simps)
      (rule awake_asleep awake_if sf.awake_bind keeps Suc awake_keeps [OF keep] | (rule same_quiet, rule keeps))+
qed

lemma same_pipewrite [keeps]: "keeps same_fds (pipewrite p addr n)"
  by (unfold pipewrite_def pipewrite_start_def, rule keeps_wake)
    (rule sf.awake_bind same_pipewrite_from | (rule same_quiet, rule keeps))+

lemma same_piperead [keeps]: "keeps same_fds (piperead p addr n)"
  by (unfold piperead_def piperead_start_def piperead_from_def, rule keeps_wake)
    (rule awake_asleep awake_if sf.awake_bind keeps | rule awake_keeps | (rule same_quiet, rule keeps))+

section \<open>The console is a quiet device\<close>

lemma quiet_uartputc [keeps]: "keeps quiet (uartputc c)"
  by (unfold uartputc_def, rule qt.modify, simp add: quiet_def)

lemma quiet_cgaputc [keeps]: "keeps quiet (cgaputc c)"
  by (unfold cgaputc_def, rule qt.modify) (auto simp: quiet_def Let_def split: prod.split)

lemma quiet_consputc [keeps]: "keeps quiet (consputc c)" "keeps quiet (consputs cs)" "keeps quiet (cprintf fmt args)"
  by (unfold cprintf_def consputs_def consputc_def, (rule keeps)+)

lemma quiet_consoleread_from:
  "keeps_awake (quiet :: 'a cons_st_scheme \<Rightarrow> _ \<Rightarrow> _) (consoleread_from target dst i n)"
proof (induction n arbitrary: dst i)
  case (Suc n)
  have "quiet s t" if "consoleread_from target dst i (Suc n) s = Ok (Inr r) t" for s t :: "'a cons_st_scheme" and r
  proof (cases "input_r s = input_w s")
    case True
    then show ?thesis using that by (auto simp: kmonad kbind_Ok_iff qt.reflexive split: if_splits)
  next
    case False
    let ?s = "s\<lparr>input_r := input_r s + 1\<rparr>"
    have q: "quiet s ?s" "quiet s (?s\<lparr>input_r := input_r ?s - 1\<rparr>)" by (simp_all add: quiet_def)
    have "quiet ?s t" if "consoleread_from target (dst(i := c)) (i + 1) n ?s = Ok (Inr r) t" for c
      using keeps_awakeD [OF Suc.IH that] .
    then show ?thesis using that False q qt.transitive by (auto simp: Let_def split: if_splits)
  qed
  then show ?case by (simp add: keeps_awake_def)
qed (simp add: awake_keeps keeps)

lemma quiet_consoleread [keeps]: "keeps quiet (consoleread ip dst n)"
proof -
  have e: "consoleread_end ip k = (\<lambda>r. case r of Inl w \<Rightarrow> kreturn (Inl w) | Inr x \<Rightarrow>
    (case x of (n, dst) \<Rightarrow> kseq (release LInput) (kseq (ilock ip)
       (kreturn (Inr (case n of None \<Rightarrow> (-1, dst) | Some n \<Rightarrow> (int k - int n, dst)))))))" for k
    by (simp add: consoleread_end_def fun_eq_iff split: sum.split prod.split)
  show ?thesis unfolding consoleread_def consoleread_start_def e
    by (rule keeps_wake) (rule qt.awake_bind qt.awake_cont quiet_consoleread_from keeps | rule awake_keeps)+
qed

lemma quiet_consolewrite [keeps]: "keeps quiet (consolewrite ip buf n)"
  by (unfold consolewrite_def, (rule keeps)+)

lemma quiet_console [keeps]: "quiet_dev console_devsw"
  by (auto simp: quiet_dev_def console_devsw_def keeps split: if_splits)

section \<open>System calls that keep the projection\<close>

lemma same_filestat [keeps]: "keeps same_fds (filestat f)"
  by (unfold filestat_def, (rule keeps | (rule same_quiet, rule keeps))+)

lemma same_fileread [keeps]: "quiet_dev dv \<Longrightarrow> keeps same_fds (fileread dv f addr n)"
  by (unfold fileread_def, (assumption | rule keeps | (rule same_quiet, rule keeps) | (rule same_upd_file, simp))+)

lemma same_filewrite [keeps]: "quiet_dev dv \<Longrightarrow> keeps same_fds (filewrite dv f addr n)"
  by (unfold filewrite_def filewrite_body_def, (assumption | rule keeps | (rule same_quiet, rule keeps) | (rule same_upd_file, simp))+)

lemma same_orfail [keeps]:
  "keeps same_fds m \<Longrightarrow> (\<And>x. keeps same_fds (f x)) \<Longrightarrow> keeps same_fds (orfail m f)"
  by (unfold orfail_def, (assumption | rule keeps)+)

lemma same_switchuvm [keeps]: "keeps same_fds (switchuvm p)"
  by (unfold switchuvm_def, (rule keeps | (rule sf.modify, simp add: same_fds_def fd_tab_def refs_def))+)

lemma same_growproc [keeps]: "keeps same_fds (growproc n)"
  by (unfold growproc_def, (assumption | rule keeps | (rule same_quiet, rule keeps) | (rule same_upd_proc, simp, simp add: active_def) | (rule same_upd_file, simp))+)

lemma same_exec_commit [keeps]: "keeps same_fds (exec_commit path d sz e sp)"
  by (unfold exec_commit_def, (assumption | rule keeps | (rule same_quiet, rule keeps) | (rule same_upd_proc, simp, simp add: active_def) | (rule same_upd_file, simp))+)

lemma same_exec_finish [keeps]: "keeps same_fds (exec_finish path argv env u elf d sz)"
  by (unfold exec_finish_def, (assumption | rule keeps | (rule same_quiet, rule keeps) | (rule same_upd_proc, simp, simp add: active_def) | (rule same_upd_file, simp))+)

lemma same_execve [keeps]: "quiet_dev dv \<Longrightarrow> keeps same_fds (execve dv elf0 u path argv env)"
  by (unfold execve_def, (assumption | rule keeps | (rule same_quiet, rule keeps) | (rule same_upd_proc, simp, simp add: active_def) | (rule same_upd_file, simp))+)

lemma same_kill [keeps]: "keeps same_fds (kill pid)"
  by (unfold kill_def, (assumption | rule keeps | (rule same_quiet, rule keeps) | (rule same_upd_proc, simp, simp add: active_def) | rule keepsI)+)

lemma same_sys_read [keeps]: "quiet_dev dv \<Longrightarrow> keeps same_fds (sys_read dv)"
  by (unfold sys_read_def, (assumption | rule keeps | (rule same_quiet, rule keeps) | (rule same_upd_proc, simp, simp add: active_def) | (rule same_upd_file, simp))+)

lemma same_sys_write [keeps]: "quiet_dev dv \<Longrightarrow> keeps same_fds (sys_write dv)"
  by (unfold sys_write_def, (assumption | rule keeps | (rule same_quiet, rule keeps) | (rule same_upd_proc, simp, simp add: active_def) | (rule same_upd_file, simp))+)

lemma same_sys_fstat [keeps]: "keeps same_fds (sys_fstat)"
  by (unfold sys_fstat_def, (assumption | rule keeps | (rule same_quiet, rule keeps) | (rule same_upd_proc, simp, simp add: active_def) | (rule same_upd_file, simp))+)

lemma same_link_bad [keeps]: "keeps same_fds (link_bad ip)"
  by (unfold link_bad_def, (assumption | rule keeps | (rule same_quiet, rule keeps) | (rule same_upd_proc, simp, simp add: active_def) | (rule same_upd_file, simp))+)

lemma same_sys_link [keeps]: "quiet_dev dv \<Longrightarrow> keeps same_fds (sys_link dv)"
  by (unfold sys_link_def, (assumption | rule keeps | (rule same_quiet, rule keeps) | (rule same_upd_proc, simp, simp add: active_def) | (rule same_upd_file, simp))+)

lemma quiet_isdirempty_from [keeps]:
  assumes "quiet_dev dv" shows "keeps quiet (isdirempty_from dv dp offs)"
  by (induction offs) (simp_all only: isdirempty_from.simps, (assumption | rule keeps assms)+)

lemma quiet_unlink [keeps]:
  assumes "quiet_dev dv"
  shows "keeps quiet (isdirempty dv dp)" "keeps quiet (unlink_bad dp)" "keeps quiet (unlink_entry dv dp ip off)"
  by (unfold isdirempty_def unlink_bad_def unlink_entry_def, (rule keeps assms)+)

lemma same_sys_unlink [keeps]: "quiet_dev dv \<Longrightarrow> keeps same_fds (sys_unlink dv)"
  by (unfold sys_unlink_def, (assumption | rule keeps | (rule same_quiet, rule keeps) | (rule same_upd_proc, simp, simp add: active_def) | (rule same_upd_file, simp))+)

lemma quiet_create [keeps]:
  assumes "quiet_dev dv"
  shows "keeps quiet (create_new dv dp name type major minor)" "keeps quiet (create dv path type major minor)"
    "keeps quiet (open_inode dv path omode)"
  by (unfold open_inode_def create_def create_new_def, (rule keeps assms)+)

lemma same_made [keeps]: "keeps same_fds m \<Longrightarrow> keeps same_fds (made m)"
  by (unfold made_def, (assumption | rule keeps | (rule same_quiet, rule keeps) | (rule same_upd_proc, simp, simp add: active_def) | (rule same_upd_file, simp))+)

lemma same_sys_mkdir [keeps]: "quiet_dev dv \<Longrightarrow> keeps same_fds (sys_mkdir dv)"
  by (unfold sys_mkdir_def, (assumption | rule keeps | (rule same_quiet, rule keeps) | (rule same_upd_proc, simp, simp add: active_def) | (rule same_upd_file, simp))+)

lemma same_sys_mknod [keeps]: "quiet_dev dv \<Longrightarrow> keeps same_fds (sys_mknod dv)"
  by (unfold sys_mknod_def, (assumption | rule keeps | (rule same_quiet, rule keeps) | (rule same_upd_proc, simp, simp add: active_def) | (rule same_upd_file, simp))+)

lemma same_sys_chdir [keeps]: "quiet_dev dv \<Longrightarrow> keeps same_fds (sys_chdir dv)"
  by (unfold sys_chdir_def, (assumption | rule keeps | (rule same_quiet, rule keeps) | (rule same_upd_proc, simp, simp add: active_def) | (rule same_upd_file, simp))+)

lemma same_sys_execve [keeps]: "quiet_dev dv \<Longrightarrow> keeps same_fds (sys_execve dv elf0 u)"
  by (unfold sys_execve_def, (assumption | rule keeps | (rule same_quiet, rule keeps) | (rule same_upd_proc, simp, simp add: active_def) | (rule same_upd_file, simp))+)

lemma same_sys_kill [keeps]: "keeps same_fds (sys_kill)"
  by (unfold sys_kill_def, (assumption | rule keeps | (rule same_quiet, rule keeps) | (rule same_upd_proc, simp, simp add: active_def) | (rule same_upd_file, simp))+)

lemma same_sys_getpid [keeps]: "keeps same_fds (sys_getpid)"
  by (unfold sys_getpid_def, (assumption | rule keeps | (rule same_quiet, rule keeps) | (rule same_upd_proc, simp, simp add: active_def) | (rule same_upd_file, simp))+)

lemma same_sys_sbrk [keeps]: "keeps same_fds (sys_sbrk)"
  by (unfold sys_sbrk_def, (assumption | rule keeps | (rule same_quiet, rule keeps) | (rule same_upd_proc, simp, simp add: active_def) | (rule same_upd_file, simp))+)

lemma same_sys_uptime [keeps]: "keeps same_fds (sys_uptime)"
  by (unfold sys_uptime_def, (assumption | rule keeps | (rule same_quiet, rule keeps) | (rule same_upd_proc, simp, simp add: active_def) | (rule same_upd_file, simp))+)

lemma same_set_eax [keeps]: "keeps same_fds (set_eax r)"
  by (unfold set_eax_def, (assumption | rule keeps | (rule same_quiet, rule keeps) | (rule same_upd_proc, simp, simp add: active_def) | (rule same_upd_file, simp))+)

lemma same_sys_sleep_round: "keeps_awake same_fds (sys_sleep_round t0 n)"
  by (auto simp: sys_sleep_round_def keeps_awake_def kbind_Ok_iff kreturn_def release_def same_fds_def fd_tab_def refs_def
      split: if_splits)

lemma same_sys_sleep [keeps]: "keeps same_fds sys_sleep"
proof -
  have "same_fds s t" if a: "sys_sleep s = Ok r t" for s t :: "'a proc_st_scheme" and r
  proof -
    obtain n u where n: "argint 0 s = Ok n u"
      using a by (auto simp: sys_sleep_def orfail_def sys_sleep_start_def kbind_Ok_iff)
    have su: "same_fds s u" using keepsD [OF same_quiet [OF quiet_argint] n] .
    show ?thesis
    proof (cases n)
      case None
      then show ?thesis using a n su by (auto simp: sys_sleep_def orfail_def sys_sleep_start_def kmonad kbind_Ok_iff)
    next
      case (Some m)
      then obtain v q where v: "acquire LTicks u = Ok () v" "sys_sleep_round (ticks v) m v = Ok (Inr q) t"
        using a n by (auto simp: sys_sleep_def orfail_def sys_sleep_start_def kbind_Ok_iff kreturn_def kget_def ksleep_def
            split: sum.splits)
      show ?thesis
        using sf.transitive [OF su sf.transitive [OF keepsD [OF same_quiet [OF quiet_locks(1)] v(1)]
            keeps_awakeD [OF same_sys_sleep_round v(2)]]] .
    qed
  qed
  then show ?thesis by (simp add: keeps_def ends_def)
qed

lemma fd_tab_nth: "i < length (ptable s) \<Longrightarrow> fd_tab s ! i = (p_ofile (ptable s ! i), active (ptable s ! i))"
  by (simp add: fd_tab_def)

lemma same_fds_length: "same_fds s t \<Longrightarrow> length (ptable t) = length (ptable s)"
  by (auto simp: same_fds_def fd_tab_def dest: map_eq_imp_length_eq)

lemma same_upd_at:
  assumes "upd_proc i f s = Ok x t" and "p_ofile (f (ptable s ! i)) = p_ofile (ptable s ! i)"
    and "active (f (ptable s ! i)) = active (ptable s ! i)"
  shows "same_fds s t"
proof -
  have t: "t = s\<lparr>ptable := (ptable s)[i := f (ptable s ! i)]\<rparr>" using assms(1) by (simp add: upd_proc_def kmonad)
  show ?thesis using assms(2,3) unfolding same_fds_def fd_tab_def refs_def t
    by (cases "i < length (ptable s)") (auto simp: list_eq_iff_nth_eq nth_list_update list_update_beyond)
qed

text \<open>A reaped process has no descriptors before and after.\<close>

lemma same_reap:
  assumes "find (\<lambda>i. p_parent (ptable s ! i) = Some c \<and> p_state (ptable s ! i) = ZOMBIE) [0..<NPROC] = Some i"
    and "length (ptable s) = NPROC"
    and "kseq (kfree k) (kseq (upd_proc i (\<lambda>p. p\<lparr>p_kstack := 0\<rparr>)) (kseq (freevm d)
      (kseq (upd_proc i (\<lambda>p. p\<lparr>p_state := UNUSED, p_pid := 0, p_parent := None, p_name := (p_name p)(0 := 0),
           p_killed := False\<rparr>)) (kseq (release LPtable) (kreturn (Inr q)))))) s = Ok r t"
  shows "same_fds s t"
proof -
  have i: "i < NPROC" "\<not> active (ptable s ! i)" using assms(1) by (auto simp: find_Some_iff active_def)
  obtain u v where u: "kseq (kfree k) (kseq (upd_proc i (\<lambda>p. p\<lparr>p_kstack := 0\<rparr>)) (freevm d)) s = Ok () u"
    and v: "upd_proc i (\<lambda>p. p\<lparr>p_state := UNUSED, p_pid := 0, p_parent := None, p_name := (p_name p)(0 := 0),
           p_killed := False\<rparr>) u = Ok () v" "kseq (release LPtable) (kreturn (Inr q)) v = Ok r t"
    using assms(3) by (auto simp: kbind_Ok_iff)
  have "keeps same_fds (kseq (kfree k) (kseq (upd_proc i (\<lambda>p. p\<lparr>p_kstack := 0\<rparr>)) (freevm d)))"
    "keeps same_fds (kseq (release LPtable) (kreturn (Inr q)))"
    by (rule keeps | (rule same_quiet, rule keeps) | (rule same_upd_proc, simp, simp add: active_def))+
  note k = keepsD [OF this(1) u] keepsD [OF this(2) v(2)]
  have "fd_tab u ! i = fd_tab s ! i" "length (ptable u) = length (ptable s)"
    using k(1) same_fds_length [OF k(1)] by (simp_all add: same_fds_def)
  then have "\<not> active (ptable u ! i)" using i assms(2) by (simp add: fd_tab_nth)
  then have "same_fds u v" by (intro same_upd_at [OF v(1)]) (simp_all add: active_def)
  then show ?thesis using k sf.transitive by blast
qed

lemma same_wait:
  assumes "length (ptable s) = NPROC" and "wait s = Ok r t"
  shows "same_fds s t"
proof -
  have "wait_start s = Ok (Inr r) t" using assms(2) by (simp add: wait_def kbind_get wake_Ok)
  then obtain q u where u: "acquire LPtable s = Ok () u" "wait_round u = Ok (Inr q) t"
    by (auto simp: wait_start_def kbind_Ok_iff)
  have su: "same_fds s u" using keepsD [OF same_quiet [OF quiet_locks(1)] u(1)] .
  have len: "length (ptable u) = NPROC" using same_fds_length [OF su] assms(1) by simp
  have rel: "keeps same_fds (kseq (release LPtable) (kreturn (Inr (-1))))"
    by (rule keeps | (rule same_quiet, rule keeps))+
  let ?P = "\<lambda>i. p_parent (ptable u ! i) = Some (curproc u) \<and> p_state (ptable u ! i) = ZOMBIE"
  have "same_fds u t"
  proof (cases "find ?P [0..<NPROC]")
    case None
    then show ?thesis using u(2) keepsD [OF rel, of u _ t]
      by (auto simp: wait_round_def Let_def kbind_Ok_iff kreturn_def split: if_splits)
  next
    case (Some i)
    show ?thesis using same_reap [OF Some len] u(2) Some by (auto simp: wait_round_def Let_def)
  qed
  then show ?thesis using su sf.transitive by blast
qed

section \<open>Counting descriptors\<close>

definition fd_cnt :: "fd_table \<Rightarrow> nat \<Rightarrow> nat" where
  "fd_cnt T f = sum_list (map (\<lambda>x. count_list (fst x) (Some f)) T)"

definition fd_ok :: "fd_table \<Rightarrow> (nat \<Rightarrow> int) \<Rightarrow> bool" where
  "fd_ok T F \<longleftrightarrow> length T = NPROC \<and>
     (\<forall>i<NPROC. length (fst (T ! i)) = NOFILE \<and> (\<not> snd (T ! i) \<longrightarrow> fst (T ! i) = replicate NOFILE None) \<and>
        (\<forall>f. Some f \<in> set (fst (T ! i)) \<longrightarrow> f < NFILE)) \<and>
     (\<forall>f<NFILE. F f = int (fd_cnt T f))"

lemma count_list_upd:
  "i < length xs \<Longrightarrow> int (count_list (xs[i := x]) y) = int (count_list xs y) + of_bool (x = y) - of_bool (xs ! i = y)"
proof (induction xs arbitrary: i)
  case (Cons a xs)
  then show ?case by (cases i) auto
qed simp

lemma sum_list_upd:
  "i < length xs \<Longrightarrow> int (sum_list (map g (xs[i := x]))) = int (sum_list (map g xs)) + int (g x) - int (g (xs ! i))"
proof (induction xs arbitrary: i)
  case (Cons a xs)
  then show ?case by (cases i) auto
qed simp

lemma fd_cnt_upd:
  assumes "i < length T" and "k < length (fst (T ! i))"
  shows "int (fd_cnt (T[i := ((fst (T ! i))[k := x], a)]) f) =
    int (fd_cnt T f) + of_bool (x = Some f) - of_bool (fst (T ! i) ! k = Some f)"
  using sum_list_upd [OF assms(1), of "\<lambda>x. count_list (fst x) (Some f)" "((fst (T ! i))[k := x], a)"]
    count_list_upd [OF assms(2), of x "Some f"] by (simp add: fd_cnt_def)

lemma fd_ok_upd:
  assumes "fd_ok T F" and "i < NPROC" and "k < NOFILE" and "\<And>f. x = Some f \<Longrightarrow> f < NFILE"
    and "snd (T ! i)"
  shows "fd_ok (T[i := ((fst (T ! i))[k := x], True)])
    (\<lambda>f. F f + of_bool (x = Some f) - of_bool (fst (T ! i) ! k = Some f))"
proof -
  have l: "length T = NPROC" "length (fst (T ! i)) = NOFILE" using assms(1,2) by (auto simp: fd_ok_def)
  have "Some f \<in> set ((fst (T ! i))[k := x]) \<Longrightarrow> f < NFILE" for f
    using assms(1,2,4) set_update_subset_insert [of "fst (T ! i)" k x] by (auto simp: fd_ok_def)
  then show ?thesis
    using assms(1,2,3,5) l fd_cnt_upd [of i T k x True] by (auto simp: fd_ok_def nth_list_update)
qed

lemma fd_ok_active:
  "fd_ok T F \<Longrightarrow> i < NPROC \<Longrightarrow> fst (T ! i) = replicate NOFILE None \<Longrightarrow> fd_ok (T[i := (fst (T ! i), a)]) F"
  using sum_list_upd [of i T _ "(fst (T ! i), a)"] by (auto simp: fd_ok_def nth_list_update fd_cnt_def)

lemma fd_ok_set:
  assumes "fd_ok T F" and "i < NPROC" and "snd (T ! i)" and "k < NOFILE" and "fst (T ! i) ! k = None" and "f < NFILE"
  shows "fd_ok (T[i := ((fst (T ! i))[k := Some f], True)]) (F(f := F f + 1))"
proof -
  have "(\<lambda>g. F g + of_bool (Some f = Some g) - of_bool (fst (T ! i) ! k = Some g)) = F(f := F f + 1)"
    using assms(5) by (auto simp: fun_eq_iff)
  then show ?thesis using fd_ok_upd [of T F i k "Some f"] assms by simp
qed

lemma fd_ok_clear:
  assumes "fd_ok T F" and "i < NPROC" and "snd (T ! i)" and "k < NOFILE" and "fst (T ! i) ! k = Some f"
  shows "fd_ok (T[i := ((fst (T ! i))[k := None], True)]) (F(f := F f - 1))"
proof -
  have "(\<lambda>g. F g + of_bool (None = Some g) - of_bool (fst (T ! i) ! k = Some g)) = F(f := F f - 1)"
    using assms(5) by (auto simp: fun_eq_iff)
  then show ?thesis using fd_ok_upd [of T F i k None] assms by simp
qed

section \<open>Operations that change descriptors or counts\<close>

definition fd_view :: "'a proc_st_scheme \<Rightarrow> fd_table \<times> (nat \<Rightarrow> int) \<times> nat" where
  "fd_view s = (fd_tab s, refs s, curproc s)"

text \<open>The counts are right and the current process is one that may hold descriptors.\<close>

definition fd_good :: "fd_table \<times> (nat \<Rightarrow> int) \<times> nat \<Rightarrow> bool" where
  "fd_good = (\<lambda>(T, F, c). fd_ok T F \<and> c < NPROC \<and> snd (T ! c))"

lemma same_view: "same_fds s t \<longleftrightarrow> fd_view t = fd_view s"
  by (auto simp: same_fds_def fd_view_def)

lemma fd_goodD:
  assumes "fd_good (fd_view s)"
  shows "fd_ok (fd_tab s) (refs s)" "curproc s < NPROC" "snd (fd_tab s ! curproc s)" "length (ptable s) = NPROC"
    "length (fst (fd_tab s ! curproc s)) = NOFILE" "this_proc s = ptable s ! curproc s"
    "fst (fd_tab s ! curproc s) = p_ofile (this_proc s)" "curproc s < length (fd_tab s)"
  using assms fd_tab_nth [of "curproc s" s]
  by (auto simp: fd_good_def fd_view_def fd_ok_def this_proc_def fd_tab_def)

lemma acquire_OkD: "acquire l s = Ok x u \<Longrightarrow> l \<notin> held s"
  by (auto simp: acquire_def split: if_splits)

lemma filedup_view:
  assumes "filedup f s = Ok r t"
  shows "r = f \<and> fd_view t = (fd_tab s, (refs s)(f := refs s f + 1), curproc s)"
proof -
  have l: "LFtable \<notin> held s" using assms by (auto simp: filedup_def kbind_Ok_iff dest: acquire_OkD)
  have "0 < f_ref (ftable s f)" using assms file_ref_panics(1) [OF l, of f] by (cases "f_ref (ftable s f) < 1") auto
  then show ?thesis using filedup_run [OF l] assms by (auto simp: fd_view_def fd_tab_def refs_def fun_eq_iff)
qed

lemma fileclose_view:
  assumes "fileclose f s = Ok r t"
  shows "fd_view t = (fd_tab s, (refs s)(f := refs s f - 1), curproc s)"
proof -
  have l: "LFtable \<notin> held s" using assms by (auto simp: fileclose_def kbind_Ok_iff dest: acquire_OkD)
  have "0 < f_ref (ftable s f)" using assms file_ref_panics(2) [OF l, of f] by (cases "f_ref (ftable s f) < 1") auto
  then consider "1 < f_ref (ftable s f)" | "f_ref (ftable s f) = 1" by linarith
  then show ?thesis
  proof cases
    case 1
    then show ?thesis using fileclose_shared [OF l] assms by (auto simp: fd_view_def fd_tab_def refs_def fun_eq_iff)
  next
    case 2
    define u where "u = s\<lparr>ftable := (ftable s)(f := (ftable s f)\<lparr>f_ref := 0, f_type := FD_NONE\<rparr>)\<rparr>"
    have "keeps same_fds (case f_type (ftable s f) of
       FD_PIPE \<Rightarrow> pipeclose (f_pipe (ftable s f)) (f_writable (ftable s f))
     | FD_INODE \<Rightarrow> kseq begin_trans (kseq (iput (f_ip (ftable s f))) commit_trans)
     | FD_NONE \<Rightarrow> kreturn ())"
      by (cases "f_type (ftable s f)") (simp_all, (rule keeps | (rule same_quiet, rule keeps))+)
    then have "same_fds u t" unfolding u_def
      by (rule keepsD [where x = r]) (simp only: fileclose_last [OF l 2, symmetric] assms)
    then show ?thesis using 2 by (auto simp: same_view u_def fd_view_def fd_tab_def refs_def fun_eq_iff)
  qed
qed

lemma filealloc_view:
  assumes "filealloc s = Ok r t"
  shows "(r = None \<and> fd_view t = fd_view s) \<or>
    (\<exists>f. r = Some f \<and> f < NFILE \<and> refs s f = 0 \<and> fd_view t = (fd_tab s, (refs s)(f := 1), curproc s))"
proof -
  have l: "LFtable \<notin> held s" using assms by (auto simp: filealloc_def kbind_Ok_iff dest: acquire_OkD)
  show ?thesis using filealloc_run [OF l] assms
    by (auto simp: fd_view_def fd_tab_def refs_def fun_eq_iff find_upt_Some split: option.splits)
qed

lemma set_fd_view:
  assumes "set_fd k x s = Ok r t" and "curproc s < length (ptable s)"
  shows "fd_view t = ((fd_tab s)[curproc s := ((fst (fd_tab s ! curproc s))[k := x], snd (fd_tab s ! curproc s))], refs s, curproc s)"
proof -
  have "t = s\<lparr>ptable := (ptable s)[curproc s := (ptable s ! curproc s)\<lparr>p_ofile := (p_ofile (ptable s ! curproc s))[k := x]\<rparr>]\<rparr>"
    using assms(1) by (simp add: set_fd_def upd_proc_def kmonad)
  then show ?thesis using assms(2) by (simp add: fd_view_def fd_tab_def refs_def map_update active_def)
qed

lemma fdalloc_view:
  assumes "fdalloc f s = Ok r t" and "curproc s < length (fd_tab s)" and "snd (fd_tab s ! curproc s)"
  shows "(r = None \<and> t = s) \<or> (\<exists>k. r = Some k \<and> k < NOFILE \<and> fst (fd_tab s ! curproc s) ! k = None \<and>
    fd_view t = ((fd_tab s)[curproc s := ((fst (fd_tab s ! curproc s))[k := Some f], True)], refs s, curproc s))"
proof (cases "find (\<lambda>k. p_ofile (this_proc s) ! k = None) [0..<NOFILE]")
  case None
  then show ?thesis using assms(1) by (auto simp: fdalloc_def kreturn_def)
next
  case (Some k)
  have g: "curproc s < length (ptable s)" "fst (fd_tab s ! curproc s) = p_ofile (this_proc s)"
    using assms(2) by (auto simp: fd_tab_def this_proc_def)
  have "set_fd k (Some f) s = Ok () t" "r = Some k"
    using assms(1) Some by (auto simp: fdalloc_def kbind_Ok_iff kreturn_def)
  then show ?thesis using set_fd_view [of k "Some f" s "()" t] Some g assms(3) by (auto simp: find_upt_Some)
qed

lemma argfd_view:
  assumes "argfd n s = Ok r t" and "fd_good (fd_view s)"
  shows "fd_view t = fd_view s \<and> (\<forall>k f. r = Some (k, f) \<longrightarrow> k < NOFILE \<and> fst (fd_tab s ! curproc s) ! k = Some f)"
proof -
  have v: "fd_view t = fd_view s" using keepsD [OF same_quiet [OF quiet_argfd] assms(1)] by (simp add: same_view)
  then have g: "fst (fd_tab s ! curproc s) = p_ofile (this_proc t)"
    using fd_goodD(7) [of t] assms(2) by (simp add: fd_view_def)
  obtain a u where "argint n s = Ok a u" using assms(1) by (auto simp: argfd_def kbind_Ok_iff)
  then have "k < NOFILE \<and> p_ofile (this_proc t) ! k = Some f" if "r = Some (k, f)" for k f
    using assms(1) that by (auto simp: argfd_def kmonad kbind_Ok_iff Let_def split: option.splits if_splits)
  then show ?thesis using v g by simp
qed

end
