(* ===== verification/Fd_Props.thy ===== *)
theory Fd_Props
  imports Fd_Refs
begin

text \<open>
  The system calls that create and drop descriptors keep every reference count equal to the number of descriptors, and
  so does every system call.
\<close>

section \<open>Descriptors of the current process\<close>

definition counts_ok :: "'a proc_st_scheme \<Rightarrow> bool" where
  "counts_ok s \<longleftrightarrow> fd_ok (fd_tab s) (refs s)"

definition keeps_counts :: "('a proc_st_scheme, chan, 'r) km \<Rightarrow> bool" where
  "keeps_counts m \<longleftrightarrow> (\<forall>s r t. fd_good (fd_view s) \<longrightarrow> m s = Ok r t \<longrightarrow> counts_ok t)"

lemma keeps_countsI: "(\<And>s r t. fd_good (fd_view s) \<Longrightarrow> m s = Ok r t \<Longrightarrow> counts_ok t) \<Longrightarrow> keeps_counts m"
  by (simp add: keeps_counts_def)

lemma counts_view: "fd_view t = (T, F, c) \<Longrightarrow> fd_ok T F \<Longrightarrow> counts_ok t"
  by (simp add: counts_ok_def fd_view_def)

lemma same_counts: "keeps same_fds m \<Longrightarrow> keeps_counts m"
  by (auto simp: keeps_counts_def keeps_def ends_def same_fds_def counts_ok_def fd_good_def fd_view_def)

lemma orfail_Ok:
  "orfail m f s = Ok r t \<longleftrightarrow> m s = Ok None t \<and> r = -1 \<or> (\<exists>x u. m s = Ok (Some x) u \<and> f x u = Ok r t)"
  by (cases "m s") (auto simp: orfail_def kbind_def kreturn_def split: option.split)

lemma fd_ok_file:
  assumes "fd_ok T F" and "i < NPROC" and "k < NOFILE" and "fst (T ! i) ! k = Some f"
  shows "f < NFILE"
  using assms nth_mem [of k "fst (T ! i)"] unfolding fd_ok_def by auto

lemma counts_orfail:
  assumes "keeps same_fds m" and "\<And>x. keeps_counts (f x)"
  shows "keeps_counts (orfail m f)"
proof (rule keeps_countsI)
  fix s r t
  assume g: "fd_good (fd_view s)" and run: "orfail m f s = Ok r t"
  obtain x u where x: "m s = Ok x u" "x = None \<longrightarrow> u = t" "\<And>y. x = Some y \<Longrightarrow> f y u = Ok r t"
    using run by (auto simp: orfail_Ok)
  have gu: "fd_good (fd_view u)" using keepsD [OF assms(1) x(1)] g by (simp add: same_view)
  show "counts_ok t"
  proof (cases x)
    case None
    then show ?thesis using x(2) gu by (auto simp: fd_good_def fd_view_def counts_ok_def)
  next
    case (Some y)
    then show ?thesis using x(3) assms(2) gu by (auto simp: keeps_counts_def)
  qed
qed

text \<open>Calls that start from a descriptor.\<close>

lemma counts_argfd:
  assumes "\<And>k f s r t. fd_good (fd_view s) \<Longrightarrow> k < NOFILE \<Longrightarrow> fst (fd_tab s ! curproc s) ! k = Some f \<Longrightarrow>
      g (k, f) s = Ok r t \<Longrightarrow> counts_ok t"
  shows "keeps_counts (orfail (argfd n) g)"
proof (rule keeps_countsI)
  fix s r t
  assume gd: "fd_good (fd_view s)" and run: "orfail (argfd n) g s = Ok r t"
  obtain x u where x: "argfd n s = Ok x u" "x = None \<longrightarrow> u = t" "\<And>y. x = Some y \<Longrightarrow> g y u = Ok r t"
    using run by (auto simp: orfail_Ok)
  note av = argfd_view [OF x(1) gd]
  have gu: "fd_good (fd_view u)" using av gd by simp
  show "counts_ok t"
  proof (cases x)
    case None
    then show ?thesis using x(2) gu by (auto simp: fd_good_def fd_view_def counts_ok_def)
  next
    case (Some y)
    obtain k f where "y = (k, f)" by (cases y)
    then show ?thesis using Some x(3) av assms [OF gu, of k f r t] by (auto simp: fd_view_def)
  qed
qed

text \<open>A new descriptor for a file whose count is raised.\<close>

lemma counts_new_fd:
  assumes "fd_good (fd_view u)" and "j < NOFILE" and "fst (fd_tab u ! curproc u) ! j = None" and "f < NFILE"
    and "fd_view t = ((fd_tab u)[curproc u := ((fst (fd_tab u ! curproc u))[j := Some f], True)],
          (refs u)(f := refs u f + 1), curproc u)"
  shows "counts_ok t" "fd_good (fd_view t)"
proof -
  note G = fd_goodD [OF assms(1)]
  have ok: "fd_ok ((fd_tab u)[curproc u := ((fst (fd_tab u ! curproc u))[j := Some f], True)]) ((refs u)(f := refs u f + 1))"
    by (rule fd_ok_set [OF G(1-3) assms(2-4)])
  then show "counts_ok t" by (rule counts_view [OF assms(5)])
  show "fd_good (fd_view t)" using ok G by (auto simp: fd_good_def assms(5) fd_ok_def)
qed

lemma counts_sys_dup: "keeps_counts sys_dup"
  unfolding sys_dup_def
proof (rule counts_argfd)
  fix k f and s t :: "'a proc_st_scheme" and r
  assume g: "fd_good (fd_view s)" and k: "k < NOFILE" "fst (fd_tab s ! curproc s) ! k = Some f"
    and run: "(case (k, f) of (_, f) \<Rightarrow> orfail (fdalloc f) (\<lambda>fd. kseq (filedup f) (kreturn (int fd)))) s = Ok r t"
  note G = fd_goodD [OF g]
  obtain b v where b: "fdalloc f s = Ok b v" "b = None \<longrightarrow> v = t" "b \<noteq> None \<longrightarrow> filedup f v = Ok f t"
    using run filedup_view by (fastforce simp: orfail_Ok kbind_Ok_iff kreturn_def)
  from fdalloc_view [OF b(1) G(8,3)] show "counts_ok t"
  proof (elim disjE conjE exE)
    assume "b = None" "v = s"
    then show ?thesis using b(2) g by (auto simp: fd_good_def fd_view_def counts_ok_def)
  next
    fix j
    assume j: "b = Some j" "j < NOFILE" "fst (fd_tab s ! curproc s) ! j = None"
      "fd_view v = ((fd_tab s)[curproc s := ((fst (fd_tab s ! curproc s))[j := Some f], True)], refs s, curproc s)"
    show ?thesis
      by (rule counts_new_fd [OF g j(2,3) fd_ok_file [OF G(1,2) k]])
        (use b(3) j(1,4) filedup_view [of f v f t] in \<open>auto simp: fd_view_def\<close>)
  qed
qed

lemma counts_sys_close: "keeps_counts sys_close"
  unfolding sys_close_def
proof (rule counts_argfd)
  fix k f and s t :: "'a proc_st_scheme" and r
  assume g: "fd_good (fd_view s)" and k: "k < NOFILE" "fst (fd_tab s ! curproc s) ! k = Some f"
    and run: "(case (k, f) of (fd, f) \<Rightarrow> kseq (set_fd fd None) (kseq (fileclose f) (kreturn 0))) s = Ok r t"
  note G = fd_goodD [OF g]
  obtain v where v: "set_fd k None s = Ok () v" "fileclose f v = Ok () t"
    using run by (auto simp: kbind_Ok_iff kreturn_def)
  have "fd_view t = ((fd_tab s)[curproc s := ((fst (fd_tab s ! curproc s))[k := None], True)],
      (refs s)(f := refs s f - 1), curproc s)"
    using set_fd_view [OF v(1)] fileclose_view [OF v(2)] G by (auto simp: fd_view_def)
  then show "counts_ok t" by (rule counts_view) (rule fd_ok_clear [OF G(1-3) k])
qed

section \<open>Opening files\<close>

lemma counts_open_fd:
  "keeps_counts (kbind filealloc (\<lambda>f.
     kbind (case f of None \<Rightarrow> kreturn None | Some f \<Rightarrow> fdalloc f) (\<lambda>fd.
     case fd of
       None \<Rightarrow> kseq (close_opt f) (kseq (iunlockput ip) (kreturn (-1)))
     | Some fd \<Rightarrow> kseq (iunlock ip) (kseq (upd_file (the f) h) (kreturn (int fd))))))"
  if h: "\<And>x. f_ref (h x) = f_ref x"
proof (rule keeps_countsI)
  fix s t :: "'a proc_st_scheme" and r
  assume g: "fd_good (fd_view s)"
  note G = fd_goodD [OF g]
  assume "kbind filealloc (\<lambda>f. kbind (case f of None \<Rightarrow> kreturn None | Some f \<Rightarrow> fdalloc f) (\<lambda>fd. case fd of
       None \<Rightarrow> kseq (close_opt f) (kseq (iunlockput ip) (kreturn (-1)))
     | Some fd \<Rightarrow> kseq (iunlock ip) (kseq (upd_file (the f) h) (kreturn (int fd))))) s = Ok r t"
  then obtain f u fd v where u: "filealloc s = Ok f u" "(case f of None \<Rightarrow> kreturn None | Some f \<Rightarrow> fdalloc f) u = Ok fd v"
    and rest: "(case fd of None \<Rightarrow> kseq (close_opt f) (kseq (iunlockput ip) (kreturn (-1)))
     | Some fd \<Rightarrow> kseq (iunlock ip) (kseq (upd_file (the f) h) (kreturn (int fd)))) v = Ok r t"
    by (auto simp: kbind_Ok_iff)
  have put: "keeps same_fds (kseq (iunlockput ip) (kreturn (-1)))"
    "keeps same_fds (kseq (iunlock ip) (kseq (upd_file (the f) h) (kreturn (int k))))" for k
    by (rule keeps | (rule same_quiet, rule keeps) | (rule same_upd_file, rule h))+
  from filealloc_view [OF u(1)] show "counts_ok t"
  proof (elim disjE conjE exE)
    assume "f = None" "fd_view u = fd_view s"
    then show ?thesis using u(2) rest keepsD [OF put(1), of u r t] G
      by (auto simp: close_opt_def kmonad kreturn_def same_view fd_view_def counts_ok_def)
  next
    fix i
    assume f: "f = Some i" "i < NFILE" "refs s i = 0" "fd_view u = (fd_tab s, (refs s)(i := 1), curproc s)"
    have restored: "(refs s)(i := 0) = refs s" using f(3) by (simp add: fun_upd_idem)
    have "curproc u < length (fd_tab u)" "snd (fd_tab u ! curproc u)" using f(4) G by (auto simp: fd_view_def)
    from fdalloc_view [of i u fd v, OF _ this] u(2) f(1) show ?thesis
    proof (simp, elim disjE conjE exE)
      assume "fd = None" "v = u"
      then obtain w where w: "fileclose i u = Ok () w" "kseq (iunlockput ip) (kreturn (-1)) w = Ok r t"
        using rest f(1) by (auto simp: close_opt_def kbind_Ok_iff)
      then show ?thesis using fileclose_view [OF w(1)] keepsD [OF put(1) w(2)] f(4) G(1)
        by (auto simp: same_view fd_view_def counts_ok_def restored)
    next
      fix k
      assume k: "fd = Some k" "k < NOFILE" "fst (fd_tab u ! curproc u) ! k = None"
        "fd_view v = ((fd_tab u)[curproc u := ((fst (fd_tab u ! curproc u))[k := Some i], True)], refs u, curproc u)"
      have "same_fds v t" using rest k(1) keepsD [OF put(2)] by auto
      then have "fd_view t = ((fd_tab s)[curproc s := ((fst (fd_tab s ! curproc s))[k := Some i], True)],
          (refs s)(i := refs s i + 1), curproc s)" using k(4) f(3,4) by (simp add: same_view fd_view_def)
      then show ?thesis using counts_new_fd(1) [OF g k(2) _ f(2)] k(3) f(4) by (simp add: fd_view_def)
    qed
  qed
qed

lemma counts_sys_open: "quiet_dev dv \<Longrightarrow> keeps_counts (sys_open dv)"
  unfolding sys_open_def
  by (rule counts_orfail counts_open_fd | (rule same_quiet, rule keeps) | assumption | simp)+

section \<open>Pipes\<close>

lemma close_opt_view:
  assumes "close_opt x s = Ok r t"
  shows "fd_view t = (fd_tab s, (case x of None \<Rightarrow> refs s | Some f \<Rightarrow> (refs s)(f := refs s f - 1)), curproc s)"
  using assms fileclose_view by (cases x) (auto simp: close_opt_def kreturn_def fd_view_def)

definition pipe_files :: "(nat \<Rightarrow> int) \<Rightarrow> nat option \<Rightarrow> nat option \<Rightarrow> bool" where
  "pipe_files F x y \<longleftrightarrow> (x = None \<longrightarrow> y = None) \<and> (\<forall>a. x = Some a \<longrightarrow> a < NFILE \<and> F a = 0) \<and>
     (\<forall>b. y = Some b \<longrightarrow> b < NFILE \<and> F b = 0 \<and> x \<noteq> Some b)"

definition raised :: "nat option \<Rightarrow> (nat \<Rightarrow> int) \<Rightarrow> nat \<Rightarrow> int" where
  "raised x F = (case x of None \<Rightarrow> F | Some a \<Rightarrow> F(a := 1))"

lemma two_files:
  assumes "filealloc s = Ok x u" and "(if x = None then kreturn None else filealloc) u = Ok y v"
  shows "pipe_files (refs s) x y \<and> fd_view v = (fd_tab s, raised y (raised x (refs s)), curproc s)"
  using filealloc_view [OF assms(1)]
proof (elim disjE conjE exE)
  assume "x = None" "fd_view u = fd_view s"
  then show ?thesis using assms(2) by (auto simp: kreturn_def pipe_files_def raised_def fd_view_def)
next
  fix a
  assume a: "x = Some a" "a < NFILE" "refs s a = 0" "fd_view u = (fd_tab s, (refs s)(a := 1), curproc s)"
  have "filealloc u = Ok y v" using assms(2) a(1) by simp
  from filealloc_view [OF this] show ?thesis
    using a by (auto simp: pipe_files_def raised_def fd_view_def split: if_splits)
qed

lemma pipealloc_view:
  assumes "pipealloc s = Ok (r, x, y) t"
  shows "fd_tab t = fd_tab s \<and> curproc t = curproc s \<and> (if r < 0 then refs t = refs s
    else x \<noteq> None \<and> y \<noteq> None \<and> pipe_files (refs s) x y \<and> refs t = raised y (raised x (refs s)))"
proof -
  obtain x' u y' v p w where run: "filealloc s = Ok x' u" "(if x' = None then kreturn None else filealloc) u = Ok y' v"
      "(if x' = None \<or> y' = None then kreturn 0 else kalloc) v = Ok p w"
    and rest: "(if p = 0 then kseq (close_opt x') (kseq (close_opt y') (kreturn (-1, x', y'))) else
       kseq (upd_pipe p (\<lambda>q. q\<lparr>pi_readopen := True, pi_writeopen := True, pi_nwrite := 0, pi_nread := 0\<rparr>))
       (kseq (upd_file (the x') (\<lambda>x. x\<lparr>f_type := FD_PIPE, f_readable := True, f_writable := False, f_pipe := p\<rparr>))
       (kseq (upd_file (the y') (\<lambda>x. x\<lparr>f_type := FD_PIPE, f_readable := False, f_writable := True, f_pipe := p\<rparr>))
       (kreturn (0, x', y'))))) w = Ok (r, x, y) t"
    using assms by (auto simp: pipealloc_def kbind_Ok_iff)
  note two = two_files [OF run(1,2)]
  have "keeps same_fds (if x' = None \<or> y' = None then kreturn 0 else kalloc)"
    by (rule keeps | (rule same_quiet, rule keeps))+
  then have w: "fd_view w = (fd_tab s, raised y' (raised x' (refs s)), curproc s)"
    using two keepsD run(3) by (fastforce simp: same_view)
  show ?thesis
  proof (cases "p = 0")
    case True
    then obtain w1 w2 where c: "close_opt x' w = Ok () w1" "close_opt y' w1 = Ok () w2" "w2 = t" "r = -1"
      using rest by (auto simp: kbind_Ok_iff kreturn_def)
    have "refs t = refs s"
      using close_opt_view [OF c(1)] close_opt_view [OF c(2)] c(3) w two
      by (auto simp: fd_view_def raised_def pipe_files_def fun_eq_iff split: option.splits)
    then show ?thesis using close_opt_view [OF c(1)] close_opt_view [OF c(2)] c(3,4) w by (auto simp: fd_view_def)
  next
    case False
    have "keeps same_fds (kseq (upd_pipe p (\<lambda>q. q\<lparr>pi_readopen := True, pi_writeopen := True, pi_nwrite := 0, pi_nread := 0\<rparr>))
       (kseq (upd_file (the x') (\<lambda>x. x\<lparr>f_type := FD_PIPE, f_readable := True, f_writable := False, f_pipe := p\<rparr>))
       (kseq (upd_file (the y') (\<lambda>x. x\<lparr>f_type := FD_PIPE, f_readable := False, f_writable := True, f_pipe := p\<rparr>))
       (kreturn (0, x', y')))))"
      by (rule keeps | (rule same_upd_file, simp))+
    moreover have "r = 0" "x = x'" "y = y'" "x' \<noteq> None \<and> y' \<noteq> None"
      using rest False run(3) by (auto simp: kbind_Ok_iff kreturn_def split: if_splits)
    ultimately show ?thesis using rest False w two keepsD by (fastforce simp: same_view fd_view_def)
  qed
qed

text \<open>The descriptors of a new pipe, or its two files closed again.\<close>

lemma counts_pipe_close:
  assumes "fd_ok (fd_tab s) (refs s)" and "pipe_files (refs s) (Some a) (Some b)"
    and "fd_tab v = fd_tab s" and "refs v = (refs s)(a := 1, b := 1)"
    and "kseq (fileclose a) (kseq (fileclose b) (kreturn (-1 :: int))) v = Ok r t"
  shows "counts_ok t"
proof -
  obtain w where w: "fileclose a v = Ok () w" "fileclose b w = Ok () t"
    using assms(5) by (auto simp: kbind_Ok_iff kreturn_def)
  have "refs t = refs s" "fd_tab t = fd_tab s"
    using fileclose_view [OF w(1)] fileclose_view [OF w(2)] assms(2-4)
    by (auto simp: fd_view_def pipe_files_def fun_eq_iff)
  then show ?thesis using assms(1) by (simp add: counts_ok_def)
qed

lemma counts_pipe_second:
  assumes g: "fd_good (fd_view s)" and ab: "pipe_files (refs s) (Some a) (Some b)"
    and k: "k < NOFILE" "fst (fd_tab s ! curproc s) ! k = None"
    and v: "fd_view v = ((fd_tab s)[curproc s := ((fst (fd_tab s ! curproc s))[k := Some a], True)], (refs s)(a := 1, b := 1), curproc s)"
    and run: "fdalloc b v = Ok d w"
    and none: "d = None \<Longrightarrow> kseq (set_fd k None) (kseq (fileclose a) (kseq (fileclose b) (kreturn (-1 :: int)))) w = Ok r t"
    and some: "d \<noteq> None \<Longrightarrow> same_fds w t"
  shows "counts_ok t"
proof -
  note G = fd_goodD [OF g]
  let ?os = "fst (fd_tab s ! curproc s)"
  let ?T = "(fd_tab s)[curproc s := (?os[k := Some a], True)]"
  have abF: "a < NFILE" "b < NFILE" "a \<noteq> b" "refs s a = 0" "refs s b = 0" using ab by (auto simp: pipe_files_def)
  have v': "fd_tab v = ?T" "refs v = (refs s)(a := 1, b := 1)" "curproc v = curproc s" using v by (auto simp: fd_view_def)
  have cv: "curproc v < length (fd_tab v)" "snd (fd_tab v ! curproc v)" "fst (?T ! curproc s) = ?os[k := Some a]"
    using v' G(8) by simp_all
  from fdalloc_view [OF run cv(1,2)] show ?thesis
  proof (elim disjE conjE exE)
    assume "d = None" "w = v"
    then obtain z where z: "set_fd k None v = Ok () z" "kseq (fileclose a) (kseq (fileclose b) (kreturn (-1 :: int))) z = Ok r t"
      using none by (auto simp: kbind_Ok_iff)
    have "(?os[k := None], True) = fd_tab s ! curproc s"
      using k(2) G(3) list_update_id [of ?os k] by (cases "fd_tab s ! curproc s") simp
    moreover have "curproc v < length (ptable v)" using cv(1) by (simp add: fd_tab_def)
    ultimately have "fd_tab z = fd_tab s" "refs z = (refs s)(a := 1, b := 1)"
      using set_fd_view [OF z(1)] v' cv by (auto simp: fd_view_def)
    then show ?thesis by (rule counts_pipe_close [OF G(1) ab _ _ z(2)])
  next
    fix j
    assume j: "d = Some j" "j < NOFILE" "fst (fd_tab v ! curproc v) ! j = None"
      "fd_view w = ((fd_tab v)[curproc v := ((fst (fd_tab v ! curproc v))[j := Some b], True)], refs v, curproc v)"
    have t: "fd_view t = (?T[curproc s := ((fst (?T ! curproc s))[j := Some b], True)], (refs s)(a := 1, b := 1), curproc s)"
      using j(1,4) v' some by (simp add: same_view fd_view_def)
    have "fd_ok (?T[curproc s := ((fst (?T ! curproc s))[j := Some b], True)])
       (((refs s)(a := refs s a + 1))(b := ((refs s)(a := refs s a + 1)) b + 1))"
      by (rule fd_ok_set [OF fd_ok_set [OF G(1-3) k abF(1)] G(2) _ j(2) _ abF(2)]) (use j(3) v' cv in simp_all)
    then show ?thesis using counts_view [OF t] abF by simp
  qed
qed

lemma counts_sys_pipe: "keeps_counts sys_pipe"
  unfolding sys_pipe_def
proof (rule counts_orfail [OF same_quiet [OF quiet_argptr]], rule keeps_countsI)
  fix p and s t :: "'a proc_st_scheme" and r :: int
  assume g: "fd_good (fd_view s)"
  note G = fd_goodD [OF g]
  assume run: "kbind pipealloc (\<lambda>(r, rf, wf).
     if r < 0 then kreturn (-1)
     else
       kbind (fdalloc (the rf)) (\<lambda>fd0.
       kbind (if fd0 = None then kreturn None else fdalloc (the wf)) (\<lambda>fd1.
       if fd0 = None \<or> fd1 = None then
         kseq (case fd0 of None \<Rightarrow> kreturn () | Some fd0 \<Rightarrow> set_fd fd0 None)
         (kseq (fileclose (the rf)) (kseq (fileclose (the wf)) (kreturn (-1))))
       else
         kseq (uwrite p (st32 (st32 (\<lambda>_. 0) 0 (of_nat (the fd0))) 4 (of_nat (the fd1))) 8) (kreturn 0)))) s = Ok r t"
  then obtain q x y u where u: "pipealloc s = Ok (q, x, y) u" by (auto simp: kbind_Ok_iff)
  note pv = pipealloc_view [OF u]
  show "counts_ok t"
  proof (cases "q < 0")
    case True
    then show ?thesis using run u pv G(1) by (auto simp: kbind_Ok_iff kreturn_def counts_ok_def)
  next
    case False
    then obtain a b where ab: "x = Some a" "y = Some b" "pipe_files (refs s) (Some a) (Some b)"
        "refs u = (refs s)(a := 1, b := 1)" using pv by (auto simp: raised_def)
    have tu: "fd_tab u = fd_tab s" "curproc u = curproc s" using pv by auto
    obtain c v d w where c: "fdalloc a u = Ok c v" "(if c = None then kreturn None else fdalloc b) v = Ok d w"
      and rest: "(if c = None \<or> d = None then
         kseq (case c of None \<Rightarrow> kreturn () | Some fd0 \<Rightarrow> set_fd fd0 None)
         (kseq (fileclose a) (kseq (fileclose b) (kreturn (-1))))
       else
         kseq (uwrite p (st32 (st32 (\<lambda>_. 0) 0 (of_nat (the c))) 4 (of_nat (the d))) 8) (kreturn 0)) w = Ok r t"
      using run u False ab(1,2) by (auto simp: kbind_Ok_iff cong: if_cong)
    have cu: "curproc u < length (fd_tab u)" "snd (fd_tab u ! curproc u)" using tu G by auto
    from fdalloc_view [OF c(1) cu] show ?thesis
    proof (elim disjE conjE exE)
      assume "c = None" "v = u"
      then have "kseq (fileclose a) (kseq (fileclose b) (kreturn (-1))) u = Ok r t"
        using c(2) rest by (auto simp: kmonad kreturn_def)
      then show ?thesis by (rule counts_pipe_close [OF G(1) ab(3) tu(1) ab(4)])
    next
      fix k
      assume k: "c = Some k" "k < NOFILE" "fst (fd_tab u ! curproc u) ! k = None"
        "fd_view v = ((fd_tab u)[curproc u := ((fst (fd_tab u ! curproc u))[k := Some a], True)], refs u, curproc u)"
      have "keeps same_fds (kseq (uwrite p h n) (kreturn (0 :: int)))" for h n
        by (rule keeps | (rule same_quiet, rule keeps))+
      then have "same_fds w t" if "d \<noteq> None" using rest k(1) that keepsD by fastforce
      then show ?thesis
        using counts_pipe_second [OF g ab(3) k(2) _ _ _ _ _, of v d w r t] k c(2) rest tu ab(4)
        by (auto simp: fd_view_def split: if_splits)
    qed
  qed
qed

section \<open>Creating processes\<close>

lemma upd_proc_view:
  assumes "upd_proc i f s = Ok x t" and "i < length (fd_tab s)"
    and "p_ofile (f (ptable s ! i)) = os" and "active (f (ptable s ! i)) = a"
  shows "fd_view t = ((fd_tab s)[i := (os, a)], refs s, curproc s)"
proof -
  have "t = s\<lparr>ptable := (ptable s)[i := f (ptable s ! i)]\<rparr>" using assms(1) by (simp add: upd_proc_def kmonad)
  then show ?thesis using assms(2-4) by (simp add: fd_view_def fd_tab_def refs_def map_update)
qed

lemma fd_tab_at: "i < length (fd_tab s) \<Longrightarrow> fd_tab s ! i = (p_ofile (ptable s ! i), active (ptable s ! i))"
  by (simp add: fd_tab_def)

lemma allocproc_view:
  assumes "allocproc s = Ok r t" and "length (fd_tab s) = NPROC"
  shows "(r = None \<and> fd_view t = fd_view s) \<or>
    (\<exists>i. r = Some i \<and> i < NPROC \<and> \<not> snd (fd_tab s ! i) \<and>
       fd_view t = ((fd_tab s)[i := (fst (fd_tab s ! i), True)], refs s, curproc s))"
proof -
  obtain u where u: "acquire LPtable s = Ok () u" using assms(1) by (auto simp: allocproc_def kbind_Ok_iff)
  have su: "fd_view u = fd_view s" using keepsD [OF same_quiet [OF quiet_locks(1)] u] by (simp add: same_view)
  show ?thesis
  proof (cases "find (\<lambda>i. p_state (ptable u ! i) = UNUSED) [0..<NPROC]")
    case None
    have "keeps same_fds (kseq (release LPtable) (kreturn None))" by (rule keeps | (rule same_quiet, rule keeps))+
    then show ?thesis using assms(1) u None su keepsD
      by (fastforce simp: allocproc_def kmonad kbind_Ok_iff same_view kreturn_def)
  next
    case (Some i)
    then have i: "i < NPROC" "p_state (ptable u ! i) = UNUSED" by (auto simp: find_upt_Some)
    have lu: "fd_tab u = fd_tab s" "refs u = refs s" "curproc u = curproc s" "i < length (fd_tab u)"
      using su assms(2) i(1) by (auto simp: fd_view_def)
    have na: "\<not> snd (fd_tab s ! i)" using fd_tab_at [OF lu(4)] i(2) lu(1) by (simp add: active_def)
    obtain v k w where v: "upd_proc i (\<lambda>p. p\<lparr>p_state := EMBRYO, p_pid := nextpid u\<rparr>) u = Ok () v"
      and w: "kseq (kmod (\<lambda>s. s\<lparr>nextpid := nextpid s + 1\<rparr>)) (kseq (release LPtable)
         (kbind kalloc (\<lambda>k. kseq (upd_proc i (\<lambda>p. p\<lparr>p_kstack := k\<rparr>)) (kreturn k)))) v = Ok k w"
      and rest: "(if k = 0 then kseq (upd_proc i (\<lambda>p. p\<lparr>p_state := UNUSED\<rparr>)) (kreturn None) else
            kseq (stw (k + KSTACKSIZE - TFSIZE - 4) (k_trapret u))
            (kseq (upd_proc i (\<lambda>p. p\<lparr>p_context := zero_context\<lparr>cx_eip := k_forkret u\<rparr>\<rparr>)) (kreturn (Some i)))) w = Ok r t"
      using assms(1) u Some by (auto simp: allocproc_def kbind_Ok_iff kreturn_def)
    have vv: "fd_view v = ((fd_tab s)[i := (fst (fd_tab s ! i), True)], refs s, curproc s)"
      using upd_proc_view [OF v lu(4)] fd_tab_at [OF lu(4)] lu by (auto simp: active_def)
    have "keeps same_fds (kseq (kmod (\<lambda>s. s\<lparr>nextpid := nextpid s + 1\<rparr>)) (kseq (release LPtable)
         (kbind kalloc (\<lambda>k. kseq (upd_proc i (\<lambda>p. p\<lparr>p_kstack := k\<rparr>)) (kreturn k)))))"
      by (rule keeps | (rule same_quiet, rule keeps) | (rule same_upd_proc, simp, simp add: active_def)
          | (rule sf.modify, simp add: same_fds_def fd_tab_def refs_def))+
    then have vw: "fd_view w = ((fd_tab s)[i := (fst (fd_tab s ! i), True)], refs s, curproc s)"
      using keepsD w vv by (fastforce simp: same_view)
    show ?thesis
    proof (cases "k = 0")
      case True
      then have t: "upd_proc i (\<lambda>p. p\<lparr>p_state := UNUSED\<rparr>) w = Ok () t" "r = None"
        using rest by (auto simp: kbind_Ok_iff kreturn_def)
      have li: "i < length (fd_tab w)" using vw lu by (simp add: fd_view_def)
      have "fd_view t = ((fd_tab w)[i := (fst (fd_tab w ! i), False)], refs w, curproc w)"
        using upd_proc_view [OF t(1) li] fd_tab_at [OF li] by (auto simp: active_def)
      then have "fd_view t = fd_view s" using vw na lu(1,4) list_update_id [of "fd_tab s" i]
        by (cases "fd_tab s ! i") (simp add: fd_view_def)
      then show ?thesis using t(2) by simp
    next
      case False
      have "keeps same_fds (kseq (stw (k + KSTACKSIZE - TFSIZE - 4) (k_trapret u))
            (kseq (upd_proc i (\<lambda>p. p\<lparr>p_context := zero_context\<lparr>cx_eip := k_forkret u\<rparr>\<rparr>)) (kreturn (Some i))))"
        by (rule keeps | (rule same_quiet, rule keeps) | (rule same_upd_proc, simp, simp add: active_def))+
      moreover have "r = Some i" using rest False by (auto simp: kbind_Ok_iff kreturn_def)
      ultimately show ?thesis using rest False vw na i(1) keepsD by (fastforce simp: same_view)
    qed
  qed
qed

text \<open>\<open>fork\<close> raises the count of every file of the parent as it fills the table of the child.\<close>

definition dup_inv :: "nat \<Rightarrow> nat \<Rightarrow> nat \<Rightarrow> 'a proc_st_scheme \<Rightarrow> bool" where
  "dup_inv c n k s \<longleftrightarrow> fd_good (fd_view s) \<and> curproc s = c \<and> n < NPROC \<and> n \<noteq> c \<and> snd (fd_tab s ! n) \<and>
     (\<forall>j. k \<le> j \<longrightarrow> j < NOFILE \<longrightarrow> fst (fd_tab s ! n) ! j = None)"

lemma dup_inv_same: "dup_inv c n k s \<Longrightarrow> fd_view t = fd_view s \<Longrightarrow> dup_inv c n k t"
  by (auto simp: dup_inv_def fd_view_def)

lemma dup_step:
  assumes "dup_inv c n i u" and "i < NOFILE" and "p_ofile (ptable u ! c) ! i = Some f"
    and "filedup f u = Ok g w" and "upd_proc n (\<lambda>p. p\<lparr>p_ofile := (p_ofile p)[i := Some g]\<rparr>) w = Ok y v"
  shows "dup_inv c n (Suc i) v"
proof -
  have I: "fd_good (fd_view u)" "curproc u = c" "n < NPROC" "n \<noteq> c" "snd (fd_tab u ! n)"
    "\<And>j. i \<le> j \<Longrightarrow> j < NOFILE \<Longrightarrow> fst (fd_tab u ! n) ! j = None"
    using assms(1) by (auto simp: dup_inv_def)
  note G = fd_goodD [OF I(1)]
  have f: "f < NFILE"
    by (rule fd_ok_file [OF G(1) G(2) assms(2)]) (use assms(3) G(6,7) I(2) in simp)
  have w: "g = f" "fd_tab w = fd_tab u" "refs w = (refs u)(f := refs u f + 1)" "curproc w = c"
    using filedup_view [OF assms(4)] I(2) by (auto simp: fd_view_def)
  have n: "n < length (fd_tab w)" using w(2) I(3) G(1) by (simp add: fd_ok_def)
  have wn: "fd_tab u ! n = (p_ofile (ptable w ! n), active (ptable w ! n))" using fd_tab_at [OF n] w(2) by simp
  have v: "fd_view v = ((fd_tab u)[n := ((fst (fd_tab u ! n))[i := Some f], True)], (refs u)(f := refs u f + 1), c)"
    using upd_proc_view [OF assms(5) n] wn w I(5) by (auto simp: active_def)
  have "fd_ok ((fd_tab u)[n := ((fst (fd_tab u ! n))[i := Some f], True)]) ((refs u)(f := refs u f + 1))"
    by (rule fd_ok_set [OF G(1) I(3,5) assms(2) I(6) f]) (use assms(2) in simp_all)
  then show ?thesis using v I G(2,3) n w(2) by (auto simp: dup_inv_def fd_good_def fd_view_def)
qed

lemma dup_files_view:
  assumes "dup_inv c n 0 s" and "dup_files c n s = Ok r t"
  shows "fd_good (fd_view t)" "curproc t = c" "snd (fd_tab t ! n)"
proof -
  have "dup_inv c n NOFILE t"
  proof (rule kfor_Ok [where P = "dup_inv c n", OF assms(2) [unfolded dup_files_def] assms(1)])
    fix i u y v
    assume i: "i < NOFILE" "dup_inv c n i u" and run: "kbind (kget (\<lambda>s. p_ofile (ptable s ! c) ! i)) (\<lambda>f. case f of
         None \<Rightarrow> kreturn ()
       | Some f \<Rightarrow> kbind (filedup f) (\<lambda>f. upd_proc n (\<lambda>p. p\<lparr>p_ofile := (p_ofile p)[i := Some f]\<rparr>))) u = Ok y v"
    show "dup_inv c n (Suc i) v"
    proof (cases "p_ofile (ptable u ! c) ! i")
      case None
      then show ?thesis using run i by (auto simp: kmonad kreturn_def dup_inv_def)
    next
      case (Some f)
      then show ?thesis using run dup_step [OF i(2,1) Some] by (auto simp: kbind_get kbind_Ok_iff)
    qed
  qed
  then show "fd_good (fd_view t)" "curproc t = c" "snd (fd_tab t ! n)" by (auto simp: dup_inv_def)
qed

lemma fork_undone:
  assumes g: "fd_good (fd_view s)" and n: "n < NPROC" "\<not> snd (fd_tab s ! n)"
    and u: "fd_view u = ((fd_tab s)[n := (fst (fd_tab s ! n), True)], refs s, curproc s)"
    and v: "upd_proc n (\<lambda>p. p\<lparr>p_kstack := 0, p_state := UNUSED\<rparr>) u = Ok x v"
  shows "counts_ok v"
proof -
  note G = fd_goodD [OF g]
  have n': "n < length (fd_tab u)" "n < length (fd_tab s)" using u n G(4) by (auto simp: fd_view_def fd_tab_def)
  have "fd_view v = ((fd_tab u)[n := (fst (fd_tab u ! n), False)], refs u, curproc u)"
    using upd_proc_view [OF v n'(1)] fd_tab_at [OF n'(1)] by (auto simp: active_def)
  moreover have "(fd_tab s)[n := (fst (fd_tab s ! n), False)] = fd_tab s"
    using n(2) list_update_id [of "fd_tab s" n] by (cases "fd_tab s ! n") simp
  ultimately have "fd_view v = fd_view s" using u n' by (auto simp: fd_view_def)
  then show ?thesis using G(1) by (simp add: counts_ok_def fd_view_def)
qed

lemma fork_finish:
  assumes "fd_good (fd_view w)" and "n < NPROC" and "snd (fd_tab w ! n)"
    and "kseq (case cwd of None \<Rightarrow> kpanic ''trap''
                   | Some cwd \<Rightarrow> kbind (idup cwd) (\<lambda>cwd. upd_proc n (\<lambda>q. q\<lparr>p_cwd := Some cwd\<rparr>)))
            (kbind (kget (\<lambda>s. p_pid (ptable s ! n))) (\<lambda>pid.
            kseq (upd_proc n (\<lambda>q. q\<lparr>p_state := RUNNABLE, p_name := safestrcpy (p_name q) (p_name p) 16\<rparr>))
            (kreturn pid))) w = Ok r t"
  shows "counts_ok t"
proof -
  obtain v where v: "(case cwd of None \<Rightarrow> kpanic ''trap''
       | Some cwd \<Rightarrow> kbind (idup cwd) (\<lambda>cwd. upd_proc n (\<lambda>q. q\<lparr>p_cwd := Some cwd\<rparr>))) w = Ok () v"
    "upd_proc n (\<lambda>q. q\<lparr>p_state := RUNNABLE, p_name := safestrcpy (p_name q) (p_name p) 16\<rparr>) v = Ok () t"
    using assms(4) by (auto simp: kbind_Ok_iff kreturn_def kget_def)
  have "keeps same_fds (case cwd of None \<Rightarrow> kpanic ''trap''
       | Some cwd \<Rightarrow> kbind (idup cwd) (\<lambda>cwd. upd_proc n (\<lambda>q. q\<lparr>p_cwd := Some cwd\<rparr>)))"
    by (rule keeps | (rule same_quiet, rule keeps) | (rule same_upd_proc, simp, simp add: active_def))+
  then have wv: "fd_view v = fd_view w" using keepsD v(1) by (fastforce simp: same_view)
  then have "n < length (fd_tab v)" "snd (fd_tab v ! n)" using fd_goodD(4) [OF assms(1)] assms(2,3)
    by (auto simp: fd_view_def fd_tab_def)
  then have "active (ptable v ! n)" using fd_tab_at by fastforce
  then have "same_fds v t" by (intro same_upd_at [OF v(2)]) (simp_all add: active_def)
  then show ?thesis using wv fd_goodD(1) [OF assms(1)] by (simp add: same_view fd_view_def counts_ok_def)
qed

lemma counts_fork: "keeps_counts fork"
proof (rule keeps_countsI)
  fix s t :: "'a proc_st_scheme" and r
  assume g: "fd_good (fd_view s)" and run: "fork s = Ok r t"
  note G = fd_goodD [OF g]
  obtain np u where u: "allocproc s = Ok np u" using run by (auto simp: fork_def kbind_get kbind_Ok_iff)
  have l: "length (fd_tab s) = NPROC" using G(1) by (simp add: fd_ok_def)
  from allocproc_view [OF u l] show "counts_ok t"
  proof (elim disjE conjE exE)
    assume "np = None" "fd_view u = fd_view s"
    then show ?thesis using run u G(1) by (auto simp: fork_def kbind_get kbind_Ok_iff kreturn_def counts_ok_def fd_view_def)
  next
    fix n
    assume n: "np = Some n" "n < NPROC" "\<not> snd (fd_tab s ! n)"
      "fd_view u = ((fd_tab s)[n := (fst (fd_tab s ! n), True)], refs s, curproc s)"
    let ?p = "this_proc u"
    obtain d v where d: "kbind (copyuvm (p_pgdir ?p) (p_sz ?p)) (\<lambda>d. kseq (upd_proc n (\<lambda>p. p\<lparr>p_pgdir := d\<rparr>)) (kreturn d)) u = Ok d v"
      and rest: "(if d = 0 then
            kbind (kget (\<lambda>s. p_kstack (ptable s ! n))) (\<lambda>kstack.
            kseq (kfree kstack)
            (kseq (upd_proc n (\<lambda>p. p\<lparr>p_kstack := 0, p_state := UNUSED\<rparr>))
            (kreturn (-1))))
          else
            kseq (upd_proc n (\<lambda>q. q\<lparr>p_sz := p_sz ?p, p_parent := Some (curproc s), p_tf := (p_tf ?p)\<lparr>tf_eax := 0\<rparr>\<rparr>))
            (kseq (dup_files (curproc s) n)
            (kseq (case p_cwd ?p of None \<Rightarrow> kpanic ''trap''
                   | Some cwd \<Rightarrow> kbind (idup cwd) (\<lambda>cwd. upd_proc n (\<lambda>q. q\<lparr>p_cwd := Some cwd\<rparr>)))
            (kbind (kget (\<lambda>s. p_pid (ptable s ! n))) (\<lambda>pid.
            kseq (upd_proc n (\<lambda>q. q\<lparr>p_state := RUNNABLE, p_name := safestrcpy (p_name q) (p_name ?p) 16\<rparr>))
            (kreturn pid)))))) v = Ok r t"
      using run u n(1) by (auto simp: fork_def kbind_get kbind_Ok_iff kreturn_def)
    have "keeps same_fds (kbind (copyuvm (p_pgdir ?p) (p_sz ?p)) (\<lambda>d. kseq (upd_proc n (\<lambda>p. p\<lparr>p_pgdir := d\<rparr>)) (kreturn d)))"
      by (rule keeps | (rule same_quiet, rule keeps) | (rule same_upd_proc, simp, simp add: active_def))+
    then have v: "fd_view v = ((fd_tab s)[n := (fst (fd_tab s ! n), True)], refs s, curproc s)"
      using keepsD d n(4) by (fastforce simp: same_view)
    show ?thesis
    proof (cases "d = 0")
      case True
      then obtain k w where w: "kfree k v = Ok () w" "upd_proc n (\<lambda>p. p\<lparr>p_kstack := 0, p_state := UNUSED\<rparr>) w = Ok () t"
        using rest by (auto simp: kbind_Ok_iff kreturn_def kget_def)
      show ?thesis
        by (rule fork_undone [OF g n(2,3) _ w(2)]) (use keepsD [OF same_quiet [OF quiet_kfree] w(1)] v in \<open>simp add: same_view\<close>)
    next
      case False
      then obtain w x where w: "upd_proc n (\<lambda>q. q\<lparr>p_sz := p_sz ?p, p_parent := Some (curproc s), p_tf := (p_tf ?p)\<lparr>tf_eax := 0\<rparr>\<rparr>) v = Ok () w"
          "dup_files (curproc s) n w = Ok () x" and x: "kseq (case p_cwd ?p of None \<Rightarrow> kpanic ''trap''
                   | Some cwd \<Rightarrow> kbind (idup cwd) (\<lambda>cwd. upd_proc n (\<lambda>q. q\<lparr>p_cwd := Some cwd\<rparr>)))
            (kbind (kget (\<lambda>s. p_pid (ptable s ! n))) (\<lambda>pid.
            kseq (upd_proc n (\<lambda>q. q\<lparr>p_state := RUNNABLE, p_name := safestrcpy (p_name q) (p_name ?p) 16\<rparr>))
            (kreturn pid))) x = Ok r t"
        using rest by (auto simp: kbind_Ok_iff)
      have "same_fds v w" by (rule same_upd_at [OF w(1)]) (simp_all add: active_def)
      then have wv: "fd_view w = ((fd_tab s)[n := (fst (fd_tab s ! n), True)], refs s, curproc s)" using v by (simp add: same_view)
      have none: "fst (fd_tab s ! n) = replicate NOFILE None" using G(1) n(2,3) by (simp add: fd_ok_def)
      have "dup_inv (curproc s) n 0 w"
        using wv fd_ok_active [OF G(1) n(2) none, of True] n(2,3) G(2,3) l none
        by (auto simp: dup_inv_def fd_good_def fd_view_def nth_list_update)
      note df = dup_files_view [OF this w(2)]
      show ?thesis by (rule fork_finish [OF df(1) n(2) df(3) x])
    qed
  qed
qed

section \<open>Ending processes\<close>

definition exit_inv :: "nat \<Rightarrow> nat \<Rightarrow> 'a proc_st_scheme \<Rightarrow> bool" where
  "exit_inv c k s \<longleftrightarrow> fd_good (fd_view s) \<and> curproc s = c \<and> (\<forall>j<k. fst (fd_tab s ! c) ! j = None)"

lemma exit_step:
  assumes "exit_inv c i u" and "i < NOFILE" and "p_ofile (ptable u ! c) ! i = Some f"
    and "fileclose f u = Ok x w" and "upd_proc c (\<lambda>p. p\<lparr>p_ofile := (p_ofile p)[i := None]\<rparr>) w = Ok y v"
  shows "exit_inv c (Suc i) v"
proof -
  have I: "fd_good (fd_view u)" "curproc u = c" "\<And>j. j < i \<Longrightarrow> fst (fd_tab u ! c) ! j = None"
    using assms(1) by (auto simp: exit_inv_def)
  note G = fd_goodD [OF I(1)]
  have w: "fd_tab w = fd_tab u" "refs w = (refs u)(f := refs u f - 1)" "curproc w = c"
    using fileclose_view [OF assms(4)] I(2) by (auto simp: fd_view_def)
  have c: "c < length (fd_tab w)" using w(1) G(8) I(2) by simp
  have v: "fd_view v = ((fd_tab u)[c := ((fst (fd_tab u ! c))[i := None], True)], (refs u)(f := refs u f - 1), c)"
    using upd_proc_view [OF assms(5) c] fd_tab_at [OF c] w G(3) I(2) by (auto simp: active_def)
  have "fd_ok ((fd_tab u)[c := ((fst (fd_tab u ! c))[i := None], True)]) ((refs u)(f := refs u f - 1))"
    using fd_ok_clear [OF G(1-3) assms(2), of f] assms(3) G(6,7) I(2) by simp
  then show ?thesis using v I G(2,5) c w(1) assms(2) by (auto simp: exit_inv_def fd_good_def fd_view_def nth_list_update less_Suc_eq)
qed

lemma exit_close_view:
  assumes "fd_good (fd_view s)" and "exit_close s = Ok r t"
  shows "fd_good (fd_view t)" "fst (fd_tab t ! curproc t) = replicate NOFILE None"
proof -
  let ?c = "curproc s"
  obtain u cwd where u: "kfor [0..<NOFILE] (\<lambda>fd. kbind (kget (\<lambda>s. p_ofile (ptable s ! ?c) ! fd)) (\<lambda>f. case f of
           None \<Rightarrow> kreturn ()
         | Some f \<Rightarrow> kseq (fileclose f) (upd_proc ?c (\<lambda>p. p\<lparr>p_ofile := (p_ofile p)[fd := None]\<rparr>)))) s = Ok () u"
    "kseq (iput cwd) (upd_proc ?c (\<lambda>p. p\<lparr>p_cwd := None\<rparr>)) u = Ok r t"
    using assms(2) by (auto simp: exit_close_def kbind_get kbind_Ok_iff kpanic_def split: if_splits option.splits) blast
  have "exit_inv ?c NOFILE u"
  proof (rule kfor_Ok [where P = "exit_inv ?c", OF u(1)])
    show "exit_inv ?c 0 s" using assms(1) by (simp add: exit_inv_def)
    fix i v y w
    assume i: "i < NOFILE" "exit_inv ?c i v" and run: "kbind (kget (\<lambda>s. p_ofile (ptable s ! ?c) ! i)) (\<lambda>f. case f of
           None \<Rightarrow> kreturn ()
         | Some f \<Rightarrow> kseq (fileclose f) (upd_proc ?c (\<lambda>p. p\<lparr>p_ofile := (p_ofile p)[i := None]\<rparr>))) v = Ok y w"
    show "exit_inv ?c (Suc i) w"
    proof (cases "p_ofile (ptable v ! ?c) ! i")
      case None
      have "fst (fd_tab v ! ?c) = p_ofile (ptable v ! ?c)" using i(2) fd_goodD(6,7) by (fastforce simp: exit_inv_def)
      then show ?thesis using run i None by (auto simp: kbind_get kreturn_def exit_inv_def less_Suc_eq)
    next
      case (Some f)
      then show ?thesis using run exit_step [OF i(2,1) Some] by (auto simp: kbind_get kbind_Ok_iff)
    qed
  qed
  then have U: "fd_good (fd_view u)" "curproc u = ?c" "\<And>j. j < NOFILE \<Longrightarrow> fst (fd_tab u ! ?c) ! j = None"
    by (auto simp: exit_inv_def)
  have "fst (fd_tab u ! ?c) = replicate NOFILE None"
    using U(3) fd_goodD(5) [OF U(1)] U(2) by (auto simp: list_eq_iff_nth_eq)
  moreover have "keeps same_fds (kseq (iput cwd) (upd_proc ?c (\<lambda>p. p\<lparr>p_cwd := None\<rparr>)))"
    by (rule keeps | (rule same_quiet, rule keeps) | (rule same_upd_proc, simp, simp add: active_def))+
  then have "fd_view t = fd_view u" using keepsD u(2) by (fastforce simp: same_view)
  ultimately show "fd_good (fd_view t)" "fst (fd_tab t ! curproc t) = replicate NOFILE None"
    using U(1,2) by (auto simp: fd_view_def)
qed

lemma same_wakeup_proc [keeps]: "keeps same_fds (wakeup_proc q)"
proof (cases q)
  case None
  have "same_fds s (s\<lparr>ptable := map (\<lambda>p. if p_state p = SLEEPING \<and> p_chan p = None then p\<lparr>p_state := RUNNABLE\<rparr> else p) (ptable s)\<rparr>)"
    for s :: "'a proc_st_scheme" by (auto simp: same_fds_def fd_tab_def refs_def active_def)
  then show ?thesis unfolding wakeup_proc_def None by (simp add: sf.modify)
next
  case (Some c)
  then show ?thesis by (simp add: wakeup_proc_def same_quiet [OF quiet_wakeup(1)])
qed

lemma quiet_sched_enter [keeps]: "keeps quiet sched_enter"
  by (auto simp: sched_enter_def keeps_def ends_def qt.reflexive)

lemma counts_exit: "keeps_counts exit"
proof (rule keeps_countsI)
  fix s t :: "'a proc_st_scheme" and r
  assume g: "fd_good (fd_view s)" and run: "exit s = Ok r t"
  obtain u where u: "exit_close s = Ok () u" "exit_zombie u = Ok r t" using run by (auto simp: exit_def kbind_Ok_iff)
  note X = exit_close_view [OF g u(1)]
  note G = fd_goodD [OF X(1)]
  let ?c = "curproc u"
  let ?pre = "kseq (acquire LPtable)
     (kseq (kbind (kget (\<lambda>s. p_parent (ptable s ! ?c))) wakeup_proc)
     (kfor [0..<NPROC] (\<lambda>i.
       kbind (kget (\<lambda>s. ptable s ! i)) (\<lambda>p.
       kwhen (p_parent p = Some ?c)
         (kseq (upd_proc i (\<lambda>p. p\<lparr>p_parent := initproc u\<rparr>))
         (kwhen (p_state p = ZOMBIE) (wakeup_proc (initproc u))))))))"
  obtain v w where v: "?pre u = Ok () v" "upd_proc ?c (\<lambda>p. p\<lparr>p_state := ZOMBIE\<rparr>) v = Ok () w" "sched_enter w = Ok r t"
    using u(2) by (auto simp: exit_zombie_def kbind_get kbind_Ok_iff)
  have "keeps same_fds ?pre"
    by (rule keeps | (rule same_quiet, rule keeps) | (rule same_upd_proc, simp, simp add: active_def))+
  then have vu: "fd_view v = fd_view u" using keepsD v(1) by (fastforce simp: same_view)
  then have l: "?c < length (fd_tab v)" "fd_tab v = fd_tab u" using G(8) by (auto simp: fd_view_def)
  have "fd_view w = ((fd_tab u)[?c := (fst (fd_tab u ! ?c), False)], refs u, ?c)"
    using upd_proc_view [OF v(2) l(1)] fd_tab_at [OF l(1)] vu l(2) by (auto simp: active_def fd_view_def)
  moreover have "fd_view t = fd_view w"
    using keepsD [OF same_quiet [OF quiet_sched_enter] v(3)] by (simp add: same_view)
  ultimately show "counts_ok t" using counts_view fd_ok_active [OF G(1,2) X(2)] by metis
qed

section \<open>Every system call\<close>

lemma counts_wait: "keeps_counts sys_wait"
  unfolding sys_wait_def
  by (rule keeps_countsI, frule fd_goodD(4), drule (1) same_wait)
    (auto simp: same_view fd_good_def fd_view_def counts_ok_def)

lemma counts_returns: "keeps_counts m \<Longrightarrow> keeps_counts (returns m)"
  by (auto simp: keeps_counts_def returns_def kbind_Ok_iff kreturn_def)

lemma counts_syscalls:
  assumes "syscalls elf0 ustack0 num = Some f"
  shows "keeps_counts f"
proof -
  have ex: "keeps_counts (kseq sys_exit (kreturn None))"
    using counts_exit by (auto simp: keeps_counts_def sys_exit_def kbind_Ok_iff kreturn_def)
  note ops = counts_fork [folded sys_fork_def] counts_wait counts_sys_pipe counts_sys_close counts_sys_dup
    counts_sys_open [OF quiet_console] same_counts [OF same_sys_read [OF quiet_console]]
    same_counts [OF same_sys_write [OF quiet_console]] same_counts [OF same_sys_fstat] same_counts [OF same_sys_kill]
    same_counts [OF same_sys_execve [OF quiet_console]] same_counts [OF same_sys_chdir [OF quiet_console]]
    same_counts [OF same_sys_getpid] same_counts [OF same_sys_sbrk] same_counts [OF same_sys_sleep]
    same_counts [OF same_sys_uptime] same_counts [OF same_sys_mknod [OF quiet_console]]
    same_counts [OF same_sys_unlink [OF quiet_console]] same_counts [OF same_sys_link [OF quiet_console]]
    same_counts [OF same_sys_mkdir [OF quiet_console]]
  show ?thesis using assms unfolding syscalls_def Let_def
    by (auto split: if_split_asm intro: ex ops [THEN counts_returns])
qed

lemma counts_syscall: "keeps_counts (syscall elf0 ustack0)"
proof (rule keeps_countsI)
  fix s t :: "'a cons_st_scheme" and r
  assume g: "fd_good (fd_view s)" and run: "syscall elf0 ustack0 s = Ok r t"
  let ?n = "sint (tf_eax (p_tf (this_proc s)))"
  let ?f = "if 0 < ?n \<and> ?n < 22 then syscalls elf0 ustack0 (nat ?n) else None :: ('a cons_st_scheme, chan, int option) km option"
  show "counts_ok t"
  proof (cases ?f)
    case None
    have "keeps same_fds (kseq (cprintf x y) (kseq (set_eax (-1)) (kreturn True)))" for x y
      by (rule keeps | (rule same_quiet, rule keeps))+
    note k = keepsD [OF this]
    have "\<exists>x y. kseq (cprintf x y) (kseq (set_eax (-1)) (kreturn True)) s = Ok r t"
      using run unfolding syscall_def kbind_get Let_def None by auto
    then have "same_fds s t" using k by blast
    then show ?thesis using g by (auto simp: same_view fd_good_def fd_view_def counts_ok_def)
  next
    case (Some f)
    then have f: "syscalls elf0 ustack0 (nat ?n) = Some f" by (auto split: if_splits)
    obtain q u where q: "f s = Ok q u" "(case q of None \<Rightarrow> kreturn False | Some r \<Rightarrow> kseq (set_eax r) (kreturn True)) u = Ok r t"
      using run unfolding syscall_def kbind_get Let_def Some by (auto simp: kbind_Ok_iff)
    have "counts_ok u" using counts_syscalls [OF f] g q(1) by (auto simp: keeps_counts_def)
    moreover have k: "keeps same_fds (case q of None \<Rightarrow> kreturn False | Some r \<Rightarrow> kseq (set_eax r) (kreturn True))"
      by (rule keeps)+
    have "same_fds u t" by (rule keepsD [OF k q(2)])
    ultimately show ?thesis by (simp add: same_view fd_view_def counts_ok_def)
  qed
qed

lemma fd_cnt_card:
  assumes "fd_ok (fd_tab s) F"
  shows "fd_cnt (fd_tab s) f = card {(i, k). i < NPROC \<and> k < NOFILE \<and> p_ofile (ptable s ! i) ! k = Some f}"
proof -
  let ?T = "fd_tab s"
  have l: "length ?T = NPROC" "length (ptable s) = NPROC" using assms by (auto simp: fd_ok_def fd_tab_def)
  have o: "i < NPROC \<Longrightarrow> fst (?T ! i) = p_ofile (ptable s ! i) \<and> length (p_ofile (ptable s ! i)) = NOFILE" for i
    using assms fd_tab_nth [of i s] l by (auto simp: fd_ok_def)
  have "fd_cnt ?T f = (\<Sum>i<NPROC. count_list (fst (?T ! i)) (Some f))"
    using l(1) by (simp add: fd_cnt_def sum_list_sum_nth atLeast0LessThan)
  also have "\<dots> = (\<Sum>i<NPROC. card {k. k < NOFILE \<and> p_ofile (ptable s ! i) ! k = Some f})"
    using o by (intro sum.cong) (auto simp: count_list_eq_length_filter length_filter_conv_card intro: arg_cong [where f = card])
  also have "\<dots> = card (SIGMA i:{..<NPROC}. {k. k < NOFILE \<and> p_ofile (ptable s ! i) ! k = Some f})"
    by simp
  also have "(SIGMA i:{..<NPROC}. {k. k < NOFILE \<and> p_ofile (ptable s ! i) ! k = Some f}) =
      {(i, k). i < NPROC \<and> k < NOFILE \<and> p_ofile (ptable s ! i) ! k = Some f}" by auto
  finally show ?thesis .
qed

text \<open>
  C28: reference counting of open files is exact.  When every count in the file table is the number of
  descriptors of all processes that refer to the file, and processes not in use hold none, then
  it is so after every system call that returns, whichever it is and whether it succeeds or fails: \<open>fork\<close>,
  \<open>exit\<close>, \<open>open\<close>, \<open>dup\<close>, \<open>close\<close>, \<open>pipe\<close> and all others.
\<close>

theorem descriptor_counts:
  assumes "counts_ok s" and "curproc s < NPROC" and "active (this_proc s)" and "syscall elf0 ustack0 s = Ok r t"
  shows "counts_ok t \<and> (\<forall>f<NFILE. f_ref (ftable t f) =
    int (card {(i, k). i < NPROC \<and> k < NOFILE \<and> p_ofile (ptable t ! i) ! k = Some f}))"
proof -
  have "fd_good (fd_view s)" using assms(1-3) fd_tab_nth [of "curproc s" s]
    by (auto simp: fd_good_def fd_view_def counts_ok_def this_proc_def fd_ok_def fd_tab_def)
  then have ok: "counts_ok t" using counts_syscall assms(4) unfolding keeps_counts_def by blast
  then have "\<forall>f<NFILE. refs t f = int (fd_cnt (fd_tab t) f)" by (simp add: counts_ok_def fd_ok_def)
  then show ?thesis using ok fd_cnt_card [of t "refs t"] by (simp add: refs_def counts_ok_def)
qed

text \<open>A kernel with one process that has its descriptor 0 open on file 0, and calls \<open>getpid\<close>.\<close>

definition sample_caller :: cons_st where
  "sample_caller = zero_kernel\<lparr>ptable := no_proc\<lparr>p_state := RUNNING, p_pid := 1, p_ofile := Some 0 # replicate 15 None,
     p_tf := zero_tf\<lparr>tf_eax := 11\<rparr>\<rparr> # replicate 63 no_proc, ftable := (\<lambda>_. zero_file)(0 := zero_file\<lparr>f_ref := 1\<rparr>)\<rparr>"

theorem descriptor_counts_witness:
  "\<exists>t. syscall (\<lambda>_. 0) (\<lambda>_. 0) sample_caller = Ok True t \<and> f_ref (ftable t 0) =
    int (card {(i, k). i < NPROC \<and> k < NOFILE \<and> p_ofile (ptable t ! i) ! k = Some 0})"
proof -
  have T: "fd_tab sample_caller = (Some 0 # replicate 15 None, True) # replicate 63 (replicate 16 None, False)"
    by (simp add: sample_caller_def fd_tab_def active_def no_proc_def)
  have F: "refs sample_caller f = (if f = 0 then 1 else 0)" for f
    by (simp add: sample_caller_def refs_def zero_file_def)
  have "count_list (replicate n None) (Some f) = 0" for n and f :: nat by (induction n) auto
  then have "fd_cnt (fd_tab sample_caller) f = (if f = 0 then 1 else 0)" for f
    by (simp add: T fd_cnt_def sum_list_replicate)
  then have ok: "counts_ok sample_caller"
    by (auto simp: counts_ok_def fd_ok_def T F nth_Cons split: nat.split)
  have p: "curproc sample_caller < NPROC" "active (this_proc sample_caller)" "tf_eax (p_tf (this_proc sample_caller)) = 11"
    by (simp_all add: sample_caller_def this_proc_def active_def)
  have "\<exists>t. syscall (\<lambda>_. 0) (\<lambda>_. 0) sample_caller = Ok True t"
    by (simp add: syscall_def kbind_get p(3) syscalls_def returns_def sys_getpid_def set_eax_def upd_proc_def kmonad)
  then obtain t where t: "syscall (\<lambda>_. 0) (\<lambda>_. 0) sample_caller = Ok True t" ..
  then show ?thesis using descriptor_counts [OF ok p(1,2) t] by auto
qed

end
