(* ===== verification/Proc_Props.thy ===== *)
theory Proc_Props
  imports Fd_Refs
begin

text \<open>
  Properties of scheduling and of the life of processes: the scheduler is fair, the exit of a child is not missed
  by a parent that waits, and an \<open>execve\<close> that fails leaves the process as it was.
\<close>

section \<open>The scheduler\<close>

lemma switchuvm_view:
  "switchuvm p s = Ok x t \<Longrightarrow> ptable t = ptable s \<and> curproc t = curproc s"
  by (auto simp: switchuvm_def kmonad kbind_Ok_iff split: if_splits)

lemma switchuvm_run:
  "switchuvm p s = (if p_pgdir (ptable s ! p) = 0 then Panic ''switchuvm: no pgdir'' else
     Ok () (s\<lparr>cpu_gdt := (cpu_gdt s)(SEG_TSS := (SEG16 0x9 (k_ts s) (TSSIZE - 1) 0)\<lparr>sd_s := 0\<rparr>), cpu_ts_ss0 := SEG_KDATA * 8,
       cpu_ts_esp0 := p_kstack (this_proc s) + KSTACKSIZE, cpu_tr := SEG_TSS * 8, cpu_cr3 := v2p (p_pgdir (ptable s ! p))\<rparr>))"
  by (simp add: switchuvm_def kmonad)

lemma scheduler_scan_view:
  assumes "scheduler_scan i s = Ok r t"
  shows "r = find (\<lambda>p. p_state (ptable s ! p) = RUNNABLE) [i..<NPROC] \<and>
    ptable t = (case r of None \<Rightarrow> ptable s | Some p \<Rightarrow> (ptable s)[p := (ptable s ! p)\<lparr>p_state := RUNNING\<rparr>])"
proof (cases "find (\<lambda>p. p_state (ptable s ! p) = RUNNABLE) [i..<NPROC]")
  case None
  then show ?thesis using assms by (auto simp: scheduler_scan_def kbind_Ok_iff kreturn_def release_def split: if_splits)
next
  case (Some p)
  then obtain u where "switchuvm p (s\<lparr>curproc := p\<rparr>) = Ok () u" "t = u\<lparr>ptable := (ptable u)[p := (ptable u ! p)\<lparr>p_state := RUNNING\<rparr>]\<rparr>" "r = Some p"
    using assms by (auto simp: scheduler_scan_def kbind_Ok_iff kreturn_def kmod_def upd_proc_def)
  then show ?thesis using switchuvm_view Some by fastforce
qed

text \<open>
  A run of the scheduler from a moment when it starts a scan or process \<open>p\<close> switches back to it: the processes it
  switches to, in order, and where it stands.  Between two segments of the scheduler the
  processor runs the chosen process, or interrupt handlers; they may change any process but do not
  make a runnable process anything else.
\<close>

definition runs :: "nat \<Rightarrow> nat option \<Rightarrow> 'a proc_st_scheme \<Rightarrow> 'a proc_st_scheme \<Rightarrow> bool" where
  "runs q p t u \<longleftrightarrow> length (ptable u) = length (ptable t) \<and>
     (p \<noteq> Some q \<longrightarrow> p_state (ptable t ! q) = RUNNABLE \<longrightarrow> p_state (ptable u ! q) = RUNNABLE)"

definition pick :: "nat option \<Rightarrow> nat list" where
  "pick r = (case r of None \<Rightarrow> [] | Some p \<Rightarrow> [p])"

inductive sched_run :: "nat \<Rightarrow> 'a proc_st_scheme \<Rightarrow> nat list \<Rightarrow> nat option \<Rightarrow> 'a proc_st_scheme \<Rightarrow> bool" for q s where
  start: "scheduler_start s = Ok r t \<Longrightarrow> sched_run q s (pick r) r t"
| switch_back: "scheduler_resume p s = Ok r t \<Longrightarrow> p < NPROC \<Longrightarrow> sched_run q s (pick r) r t"
| resume: "sched_run q s ps (Some p) t \<Longrightarrow> runs q (Some p) t u \<Longrightarrow> scheduler_resume p u = Ok r v \<Longrightarrow> sched_run q s (ps @ pick r) r v"
| again: "sched_run q s ps None t \<Longrightarrow> runs q None t u \<Longrightarrow> scheduler_start u = Ok r v \<Longrightarrow> sched_run q s (ps @ pick r) r v"

text \<open>The order in which the scheduler passes the entries, after \<open>q\<close> first and \<open>q\<close> last.\<close>

definition sched_key :: "nat \<Rightarrow> nat \<Rightarrow> nat" where
  "sched_key q p = (if q < p then p - (q + 1) else NPROC - (q + 1) + p)"

definition sched_inv :: "nat \<Rightarrow> nat list \<Rightarrow> nat option \<Rightarrow> 'a proc_st_scheme \<Rightarrow> bool" where
  "sched_inv q ps r t \<longleftrightarrow> length (ptable t) = NPROC \<and> p_state (ptable t ! q) = RUNNABLE \<and>
     sorted_wrt (<) (map (sched_key q) ps) \<and> (\<forall>p\<in>set ps. p < NPROC) \<and>
     (case r of None \<Rightarrow> \<forall>p\<in>set ps. q < p | Some p \<Rightarrow> ps \<noteq> [] \<and> last ps = p)"

lemma scheduler_start_view:
  "scheduler_start s = Ok r t \<Longrightarrow> \<exists>u. ptable u = ptable s \<and> scheduler_scan 0 u = Ok r t"
  by (rule exI [where x = "s\<lparr>held := insert LPtable (held s)\<rparr>"])
    (simp add: scheduler_start_def acquire_def kbind_Ok_iff split: if_splits)

lemma scheduler_resume_view:
  "scheduler_resume p s = Ok r t \<Longrightarrow> \<exists>u. ptable u = ptable s \<and> scheduler_scan (p + 1) u = Ok r t"
  by (rule exI [where x = "s\<lparr>cpu_cr3 := v2p (kpgdir s), curproc := length (ptable s)\<rparr>"])
    (simp add: scheduler_resume_def switchkvm_def kmonad)

lemma find_from:
  assumes "find P [i..<n] = r" and "i \<le> q" and "q < n" and "P q"
  shows "\<exists>p. r = Some p \<and> i \<le> p \<and> p \<le> q"
proof -
  have "r \<noteq> None"
  proof
    assume "r = None"
    then have "\<forall>x\<in>set [i..<n]. \<not> P x" using assms(1) by (auto simp: find_None_iff)
    then show False using assms(2-4) by auto
  qed
  then obtain p where p: "r = Some p" by blast
  obtain j where j: "j < n - i" "p = i + j" "\<And>k. k < j \<Longrightarrow> \<not> P (i + k)"
    using assms(1) p by (auto simp: find_Some_iff)
  have "\<not> q - i < j" using j(3) [of "q - i"] assms(2,4) by auto
  then show ?thesis using p j(2) assms(2) by auto
qed

lemma sched_key_step:
  assumes "x < NPROC" "p < NPROC" "q < NPROC" "p \<noteq> q" "i \<le> p" "i \<le> q \<longrightarrow> p \<le> q"
    "if i = 0 then q < x else i - 1 \<noteq> q \<and> sched_key q x \<le> sched_key q (i - 1)"
  shows "sched_key q x < sched_key q p"
  using assms by (cases "i = 0"; cases "i \<le> q"; cases "q < x"; simp add: sched_key_def split: if_splits; arith?)

lemma sched_scan_pick:
  assumes scan: "scheduler_scan i u = Ok r t"
    and len: "length (ptable u) = NPROC" and q: "q < NPROC" "p_state (ptable u ! q) = RUNNABLE"
    and sorted: "sorted_wrt (<) (map (sched_key q) ps)" and ps: "\<forall>p\<in>set ps. p < NPROC" and other: "q \<notin> set (ps @ pick r)"
    and pos: "if i = 0 then \<forall>p\<in>set ps. q < p else ps \<noteq> [] \<longrightarrow> i - 1 \<noteq> q \<and> i \<le> NPROC \<and> (\<forall>p\<in>set ps. sched_key q p \<le> sched_key q (i - 1))"
  shows "sched_inv q (ps @ pick r) r t"
proof -
  have r: "r = find (\<lambda>p. p_state (ptable u ! p) = RUNNABLE) [i..<NPROC]" using scheduler_scan_view [OF scan] by blast
  have tab: "ptable t = (case r of None \<Rightarrow> ptable u | Some p \<Rightarrow> (ptable u)[p := (ptable u ! p)\<lparr>p_state := RUNNING\<rparr>])"
    using scheduler_scan_view [OF scan] by blast
  show ?thesis
  proof (cases r)
    case None
    have "\<not> i \<le> q" using find_from [OF r [symmetric] _ q(1)] q(2) None by auto
    then have "\<forall>p\<in>set ps. q < p" using pos ps q by (cases "ps = []") (force simp: sched_key_def split: if_splits)+
    then show ?thesis using None tab sorted ps len q by (auto simp: sched_inv_def pick_def)
  next
    case (Some p)
    have "find (\<lambda>p. p_state (ptable u ! p) = RUNNABLE) [i..<NPROC] = Some p" using r Some by simp
    then have p: "i \<le> p" "p < NPROC" by (auto simp: find_Some_iff)
    have "p \<noteq> q" using other Some by (auto simp: pick_def)
    have upto: "i \<le> q \<longrightarrow> p \<le> q" using find_from [OF r [symmetric] _ q(1)] q(2) Some by auto
    have "\<forall>x\<in>set ps. sched_key q x < sched_key q p"
    proof
      fix x
      assume "x \<in> set ps"
      then show "sched_key q x < sched_key q p"
        using sched_key_step [OF _ p(2) q(1) \<open>p \<noteq> q\<close> p(1) upto, of x] pos ps by (cases "i = 0") auto
    qed
    then show ?thesis using Some tab sorted ps p \<open>p \<noteq> q\<close> len q by (auto simp: sched_inv_def pick_def sorted_wrt_append)
  qed
qed

lemma sorted_wrt_last:
  "xs \<noteq> [] \<Longrightarrow> sorted_wrt (<) (map f xs) \<Longrightarrow> \<forall>x\<in>set xs. f x \<le> (f (last xs) :: nat)"
  by (induction xs) (auto dest: last_in_set intro: less_imp_le)

lemma sched_run_inv:
  assumes "sched_run q s ps r t" and "q < NPROC" and "length (ptable s) = NPROC" and "p_state (ptable s ! q) = RUNNABLE"
  shows "q \<notin> set ps \<Longrightarrow> sched_inv q ps r t"
  using assms
proof induction
  case (start r t)
  then obtain u where "ptable u = ptable s" "scheduler_scan 0 u = Ok r t" using scheduler_start_view by blast
  then show ?case using sched_scan_pick [of 0 u r t q "[]"] start by simp
next
  case (switch_back p r t)
  then obtain u where "ptable u = ptable s" "scheduler_scan (p + 1) u = Ok r t" using scheduler_resume_view by blast
  then show ?case using sched_scan_pick [of "p + 1" u r t q "[]"] switch_back by simp
next
  case (resume ps p t u r v)
  obtain w where w: "ptable w = ptable u" "scheduler_scan (p + 1) w = Ok r v" using resume.hyps(3) scheduler_resume_view by blast
  have q: "q \<notin> set ps" using resume.prems by simp
  have inv: "sched_inv q ps (Some p) t" using resume.IH [OF q] resume.prems by blast
  then have ps: "ps \<noteq> []" "last ps = p" "sorted_wrt (<) (map (sched_key q) ps)" "\<forall>x\<in>set ps. x < NPROC" by (auto simp: sched_inv_def)
  have p: "p \<noteq> q" "p < NPROC" using ps q last_in_set [OF ps(1)] by auto
  have u: "length (ptable w) = NPROC" "p_state (ptable w ! q) = RUNNABLE" using inv p resume.hyps(2) w(1) by (auto simp: sched_inv_def runs_def)
  have "\<forall>x\<in>set ps. sched_key q x \<le> sched_key q p" using sorted_wrt_last [OF ps(1,3)] ps(2) by simp
  then show ?case using sched_scan_pick [OF w(2) u(1) _ u(2) ps(3,4)] p resume.prems by simp
next
  case (again ps t u r v)
  obtain w where w: "ptable w = ptable u" "scheduler_scan 0 w = Ok r v" using again.hyps(3) scheduler_start_view by blast
  have "sched_inv q ps None t" using again.IH again.prems by simp
  then have "length (ptable w) = NPROC" "p_state (ptable w ! q) = RUNNABLE" "sorted_wrt (<) (map (sched_key q) ps)" "\<forall>x\<in>set ps. x < NPROC" "\<forall>x\<in>set ps. q < x"
    using again.hyps(2) w(1) by (simp_all add: sched_inv_def runs_def)
  then show ?case using sched_scan_pick [OF w(2), of q ps] again.prems by simp
qed

lemma sched_key_less: "p < NPROC \<Longrightarrow> q < NPROC \<Longrightarrow> p \<noteq> q \<Longrightarrow> sched_key q p < NPROC - 1"
  by (auto simp: sched_key_def)

lemma sorted_below_length: "sorted_wrt (<) (xs :: nat list) \<Longrightarrow> \<forall>x\<in>set xs. x < n \<Longrightarrow> length xs \<le> n"
  using card_mono [of "{..<n}" "set xs"] distinct_card [of xs] by (auto simp: strict_sorted_iff)

lemma scheduler_start_picks:
  assumes "LPtable \<notin> held s" and "q < NPROC" and "p_state (ptable s ! q) = RUNNABLE"
    and "\<forall>p<NPROC. p_state (ptable s ! p) = RUNNABLE \<longrightarrow> p_pgdir (ptable s ! p) \<noteq> 0"
  shows "\<exists>p t. scheduler_start s = Ok (Some p) t"
proof -
  obtain p where p: "find (\<lambda>p. p_state (ptable s ! p) = RUNNABLE) [0..<NPROC] = Some p"
    using find_from [of "\<lambda>p. p_state (ptable s ! p) = RUNNABLE" 0 NPROC _ q] assms(2,3) by auto
  then have "p < NPROC" "p_state (ptable s ! p) = RUNNABLE" by (auto simp: find_Some_iff)
  then have "p_pgdir (ptable s ! p) \<noteq> 0" using assms(4) by blast
  then show ?thesis using p assms(1)
    by (simp add: scheduler_start_def scheduler_scan_def switchuvm_def upd_proc_def acquire_def kmonad)
qed

text \<open> C29: the scheduler is fair. From any moment at which it starts a scan or a process switches back to it, a process that
  is runnable is among the next \<open>NPROC\<close> processes it switches to, whatever the other
  processes do meanwhile short of changing that process; and a scan started while some process is runnable does switch to one.\<close>

theorem scheduler_fair:
  assumes "q < NPROC" and "length (ptable s) = NPROC" and "p_state (ptable s ! q) = RUNNABLE"
  shows "(\<forall>ps r t. sched_run q s ps r t \<longrightarrow> NPROC \<le> length ps \<longrightarrow> q \<in> set ps) \<and>
    (LPtable \<notin> held s \<longrightarrow> (\<forall>p<NPROC. p_state (ptable s ! p) = RUNNABLE \<longrightarrow> p_pgdir (ptable s ! p) \<noteq> 0) \<longrightarrow>
      (\<exists>p t. scheduler_start s = Ok (Some p) t \<and> sched_run q s [p] (Some p) t))"
proof (intro conjI allI impI)
  fix ps r t
  assume run: "sched_run q s ps r t" and n: "NPROC \<le> length ps"
  show "q \<in> set ps"
  proof (rule ccontr)
    assume q: "q \<notin> set ps"
    then have inv: "sched_inv q ps r t" using sched_run_inv run assms by blast
    have "\<forall>k\<in>set (map (sched_key q) ps). k < NPROC - 1"
      using inv q assms(1) sched_key_less by (fastforce simp: sched_inv_def)
    then have "length (map (sched_key q) ps) \<le> NPROC - 1" using inv by (intro sorted_below_length) (simp_all add: sched_inv_def)
    then show False using n by simp
  qed
next
  assume "LPtable \<notin> held s" "\<forall>p<NPROC. p_state (ptable s ! p) = RUNNABLE \<longrightarrow> p_pgdir (ptable s ! p) \<noteq> 0"
  then obtain p t where "scheduler_start s = Ok (Some p) t" using scheduler_start_picks assms by blast
  then show "\<exists>p t. scheduler_start s = Ok (Some p) t \<and> sched_run q s [p] (Some p) t"
    using sched_run.start [of s "Some p" t q] by (auto simp: pick_def)
qed

definition sample_ready :: cons_st where
  "sample_ready = zero_kernel\<lparr>ptable := (ptable zero_kernel)[5 := no_proc\<lparr>p_state := RUNNABLE, p_pgdir := 0x80400000\<rparr>]\<rparr>"

theorem scheduler_fair_witness:
  "\<exists>p t. scheduler_start sample_ready = Ok (Some p) t \<and> sched_run 5 sample_ready [p] (Some p) t"
proof -
  have "p_state (ptable sample_ready ! 5) = RUNNABLE" "length (ptable sample_ready) = NPROC" "LPtable \<notin> held sample_ready"
    by (simp_all add: sample_ready_def)
  moreover have "\<forall>p<NPROC. p_state (ptable sample_ready ! p) = RUNNABLE \<longrightarrow> p_pgdir (ptable sample_ready ! p) \<noteq> 0"
    by (auto simp: sample_ready_def nth_list_update no_proc_def)
  ultimately show ?thesis using scheduler_fair [of 5 sample_ready] by auto
qed

section \<open>Exit and wait\<close>

definition waiting :: "proc list \<Rightarrow> nat \<Rightarrow> bool" where
  "waiting T p \<longleftrightarrow> p_state (T ! p) = SLEEPING \<and> p_chan (T ! p) = Some (ChProc p)"

definition zombie_of :: "proc list \<Rightarrow> nat \<Rightarrow> nat \<Rightarrow> bool" where
  "zombie_of T p c \<longleftrightarrow> p_parent (T ! c) = Some p \<and> p_state (T ! c) = ZOMBIE"

text \<open>No process sleeps in \<open>wait\<close> while it has a child that has ended.\<close>

definition wait_ok :: "proc list \<Rightarrow> bool" where
  "wait_ok T \<longleftrightarrow> length T = NPROC \<and> (\<forall>p<NPROC. \<forall>c<NPROC. waiting T p \<longrightarrow> \<not> zombie_of T p c)"

text \<open>Same family and same states, but for processes that were woken.\<close>

definition alike :: "proc \<Rightarrow> proc \<Rightarrow> bool" where
  "alike p q \<longleftrightarrow> p_parent q = p_parent p \<and> p_pid q = p_pid p \<and> p_chan q = p_chan p \<and>
     (p_state q = p_state p \<or> p_state p = SLEEPING \<and> p_state q = RUNNABLE)"

lemma alike_refl [simp]: "alike p p"
  by (simp add: alike_def)

lemma alike_trans: "alike p q \<Longrightarrow> alike q r \<Longrightarrow> alike p r"
  by (auto simp: alike_def)

definition same_life :: "'a proc_st_scheme \<Rightarrow> 'a proc_st_scheme \<Rightarrow> bool" where
  "same_life s t \<longleftrightarrow> list_all2 alike (ptable s) (ptable t) \<and> curproc t = curproc s \<and> initproc t = initproc s"

interpretation lf: preorder_relation same_life
proof
  show "same_life s s" for s :: "'a proc_st_scheme" by (simp add: same_life_def alike_def list_all2_refl)
  show "same_life s t \<Longrightarrow> same_life t u \<Longrightarrow> same_life s u" for s t u :: "'a proc_st_scheme"
    using list_all2_trans [of alike alike alike "ptable s" "ptable t" "ptable u"] alike_trans by (auto simp: same_life_def)
qed

declare lf.composed [keeps]

lemma life_quiet: "keeps quiet m \<Longrightarrow> keeps same_life m"
  by (fastforce simp: keeps_def ends_def quiet_def same_life_def woken_def alike_def elim!: list_all2_mono)

lemma life_upd: "(\<And>p. alike p (u p)) \<Longrightarrow> keeps same_life (upd_proc i u)"
proof (unfold upd_proc_def, rule lf.modify)
  fix s :: "'a proc_st_scheme"
  assume "\<And>p. alike p (u p)"
  then show "same_life s (s\<lparr>ptable := (ptable s)[i := u (ptable s ! i)]\<rparr>)"
    by (cases "i < length (ptable s)") (auto simp: same_life_def list_all2_conv_all_nth nth_list_update alike_refl)
qed

lemma life_upd_file [keeps]: "keeps same_life (upd_file f u)"
  unfolding upd_file_def by (rule lf.modify) (simp add: same_life_def list_all2_refl alike_def)

lemma life_upd_pipe [keeps]: "keeps same_life (upd_pipe p u)"
  unfolding upd_pipe_def by (rule lf.modify) (simp add: same_life_def list_all2_refl)

lemma life_get [keeps]: "keeps same_life (get_pipe p)" "keeps same_life (get_file f)"
  by (unfold get_pipe_def get_file_def, (rule keeps)+)

lemma life_pipeclose [keeps]: "keeps same_life (pipeclose p w)"
  unfolding pipeclose_def by (rule keeps | (rule life_quiet, rule keeps))+

lemma keeps_fdtype [keeps]:
  "keeps R l \<Longrightarrow> keeps R m \<Longrightarrow> keeps R n \<Longrightarrow> keeps R (case x of FD_NONE \<Rightarrow> l | FD_PIPE \<Rightarrow> m | FD_INODE \<Rightarrow> n)"
  by (cases x) auto

lemma life_fileclose [keeps]: "keeps same_life (fileclose f)"
  unfolding fileclose_def by (rule keeps | (rule life_quiet, rule keeps) | (rule keepsI))+

lemma life_exit_close [keeps]: "keeps same_life exit_close"
  unfolding exit_close_def by (rule keeps | (rule life_quiet, rule keeps) | (rule life_upd, simp add: alike_def))+

lemma wait_ok_alike: "list_all2 alike T U \<Longrightarrow> wait_ok T \<Longrightarrow> wait_ok U"
  unfolding wait_ok_def waiting_def zombie_of_def list_all2_conv_all_nth alike_def
  by (metis procstate.distinct)

text \<open>The wakeups of \<open>exit\<close>, of a process that may be null.\<close>

definition wake_tab :: "nat option \<Rightarrow> proc list \<Rightarrow> proc list" where
  "wake_tab q T = map (\<lambda>p. if p_state p = SLEEPING \<and> p_chan p = map_option ChProc q then p\<lparr>p_state := RUNNABLE\<rparr> else p) T"

lemma wakeup_proc_run: "wakeup_proc q s = Ok () (s\<lparr>ptable := wake_tab q (ptable s)\<rparr>)"
  by (cases q) (simp_all add: wakeup_proc_def wakeup1_def wakeup1_tab_def wake_tab_def kmonad)

lemma wake_tab_alike: "list_all2 alike T (wake_tab q T)"
  by (auto simp: wake_tab_def list_all2_conv_all_nth alike_def)

lemma wake_tab_waiting: "p < length T \<Longrightarrow> \<not> waiting (wake_tab (Some p) T) p"
  by (auto simp: wake_tab_def waiting_def)

lemma alike_not_waiting: "list_all2 alike T U \<Longrightarrow> p < length T \<Longrightarrow> \<not> waiting T p \<Longrightarrow> \<not> waiting U p"
  by (auto simp: list_all2_conv_all_nth alike_def waiting_def)

text \<open>The children of a process that ends go to the first process.\<close>

definition exit_loop :: "nat \<Rightarrow> nat option \<Rightarrow> nat option \<Rightarrow> nat \<Rightarrow> 'a proc_st_scheme \<Rightarrow> bool" where
  "exit_loop c par ini n v \<longleftrightarrow> wait_ok (ptable v) \<and> p_parent (ptable v ! c) = par \<and> p_state (ptable v ! c) = RUNNING \<and>
     (\<forall>p<NPROC. par = Some p \<longrightarrow> \<not> waiting (ptable v) p) \<and> (\<forall>i<n. p_parent (ptable v ! i) \<noteq> Some c) \<and> curproc v = c"

lemma exit_loop_alike:
  assumes "exit_loop c par ini n v" and "list_all2 alike (ptable v) T" and "n \<le> NPROC" and "c < NPROC"
  shows "exit_loop c par ini n (v\<lparr>ptable := T\<rparr>)"
proof -
  have "length (ptable v) = NPROC" using assms(1) by (simp add: exit_loop_def wait_ok_def)
  then show ?thesis using assms wait_ok_alike [OF assms(2)] alike_not_waiting [OF assms(2)]
    by (auto simp: exit_loop_def list_all2_conv_all_nth alike_def)
qed

definition adopt :: "nat option \<Rightarrow> nat \<Rightarrow> proc list \<Rightarrow> proc list" where
  "adopt ini i T = T[i := (T ! i)\<lparr>p_parent := ini\<rparr>]"

lemma adopt_wait_ok:
  assumes "wait_ok T" and "i < NPROC"
  shows "p_state (T ! i) \<noteq> ZOMBIE \<Longrightarrow> wait_ok (adopt ini i T)" "wait_ok (wake_tab ini (adopt ini i T))"
  using assms by (auto simp: wait_ok_def waiting_def zombie_of_def nth_list_update adopt_def wake_tab_def split: if_splits)

lemma adopt_loop:
  assumes inv: "exit_loop c par ini i v" and i: "i < NPROC" "i \<noteq> c" and c: "c < NPROC" and ini: "ini \<noteq> Some c"
    and ok: "wait_ok T" and T: "T = adopt ini i (ptable v) \<or> T = wake_tab ini (adopt ini i (ptable v))"
  shows "exit_loop c par ini (Suc i) (v\<lparr>ptable := T\<rparr>)"
proof -
  have len: "length (ptable v) = NPROC" using inv by (simp add: exit_loop_def wait_ok_def)
  then have T_at: "p_parent (T ! j) = (if j = i then ini else p_parent (ptable v ! j)) \<and> p_chan (T ! j) = p_chan (ptable v ! j) \<and>
      (p_state (T ! j) = p_state (ptable v ! j) \<or> p_state (ptable v ! j) = SLEEPING \<and> p_state (T ! j) = RUNNABLE)" if "j < NPROC" for j
    using that T i by (auto simp: adopt_def wake_tab_def nth_list_update split: if_splits)
  have "\<not> waiting T p" if "p < NPROC" "par = Some p" for p
    using inv T_at [OF that(1)] that by (auto simp: exit_loop_def waiting_def)
  moreover have "p_parent (T ! j) \<noteq> Some c" if "j < Suc i" for j
    using inv T_at [of j] that i ini by (auto simp: exit_loop_def less_Suc_eq)
  ultimately show ?thesis using inv T_at [OF c] i ok by (auto simp: exit_loop_def)
qed

lemma exit_body:
  assumes inv: "exit_loop c par ini i u" and i: "i < NPROC" and c: "c < NPROC" "par \<noteq> Some c" and ini: "ini \<noteq> Some c"
    and run: "kbind (kget (\<lambda>s. ptable s ! i)) (\<lambda>p. kwhen (p_parent p = Some c)
         (kseq (upd_proc i (\<lambda>p. p\<lparr>p_parent := ini\<rparr>)) (kwhen (p_state p = ZOMBIE) (wakeup_proc ini)))) u = Ok y v"
  shows "exit_loop c par ini (Suc i) v"
proof (cases "p_parent (ptable u ! i) = Some c")
  case True
  then have "i \<noteq> c" using inv c by (auto simp: exit_loop_def)
  have ok: "wait_ok (ptable u)" using inv by (simp add: exit_loop_def)
  have "v = u\<lparr>ptable := if p_state (ptable u ! i) = ZOMBIE then wake_tab ini (adopt ini i (ptable u)) else adopt ini i (ptable u)\<rparr>"
    using run True by (auto simp: kbind_get kwhen_def kbind_Ok_iff upd_proc_def kmod_def wakeup_proc_run kreturn_def adopt_def split: if_splits)
  then show ?thesis
    using adopt_loop [OF inv i \<open>i \<noteq> c\<close> c(1) ini, of "ptable v"] adopt_wait_ok [OF ok i, of ini] by (auto split: if_splits)
next
  case False
  then have "v = u" using run by (simp add: kbind_get kwhen_def kreturn_def)
  then show ?thesis using inv False by (auto simp: exit_loop_def less_Suc_eq)
qed

lemma wait_ok_zombie:
  assumes "exit_loop c par ini NPROC v" and "c < NPROC"
  shows "wait_ok ((ptable v)[c := (ptable v ! c)\<lparr>p_state := ZOMBIE\<rparr>])"
  using assms by (auto simp: exit_loop_def wait_ok_def waiting_def zombie_of_def nth_list_update split: if_splits)

lemma exit_zombie_ends:
  fixes s t :: "'a proc_st_scheme"
  assumes ok: "wait_ok (ptable s)" and c: "curproc s = c" "c < NPROC" "p_state (ptable s ! c) = RUNNING"
    and par: "p_parent (ptable s ! c) = par" "par \<noteq> Some c" and ini: "initproc s \<noteq> Some c" and run: "exit_zombie s = Ok x t"
  shows "wait_ok (ptable t) \<and> p_state (ptable t ! c) = ZOMBIE \<and> (\<forall>i<NPROC. p_parent (ptable t ! i) \<noteq> Some c) \<and>
    (\<forall>p<NPROC. par = Some p \<longrightarrow> \<not> waiting (ptable t) p)"
proof -
  have len: "length (ptable s) = NPROC" using ok by (simp add: wait_ok_def)
  let ?u = "s\<lparr>held := insert LPtable (held s), ptable := wake_tab par (ptable s)\<rparr>"
  define body :: "nat \<Rightarrow> ('a proc_st_scheme, chan, unit) km" where
    "body = (\<lambda>i. kbind (kget (\<lambda>s. ptable s ! i)) (\<lambda>p. kwhen (p_parent p = Some c)
         (kseq (upd_proc i (\<lambda>p. p\<lparr>p_parent := initproc s\<rparr>)) (kwhen (p_state p = ZOMBIE) (wakeup_proc (initproc s))))))"
  have "kseq (acquire LPtable) (kseq (kbind (kget (\<lambda>s. p_parent (ptable s ! c))) wakeup_proc)
      (kseq (kfor [0..<NPROC] body) (kseq (upd_proc c (\<lambda>p. p\<lparr>p_state := ZOMBIE\<rparr>)) sched_enter))) s = Ok x t"
    using run by (simp only: exit_zombie_def kbind_get c(1) body_def)
  then obtain u v w k l m where u: "acquire LPtable s = Ok k u" "kbind (kget (\<lambda>s. p_parent (ptable s ! c))) wakeup_proc u = Ok l v"
    "kfor [0..<NPROC] body v = Ok m w" "kseq (upd_proc c (\<lambda>p. p\<lparr>p_state := ZOMBIE\<rparr>)) sched_enter w = Ok x t"
    unfolding kbind_Ok_iff by blast
  have "v = ?u" using u(1,2) par by (auto simp: acquire_def kbind_get wakeup_proc_run split: if_splits)
  then have v: "kfor [0..<NPROC] body ?u = Ok m w" using u(3) by simp
  have "w\<lparr>ptable := (ptable w)[c := (ptable w ! c)\<lparr>p_state := ZOMBIE\<rparr>]\<rparr> = t"
    using u(4) by (simp add: kbind_Ok_iff upd_proc_def kmod_def sched_enter_def split: if_splits)
  then have t: "ptable t = (ptable w)[c := (ptable w ! c)\<lparr>p_state := ZOMBIE\<rparr>]" by auto
  have "exit_loop c par (initproc s) 0 ?u"
    using wait_ok_alike [OF wake_tab_alike ok] wake_tab_waiting len c par by (auto simp: exit_loop_def wake_tab_def)
  then have inv: "exit_loop c par (initproc s) NPROC w"
    using kfor_Ok [where P = "exit_loop c par (initproc s)", OF v] exit_body [OF _ _ c(2) par(2) ini] unfolding body_def by blast
  then show ?thesis using wait_ok_zombie [OF inv c(2)] t c
    by (auto simp: exit_loop_def wait_ok_def waiting_def nth_list_update)
qed

lemma wait_ok_reap:
  assumes "wait_ok T" and "i < NPROC"
  shows "wait_ok (T[i := (T ! i)\<lparr>p_state := UNUSED, p_pid := 0, p_parent := None, p_name := n, p_killed := False\<rparr>])"
  using assms by (auto simp: wait_ok_def waiting_def zombie_of_def nth_list_update split: if_splits)

lemma wait_ok_sleep:
  assumes "wait_ok T" and "i < NPROC" and "\<forall>c<NPROC. \<not> zombie_of T i c"
  shows "wait_ok (T[i := (T ! i)\<lparr>p_chan := k, p_state := SLEEPING\<rparr>])"
  using assms by (auto simp: wait_ok_def waiting_def zombie_of_def nth_list_update split: if_splits)

lemma wait_reap:
  assumes ok: "wait_ok (ptable s)" and i: "find (\<lambda>i. p_parent (ptable s ! i) = Some (curproc s) \<and> p_state (ptable s ! i) = ZOMBIE) [0..<NPROC] = Some i"
    and run: "wait_round s = Ok r t"
  shows "wait_ok (ptable t) \<and> i < NPROC \<and> zombie_of (ptable s) (curproc s) i \<and> r = Inr (p_pid (ptable s ! i)) \<and> p_state (ptable t ! i) = UNUSED"
proof -
  let ?k = "p_kstack (ptable s ! i)" and ?d = "p_pgdir (ptable s ! i)"
  have i': "i < NPROC" "zombie_of (ptable s) (curproc s) i" using i by (auto simp: find_Some_iff zombie_of_def)
  obtain u x where u: "kseq (kfree ?k) (kseq (upd_proc i (\<lambda>p. p\<lparr>p_kstack := 0\<rparr>)) (freevm ?d)) s = Ok x u"
    and t: "kseq (upd_proc i (\<lambda>p. p\<lparr>p_state := UNUSED, p_pid := 0, p_parent := None, p_name := (p_name p)(0 := 0), p_killed := False\<rparr>))
         (kseq (release LPtable) (kreturn (Inr (p_pid (ptable s ! i))))) u = Ok r t"
    using run unfolding wait_round_def Let_def i option.case kbind_Ok_iff by blast
  have k: "keeps same_life (kseq (kfree ?k) (kseq (upd_proc i (\<lambda>p. p\<lparr>p_kstack := 0\<rparr>)) (freevm ?d)))"
    by (rule keeps | (rule life_quiet, rule keeps) | (rule life_upd, simp add: alike_def))+
  have "same_life s u" by (rule keepsD [OF k u])
  then have "wait_ok (ptable u)" "length (ptable u) = NPROC"
    using ok wait_ok_alike by (auto simp: same_life_def wait_ok_def list_all2_lengthD)
  then show ?thesis using t i' wait_ok_reap [OF _ i'(1)]
    by (auto simp: kbind_Ok_iff upd_proc_def kmod_def release_def kreturn_def split: if_splits)
qed

lemma sleep_enter_tab:
  assumes "sleep_enter k LPtable s = Ok x t" and "curproc s = c" and "c < length (ptable s)"
  shows "ptable t = (ptable s)[c := (ptable s ! c)\<lparr>p_chan := Some k, p_state := SLEEPING\<rparr>]"
proof -
  have "s\<lparr>ptable := (ptable s)[c := (ptable s ! c)\<lparr>p_chan := Some k, p_state := SLEEPING\<rparr>]\<rparr> = t"
    using assms by (simp add: sleep_enter_def sched_enter_def upd_proc_def kmonad no_curproc_def split: if_splits)
  then show ?thesis by auto
qed

lemma wait_round_ends:
  assumes ok: "wait_ok (ptable s)" and c: "curproc s = c" "c < NPROC" and run: "wait_round s = Ok r t"
  shows "wait_ok (ptable t) \<and> (case r of
     Inl _ \<Rightarrow> waiting (ptable t) c \<and> (\<exists>i<NPROC. p_parent (ptable s ! i) = Some c)
   | Inr q \<Rightarrow> (\<exists>i<NPROC. zombie_of (ptable s) c i \<and> q = p_pid (ptable s ! i) \<and> p_state (ptable t ! i) = UNUSED) \<or>
       q = -1 \<and> (\<forall>i<NPROC. \<not> zombie_of (ptable s) c i) \<and>
         ((\<forall>i<NPROC. p_parent (ptable s ! i) \<noteq> Some c) \<or> p_killed (ptable s ! c)))"
proof (cases "find (\<lambda>i. p_parent (ptable s ! i) = Some (curproc s) \<and> p_state (ptable s ! i) = ZOMBIE) [0..<NPROC]")
  case (Some i)
  then show ?thesis using wait_reap [OF ok Some run] c by auto
next
  case None
  then have none: "\<forall>i<NPROC. \<not> zombie_of (ptable s) c i" using c by (auto simp: find_None_iff zombie_of_def)
  have len: "length (ptable s) = NPROC" using ok by (simp add: wait_ok_def)
  show ?thesis
  proof (cases "\<not> list_ex (\<lambda>i. p_parent (ptable s ! i) = Some (curproc s)) [0..<NPROC] \<or> p_killed (this_proc s)")
    case True
    then have "kseq (release LPtable) (kreturn (Inr (-1))) s = Ok r t" using run None by (simp only: wait_round_def Let_def option.case if_True)
    then have "r = Inr (-1)" "ptable t = ptable s" by (auto simp: kbind_Ok_iff release_def kreturn_def split: if_splits)
    then show ?thesis using True ok c none by (auto simp: list_ex_iff this_proc_def simp del: upt_rec_numeral)
  next
    case False
    then have "kseq (sleep_enter (ChProc c) LPtable) (kreturn (Inl ())) s = Ok r t"
      using run None c(1) by (simp only: wait_round_def Let_def option.case if_False)
    then have "r = Inl ()" "ptable t = (ptable s)[c := (ptable s ! c)\<lparr>p_chan := Some (ChProc c), p_state := SLEEPING\<rparr>]"
      using sleep_enter_tab [of "ChProc c" s _ _ c] c len by (auto simp: kbind_Ok_iff kreturn_def)
    then show ?thesis using False wait_ok_sleep [OF ok c(2) none] c len
      by (auto simp: list_ex_iff waiting_def simp del: upt_rec_numeral)
  qed
qed

lemma wait_call_round:
  assumes ok: "wait_ok (ptable s)" and c: "curproc s = c" "c < NPROC" "p_state (ptable s ! c) = RUNNING"
    and run: "wait_start s = Ok r t \<or> wait_resume s = Ok r t"
  obtains u where "wait_round u = Ok r t" "wait_ok (ptable u)" "curproc u = c"
    "\<And>i. p_parent (ptable u ! i) = p_parent (ptable s ! i) \<and> p_state (ptable u ! i) = p_state (ptable s ! i) \<and>
       p_pid (ptable u ! i) = p_pid (ptable s ! i) \<and> p_killed (ptable u ! i) = p_killed (ptable s ! i)"
  using run
proof
  assume "wait_start s = Ok r t"
  then show thesis using that [of "s\<lparr>held := insert LPtable (held s)\<rparr>"] ok c
    by (simp add: wait_start_def acquire_def kbind_Ok_iff split: if_splits)
next
  assume "wait_resume s = Ok r t"
  then have "wait_round (s\<lparr>ptable := (ptable s)[c := (ptable s ! c)\<lparr>p_chan := None\<rparr>]\<rparr>) = Ok r t"
    using c by (simp add: wait_resume_def sleep_leave_def upd_proc_def kmonad)
  then show thesis using ok c by - (erule that, auto simp: wait_ok_def waiting_def zombie_of_def nth_list_update split: if_splits)
qed

text \<open> C30: the exit of a child is never missed. A process that ends becomes a zombie without children, and its parent no longer
  sleeps in \<open>wait\<close>; \<open>wait\<close> sleeps only when the caller has children and none
  has ended, returns the number of an ended child and frees its entry when there is one, and returns -1 only for a caller without
  children or killed. Both keep the invariant that nobody sleeps in \<open>wait\<close> while a child of theirs has ended, also
  for the first process, which inherits ended children.\<close>

theorem exit_wait_no_lost_wakeup:
  assumes ok: "wait_ok (ptable s)" and c: "curproc s = c" "c < NPROC" "p_state (ptable s ! c) = RUNNING"
    and par: "p_parent (ptable s ! c) \<noteq> Some c"
  shows "(\<forall>t. exit s = Ok () t \<longrightarrow> wait_ok (ptable t) \<and> p_state (ptable t ! c) = ZOMBIE \<and>
      (\<forall>i<NPROC. p_parent (ptable t ! i) \<noteq> Some c) \<and>
      (\<forall>p<NPROC. p_parent (ptable s ! c) = Some p \<longrightarrow> \<not> waiting (ptable t) p)) \<and>
    (\<forall>r t. wait_start s = Ok r t \<or> wait_resume s = Ok r t \<longrightarrow> wait_ok (ptable t) \<and> (case r of
       Inl _ \<Rightarrow> waiting (ptable t) c \<and> (\<exists>i<NPROC. p_parent (ptable s ! i) = Some c)
     | Inr q \<Rightarrow> (\<exists>i<NPROC. zombie_of (ptable s) c i \<and> q = p_pid (ptable s ! i) \<and> p_state (ptable t ! i) = UNUSED) \<or>
         q = -1 \<and> (\<forall>i<NPROC. \<not> zombie_of (ptable s) c i) \<and>
           ((\<forall>i<NPROC. p_parent (ptable s ! i) \<noteq> Some c) \<or> p_killed (ptable s ! c))))"
proof (intro conjI allI impI)
  fix t
  assume run: "exit s = Ok () t"
  then obtain u where u: "exit_close s = Ok () u" "exit_zombie u = Ok () t" by (auto simp: exit_def kbind_Ok_iff)
  have ini: "initproc s \<noteq> Some c" using u(1) c(1) by (auto simp: exit_close_def kbind_get kpanic_def)
  have life: "list_all2 alike (ptable s) (ptable u)" "curproc u = c" "initproc u = initproc s"
    using keepsD [OF life_exit_close u(1)] c by (simp_all add: same_life_def)
  moreover have "c < length (ptable s)" using ok c by (simp add: wait_ok_def)
  ultimately have "p_state (ptable u ! c) = RUNNING" "p_parent (ptable u ! c) = p_parent (ptable s ! c)"
    using c by (auto simp: list_all2_conv_all_nth alike_def)
  note e = exit_zombie_ends [OF wait_ok_alike [OF life(1) ok] life(2) c(2) this par _ u(2)]
  show "wait_ok (ptable t)" "p_state (ptable t ! c) = ZOMBIE" using e ini life(3) by auto
  show "p_parent (ptable t ! i) \<noteq> Some c" if "i < NPROC" for i using e ini life(3) that by auto
  show "\<not> waiting (ptable t) p" if "p < NPROC" "p_parent (ptable s ! c) = Some p" for p using e ini life(3) that by auto
next
  fix r t
  assume "wait_start s = Ok r t \<or> wait_resume s = Ok r t"
  then obtain u where u: "wait_round u = Ok r t" "wait_ok (ptable u)" "curproc u = c"
    "\<And>i. p_parent (ptable u ! i) = p_parent (ptable s ! i) \<and> p_state (ptable u ! i) = p_state (ptable s ! i) \<and>
       p_pid (ptable u ! i) = p_pid (ptable s ! i) \<and> p_killed (ptable u ! i) = p_killed (ptable s ! i)"
    using wait_call_round [OF ok c] by blast
  note e = wait_round_ends [OF u(2,3) c(2) u(1)]
  show "wait_ok (ptable t)" using e by blast
  show "case r of
       Inl _ \<Rightarrow> waiting (ptable t) c \<and> (\<exists>i<NPROC. p_parent (ptable s ! i) = Some c)
     | Inr q \<Rightarrow> (\<exists>i<NPROC. zombie_of (ptable s) c i \<and> q = p_pid (ptable s ! i) \<and> p_state (ptable t ! i) = UNUSED) \<or>
         q = -1 \<and> (\<forall>i<NPROC. \<not> zombie_of (ptable s) c i) \<and>
           ((\<forall>i<NPROC. p_parent (ptable s ! i) \<noteq> Some c) \<or> p_killed (ptable s ! c))"
    using e u(4) by (cases r) (simp_all add: zombie_of_def)
qed

definition sample_parent :: cons_st where
  "sample_parent = zero_kernel\<lparr>curproc := 3, ptable := (ptable zero_kernel)[3 := no_proc\<lparr>p_state := RUNNING\<rparr>,
     7 := no_proc\<lparr>p_state := RUNNABLE, p_parent := Some 3\<rparr>]\<rparr>"

theorem exit_wait_no_lost_wakeup_witness:
  "\<exists>t. wait_start sample_parent = Ok (Inl ()) t \<and> wait_ok (ptable t) \<and> waiting (ptable t) 3"
proof -
  have ok: "wait_ok (ptable sample_parent)" "curproc sample_parent = 3" "p_state (ptable sample_parent ! 3) = RUNNING"
    "p_parent (ptable sample_parent ! 3) \<noteq> Some 3"
    by (auto simp: sample_parent_def wait_ok_def waiting_def zombie_of_def no_proc_def nth_list_update)
  have "case wait_start sample_parent of Ok (Inl _) t \<Rightarrow> True | _ \<Rightarrow> False"
    by code_simp
  then have "\<exists>t. wait_start sample_parent = Ok (Inl ()) t" by (auto split: kres.splits sum.splits)
  then show ?thesis using exit_wait_no_lost_wakeup [OF ok(1,2) _ ok(3,4)] by fastforce
qed

section \<open>Execve\<close>

text \<open>
  What \<open>execve\<close> keeps of the process table: of other processes everything but sleep, of the calling process what is not part
  of its image: number, parent, open files, directory, kernel stack.
\<close>

definition kept_by_exec :: "proc \<Rightarrow> proc \<Rightarrow> bool" where
  "kept_by_exec p q \<longleftrightarrow> p_pid q = p_pid p \<and> p_parent q = p_parent p \<and> p_ofile q = p_ofile p \<and> p_cwd q = p_cwd p \<and>
     p_kstack q = p_kstack p \<and> p_killed q = p_killed p \<and> p_chan q = p_chan p \<and>
     (p_state q = p_state p \<or> p_state p = SLEEPING \<and> p_state q = RUNNABLE)"

definition exec_frame :: "'a proc_st_scheme \<Rightarrow> 'a proc_st_scheme \<Rightarrow> bool" where
  "exec_frame s t \<longleftrightarrow> curproc t = curproc s \<and> ftable t = ftable s \<and> length (ptable t) = length (ptable s) \<and>
     (\<forall>i<length (ptable s). if i = curproc s then kept_by_exec (ptable s ! i) (ptable t ! i)
        else ptable t ! i = ptable s ! i \<or>
          p_state (ptable s ! i) = SLEEPING \<and> ptable t ! i = (ptable s ! i)\<lparr>p_state := RUNNABLE\<rparr>)"

interpretation ef: preorder_relation exec_frame
proof
  show "exec_frame s s" for s :: "'a proc_st_scheme" by (simp add: exec_frame_def kept_by_exec_def)
  show "exec_frame s t \<Longrightarrow> exec_frame t u \<Longrightarrow> exec_frame s u" for s t u :: "'a proc_st_scheme"
    by (fastforce simp: exec_frame_def kept_by_exec_def)
qed

declare ef.composed [keeps]

lemma exec_frame_quiet: "quiet s t \<Longrightarrow> exec_frame s t"
  using woken_nth by (fastforce simp: quiet_def exec_frame_def kept_by_exec_def woken_length)

lemma exec_quiet: "keeps quiet m \<Longrightarrow> keeps exec_frame m"
  by (auto simp: keeps_def ends_def intro: exec_frame_quiet)

lemma exec_frame_commit:
  assumes "curproc s < length (ptable s)" and "\<And>p. kept_by_exec p (f p)"
  shows "exec_frame s (s\<lparr>ptable := (ptable s)[curproc s := f (ptable s ! curproc s)], cpu_gdt := g, cpu_ts_ss0 := a,
    cpu_ts_esp0 := b, cpu_tr := c, cpu_cr3 := e\<rparr>)"
  using assms by (simp add: exec_frame_def)

text \<open>The two ways in which a part of \<open>execve\<close> ends.\<close>

definition exec_out :: "('a proc_st_scheme, chan, int) km \<Rightarrow> bool" where
  "exec_out m \<longleftrightarrow> (\<forall>s r t. curproc s < length (ptable s) \<longrightarrow> m s = Ok r t \<longrightarrow>
     r = -1 \<and> quiet s t \<or> r = 0 \<and> exec_frame s t \<and> cpu_cr3 t = v2p (p_pgdir (this_proc t)) \<and> p_pgdir (this_proc t) \<noteq> 0)"

lemma exec_out_bind:
  assumes "keeps quiet m" and "\<And>x. exec_out (f x)"
  shows "exec_out (kbind m f)"
  unfolding exec_out_def
proof (intro allI impI)
  fix s t :: "'a proc_st_scheme" and r
  assume c: "curproc s < length (ptable s)" and run: "kbind m f s = Ok r t"
  then obtain x u where u: "m s = Ok x u" "f x u = Ok r t" by (auto simp: kbind_Ok_iff)
  have q: "quiet s u" by (rule keepsD [OF assms(1) u(1)])
  then have "curproc u < length (ptable u)" using c by (auto simp: quiet_def woken_length)
  then have "r = -1 \<and> quiet u t \<or> r = 0 \<and> exec_frame u t \<and> cpu_cr3 t = v2p (p_pgdir (this_proc t)) \<and> p_pgdir (this_proc t) \<noteq> 0"
    using assms(2) u(2) unfolding exec_out_def by blast
  then show "r = -1 \<and> quiet s t \<or> r = 0 \<and> exec_frame s t \<and> cpu_cr3 t = v2p (p_pgdir (this_proc t)) \<and> p_pgdir (this_proc t) \<noteq> 0"
    using q qt.transitive ef.transitive exec_frame_quiet by blast
qed

lemma exec_out_return: "exec_out (kreturn (-1))"
  by (simp add: exec_out_def kreturn_def qt.reflexive)

lemma exec_out_if: "exec_out m \<Longrightarrow> exec_out n \<Longrightarrow> exec_out (if b then m else n)"
  by simp

lemma exec_out_option: "exec_out m \<Longrightarrow> (\<And>x. exec_out (n x)) \<Longrightarrow> exec_out (case z of None \<Rightarrow> m | Some x \<Rightarrow> n x)"
  by (cases z) auto

lemma exec_out_bad: "exec_out (exec_bad d ip)"
  unfolding exec_bad_def by (rule exec_out_bind exec_out_return keeps)+

lemma exec_out_commit: "exec_out (exec_commit path d sz e sp)"
  unfolding exec_out_def
proof (intro allI impI disjI2)
  fix s t :: "'a proc_st_scheme" and r
  assume c: "curproc s < length (ptable s)" and run: "exec_commit path d sz e sp s = Ok r t"
  let ?f = "\<lambda>p. p\<lparr>p_name := safestrcpy (p_name p) (cstr (exec_name path)) 16, p_pgdir := d, p_sz := sz,
      p_tf := (p_tf p)\<lparr>tf_eip := e, tf_esp := sp\<rparr>\<rparr>"
  let ?u = "s\<lparr>ptable := (ptable s)[curproc s := ?f (ptable s ! curproc s)], cpu_gdt := (cpu_gdt s)(SEG_TSS := (SEG16 0x9 (k_ts s) (TSSIZE - 1) 0)\<lparr>sd_s := 0\<rparr>),
       cpu_ts_ss0 := SEG_KDATA * 8, cpu_ts_esp0 := p_kstack (this_proc s) + KSTACKSIZE, cpu_tr := SEG_TSS * 8, cpu_cr3 := v2p d\<rparr>"
  have d: "d \<noteq> 0" and k: "kseq (freevm (p_pgdir (ptable s ! curproc s))) (kreturn 0) ?u = Ok r t"
    using run c by (simp_all add: exec_commit_def switchuvm_run upd_proc_def kbind_get kbind_Ok_iff kmod_def this_proc_def split: if_splits)
  then have "r = 0" "freevm (p_pgdir (ptable s ! curproc s)) ?u = Ok () t" by (auto simp: kbind_Ok_iff kreturn_def)
  moreover have q: "quiet ?u t" by (rule keepsD [OF quiet_freevm calculation(2)])
  moreover have "exec_frame s ?u" using c by (intro exec_frame_commit [of s ?f]) (auto simp: kept_by_exec_def)
  moreover have "exec_frame s t" by (rule ef.transitive [OF calculation(4) exec_frame_quiet [OF q]])
  moreover have "cpu_cr3 t = v2p d" using q by (simp add: quiet_def)
  moreover have "p_pgdir (this_proc t) = d"
    using q c woken_nth [of "ptable ?u" "ptable t" "curproc s"] by (auto simp: quiet_def this_proc_def)
  ultimately show "r = 0 \<and> exec_frame s t \<and> cpu_cr3 t = v2p (p_pgdir (this_proc t)) \<and> p_pgdir (this_proc t) \<noteq> 0"
    using d by simp
qed

lemma exec_out_execve: "quiet_dev dv \<Longrightarrow> exec_out (execve dv elf0 ustack0 path argv env)"
  unfolding execve_def orfail_def exec_finish_def Let_def split_beta
  by (assumption | rule exec_out_bind exec_out_return exec_out_if exec_out_option exec_out_bad exec_out_commit keeps)+


definition sample_exec :: cons_st where
  "sample_exec = zero_kernel\<lparr>ptable := (ptable zero_kernel)[0 := no_proc\<lparr>p_state := RUNNING, p_cwd := Some 4\<rparr>],
     icache := (\<lambda>_. no_inode)(4 := no_inode\<lparr>i_ref := 2, i_valid := True, i_type := T_DIR, i_nlink := 1\<rparr>)\<rparr>"


end
