(* ===== verification/Log_Spec.thy ===== *)
theory Log_Spec
  imports Log
begin

text \<open>
  Correctness of the log.  The disk is a function from sectors to blocks; the writes a piece of
  code sends to it are a list, and a crash keeps a prefix of that list.  \<open>recovered\<close> is the
  content a disk stands for: its committed log installed.  \<open>log_inv\<close> is the invariant of a
  running transaction.
\<close>

section \<open>Lists of disk writes\<close>

type_synonym dwrite = "nat \<times> bytes"

definition apply_writes :: "dwrite list \<Rightarrow> (nat \<Rightarrow> bytes) \<Rightarrow> nat \<Rightarrow> bytes" where
  "apply_writes ws d = fold (\<lambda>(m, v) d. d(m := v)) ws d"

definition cputs :: "dwrite list \<Rightarrow> cache_abs \<Rightarrow> cache_abs" where
  "cputs ws a = a\<lparr>c_view := apply_writes ws (c_view a), c_disk := apply_writes ws (c_disk a),
     c_hist := c_hist a @ ws, c_dirty := c_dirty a - fst ` set ws\<rparr>"

text \<open>The installs a header block calls for, and the content of a disk once they are done.\<close>

definition log_count :: "bytes \<Rightarrow> nat" where
  "log_count h = nat (sint (ld32 h 0))"

definition log_home :: "bytes \<Rightarrow> nat \<Rightarrow> nat" where
  "log_home h i = unat (ld32 h (4 + 4 * i))"

definition installs :: "nat \<Rightarrow> (nat \<Rightarrow> bytes) \<Rightarrow> dwrite list" where
  "installs start D = map (\<lambda>i. (log_home (D start) i, D (start + i + 1))) [0..<log_count (D start)]"

definition recovered :: "nat \<Rightarrow> (nat \<Rightarrow> bytes) \<Rightarrow> nat \<Rightarrow> bytes" where
  "recovered start D = apply_writes (installs start D) D"

text \<open>A header block recovery can follow: distinct home sectors below the log, within bounds.\<close>

definition log_ok :: "nat \<Rightarrow> nat \<Rightarrow> bytes \<Rightarrow> bool" where
  "log_ok start limit h \<longleftrightarrow> log_count h \<le> LOGSIZE \<and> start + log_count h < limit \<and>
     distinct (map (log_home h) [0..<log_count h]) \<and> (\<forall>i \<in> set [0..<log_count h]. log_home h i < start)"

definition homes :: "'a log_st_scheme \<Rightarrow> nat set" where
  "homes s = lh_sector s ` {..<nat (lh_n s)}"

text \<open>
  The invariant of a transaction; \<open>M\<close> is the set of sectors whose buffer has been assigned to and
  not yet passed to \<open>log_write\<close>.
\<close>

definition log_inv :: "nat set \<Rightarrow> 'a log_st_scheme \<Rightarrow> bool" where
  "log_inv M s \<longleftrightarrow> binv s \<and> l_dev s = 1 \<and> 0 \<le> lh_n s \<and> lh_n s \<le> l_size s - 1 \<and> l_size s \<le> int LOGSIZE \<and>
     l_start s + nat (l_size s) \<le> c_size (cabs s) \<and> l_start s < 2 ^ 32 \<and>
     inj_on (lh_sector s) {..<nat (lh_n s)} \<and> (\<forall>m \<in> homes s. m < l_start s) \<and>
     c_dirty (cabs s) = homes s \<and> (\<forall>m \<in> c_busy (cabs s). m < l_start s) \<and> M \<subseteq> c_busy (cabs s) \<and>
     (\<forall>i < nat (lh_n s). lh_sector s i \<notin> M \<longrightarrow>
        c_disk (cabs s) (l_start s + i + 1) = c_view (cabs s) (lh_sector s i)) \<and>
     (\<forall>m. m \<notin> M \<longrightarrow> m \<notin> homes s \<longrightarrow> c_view (cabs s) m = c_disk (cabs s) m) \<and>
     log_count (c_disk (cabs s) (l_start s)) = 0"

section \<open>Writes\<close>

lemma apply_writes_simps [simp]:
  "apply_writes [] d = d"
  "apply_writes ((m, v) # ws) d = apply_writes ws (d(m := v))"
  "apply_writes (ws @ vs) d = apply_writes vs (apply_writes ws d)"
  by (simp_all add: apply_writes_def)

lemma apply_writes_map_of: "apply_writes ws d m = (case map_of (rev ws) m of None \<Rightarrow> d m | Some v \<Rightarrow> v)"
  by (induction ws arbitrary: d rule: rev_induct) (auto simp: split_paired_all)

lemma apply_writes_other [simp]: "m \<notin> fst ` set ws \<Longrightarrow> apply_writes ws d m = d m"
  by (simp add: apply_writes_map_of map_of_eq_None_iff [THEN iffD2])

lemma map_of_rev_distinct: "distinct (map fst ws) \<Longrightarrow> map_of (rev ws) = map_of ws"
  by (rule map_of_inject_set [THEN iffD2]) (simp_all add: rev_map [symmetric])

lemma apply_writes_in:
  "distinct (map fst ws) \<Longrightarrow> (m, v) \<in> set ws \<Longrightarrow> apply_writes ws d m = v"
  by (simp add: apply_writes_map_of map_of_rev_distinct map_of_is_SomeI)

text \<open>Replaying a list of writes hides whatever an earlier attempt left of them.\<close>

lemma apply_writes_over:
  assumes "\<And>m. m \<notin> fst ` set ws \<Longrightarrow> d m = e m"
  shows "apply_writes ws d = apply_writes ws e"
proof
  fix m
  show "apply_writes ws d m = apply_writes ws e m"
    using assms [of m] by (cases "map_of (rev ws) m")
      (auto simp: apply_writes_map_of dest: map_of_eq_None_iff [THEN iffD1])
qed

lemma apply_writes_prefix: "apply_writes ws (apply_writes (take j ws) d) = apply_writes ws d"
  by (rule apply_writes_over) (metis apply_writes_other image_mono set_take_subset subsetD)

lemma cputs_simps [simp]:
  "cputs [] a = a"
  "cputs vs (cputs ws a) = cputs (ws @ vs) a"
  by (simp_all add: cputs_def image_Un Diff_Un Diff_eq Int_assoc)

lemma cputs_sel [simp]:
  "c_view (cputs ws a) = apply_writes ws (c_view a)"
  "c_disk (cputs ws a) = apply_writes ws (c_disk a)"
  "c_hist (cputs ws a) = c_hist a @ ws"
  "c_dirty (cputs ws a) = c_dirty a - fst ` set ws"
  "c_busy (cputs ws a) = c_busy a"
  "c_size (cputs ws a) = c_size a"
  by (simp_all add: cputs_def)

section \<open>The header block\<close>

lemma put_head_lower:
  "off + 4 \<le> 4 + 4 * k \<Longrightarrow>
    ld32 (fold (\<lambda>i h. st32 h (4 + 4 * i) (f i)) [k..<n] h) off = ld32 h off"
  by (induction n) (auto simp: le_fields)

lemma put_head_field:
  "i < n \<Longrightarrow> ld32 (fold (\<lambda>i h. st32 h (4 + 4 * i) (f i)) [0..<n] h) (4 + 4 * i) = f i"
  by (induction n) (auto simp: less_Suc_eq le_fields)

lemma log_count_put_head [simp]: "0 \<le> n \<Longrightarrow> n \<le> int LOGSIZE \<Longrightarrow> log_count (put_head n sec d) = nat n"
  using put_head_lower [of 0 0]
  by (simp add: log_count_def put_head_def sint_sbintrunc' signed_take_bit_int_eq_self)

lemma log_home_put_head [simp]: "i < nat n \<Longrightarrow> sec i < 2 ^ 32 \<Longrightarrow> log_home (put_head n sec d) i = sec i"
  by (simp add: log_home_def put_head_def put_head_field unat_of_nat take_bit_nat_eq_self)

section \<open>Crashes while the log is being installed\<close>

lemma fst_installs: "fst ` set (installs start D) = log_home (D start) ` {..<log_count (D start)}"
  by (auto simp: installs_def image_image lessThan_atLeast0)

lemma log_okD:
  assumes "log_ok start limit h"
  shows "log_count h \<le> LOGSIZE" "start + log_count h < limit" "inj_on (log_home h) {..<log_count h}"
    "\<And>i. i < log_count h \<Longrightarrow> log_home h i < start"
  using assms by (auto simp: log_ok_def distinct_map lessThan_atLeast0)

lemma installs_below:
  assumes "log_ok start limit (D start)" and "start \<le> m"
  shows "m \<notin> fst ` set (installs start D)"
  using assms(2) by (auto simp: fst_installs dest!: log_okD(4) [OF assms(1)])

lemma installs_cong:
  "(\<And>m. start \<le> m \<Longrightarrow> D m = E m) \<Longrightarrow> installs start D = installs start E"
  by (simp add: installs_def)

text \<open>
  A disk with some of its installs done stands for the same content; so does one whose header has
  been erased after all of them.
\<close>

lemma recovered_prefix:
  assumes "log_ok start limit (D start)"
    and "log_count h0 = 0"
    and "E = apply_writes (take j (installs start D @ [(start, h0)])) D"
  shows "\<forall>m. m \<noteq> start \<longrightarrow> recovered start E m = recovered start D m"
    and "E start = D start \<or> E start = h0"
proof -
  let ?I = "installs start D"
  have E: "E = (if j \<le> length ?I then apply_writes (take j ?I) D else (apply_writes ?I D)(start := h0))"
    using assms(3) by (auto simp: not_le take_Cons' )
  have b: "m \<notin> fst ` set (take j ?I)" if "start \<le> m" for m
    using installs_below [of start limit D m] assms(1) that by (meson image_mono set_take_subset subsetD)
  have b': "apply_writes (take j ?I) D m = D m" if "start \<le> m" for m
    using b [OF that] by simp
  show "E start = D start \<or> E start = h0" by (simp add: E b')
  show "\<forall>m. m \<noteq> start \<longrightarrow> recovered start E m = recovered start D m"
  proof (cases "j \<le> length ?I")
    case True
    then have "installs start E = ?I" by (intro installs_cong) (simp add: E b')
    then show ?thesis using True by (simp add: recovered_def E apply_writes_prefix)
  next
    case False
    then have "installs start E = []" using assms(2) by (simp add: E installs_def)
    then show ?thesis using False by (simp add: recovered_def E)
  qed
qed

section \<open>Runs of the log's routines\<close>

lemma log_fields_rest:
  assumes "brest t = brest s"
  shows "l_start t = l_start s" "l_size t = l_size s" "l_busy t = l_busy s" "l_dev t = l_dev s"
    "lh_n t = lh_n s" "lh_sector t = lh_sector s" "log_st.more t = log_st.more s" "curproc t = curproc s"
  using assms by (cases s; cases t; simp add: brest_def)+

lemma log_update_binv [simp]:
  "binv (s\<lparr>l_start := a\<rparr>) = binv s" "binv (s\<lparr>l_size := i\<rparr>) = binv s" "binv (s\<lparr>l_busy := p\<rparr>) = binv s"
  "binv (s\<lparr>l_dev := a\<rparr>) = binv s" "binv (s\<lparr>lh_n := i\<rparr>) = binv s" "binv (s\<lparr>lh_sector := f\<rparr>) = binv s"
  by (simp_all add: binv_def)

lemma log_update_view [simp]:
  "view (s\<lparr>l_start := a\<rparr>) = view s" "view (s\<lparr>l_size := i\<rparr>) = view s" "view (s\<lparr>l_busy := p\<rparr>) = view s"
  "view (s\<lparr>l_dev := a\<rparr>) = view s" "view (s\<lparr>lh_n := i\<rparr>) = view s" "view (s\<lparr>lh_sector := f\<rparr>) = view s"
  by (simp_all add: view_def fun_eq_iff split: option.split)

lemma log_update_sets [simp]:
  "busyset (s\<lparr>l_start := a\<rparr>) = busyset s" "busyset (s\<lparr>l_size := i\<rparr>) = busyset s"
  "busyset (s\<lparr>l_busy := p\<rparr>) = busyset s" "busyset (s\<lparr>l_dev := a\<rparr>) = busyset s"
  "busyset (s\<lparr>lh_n := i\<rparr>) = busyset s" "busyset (s\<lparr>lh_sector := f\<rparr>) = busyset s"
  "dirtyset (s\<lparr>l_start := a\<rparr>) = dirtyset s" "dirtyset (s\<lparr>l_size := i\<rparr>) = dirtyset s"
  "dirtyset (s\<lparr>l_busy := p\<rparr>) = dirtyset s" "dirtyset (s\<lparr>l_dev := a\<rparr>) = dirtyset s"
  "dirtyset (s\<lparr>lh_n := i\<rparr>) = dirtyset s" "dirtyset (s\<lparr>lh_sector := f\<rparr>) = dirtyset s"
  by (simp_all add: busyset_def dirtyset_def)

lemma log_update_cabs [simp]:
  "cabs (s\<lparr>l_start := a\<rparr>) = cabs s" "cabs (s\<lparr>l_size := i\<rparr>) = cabs s" "cabs (s\<lparr>l_busy := p\<rparr>) = cabs s"
  "cabs (s\<lparr>l_dev := a\<rparr>) = cabs s" "cabs (s\<lparr>lh_n := i\<rparr>) = cabs s" "cabs (s\<lparr>lh_sector := f\<rparr>) = cabs s"
  by (simp_all add: cabs_def)

lemma log_update_handle [simp]:
  "handle (s\<lparr>lh_n := i\<rparr>) = handle s" "handle (s\<lparr>lh_sector := f\<rparr>) = handle s" "handle (s\<lparr>l_busy := p\<rparr>) = handle s"
  by (simp_all add: handle_def fun_eq_iff)

text \<open>The part of the state an operation of the log leaves alone: all but the cache and \<open>lh\<close>.\<close>

definition same_log :: "'a log_st_scheme \<Rightarrow> 'a log_st_scheme \<Rightarrow> bool" where
  "same_log s t \<longleftrightarrow> l_start t = l_start s \<and> l_size t = l_size s \<and> l_dev t = l_dev s \<and>
     log_st.more t = log_st.more s \<and> curproc t = curproc s \<and> l_busy t = l_busy s"

lemma same_logD:
  assumes "same_log s t"
  shows "l_start t = l_start s" "l_size t = l_size s" "l_dev t = l_dev s"
    "log_st.more t = log_st.more s" "curproc t = curproc s" "l_busy t = l_busy s"
  using assms by (simp_all add: same_log_def)

lemma same_log_rest: "brest t = brest s \<Longrightarrow> same_log s t"
  using log_fields_rest [of t s] by (simp add: same_log_def)

lemma write_head_run:
  assumes "binv s" and "l_dev s = 1" and "l_start s \<notin> c_busy (cabs s)" and "l_start s < c_size (cabs s)"
    and "card (c_busy (cabs s) \<union> c_dirty (cabs s)) < NBUF"
  shows "\<exists>t. write_head s = Ok () t \<and> binv t \<and> brest t = brest s \<and>
    cabs t = cputs [(l_start s, put_head (lh_n s) (lh_sector s) (c_view (cabs s) (l_start s)))] (cabs s)"
  using bc.write_block [OF assms(1,3,4), of "put_head (lh_n s) (lh_sector s)"] assms(2,5)
  by (auto simp: write_head_def cputs_def Let_def)

text \<open>Installing the log over a cache whose dirty blocks are none, or exactly the logged ones.\<close>

definition lh_installs :: "'a log_st_scheme \<Rightarrow> dwrite list" where
  "lh_installs s = map (\<lambda>i. (lh_sector s i, c_view (cabs s) (l_start s + i + 1))) [0..<nat (lh_n s)]"

lemma install_one:
  assumes inv: "binv t" and busy: "c_busy (cabs t) = {}" and card: "card (c_dirty (cabs t)) < NBUF"
    and "a < c_size (cabs t)" and "b < a"
    and db: "c_dirty (cabs t) = {} \<or> b \<in> c_dirty (cabs t)"
  shows "\<exists>t'. kbind (bread 1 a) (\<lambda>l. kbind (bread 1 b) (\<lambda>d. kbind (buf_data l) (\<lambda>v.
        kseq (set_data d (\<lambda>_. v)) (kseq (bwrite d) (kseq (brelse l) (brelse d)))))) t = Ok () t' \<and> binv t' \<and>
      brest t' = brest t \<and> cabs t' = cputs [(b, c_view (cabs t) a)] (cabs t)"
proof -
  have "b \<in> c_dirty (cabs t) \<or> card (insert a (c_busy (cabs t) \<union> c_dirty (cabs t))) < NBUF"
    using db busy by auto
  from bc.copy_block [OF inv _ _ _ _ _ _ this] show ?thesis
    using assms by (auto simp: Let_def cputs_def)
qed

lemma install_trans_run:
  assumes inv: "binv s" "l_dev s = 1" and busy: "c_busy (cabs s) = {}"
    and size: "l_start s + nat (lh_n s) < c_size (cabs s)"
    and inj: "inj_on (lh_sector s) {..<nat (lh_n s)}" and home: "\<forall>i < nat (lh_n s). lh_sector s i < l_start s"
    and dirty: "c_dirty (cabs s) = {} \<or> c_dirty (cabs s) = homes s" and card: "card (c_dirty (cabs s)) < NBUF"
  shows "\<exists>t. install_trans s = Ok () t \<and> binv t \<and> brest t = brest s \<and> cabs t = cputs (lh_installs s) (cabs s)"
proof -
  define w where "w i = (lh_sector s i, c_view (cabs s) (l_start s + i + 1))" for i
  define I where "I i t \<longleftrightarrow> binv t \<and> brest t = brest s \<and> cabs t = cputs (map w [0..<i]) (cabs s)" for i t
  have "\<exists>t. install_trans s = Ok () t \<and> I (nat (lh_n s)) t"
    unfolding install_trans_def
  proof (rule kfor_upt)
    show "I 0 s" using inv by (simp add: I_def)
    fix i t assume i: "i < nat (lh_n s)" and "I i t"
    then have t: "binv t" "brest t = brest s" "cabs t = cputs (map w [0..<i]) (cabs s)" by (simp_all add: I_def)
    note f = log_fields_rest [OF t(2)]
    let ?a = "l_start s + i + 1" and ?b = "lh_sector s i"
    have "\<forall>k \<in> {0..<i}. ?a \<noteq> lh_sector s k \<and> ?b \<noteq> lh_sector s k"
    proof
      fix k assume "k \<in> {0..<i}"
      then show "?a \<noteq> lh_sector s k \<and> ?b \<noteq> lh_sector s k"
        using i home [rule_format, of k] inj_onD [OF inj, of k i] by auto
    qed
    then have nw: "?a \<notin> fst ` set (map w [0..<i])" and nb: "?b \<notin> fst ` set (map w [0..<i])"
      by (simp_all add: w_def image_iff)
    have c: "c_busy (cabs t) = {}" "c_dirty (cabs t) \<subseteq> c_dirty (cabs s)" "c_view (cabs t) ?a = c_view (cabs s) ?a"
      using t(3) busy nw by auto
    have "c_dirty (cabs t) = {} \<or> ?b \<in> c_dirty (cabs t)"
      using dirty c(2) t(3) nb i by (auto simp: homes_def)
    moreover have "card (c_dirty (cabs t)) < NBUF" using card card_mono [OF bc.finite_abs(2) c(2)] by simp
    moreover have "?a < c_size (cabs t)" "?b < ?a" using size t(3) i home [rule_format, OF i] by simp_all
    ultimately obtain t' where t': "kbind (bread 1 ?a) (\<lambda>l. kbind (bread 1 ?b) (\<lambda>d. kbind (buf_data l) (\<lambda>v.
        kseq (set_data d (\<lambda>_. v)) (kseq (bwrite d) (kseq (brelse l) (brelse d)))))) t = Ok () t'" "binv t'"
      "brest t' = brest t" "cabs t' = cputs [(?b, c_view (cabs t) ?a)] (cabs t)"
      using install_one [OF t(1) c(1)] by blast
    then show "\<exists>t'. kbind (bread (l_dev t) (l_start t + i + 1)) (\<lambda>lbuf. kbind (bread (l_dev t) (lh_sector t i)) (\<lambda>dbuf.
        kbind (buf_data lbuf) (\<lambda>d. kseq (set_data dbuf (\<lambda>_. d)) (kseq (bwrite dbuf) (kseq (brelse lbuf)
        (brelse dbuf)))))) t = Ok () t' \<and> I (Suc i) t'"
      using f(1,4,6) inv(2) t c(3) by (simp add: I_def w_def)
  qed
  then show ?thesis by (auto simp: I_def lh_installs_def w_def [abs_def])
qed

lemma read_head_run:
  assumes "binv s" and "l_dev s = 1" and "c_busy (cabs s) = {}" "c_dirty (cabs s) = {}" and "l_start s < c_size (cabs s)"
  shows "\<exists>t. read_head s = Ok () t \<and> binv t \<and> same_log s t \<and> cabs t = cabs s \<and>
    nat (lh_n t) = log_count (c_disk (cabs s) (l_start s)) \<and>
    (\<forall>i < nat (lh_n t). lh_sector t i = log_home (c_disk (cabs s) (l_start s)) i)"
proof -
  let ?n = "l_start s"
  have v: "c_view (cabs s) ?n = c_disk (cabs s) ?n" using bc.clean [OF assms(1)] assms(3,4) by simp
  obtain h s1 where 1: "bread 1 ?n s = Ok h s1" "binv s1" "handle s1 h ?n"
      "cabs s1 = (cabs s)\<lparr>c_busy := {?n}\<rparr>" "brest s1 = brest s"
    using bc.bread [OF assms(1), of ?n] assms(3,4,5) by auto
  let ?lh = "c_disk (cabs s) ?n"
  define s2 where "s2 = s1\<lparr>lh_n := sint (ld32 ?lh 0),
    lh_sector := (\<lambda>i. if i < nat (sint (ld32 ?lh 0)) then unat (ld32 ?lh (4 + 4 * i)) else lh_sector s1 i)\<rparr>"
  have 2: "binv s2" "handle s2 h ?n" "cabs s2 = cabs s1" "same_log s s2"
    using 1 same_log_rest [OF 1(5)] by (simp_all add: s2_def same_log_def)
  have "?n \<in> c_dirty (cabs s2) \<or> c_view (cabs s2) ?n = c_disk (cabs s2) ?n" using 1(4) 2(3) v by simp
  then obtain t where t: "brelse h s2 = Ok () t" "binv t" "cabs t = (cabs s2)\<lparr>c_busy := c_busy (cabs s2) - {?n}\<rparr>"
      "brest t = brest s2"
    using bc.brelse [OF 2(1,2)] by blast
  have "buf_data h s1 = Ok ?lh s1" using bc.buf_data [OF 1(2,3)] 1(4) v by simp
  then have "read_head s = Ok () t"
    using 1(1) t(1) assms(2) by (simp add: read_head_def kmonad s2_def cong: if_cong)
  moreover have "cabs t = cabs s" using t(3) 2(3) 1(4) assms(3) by simp
  moreover have "same_log s t" using 2(4) same_log_rest [OF t(4)] by (simp add: same_log_def)
  moreover have "nat (lh_n t) = log_count ?lh" "\<forall>i < nat (lh_n t). lh_sector t i = log_home ?lh i"
    using log_fields_rest [OF t(4)] by (simp_all add: s2_def log_count_def log_home_def)
  ultimately show ?thesis using t(2) by blast
qed

lemma recover_from_log_run:
  assumes inv: "binv s" "l_dev s = 1" and idle: "c_busy (cabs s) = {}" "c_dirty (cabs s) = {}"
    and ok: "log_ok (l_start s) (c_size (cabs s)) (c_disk (cabs s) (l_start s))"
  shows "\<exists>t h0. recover_from_log s = Ok () t \<and> binv t \<and> same_log s t \<and> lh_n t = 0 \<and> log_count h0 = 0 \<and>
    cabs t = cputs (installs (l_start s) (c_disk (cabs s)) @ [(l_start s, h0)]) (cabs s)"
proof -
  let ?D = "c_disk (cabs s)" and ?n = "l_start s"
  have vd: "c_view (cabs s) = ?D" using bc.clean [OF inv(1)] idle by (simp add: fun_eq_iff)
  note okD = log_okD [OF ok]
  obtain s1 where 1: "read_head s = Ok () s1" "binv s1" "same_log s s1" "cabs s1 = cabs s"
      "nat (lh_n s1) = log_count (?D ?n)" "\<forall>i < nat (lh_n s1). lh_sector s1 i = log_home (?D ?n) i"
    using read_head_run [OF inv idle] okD(2) by auto
  note f1 = same_logD [OF 1(3)]
  have "inj_on (lh_sector s1) {..<nat (lh_n s1)}"
    using okD(3) 1(5,6) inj_on_cong [of "{..<log_count (?D ?n)}" "lh_sector s1" "log_home (?D ?n)"] by simp
  then obtain s2 where 2: "install_trans s1 = Ok () s2" "binv s2" "brest s2 = brest s1"
      "cabs s2 = cputs (lh_installs s1) (cabs s1)"
    using install_trans_run [of s1] 1 f1 inv idle okD by auto
  have i: "lh_installs s1 = installs ?n ?D"
    using 1 f1 vd by (simp add: lh_installs_def installs_def)
  define s3 where "s3 = s2\<lparr>lh_n := 0\<rparr>"
  have 3: "binv s3" "cabs s3 = cputs (installs ?n ?D) (cabs s)" "same_log s s3" "lh_n s3 = 0"
    using 2 1(4) i same_log_rest [OF 2(3)] 1(3) by (simp_all add: s3_def same_log_def)
  note f3 = same_logD [OF 3(3)]
  obtain t where t: "write_head s3 = Ok () t" "binv t" "brest t = brest s3"
      "cabs t = cputs [(?n, put_head 0 (lh_sector s3) (c_view (cabs s3) ?n))] (cabs s3)"
    using write_head_run [OF 3(1)] 3 f3 inv(2) idle okD(2) by auto
  have "recover_from_log s = Ok () t"
    using 1(1) 2(1) t(1) by (simp add: recover_from_log_def kmonad s3_def)
  moreover have "same_log s t" "lh_n t = 0"
    using 3(3,4) same_log_rest [OF t(3)] log_fields_rest [OF t(3)] by (simp_all add: same_log_def)
  moreover have "cabs t = cputs (installs ?n ?D @ [(?n, put_head 0 (lh_sector s3) (c_view (cabs s3) ?n))]) (cabs s)"
    using t(4) 3(2) by simp
  moreover have "log_count (put_head 0 (lh_sector s3) (c_view (cabs s3) ?n)) = 0" by simp
  ultimately show ?thesis using t(2) by blast
qed

section \<open>The invariant\<close>

lemma log_invD:
  assumes "log_inv M s"
  shows "binv s" "l_dev s = 1" "0 \<le> lh_n s" "lh_n s \<le> l_size s - 1" "l_size s \<le> int LOGSIZE"
    "l_start s + nat (l_size s) \<le> c_size (cabs s)" "l_start s < 2 ^ 32"
    "inj_on (lh_sector s) {..<nat (lh_n s)}" "\<And>m. m \<in> homes s \<Longrightarrow> m < l_start s"
    "c_dirty (cabs s) = homes s" "\<And>m. m \<in> c_busy (cabs s) \<Longrightarrow> m < l_start s" "M \<subseteq> c_busy (cabs s)"
    "\<And>i. i < nat (lh_n s) \<Longrightarrow> lh_sector s i \<notin> M \<Longrightarrow>
       c_disk (cabs s) (l_start s + i + 1) = c_view (cabs s) (lh_sector s i)"
    "\<And>m. m \<notin> M \<Longrightarrow> m \<notin> homes s \<Longrightarrow> c_view (cabs s) m = c_disk (cabs s) m"
    "log_count (c_disk (cabs s) (l_start s)) = 0"
  using assms by (simp_all add: log_inv_def)

lemma homes_nth: "i < nat (lh_n s) \<Longrightarrow> lh_sector s i \<in> homes s"
  by (simp add: homes_def)

lemma card_homes: "inj_on (lh_sector s) {..<nat (lh_n s)} \<Longrightarrow> card (homes s) = nat (lh_n s)"
  by (simp add: homes_def card_image)

lemma log_inv_above:
  assumes "log_inv M s" and "l_start s \<le> m"
  shows "m \<notin> homes s" "m \<notin> c_busy (cabs s)" "m \<notin> M" "c_view (cabs s) m = c_disk (cabs s) m"
proof -
  note D = log_invD [OF assms(1)]
  show h: "m \<notin> homes s" "m \<notin> c_busy (cabs s)" using D(9,11) [of m] assms(2) by auto
  then show "m \<notin> M" using D(12) by auto
  then show "c_view (cabs s) m = c_disk (cabs s) m" using D(14) h(1) by blast
qed

text \<open>What the header written by \<open>commit_trans\<close> makes of the disk.\<close>

definition commit_head :: "'a log_st_scheme \<Rightarrow> bytes" where
  "commit_head s = put_head (lh_n s) (lh_sector s) (c_view (cabs s) (l_start s))"

lemma commit_head_simps:
  assumes "log_inv {} s"
  shows "log_count (commit_head s) = nat (lh_n s)" "i < nat (lh_n s) \<Longrightarrow> log_home (commit_head s) i = lh_sector s i"
  using log_invD(3,4,5,7) [OF assms] log_invD(9) [OF assms homes_nth, of i] by (simp_all add: commit_head_def)

lemma commit_head_ok:
  assumes "log_inv {} s"
  shows "log_ok (l_start s) (c_size (cabs s)) (commit_head s)"
proof -
  note D = log_invD [OF assms]
  note c = commit_head_simps [OF assms]
  have "nat (lh_n s) < nat (l_size s)" using D(3,4) by simp
  moreover have "inj_on (log_home (commit_head s)) {..<nat (lh_n s)}"
    using D(8) c(2) inj_on_cong [of "{..<nat (lh_n s)}" "log_home (commit_head s)" "lh_sector s"] by simp
  ultimately show ?thesis
    using D(5,6) c D(9) [OF homes_nth] by (auto simp: log_ok_def distinct_map atLeast0LessThan)
qed

lemma commit_installs:
  assumes "log_inv {} s"
  shows "installs (l_start s) ((c_disk (cabs s))(l_start s := commit_head s)) = lh_installs s"
  using commit_head_simps [OF assms] log_inv_above(4) [OF assms] by (simp add: installs_def lh_installs_def)

lemma commit_content:
  assumes "log_inv {} s" and "\<And>m. m \<notin> homes s \<Longrightarrow> m \<noteq> l_start s \<Longrightarrow> d m = c_view (cabs s) m" and "m \<noteq> l_start s"
  shows "apply_writes (lh_installs s) d m = c_view (cabs s) m"
proof (cases "m \<in> homes s")
  case True
  note D = log_invD [OF assms(1)]
  obtain i where i: "i < nat (lh_n s)" "m = lh_sector s i" using True by (auto simp: homes_def)
  have "(m, c_view (cabs s) (l_start s + i + 1)) \<in> set (lh_installs s)" using i by (auto simp: lh_installs_def)
  moreover have "distinct (map fst (lh_installs s))"
    using D(8) by (simp add: lh_installs_def distinct_map comp_def atLeast0LessThan)
  ultimately have "apply_writes (lh_installs s) d m = c_view (cabs s) (l_start s + i + 1)"
    by (rule apply_writes_in [rotated])
  then show ?thesis using D(13) [OF i(1)] i(2) log_inv_above(4) [OF assms(1), of "l_start s + i + 1"] by simp
next
  case False
  then have "m \<notin> fst ` set (lh_installs s)" by (auto simp: lh_installs_def homes_def)
  then show ?thesis using assms(2) [OF False assms(3)] by simp
qed

lemma commit_content_upd:
  assumes "log_inv {} s" and "m \<noteq> l_start s"
  shows "apply_writes (lh_installs s) ((c_disk (cabs s))(l_start s := h)) m = c_view (cabs s) m"
    "apply_writes (lh_installs s) ((c_view (cabs s))(l_start s := h)) m = c_view (cabs s) m"
  by (rule commit_content [OF assms(1) _ assms(2)], use log_invD(14) [OF assms(1)] in simp)+

section \<open>Commit\<close>

lemma proc_update_binv [simp]: "binv (s\<lparr>ptable := p\<rparr>) = binv s"
  by (simp add: binv_def)

lemma proc_update_cabs [simp]: "cabs (s\<lparr>ptable := p\<rparr>) = cabs s"
proof -
  have "view (s\<lparr>ptable := p\<rparr>) = view s" by (simp add: view_def fun_eq_iff split: option.split)
  then show ?thesis by (simp add: cabs_def busyset_def dirtyset_def)
qed

lemma commit_disk_run:
  assumes "log_inv {} s" and "c_busy (cabs s) = {}"
  shows "\<exists>t h0. kseq write_head (kseq install_trans (kseq (kmod (\<lambda>s. s\<lparr>lh_n := 0\<rparr>)) write_head)) s = Ok () t \<and>
    binv t \<and> same_log s t \<and> lh_n t = 0 \<and> log_count h0 = 0 \<and>
    cabs t = cputs ((l_start s, commit_head s) # lh_installs s @ [(l_start s, h0)]) (cabs s)"
proof -
  note D = log_invD [OF assms(1)]
  let ?n = "l_start s"
  have n: "?n < c_size (cabs s)" "?n + nat (lh_n s) < c_size (cabs s)" "card (homes s) < NBUF"
    using D(3,4,5,6) card_homes [OF D(8)] by auto
  obtain s1 where 1: "write_head s = Ok () s1" "binv s1" "brest s1 = brest s"
      "cabs s1 = cputs [(?n, commit_head s)] (cabs s)"
    using write_head_run [OF D(1,2)] n assms(2) D(10) by (auto simp: commit_head_def)
  note f1 = log_fields_rest [OF 1(3)]
  have h1: "homes s1 = homes s" using f1 by (simp add: homes_def)
  have d1: "c_dirty (cabs s1) = homes s" using 1(4) D(10) log_inv_above(1) [OF assms(1), of ?n] by simp
  have i1: "lh_installs s1 = lh_installs s"
    using f1 1(4) by (simp add: lh_installs_def)
  obtain s2 where 2: "install_trans s1 = Ok () s2" "binv s2" "brest s2 = brest s1"
      "cabs s2 = cputs (lh_installs s) (cabs s1)"
    using install_trans_run [of s1] 1 f1 D(2,8) D(9) [OF homes_nth] n d1 h1 i1 assms(2) by auto
  define s3 where "s3 = s2\<lparr>lh_n := 0\<rparr>"
  have 3: "binv s3" "cabs s3 = cputs ((?n, commit_head s) # lh_installs s) (cabs s)" "same_log s s3" "lh_n s3 = 0"
    using 2 1(4) f1 log_fields_rest [OF 2(3)] by (simp_all add: s3_def same_log_def)
  note f3 = same_logD [OF 3(3)]
  have "c_dirty (cabs s3) = {}" "c_busy (cabs s3) = {}"
    using 3(2) D(10) assms(2) by (auto simp: homes_def lh_installs_def image_image)
  then have p: "card (c_busy (cabs s3) \<union> c_dirty (cabs s3)) < NBUF" "l_start s3 \<notin> c_busy (cabs s3)"
    by simp_all
  have p': "l_start s3 < c_size (cabs s3)" "l_dev s3 = 1" using 3(2) f3 D(2) n(1) by simp_all
  obtain t where t: "write_head s3 = Ok () t" "binv t" "brest t = brest s3"
      "cabs t = cputs [(?n, put_head 0 (lh_sector s3) (c_view (cabs s3) ?n))] (cabs s3)"
    using write_head_run [OF 3(1) p'(2) p(2) p'(1) p(1)] 3(4) f3(1) by metis
  have "cabs t = cputs ((?n, commit_head s) # lh_installs s @ [(?n, put_head 0 (lh_sector s3) (c_view (cabs s3) ?n))]) (cabs s)"
    using t(4) 3(2) by simp
  moreover have "log_count (put_head 0 (lh_sector s3) (c_view (cabs s3) ?n)) = 0" by simp
  moreover have "same_log s t" "lh_n t = 0"
    using 3(3,4) log_fields_rest [OF t(3)] by (simp_all add: same_log_def)
  moreover have "kseq write_head (kseq install_trans (kseq (kmod (\<lambda>s. s\<lparr>lh_n := 0\<rparr>)) write_head)) s = Ok () t"
    using 1(1) 2(1) t(1) by (simp add: kmonad s3_def)
  ultimately show ?thesis using t(2) by blast
qed

text \<open>The writes of a commit, and the abstract state it ends in.\<close>

lemma commit_trans_run:
  assumes "log_inv {} s" and "c_busy (cabs s) = {}"
  shows "\<exists>t h0 W. commit_trans s = Ok () t \<and> log_inv {} t \<and> same_log s (t\<lparr>l_busy := l_busy s\<rparr>) \<and> \<not> l_busy t \<and> lh_n t = 0 \<and>
    log_count h0 = 0 \<and>
    W = (if lh_n s = 0 then [] else (l_start s, commit_head s) # lh_installs s @ [(l_start s, h0)]) \<and>
    cabs t = cputs W (cabs s)"
proof -
  note D = log_invD [OF assms(1)]
  define W where "W h0 = (if lh_n s = 0 then [] else (l_start s, commit_head s) # lh_installs s @ [(l_start s, h0)])" for h0
  obtain s1 h0 where 1: "kwhen (0 < lh_n s)
       (kseq write_head (kseq install_trans (kseq (kmod (\<lambda>s. s\<lparr>lh_n := 0\<rparr>)) write_head))) s = Ok () s1"
      "binv s1" "same_log s s1" "lh_n s1 = 0" "log_count h0 = 0" "cabs s1 = cputs (W h0) (cabs s)"
  proof (cases "lh_n s = 0")
    case True
    show ?thesis
      by (rule that [of s "\<lambda>_. 0"])
        (use True D(1) ld32_zero [of "\<lambda>_. 0" 0] in \<open>simp_all add: kmonad same_log_def W_def log_count_def\<close>)
  next
    case False
    then have "0 < lh_n s" using D(3) by simp
    then show ?thesis using commit_disk_run [OF assms] that False by (auto simp: W_def kmonad)
  qed
  note f = same_logD [OF 1(3)]
  let ?t = "s1\<lparr>ptable := wakeup1_tab ChLog (ptable s1), l_busy := False\<rparr>"
  have "held s1 = {}" using 1(2) by (simp add: binv_def)
  then have run: "commit_trans s = Ok () ?t"
    using 1(1) by (simp add: commit_trans_def kmonad)
  have view: "c_view (cabs s1) m = c_view (cabs s) m" "c_disk (cabs s1) m = c_view (cabs s) m" if "m \<noteq> l_start s" for m
  proof -
    have "homes s = {}" if "lh_n s = 0" using that by (simp add: homes_def)
    then show "c_view (cabs s1) m = c_view (cabs s) m" "c_disk (cabs s1) m = c_view (cabs s) m"
      using commit_content_upd [OF assms(1) that] 1(6) that D(14) by (auto simp: W_def)
  qed
  have hd: "c_view (cabs s1) (l_start s) = c_disk (cabs s1) (l_start s)" "log_count (c_disk (cabs s1) (l_start s)) = 0"
    using 1(5,6) D(15) log_inv_above(4) [OF assms(1), of "l_start s"] by (auto simp: W_def)
  have "c_dirty (cabs s1) = {}"
    using 1(6) D(10) by (auto simp: W_def homes_def lh_installs_def image_image)
  moreover have "c_view (cabs s1) m = c_disk (cabs s1) m" for m using view hd(1) by (cases "m = l_start s") auto
  ultimately have "log_inv {} ?t"
    using 1 f D(2,3,4,5,6,7) assms(2) hd(2) by (auto simp: log_inv_def homes_def)
  moreover have "same_log s (?t\<lparr>l_busy := l_busy s\<rparr>)" using 1(3) by (simp add: same_log_def)
  ultimately show ?thesis using run 1(4,5,6) W_def by (intro exI [of _ ?t] exI [of _ h0]) simp
qed

section \<open>Boot\<close>

text \<open>What lies outside the cache and the log.\<close>

definition trest :: "'a log_st_scheme \<Rightarrow> nat \<times> 'a" where
  "trest s = (curproc s, log_st.more s)"

text \<open>The geometry the superblock of a disk gives the log.\<close>

definition sb_log_start :: "(nat \<Rightarrow> bytes) \<Rightarrow> nat" where
  "sb_log_start D = unat (sb_size (sb_of (D 1)) - sb_nlog (sb_of (D 1)))"

definition sb_log_size :: "(nat \<Rightarrow> bytes) \<Rightarrow> int" where
  "sb_log_size D = sint (sb_nlog (sb_of (D 1)))"

definition geometry_ok :: "nat \<Rightarrow> (nat \<Rightarrow> bytes) \<Rightarrow> bool" where
  "geometry_ok limit D \<longleftrightarrow> 1 \<le> sb_log_size D \<and> sb_log_size D \<le> int LOGSIZE \<and>
     1 < sb_log_start D \<and> sb_log_start D + nat (sb_log_size D) \<le> limit"

lemma readsb_run:
  assumes "binv s" and "c_busy (cabs s) = {}" "c_dirty (cabs s) = {}" and "1 < c_size (cabs s)"
  shows "\<exists>t. readsb 1 s = Ok (sb_of (c_disk (cabs s) 1)) t \<and> binv t \<and> cabs t = cabs s \<and> brest t = brest s"
  using bc.read_block [OF assms(1), of 1 sb_of] bc.clean [OF assms(1), of 1] assms(2,3,4)
  by (auto simp: readsb_def)

lemma initlog_run:
  assumes inv: "binv s" and idle: "c_busy (cabs s) = {}" "c_dirty (cabs s) = {}"
    and geo: "geometry_ok (c_size (cabs s)) (c_disk (cabs s))"
    and ok: "log_ok (sb_log_start (c_disk (cabs s))) (c_size (cabs s)) (c_disk (cabs s) (sb_log_start (c_disk (cabs s))))"
  shows "\<exists>t h0. initlog s = Ok () t \<and> log_inv {} t \<and> lh_n t = 0 \<and> log_count h0 = 0 \<and>
    l_start t = sb_log_start (c_disk (cabs s)) \<and> l_size t = sb_log_size (c_disk (cabs s)) \<and> l_busy t = l_busy s \<and>
    trest t = trest s \<and>
    cabs t = cputs (installs (l_start t) (c_disk (cabs s)) @ [(l_start t, h0)]) (cabs s)"
proof -
  let ?D = "c_disk (cabs s)"
  have vd: "c_view (cabs s) = ?D" using bc.clean [OF inv] idle by (simp add: fun_eq_iff)
  note g = geo [unfolded geometry_ok_def]
  obtain s1 where 1: "readsb 1 s = Ok (sb_of (?D 1)) s1" "binv s1" "cabs s1 = cabs s" "brest s1 = brest s"
    using readsb_run [OF inv idle] g by auto
  define s2 where "s2 = s1\<lparr>l_start := sb_log_start ?D, l_size := sb_log_size ?D, l_dev := ROOTDEV\<rparr>"
  have 2: "binv s2" "cabs s2 = cabs s" "l_start s2 = sb_log_start ?D" "l_size s2 = sb_log_size ?D" "l_dev s2 = 1"
      "l_busy s2 = l_busy s" "trest s2 = trest s"
    using 1 log_fields_rest [OF 1(4)] by (simp_all add: s2_def trest_def)
  obtain t h0 where t: "recover_from_log s2 = Ok () t" "binv t" "same_log s2 t" "lh_n t = 0" "log_count h0 = 0"
      "cabs t = cputs (installs (l_start s2) ?D @ [(l_start s2, h0)]) (cabs s)"
    using recover_from_log_run [OF 2(1,5)] 2 idle ok by auto
  note f = same_logD [OF t(3)]
  have st: "sb_log_start ?D < 2 ^ 32" by (simp add: sb_log_start_def unat_u32_less)
  have "initlog s = Ok () t"
    using 1(1) t(1) by (simp add: initlog_def kmonad s2_def sb_log_start_def sb_log_size_def)
  moreover have "log_inv {} t"
    unfolding log_inv_def using t(2,4,5,6) f 2 g idle st vd by (simp add: homes_def)
  ultimately show ?thesis using t(4,5,6) f 2(3,4,6,7) by (auto simp: trest_def)
qed

text \<open>The kernel's memory when it starts: every table zero.\<close>

definition boot :: "nat \<Rightarrow> (nat \<Rightarrow> bytes) \<Rightarrow> log_st" where
  "boot = boot_with ()"

text \<open>The disk writes of a boot that is not interrupted: \<open>binit\<close>, then \<open>initlog\<close>.\<close>

definition boot_writes :: "nat \<Rightarrow> (nat \<Rightarrow> bytes) \<Rightarrow> dwrite list" where
  "boot_writes limit D = (case kseq binit initlog (boot limit D) of Ok _ t \<Rightarrow> diskhist t | _ \<Rightarrow> [])"

text \<open>Disks reachable by any number of boots, each cut short by a crash after some of its writes.\<close>

inductive reboots :: "nat \<Rightarrow> (nat \<Rightarrow> bytes) \<Rightarrow> (nat \<Rightarrow> bytes) \<Rightarrow> bool" for limit :: nat and D :: "nat \<Rightarrow> bytes" where
  start: "reboots limit D D"
| crash: "reboots limit D E \<Longrightarrow> reboots limit D (apply_writes (take j (boot_writes limit E)) E)"

lemma boot_with_run:
  assumes "geometry_ok limit D" and "log_ok (sb_log_start D) limit (D (sb_log_start D))"
  shows "\<exists>t h0. kseq binit initlog (boot_with m limit D) = Ok () t \<and> log_inv {} t \<and> lh_n t = 0 \<and> log_count h0 = 0 \<and>
    c_busy (cabs t) = {} \<and> l_start t = sb_log_start D \<and> l_size t = sb_log_size D \<and> \<not> l_busy t \<and> disksize t = limit \<and>
    trest t = (0, m) \<and> diskhist t = installs (sb_log_start D) D @ [(sb_log_start D, h0)] \<and>
    memdisk t = apply_writes (diskhist t) D \<and> view t = memdisk t"
proof -
  let ?s = "boot_with m limit D"
  obtain B where B: "binit ?s = Ok () (?s\<lparr>bufs := B\<rparr>)" "binv (?s\<lparr>bufs := B\<rparr>)"
    "cabs (?s\<lparr>bufs := B\<rparr>) = \<lparr>c_view = D, c_disk = D, c_hist = [], c_busy = {}, c_dirty = {}, c_size = limit\<rparr>"
    using binit_run [of ?s] by (auto simp: boot_with_def)
  obtain t h0 where t: "initlog (?s\<lparr>bufs := B\<rparr>) = Ok () t" "log_inv {} t" "lh_n t = 0" "log_count h0 = 0"
      "l_start t = sb_log_start D" "cabs t = cputs (installs (l_start t) D @ [(l_start t, h0)]) (cabs (?s\<lparr>bufs := B\<rparr>))"
      "l_size t = sb_log_size D" "\<not> l_busy t" "trest t = (0, m)"
    using initlog_run [OF B(2)] assms B(3) by (auto simp: boot_with_def trest_def)
  have run: "kseq binit initlog ?s = Ok () t" using B(1) t(1) by (simp add: kmonad)
  have c: "memdisk t = c_disk (cabs t)" "view t = c_view (cabs t)" "diskhist t = c_hist (cabs t)"
    "disksize t = c_size (cabs t)" by (simp_all add: cabs_def)
  have w: "diskhist t = installs (sb_log_start D) D @ [(sb_log_start D, h0)]" using t(5,6) B(3) c(3) by simp
  moreover have "memdisk t = apply_writes (diskhist t) D" "view t = memdisk t" "c_busy (cabs t) = {}"
      "disksize t = limit"
    using w t(5,6) B(3) c by simp_all
  ultimately show ?thesis using run t(2,3,4,5,7,8,9) by blast
qed

lemma boot_run:
  assumes "geometry_ok limit D" and "log_ok (sb_log_start D) limit (D (sb_log_start D))"
  shows "\<exists>t h0. kseq binit initlog (boot limit D) = Ok () t \<and> log_inv {} t \<and> lh_n t = 0 \<and> log_count h0 = 0 \<and>
    c_busy (cabs t) = {} \<and> l_start t = sb_log_start D \<and> l_size t = sb_log_size D \<and> \<not> l_busy t \<and> disksize t = limit \<and>
    boot_writes limit D = installs (sb_log_start D) D @ [(sb_log_start D, h0)] \<and>
    memdisk t = apply_writes (boot_writes limit D) D \<and> view t = memdisk t"
proof -
  obtain t h0 where t: "kseq binit initlog (boot limit D) = Ok () t" "log_inv {} t" "lh_n t = 0" "log_count h0 = 0"
    "c_busy (cabs t) = {}" "l_start t = sb_log_start D" "l_size t = sb_log_size D" "\<not> l_busy t" "disksize t = limit"
    "diskhist t = installs (sb_log_start D) D @ [(sb_log_start D, h0)]" "memdisk t = apply_writes (diskhist t) D" "view t = memdisk t"
    using boot_with_run [OF assms, of "()"] unfolding boot_def by blast
  moreover have "boot_writes limit D = diskhist t" using t(1) by (simp add: boot_writes_def)
  ultimately show ?thesis by metis
qed

section \<open>Transactions\<close>

lemma log_slot_in:
  assumes "home \<in> sec ` {..<n}"
  shows "log_slot n sec home < n" "sec (log_slot n sec home) = home"
proof -
  obtain i where "find (\<lambda>i. sec i = home) [0..<n] = Some i"
    using assms by (cases "find (\<lambda>i. sec i = home) [0..<n]") (auto simp: find_None_iff)
  moreover from this have "i < n" "sec i = home" by (auto simp: find_Some_iff)
  ultimately show "log_slot n sec home < n" "sec (log_slot n sec home) = home" by (simp_all add: log_slot_def)
qed

lemma log_slot_out: "home \<notin> sec ` {..<n} \<Longrightarrow> log_slot n sec home = n"
  unfolding log_slot_def by (subst find_None_iff [THEN iffD2]) auto

lemma log_slot_le: "log_slot n sec home \<le> n"
  using log_slot_in(1) [of home sec n] log_slot_out [of home sec n] by (cases "home \<in> sec ` {..<n}") simp_all

lemma begin_trans_run:
  assumes "held s = {}" and "\<not> l_busy s"
  shows "begin_trans s = Ok () (s\<lparr>l_busy := True\<rparr>)"
  using assms by (simp add: begin_trans_def kmonad)

text \<open>The disk part of \<open>log_write\<close>: the buffer's data goes to the log block \<open>a\<close>.\<close>

lemma log_copy_run:
  assumes inv: "binv s" and h: "handle s b n" and a: "a \<notin> c_busy (cabs s)" "a < c_size (cabs s)" "a \<notin> c_dirty (cabs s)"
    and card: "card (c_busy (cabs s) \<union> c_dirty (cabs s)) < NBUF"
  shows "\<exists>t. kbind (bread 1 a) (\<lambda>lbuf. kbind (buf_data b) (\<lambda>d. kseq (set_data lbuf (\<lambda>_. d))
        (kseq (bwrite lbuf) (kseq (brelse lbuf) m)))) s = m t \<and> binv t \<and>
      cabs t = cputs [(a, c_view (cabs s) n)] (cabs s) \<and> brest t = brest s \<and> (\<forall>k m. handle s k m \<longrightarrow> handle t k m)"
proof -
  let ?d = "c_view (cabs s) n"
  obtain l s1 where 1: "bread 1 a s = Ok l s1" "binv s1" "handle s1 b n"
      "cabs s1 = (cabs s)\<lparr>c_busy := insert a (c_busy (cabs s))\<rparr>"
    using bc.bread [OF inv a(1,2)] card h by blast
  have d: "buf_data b s1 = Ok ?d s1" using bc.buf_data [OF 1(2,3)] 1(4) by simp
  obtain t where t: "kbind (bread 1 a) (\<lambda>h. kseq (set_data h (\<lambda>_. ?d)) (kseq (bwrite h) (brelse h))) s = Ok () t"
      "binv t" "cabs t = cputs [(a, ?d)] (cabs s)" "brest t = brest s" "\<forall>k m. handle s k m \<longrightarrow> handle t k m"
    using bc.write_block [OF inv a(1,2), of "\<lambda>_. ?d"] card by (auto simp: Let_def cputs_def)
  have "kbind (bread 1 a) (\<lambda>lbuf. kbind (buf_data b) (\<lambda>d. kseq (set_data lbuf (\<lambda>_. d))
        (kseq (bwrite lbuf) (kseq (brelse lbuf) m)))) s
    = kseq (kbind (bread 1 a) (\<lambda>h. kseq (set_data h (\<lambda>_. ?d)) (kseq (bwrite h) (brelse h)))) m s"
    using 1(1) d by (simp add: kbind_assoc kbind_Ok)
  then show ?thesis using t by (auto simp: kmonad)
qed

lemma log_write_run:
  assumes L: "log_inv M s" and "l_busy s" and h: "handle s b n" and n: "n < l_start s" and room: "lh_n s < l_size s - 1"
    and card: "card (c_busy (cabs s) \<union> homes s) < NBUF"
  shows "\<exists>t i. log_write b s = Ok () t \<and> binv t \<and> same_log s t \<and> l_busy t \<and> (\<forall>k m. handle s k m \<longrightarrow> handle t k m) \<and>
    i = log_slot (nat (lh_n s)) (lh_sector s) n \<and> lh_sector t = (lh_sector s)(i := n) \<and>
    lh_n t = (if int i = lh_n s then lh_n s + 1 else lh_n s) \<and>
    cabs t = (cputs [(l_start s + i + 1, c_view (cabs s) n)] (cabs s))\<lparr>c_dirty := insert n (homes s)\<rparr>"
proof -
  note D = log_invD [OF L]
  let ?i = "log_slot (nat (lh_n s)) (lh_sector s) n"
  let ?a = "l_start s + ?i + 1"
  have b: "b_dev (bufs s b) = 1" "b_sector (bufs s b) = n" using h by (simp_all add: handle_def)
  have i: "int ?i \<le> lh_n s" using log_slot_le [of "nat (lh_n s)"] D(3) by (simp add: le_nat_iff)
  have g: "\<not> (int LOGSIZE \<le> lh_n s \<or> l_size s - 1 \<le> lh_n s)" using room D(5) by simp
  note ab = log_inv_above [OF L, of ?a]
  have as: "?a < c_size (cabs s)" using i room D(6) by simp
  define s0 where "s0 = s\<lparr>lh_sector := (lh_sector s)(?i := n)\<rparr>"
  have s0: "binv s0" "handle s0 b n" "cabs s0 = cabs s" using D(1) h by (simp_all add: s0_def)
  have "?a \<notin> c_busy (cabs s0)" "?a < c_size (cabs s0)" "?a \<notin> c_dirty (cabs s0)"
      "card (c_busy (cabs s0) \<union> c_dirty (cabs s0)) < NBUF"
    using ab as card D(10) s0(3) by simp_all
  from log_copy_run [OF s0(1,2) this, of "kseq (kmod (\<lambda>s. if int ?i = lh_n s then s\<lparr>lh_n := lh_n s + 1\<rparr> else s)) (set_dirty b)"]
  obtain s1 where 1: "log_write b s = kseq (kmod (\<lambda>s. if int ?i = lh_n s then s\<lparr>lh_n := lh_n s + 1\<rparr> else s)) (set_dirty b) s1"
      "binv s1" "cabs s1 = cputs [(?a, c_view (cabs s) n)] (cabs s)" "brest s1 = brest s0"
      "\<forall>k m. handle s k m \<longrightarrow> handle s1 k m"
    using g assms(2) b s0(3) by (auto simp: log_write_def Let_def kmonad s0_def)
  define s2 where "s2 = (if int ?i = lh_n s1 then s1\<lparr>lh_n := lh_n s1 + 1\<rparr> else s1)"
  note f1 = log_fields_rest [OF 1(4)]
  have 2: "binv s2" "cabs s2 = cabs s1" "handle s2 = handle s1" using 1(2) by (simp_all add: s2_def)
  obtain t where t: "set_dirty b s2 = Ok () t" "binv t" "\<forall>k m. handle t k m = handle s2 k m"
      "cabs t = (cabs s2)\<lparr>c_dirty := insert n (c_dirty (cabs s2))\<rparr>" "brest t = brest s2"
    using bc.set_dirty [OF 2(1), of b n] 2(3) 1(5) h by metis
  note ft = log_fields_rest [OF t(5)]
  have "log_write b s = Ok () t" using 1(1) t(1) by (simp add: kmonad s2_def)
  moreover have "cabs t = (cputs [(?a, c_view (cabs s) n)] (cabs s))\<lparr>c_dirty := insert n (homes s)\<rparr>"
    using t(4) 2(2) 1(3) D(10) ab(1) by simp
  moreover have "same_log s t" "l_busy t" "lh_sector t = (lh_sector s)(?i := n)"
      "lh_n t = (if int ?i = lh_n s then lh_n s + 1 else lh_n s)"
    using ft f1 assms(2) by (simp_all add: s2_def s0_def same_log_def)
  ultimately show ?thesis using t(2,3) 2(3) 1(5) by auto
qed

lemma slot_image:
  assumes "i = log_slot k sec n"
  shows "(sec(i := n)) ` {..<(if i = k then Suc k else k)} = insert n (sec ` {..<k})"
proof (cases "n \<in> sec ` {..<k}")
  case True
  then have "i < k" "sec i = n" using log_slot_in [OF True] assms by simp_all
  then have "sec(i := n) = sec" by auto
  then show ?thesis using True \<open>i < k\<close> by (simp add: insert_absorb)
next
  case False
  then have "i = k" using log_slot_out assms by simp
  then show ?thesis by (auto simp: lessThan_Suc)
qed

lemma slot_inj:
  assumes "i = log_slot k sec n" and "inj_on sec {..<k}"
  shows "inj_on (sec(i := n)) {..<(if i = k then Suc k else k)}"
proof (cases "n \<in> sec ` {..<k}")
  case True
  then have "i < k" "sec i = n" using log_slot_in [OF True] assms(1) by simp_all
  then have "sec(i := n) = sec" by auto
  then show ?thesis using assms(2) \<open>i < k\<close> by simp
next
  case False
  then have "i = k" using log_slot_out assms(1) by simp
  then show ?thesis using False assms(2) by (auto simp: lessThan_Suc inj_on_def)
qed

lemma log_write_inv:
  assumes L: "log_inv M s" and "l_busy s" and h: "handle s b n" and n: "n < l_start s" and room: "lh_n s < l_size s - 1"
    and card: "card (c_busy (cabs s) \<union> homes s) < NBUF"
  shows "\<exists>t. log_write b s = Ok () t \<and> log_inv (M - {n}) t \<and> same_log s t \<and> l_busy t \<and>
    (\<forall>k m. handle s k m \<longrightarrow> handle t k m) \<and> homes t = insert n (homes s) \<and>
    c_busy (cabs t) = c_busy (cabs s) \<and> c_size (cabs t) = c_size (cabs s) \<and>
    (\<forall>m < l_start s. c_view (cabs t) m = c_view (cabs s) m \<and> c_disk (cabs t) m = c_disk (cabs s) m)"
proof -
  note D = log_invD [OF L]
  obtain t i where t: "log_write b s = Ok () t" "binv t" "same_log s t" "l_busy t" "\<forall>k m. handle s k m \<longrightarrow> handle t k m"
      "i = log_slot (nat (lh_n s)) (lh_sector s) n" "lh_sector t = (lh_sector s)(i := n)"
      "lh_n t = (if int i = lh_n s then lh_n s + 1 else lh_n s)"
      "cabs t = (cputs [(l_start s + i + 1, c_view (cabs s) n)] (cabs s))\<lparr>c_dirty := insert n (homes s)\<rparr>"
    using log_write_run [OF assms] by blast
  note f = same_logD [OF t(3)]
  let ?k = "nat (lh_n s)" and ?a = "l_start s + i + 1" and ?v = "c_view (cabs s) n"
  have k: "nat (lh_n t) = (if i = ?k then Suc ?k else ?k)" using t(8) D(3) by (auto simp: nat_add_distrib)
  have ho: "homes t = insert n (homes s)" using slot_image [OF t(6)] k t(7) by (simp add: homes_def)
  have inj: "inj_on (lh_sector t) {..<nat (lh_n t)}" using slot_inj [OF t(6) D(8)] k t(7) by simp
  have c: "c_view (cabs t) = (c_view (cabs s))(?a := ?v)" "c_disk (cabs t) = (c_disk (cabs s))(?a := ?v)"
      "c_busy (cabs t) = c_busy (cabs s)" "c_dirty (cabs t) = insert n (homes s)" "c_size (cabs t) = c_size (cabs s)"
    using t(9) by simp_all
  have si: "i < nat (lh_n t)" "lh_sector t i = n" using t(6,7) k log_slot_le [of ?k "lh_sector s" n] by auto
  have copy: "c_disk (cabs t) (l_start s + j + 1) = c_view (cabs t) (lh_sector t j)"
    if "j < nat (lh_n t)" "lh_sector t j \<notin> M - {n}" for j
  proof (cases "j = i")
    case True
    then show ?thesis using si n c by simp
  next
    case False
    have j: "lh_sector t j = lh_sector s j" using t(7) False by simp
    have k: "j < ?k" using that(1) k False by (cases "i = ?k") auto
    have "lh_sector s j \<noteq> n" using inj_onD [OF inj, of j i] j si that(1) False by auto
    then have "c_disk (cabs s) (l_start s + j + 1) = c_view (cabs s) (lh_sector s j)"
      using D(13) [OF k] that(2) j by simp
    then show ?thesis using False c(1,2) j D(9) [OF homes_nth [OF k]] by simp
  qed
  have "c_view (cabs t) m = c_disk (cabs t) m" if "m \<notin> M - {n}" "m \<notin> homes t" for m
    using that ho c D(14) [of m] by auto
  moreover have "log_count (c_disk (cabs t) (l_start s)) = 0" using c D(15) by simp
  moreover have "lh_n t \<le> l_size s - 1" "0 \<le> lh_n t" using t(8) room D(3,4) by auto
  ultimately have "log_inv (M - {n}) t"
    unfolding log_inv_def using t(2) f D(2,5,6,7,9,11,12) c(3,4,5) inj ho n copy by auto
  then show ?thesis using t(1,3,4,5) ho c by auto
qed

end
