(* ===== verification/Log_Txn.thy ===== *)
theory Log_Txn
  imports Log_Spec
begin

text \<open>
  The contract the log gives the file system: inside a transaction a block is read, assigned to,
  passed to \<open>log_write\<close> and released, and the abstract state is the current content of the blocks
  below the log, the content on disk, and the set of blocks the transaction has logged.
\<close>

section \<open>Abstract state\<close>

record txn_abs =
  t_view :: "nat \<Rightarrow> bytes"     \<comment> \<open>current content, as the cache shows it\<close>
  t_disk :: "nat \<Rightarrow> bytes"     \<comment> \<open>content on disk, unchanged until the commit\<close>
  t_busy :: "nat set"           \<comment> \<open>blocks locked by \<open>bread\<close>\<close>
  t_logged :: "nat set"         \<comment> \<open>blocks the transaction has written\<close>
  t_limit :: nat                \<comment> \<open>first block of the log\<close>
  t_room :: nat                 \<comment> \<open>most blocks a transaction can log\<close>
  t_open :: bool                \<comment> \<open>a transaction is running\<close>
  t_size :: nat                 \<comment> \<open>sectors of the disk\<close>

definition tabs :: "'a log_st_scheme \<Rightarrow> txn_abs" where
  "tabs s = \<lparr>t_view = (\<lambda>m. if m < l_start s then c_view (cabs s) m else (\<lambda>_. 0)),
     t_disk = (\<lambda>m. if m < l_start s then c_disk (cabs s) m else (\<lambda>_. 0)),
     t_busy = c_busy (cabs s), t_logged = homes s, t_limit = l_start s,
     t_room = nat (l_size s - 1), t_open = l_busy s, t_size = c_size (cabs s)\<rparr>"

section \<open>The contract\<close>

locale transaction =
  fixes bread :: "nat \<Rightarrow> ('s, chan, 'h) km"
    and buf_data :: "'h \<Rightarrow> ('s, chan, bytes) km"
    and set_data :: "'h \<Rightarrow> (bytes \<Rightarrow> bytes) \<Rightarrow> ('s, chan, unit) km"
    and log_write :: "'h \<Rightarrow> ('s, chan, unit) km"
    and brelse :: "'h \<Rightarrow> ('s, chan, unit) km"
    and inv :: "nat set \<Rightarrow> 's \<Rightarrow> bool"
    and abs :: "'s \<Rightarrow> txn_abs"
    and handle :: "'s \<Rightarrow> 'h \<Rightarrow> nat \<Rightarrow> bool"
    and rest :: "'s \<Rightarrow> 'r"
    and capacity :: nat
  assumes room_cap: "inv M s \<Longrightarrow> t_room (abs s) < capacity"
    and logged: "inv M s \<Longrightarrow> finite (t_logged (abs s)) \<and> card (t_logged (abs s)) \<le> t_room (abs s)"
    and busy: "inv M s \<Longrightarrow> finite (t_busy (abs s)) \<and> M \<subseteq> t_busy (abs s)"
    and handle_busy: "handle s h n \<Longrightarrow> n \<in> t_busy (abs s)"
    and bread: "inv M s \<Longrightarrow> n \<notin> t_busy (abs s) \<Longrightarrow> n < t_limit (abs s) \<Longrightarrow>
      n \<in> t_logged (abs s) \<or> card (t_busy (abs s) \<union> t_logged (abs s)) < capacity \<Longrightarrow>
      \<exists>h t. bread n s = Ok h t \<and> inv M t \<and> handle t h n \<and> (\<forall>k m. handle s k m \<longrightarrow> handle t k m) \<and>
        abs t = (abs s)\<lparr>t_busy := insert n (t_busy (abs s))\<rparr> \<and> rest t = rest s"
    and buf_data: "inv M s \<Longrightarrow> handle s h n \<Longrightarrow> n < t_limit (abs s) \<Longrightarrow> buf_data h s = Ok (t_view (abs s) n) s"
    and set_data: "inv M s \<Longrightarrow> handle s h n \<Longrightarrow> n < t_limit (abs s) \<Longrightarrow>
      \<exists>t. set_data h u s = Ok () t \<and> inv (insert n M) t \<and> (\<forall>k m. handle s k m \<longrightarrow> handle t k m) \<and>
        abs t = (abs s)\<lparr>t_view := (t_view (abs s))(n := u (t_view (abs s) n))\<rparr> \<and> rest t = rest s"
    and log_write: "inv M s \<Longrightarrow> handle s h n \<Longrightarrow> n < t_limit (abs s) \<Longrightarrow> t_open (abs s) \<Longrightarrow>
      card (t_logged (abs s)) < t_room (abs s) \<Longrightarrow> card (t_busy (abs s) \<union> t_logged (abs s)) < capacity \<Longrightarrow>
      \<exists>t. log_write h s = Ok () t \<and> inv (M - {n}) t \<and> (\<forall>k m. handle s k m \<longrightarrow> handle t k m) \<and>
        abs t = (abs s)\<lparr>t_logged := insert n (t_logged (abs s))\<rparr> \<and> rest t = rest s"
    and brelse: "inv M s \<Longrightarrow> handle s h n \<Longrightarrow> n \<notin> M \<Longrightarrow>
      \<exists>t. brelse h s = Ok () t \<and> inv M t \<and> (\<forall>k m. handle s k m \<longrightarrow> m \<noteq> n \<longrightarrow> handle t k m) \<and>
        abs t = (abs s)\<lparr>t_busy := t_busy (abs s) - {n}\<rparr> \<and> rest t = rest s"
begin

lemma capacity_idle:
  assumes "inv M s" and "t_busy (abs s) = {}"
  shows "card (t_busy (abs s) \<union> t_logged (abs s)) < capacity"
  using logged [OF assms(1)] room_cap [OF assms(1)] assms(2) by simp

text \<open>
  Opening a block while others are held, and the two ways to be done with it: release it as it is, or assign to it, log
  it and release it.
\<close>

lemma open_held:
  assumes inv: "inv {} s" and n: "n \<notin> t_busy (abs s)" "n < t_limit (abs s)"
    and cap: "card (insert n (t_busy (abs s)) \<union> t_logged (abs s)) < capacity"
  obtains h s1 where "bread n s = Ok h s1" "buf_data h s1 = Ok (t_view (abs s) n) s1" "handle s1 h n" "inv {} s1"
    "abs s1 = (abs s)\<lparr>t_busy := insert n (t_busy (abs s))\<rparr>" "rest s1 = rest s" "\<forall>k m. handle s k m \<longrightarrow> handle s1 k m"
    "\<exists>t. brelse h s1 = Ok () t \<and> inv {} t \<and> abs t = abs s \<and> rest t = rest s \<and> (\<forall>k m. handle s k m \<longrightarrow> handle t k m)"
    "\<And>u. t_open (abs s) \<Longrightarrow> card (t_logged (abs s)) < t_room (abs s) \<Longrightarrow>
      \<exists>t. kseq (set_data h u) (kseq (log_write h) (brelse h)) s1 = Ok () t \<and> inv {} t \<and> rest t = rest s \<and>
        abs t = (abs s)\<lparr>t_view := (t_view (abs s))(n := u (t_view (abs s) n)), t_logged := insert n (t_logged (abs s))\<rparr> \<and>
        (\<forall>k m. handle s k m \<longrightarrow> handle t k m)"
proof -
  have fin: "finite (insert n (t_busy (abs s)) \<union> t_logged (abs s))" using busy [OF inv] logged [OF inv] by simp
  have "card (t_busy (abs s) \<union> t_logged (abs s)) \<le> card (insert n (t_busy (abs s)) \<union> t_logged (abs s))"
    by (rule card_mono [OF fin]) auto
  then obtain h s1 where 1: "bread n s = Ok h s1" "inv {} s1" "handle s1 h n"
      "abs s1 = (abs s)\<lparr>t_busy := insert n (t_busy (abs s))\<rparr>" "rest s1 = rest s" "\<forall>k m. handle s k m \<longrightarrow> handle s1 k m"
    using bread [OF inv n] cap by auto
  have other: "m \<noteq> n" if "handle s k m" for k m using handle_busy [OF that] n(1) by auto
  have freed: "insert n (t_busy (abs s)) - {n} = t_busy (abs s)" using n(1) by simp
  have v: "buf_data h s1 = Ok (t_view (abs s) n) s1" using buf_data [OF 1(2,3)] 1(4) n by simp
  have rel: "\<exists>t. brelse h s1 = Ok () t \<and> inv {} t \<and> abs t = abs s \<and> rest t = rest s \<and> (\<forall>k m. handle s k m \<longrightarrow> handle t k m)"
    using brelse [OF 1(2,3)] 1(4,5,6) freed other by auto
  have upd: "\<exists>t. kseq (set_data h u) (kseq (log_write h) (brelse h)) s1 = Ok () t \<and> inv {} t \<and> rest t = rest s \<and>
      abs t = (abs s)\<lparr>t_view := (t_view (abs s))(n := u (t_view (abs s) n)), t_logged := insert n (t_logged (abs s))\<rparr> \<and>
      (\<forall>k m. handle s k m \<longrightarrow> handle t k m)"
    if op: "t_open (abs s)" and room: "card (t_logged (abs s)) < t_room (abs s)" for u
  proof -
    obtain s2 where 2: "set_data h u s1 = Ok () s2" "inv {n} s2" "handle s2 h n" "\<forall>k m. handle s1 k m \<longrightarrow> handle s2 k m"
        "abs s2 = (abs s1)\<lparr>t_view := (t_view (abs s1))(n := u (t_view (abs s1) n))\<rparr>" "rest s2 = rest s1"
      using set_data [OF 1(2,3), of u] 1(3,4) n by auto
    have "card (t_busy (abs s2) \<union> t_logged (abs s2)) < capacity"
      using 1(4) 2(5) cap by simp
    then obtain s3 where 3: "log_write h s2 = Ok () s3" "inv {} s3" "handle s3 h n" "\<forall>k m. handle s2 k m \<longrightarrow> handle s3 k m"
        "abs s3 = (abs s2)\<lparr>t_logged := insert n (t_logged (abs s2))\<rparr>" "rest s3 = rest s2"
      using log_write [OF 2(2,3)] 1(4) 2(3,5) n op room by auto
    obtain s4 where 4: "brelse h s3 = Ok () s4" "inv {} s4" "abs s4 = (abs s3)\<lparr>t_busy := t_busy (abs s3) - {n}\<rparr>"
        "rest s4 = rest s3" "\<forall>k m. handle s3 k m \<longrightarrow> m \<noteq> n \<longrightarrow> handle s4 k m"
      using brelse [OF 3(2,3)] by auto
    have "abs s4 = (abs s)\<lparr>t_view := (t_view (abs s))(n := u (t_view (abs s) n)), t_logged := insert n (t_logged (abs s))\<rparr>"
      using 1(4) 2(5) 3(5) 4(3) freed by simp
    then show ?thesis using 1 2 3 4 other by (auto simp: kmonad)
  qed
  show ?thesis by (rule that [OF 1(1) v 1(3,2,4,5,6) rel upd])
qed

text \<open>The same when no other block is held: there is always a buffer.\<close>

lemma open_block:
  assumes inv: "inv {} s" and idle: "t_busy (abs s) = {}" and n: "n < t_limit (abs s)"
  obtains h s1 where "bread n s = Ok h s1" "buf_data h s1 = Ok (t_view (abs s) n) s1" "handle s1 h n" "inv {} s1"
    "abs s1 = (abs s)\<lparr>t_busy := {n}\<rparr>" "rest s1 = rest s"
    "\<exists>t. brelse h s1 = Ok () t \<and> inv {} t \<and> abs t = abs s \<and> rest t = rest s"
    "\<And>u. t_open (abs s) \<Longrightarrow> card (t_logged (abs s)) < t_room (abs s) \<Longrightarrow>
      \<exists>t. kseq (set_data h u) (kseq (log_write h) (brelse h)) s1 = Ok () t \<and> inv {} t \<and> rest t = rest s \<and>
        abs t = (abs s)\<lparr>t_view := (t_view (abs s))(n := u (t_view (abs s) n)), t_logged := insert n (t_logged (abs s))\<rparr>"
proof (cases "card (insert n (t_busy (abs s)) \<union> t_logged (abs s)) < capacity")
  case True
  have free: "n \<notin> t_busy (abs s)" using idle by simp
  show ?thesis
  proof (rule open_held [OF inv free n True])
    fix h s1
    assume 1: "bread n s = Ok h s1" "buf_data h s1 = Ok (t_view (abs s) n) s1" "handle s1 h n" "inv {} s1"
      "abs s1 = (abs s)\<lparr>t_busy := insert n (t_busy (abs s))\<rparr>" "rest s1 = rest s"
      "\<exists>t. brelse h s1 = Ok () t \<and> inv {} t \<and> abs t = abs s \<and> rest t = rest s \<and> (\<forall>k m. handle s k m \<longrightarrow> handle t k m)"
      "\<And>u. t_open (abs s) \<Longrightarrow> card (t_logged (abs s)) < t_room (abs s) \<Longrightarrow>
        \<exists>t. kseq (set_data h u) (kseq (log_write h) (brelse h)) s1 = Ok () t \<and> inv {} t \<and> rest t = rest s \<and>
          abs t = (abs s)\<lparr>t_view := (t_view (abs s))(n := u (t_view (abs s) n)), t_logged := insert n (t_logged (abs s))\<rparr> \<and>
          (\<forall>k m. handle s k m \<longrightarrow> handle t k m)"
    have a: "abs s1 = (abs s)\<lparr>t_busy := {n}\<rparr>" using 1(5) idle by simp
    show thesis by (rule that [OF 1(1,2,3,4) a 1(6)]) (use 1(7,8) in blast)+
  qed
next
  case False
  obtain h s1 where 1: "bread n s = Ok h s1" "inv {} s1" "handle s1 h n"
      "abs s1 = (abs s)\<lparr>t_busy := {n}\<rparr>" "rest s1 = rest s"
    using bread [OF inv _ n] capacity_idle [OF inv idle] idle by auto
  have v: "buf_data h s1 = Ok (t_view (abs s) n) s1" using buf_data [OF 1(2,3)] 1(4) n by simp
  have rel: "\<exists>t. brelse h s1 = Ok () t \<and> inv {} t \<and> abs t = abs s \<and> rest t = rest s"
    using brelse [OF 1(2,3)] 1(4,5) idle by auto
  have "finite (t_logged (abs s))" using logged [OF inv] by simp
  then have "card ({n} \<union> t_logged (abs s)) \<le> Suc (card (t_logged (abs s)))" by (simp add: card_insert_if)
  then have full: "\<not> card (t_logged (abs s)) < t_room (abs s)" using False idle room_cap [OF inv] by auto
  show ?thesis by (rule that [OF 1(1) v 1(3,2,4,5) rel]) (use full in blast)
qed

text \<open>Reading a block, with whatever the code does next.\<close>

lemma read_then:
  assumes "inv {} s" and "t_busy (abs s) = {}" and "n < t_limit (abs s)"
  shows "\<exists>t. kbind (bread n) (\<lambda>h. kbind (buf_data h) (\<lambda>v. kseq (brelse h) (k v))) s
      = k (t_view (abs s) n) t \<and> inv {} t \<and> abs t = abs s \<and> rest t = rest s"
  by (rule open_block [OF assms]) (auto simp: kmonad)

text \<open>Writing a block through the log, the new content given by the old.\<close>

lemma update_block:
  assumes "inv {} s" and "t_busy (abs s) = {}" and "n < t_limit (abs s)" and "t_open (abs s)"
    and "card (t_logged (abs s)) < t_room (abs s)"
  shows "\<exists>t. kbind (bread n) (\<lambda>h. kseq (set_data h u) (kseq (log_write h) (brelse h))) s = Ok () t \<and>
      inv {} t \<and> rest t = rest s \<and>
      abs t = (abs s)\<lparr>t_view := (t_view (abs s))(n := u (t_view (abs s) n)), t_logged := insert n (t_logged (abs s))\<rparr>"
proof -
  obtain h s1 where "bread n s = Ok h s1"
    "\<exists>t. kseq (set_data h u) (kseq (log_write h) (brelse h)) s1 = Ok () t \<and> inv {} t \<and> rest t = rest s \<and>
        abs t = (abs s)\<lparr>t_view := (t_view (abs s))(n := u (t_view (abs s) n)), t_logged := insert n (t_logged (abs s))\<rparr>"
    using open_block [OF assms(1-3)] assms(4,5) by metis
  then show ?thesis by (auto simp: kbind_Ok)
qed

end

section \<open>The log provides it\<close>

lemma homes_rest: "brest t = brest s \<Longrightarrow> homes t = homes s"
  using log_fields_rest [of t s] by (simp add: homes_def)

lemma log_inv_busy:
  assumes L: "log_inv M s" and "binv t" and R: "brest t = brest s" and c: "cabs t = (cabs s)\<lparr>c_busy := B\<rparr>"
    and "M \<subseteq> B" and "\<forall>m \<in> B. m < l_start s"
  shows "log_inv M t"
  unfolding log_inv_def
  using log_invD [OF L] log_fields_rest [OF R] homes_rest [OF R] assms(2,5,6) c by simp

lemma log_inv_set:
  assumes L: "log_inv M s" and "binv t" and R: "brest t = brest s"
    and c: "cabs t = (cabs s)\<lparr>c_view := (c_view (cabs s))(n := v)\<rparr>" and n: "n \<in> c_busy (cabs s)"
  shows "log_inv (insert n M) t"
  unfolding log_inv_def
  using log_invD [OF L] log_fields_rest [OF R] homes_rest [OF R] assms(2) c n by simp

lemma trest_rest: "brest t = brest s \<Longrightarrow> trest t = trest s"
  using log_fields_rest [of t s] by (simp add: trest_def)

lemma tabs_busy: "brest t = brest s \<Longrightarrow> cabs t = (cabs s)\<lparr>c_busy := B\<rparr> \<Longrightarrow> tabs t = (tabs s)\<lparr>t_busy := B\<rparr>"
  using log_fields_rest [of t s] homes_rest [of t s] by (simp add: tabs_def cong: if_cong)

interpretation tx: transaction "bread 1" buf_data set_data log_write brelse log_inv tabs handle trest NBUF
proof
  fix M and s :: "'a log_st_scheme" and n h u
  show "handle s h n \<Longrightarrow> n \<in> t_busy (tabs s)" using bc.handle_busy [of s h n] by (simp add: tabs_def)
  assume L: "log_inv M s"
  note D = log_invD [OF L]
  have lim: "t_limit (tabs s) = l_start s" by (simp add: tabs_def)
  show "t_room (tabs s) < NBUF" using D(5) by (simp add: tabs_def)
  show "finite (t_logged (tabs s)) \<and> card (t_logged (tabs s)) \<le> t_room (tabs s)"
    using D(3,4) card_homes [OF D(8)] by (simp add: tabs_def homes_def)
  show "finite (t_busy (tabs s)) \<and> M \<subseteq> t_busy (tabs s)" using D(12) bc.finite_abs by (simp add: tabs_def)
  show "\<exists>h t. bread 1 n s = Ok h t \<and> log_inv M t \<and> handle t h n \<and> (\<forall>k m. handle s k m \<longrightarrow> handle t k m) \<and>
      tabs t = (tabs s)\<lparr>t_busy := insert n (t_busy (tabs s))\<rparr> \<and> trest t = trest s"
    if n: "n \<notin> t_busy (tabs s)" "n < t_limit (tabs s)"
      "n \<in> t_logged (tabs s) \<or> card (t_busy (tabs s) \<union> t_logged (tabs s)) < NBUF"
  proof -
    obtain h t where t: "bread 1 n s = Ok h t" "binv t" "handle t h n" "\<forall>k m. handle s k m \<longrightarrow> handle t k m"
        "cabs t = (cabs s)\<lparr>c_busy := insert n (c_busy (cabs s))\<rparr>" "brest t = brest s"
      using bc.bread [OF D(1), of n] n D(6,10) by (auto simp: tabs_def)
    have "log_inv M t"
      by (rule log_inv_busy [OF L t(2,6,5)]) (use D(11,12) n(2) lim in auto)
    then show ?thesis
      using t(1,3,4) tabs_busy [OF t(6,5)] trest_rest [OF t(6)] by (auto simp: tabs_def)
  qed
  assume h: "handle s h n"
  have nb: "n \<in> c_busy (cabs s)" by (rule bc.handle_busy [OF h])
  show "\<exists>t. brelse h s = Ok () t \<and> log_inv M t \<and> (\<forall>k m. handle s k m \<longrightarrow> m \<noteq> n \<longrightarrow> handle t k m) \<and>
      tabs t = (tabs s)\<lparr>t_busy := t_busy (tabs s) - {n}\<rparr> \<and> trest t = trest s" if n: "n \<notin> M"
  proof -
    have "n \<in> c_dirty (cabs s) \<or> c_view (cabs s) n = c_disk (cabs s) n"
      using D(10,14) n by auto
    then obtain t where t: "brelse h s = Ok () t" "binv t" "\<forall>k m. handle s k m \<longrightarrow> m \<noteq> n \<longrightarrow> handle t k m"
        "cabs t = (cabs s)\<lparr>c_busy := c_busy (cabs s) - {n}\<rparr>" "brest t = brest s"
      using bc.brelse [OF D(1) h] by blast
    have "log_inv M t"
      by (rule log_inv_busy [OF L t(2,5,4)]) (use D(11,12) n in auto)
    then show ?thesis
      using t(1,3) tabs_busy [OF t(5,4)] trest_rest [OF t(5)] by (auto simp: tabs_def)
  qed
  assume n: "n < t_limit (tabs s)"
  show "buf_data h s = Ok (t_view (tabs s) n) s"
    using bc.buf_data [OF D(1) h] n by (simp add: tabs_def)
  show "\<exists>t. set_data h u s = Ok () t \<and> log_inv (insert n M) t \<and> (\<forall>k m. handle s k m \<longrightarrow> handle t k m) \<and>
      tabs t = (tabs s)\<lparr>t_view := (t_view (tabs s))(n := u (t_view (tabs s) n))\<rparr> \<and> trest t = trest s"
  proof -
    obtain t where t: "set_data h u s = Ok () t" "binv t" "\<forall>k m. handle t k m = handle s k m"
        "cabs t = (cabs s)\<lparr>c_view := (c_view (cabs s))(n := u (c_view (cabs s) n))\<rparr>" "brest t = brest s"
      using bc.set_data [OF D(1) h] by blast
    have "tabs t = (tabs s)\<lparr>t_view := (t_view (tabs s))(n := u (t_view (tabs s) n))\<rparr>"
      using log_fields_rest [OF t(5)] homes_rest [OF t(5)] t(4) n by (auto simp: tabs_def fun_eq_iff)
    then show ?thesis
      using t(1,3) log_inv_set [OF L t(2,5,4) nb] trest_rest [OF t(5)] by blast
  qed
  assume op: "t_open (tabs s)" "card (t_logged (tabs s)) < t_room (tabs s)"
    "card (t_busy (tabs s) \<union> t_logged (tabs s)) < NBUF"
  have "lh_n s < l_size s - 1" using op(2) card_homes [OF D(8)] by (simp add: tabs_def)
  then obtain t where t: "log_write h s = Ok () t" "log_inv (M - {n}) t" "same_log s t" "l_busy t"
      "\<forall>k m. handle s k m \<longrightarrow> handle t k m" "homes t = insert n (homes s)"
      "c_busy (cabs t) = c_busy (cabs s)" "c_size (cabs t) = c_size (cabs s)"
      "\<forall>m < l_start s. c_view (cabs t) m = c_view (cabs s) m \<and> c_disk (cabs t) m = c_disk (cabs s) m"
    using log_write_inv [OF L _ h] op n by (auto simp: tabs_def)
  have "tabs t = (tabs s)\<lparr>t_logged := insert n (t_logged (tabs s))\<rparr>"
    using t(4,6,7,8,9) same_logD [OF t(3)] op(1) by (auto simp: tabs_def fun_eq_iff)
  moreover have "trest t = trest s" using same_logD [OF t(3)] by (simp add: trest_def)
  ultimately show "\<exists>t. log_write h s = Ok () t \<and> log_inv (M - {n}) t \<and> (\<forall>k m. handle s k m \<longrightarrow> handle t k m) \<and>
      tabs t = (tabs s)\<lparr>t_logged := insert n (t_logged (tabs s))\<rparr> \<and> trest t = trest s"
    using t(1,2,5) by blast
qed

end
