(* ===== verification/Fs_Blocks.thy ===== *)
theory Fs_Blocks
  imports Fs Log_Txn
begin

text \<open>
  The on-disk structures of the file system and the block allocator: the encoding of inodes in
  inode blocks, the free bitmap, and what \<open>balloc\<close> and \<open>bfree\<close> do to the content of the blocks,
  proved over the contract of the log.
\<close>

section \<open>Definitions\<close>

text \<open>No transaction step is half done and no block is locked.\<close>

definition fs_idle :: "'a log_st_scheme \<Rightarrow> bool" where
  "fs_idle s \<longleftrightarrow> log_inv {} s \<and> t_busy (tabs s) = {}"

text \<open>The running transaction can log \<open>k\<close> more blocks.\<close>

definition room_for :: "nat \<Rightarrow> 'a log_st_scheme \<Rightarrow> bool" where
  "room_for k s \<longleftrightarrow> t_open (tabs s) \<and> card (t_logged (tabs s)) + k \<le> t_room (tabs s)"

definition sb_at :: "(nat \<Rightarrow> bytes) \<Rightarrow> superblock" where
  "sb_at V = sb_of (V 1)"

definition nblk :: "(nat \<Rightarrow> bytes) \<Rightarrow> nat" where
  "nblk V = unat (sb_size (sb_at V))"

definition bitmap_block :: "(nat \<Rightarrow> bytes) \<Rightarrow> nat \<Rightarrow> nat" where
  "bitmap_block V b = BBLOCK b (unat (sb_ninodes (sb_at V)))"

text \<open>Block \<open>b\<close> is marked free in the bitmap of a disk with content \<open>V\<close>.\<close>

definition blk_free :: "(nat \<Rightarrow> bytes) \<Rightarrow> nat \<Rightarrow> bool" where
  "blk_free V b \<longleftrightarrow> bit_clear (V (bitmap_block V b)) (b mod BPB)"

text \<open>The superblock and the bitmap lie below the log, and the data blocks above the bitmap.\<close>

definition fs_layout :: "nat \<Rightarrow> (nat \<Rightarrow> bytes) \<Rightarrow> bool" where
  "fs_layout limit V \<longleftrightarrow> 1 < limit \<and> (\<forall>b < nblk V. bitmap_block V b < limit)"

definition data_block :: "(nat \<Rightarrow> bytes) \<Rightarrow> nat \<Rightarrow> bool" where
  "data_block V x \<longleftrightarrow> 1 < x \<and> (\<forall>b < nblk V. bitmap_block V b < x)"

section \<open>Inode blocks\<close>

lemma put_addrs_lower: "o' + 4 \<le> off \<Longrightarrow> ld32 (put_addrs a n off d) o' = ld32 d o'"
  unfolding put_addrs_def by (induction n) (auto simp: le_fields)

lemma put_addrs_lower16: "o' + 2 \<le> off \<Longrightarrow> ld16 (put_addrs a n off d) o' = ld16 d o'"
  unfolding put_addrs_def by (induction n) (auto simp: le_fields)

lemma put_addrs_upper: "off + 4 * n \<le> o' \<Longrightarrow> ld32 (put_addrs a n off d) o' = ld32 d o'"
  unfolding put_addrs_def by (induction n) (auto simp: le_fields)

lemma put_addrs_upper16: "off + 4 * n \<le> o' \<Longrightarrow> ld16 (put_addrs a n off d) o' = ld16 d o'"
  unfolding put_addrs_def by (induction n) (auto simp: le_fields)

lemma put_addrs_field: "i < n \<Longrightarrow> ld32 (put_addrs a n off d) (off + 4 * i) = a i"
  unfolding put_addrs_def by (induction n) (auto simp: less_Suc_eq le_fields)

lemmas addrs_fields = put_addrs_lower put_addrs_lower16 put_addrs_upper put_addrs_upper16

lemma get_put_dinode:
  "d_type (get_dinode (put_dinode k x d) k) = d_type x" "d_major (get_dinode (put_dinode k x d) k) = d_major x"
  "d_minor (get_dinode (put_dinode k x d) k) = d_minor x" "d_nlink (get_dinode (put_dinode k x d) k) = d_nlink x"
  "d_size (get_dinode (put_dinode k x d) k) = d_size x"
  "i < NDIRECT + 1 \<Longrightarrow> d_addrs (get_dinode (put_dinode k x d) k) i = d_addrs x i"
  by (simp_all add: get_dinode_def put_dinode_def Let_def addrs_fields put_addrs_field le_fields)

lemma put_dinode_other:
  assumes "j \<noteq> k"
  shows "d_type (get_dinode (put_dinode k x d) j) = d_type (get_dinode d j)"
    "d_major (get_dinode (put_dinode k x d) j) = d_major (get_dinode d j)"
    "d_minor (get_dinode (put_dinode k x d) j) = d_minor (get_dinode d j)"
    "d_nlink (get_dinode (put_dinode k x d) j) = d_nlink (get_dinode d j)"
    "d_size (get_dinode (put_dinode k x d) j) = d_size (get_dinode d j)"
    "i < NDIRECT + 1 \<Longrightarrow> d_addrs (get_dinode (put_dinode k x d) j) i = d_addrs (get_dinode d j) i"
proof -
  have c: "64 * j + 64 \<le> 64 * k \<or> 64 * k + 64 \<le> 64 * j" using assms by linarith
  show "d_type (get_dinode (put_dinode k x d) j) = d_type (get_dinode d j)"
    "d_major (get_dinode (put_dinode k x d) j) = d_major (get_dinode d j)"
    "d_minor (get_dinode (put_dinode k x d) j) = d_minor (get_dinode d j)"
    "d_nlink (get_dinode (put_dinode k x d) j) = d_nlink (get_dinode d j)"
    "d_size (get_dinode (put_dinode k x d) j) = d_size (get_dinode d j)"
    using c by (auto simp: get_dinode_def put_dinode_def Let_def addrs_fields le_fields)
  show "d_addrs (get_dinode (put_dinode k x d) j) i = d_addrs (get_dinode d j) i" if "i < NDIRECT + 1"
    using c that by (auto simp: get_dinode_def put_dinode_def Let_def addrs_fields le_fields)
qed

section \<open>The bitmap\<close>

lemma bit_clear_iff: "bit_clear d bi \<longleftrightarrow> \<not> bit (d (bi div 8)) (bi mod 8)"
  using bit_iff_and_push_bit_not_eq_0 [of "d (bi div 8)" "bi mod 8"] by (simp add: bit_clear_def)

lemma div_mod_8: "bi div 8 = bj div 8 \<Longrightarrow> bi mod 8 = bj mod 8 \<Longrightarrow> bi = (bj :: nat)"
  by (metis div_mult_mod_eq)

lemma same_bit: "bj div 8 = bi div 8 \<Longrightarrow> bj mod 8 = bi mod 8 \<longleftrightarrow> bj = (bi :: nat)"
  using div_mod_8 [of bj bi] by auto

lemma bit_clear_set: "bit_clear (set_bit_at bi d) bj \<longleftrightarrow> bit_clear d bj \<and> bj \<noteq> bi"
  by (cases "bj div 8 = bi div 8") (auto simp: bit_clear_iff set_bit_at_def bit_simps same_bit)

lemma bit_clear_clear: "bit_clear (clear_bit_at bi d) bj \<longleftrightarrow> bit_clear d bj \<or> bj = bi"
  by (cases "bj div 8 = bi div 8") (auto simp: bit_clear_iff clear_bit_at_def bit_simps same_bit)

lemma set_clear_bit: "bit_clear d bi \<Longrightarrow> clear_bit_at bi (set_bit_at bi d) = d"
  by (auto simp: clear_bit_at_def set_bit_at_def bit_clear_iff fun_eq_iff bit_simps intro!: bit_word_eqI)

lemma bitmap_split:
  assumes "b = BPB * k" and "bi < BPB"
  shows "bitmap_block V (b + bi) = bitmap_block V b" "(b + bi) mod BPB = bi" "(b + bi) div BPB = k"
  using assms by (simp_all add: bitmap_block_def BBLOCK_def)

section \<open>Allocation\<close>

lemma fs_idleD:
  assumes "fs_idle s"
  shows "log_inv {} s" "t_busy (tabs s) = {}"
  using assms by (simp_all add: fs_idle_def)

text \<open>The same with the blocks \<open>H\<close> locked, and the room one allocation needs then.\<close>

definition fs_held :: "nat set \<Rightarrow> 'a log_st_scheme \<Rightarrow> bool" where
  "fs_held H s \<longleftrightarrow> log_inv {} s \<and> t_busy (tabs s) = H"

definition keeps_handles :: "'a log_st_scheme \<Rightarrow> 'a log_st_scheme \<Rightarrow> bool" where
  "keeps_handles s t \<longleftrightarrow> (\<forall>k m. handle s k m \<longrightarrow> handle t k m)"

definition alloc_room :: "nat \<Rightarrow> 'a log_st_scheme \<Rightarrow> bool" where
  "alloc_room B s \<longleftrightarrow> t_open (tabs s) \<and> card (insert B (t_logged (tabs s))) < t_room (tabs s) \<and>
     card (t_busy (tabs s) \<union> insert B (t_logged (tabs s))) + 1 < NBUF"

lemma fs_idle_held: "fs_idle s \<longleftrightarrow> fs_held {} s"
  by (simp add: fs_idle_def fs_held_def)

lemma fs_heldD:
  assumes "fs_held H s"
  shows "log_inv {} s" "t_busy (tabs s) = H" "finite (t_logged (tabs s))" "finite H"
  using assms tx.logged [of "{}" s] tx.busy [of "{}" s] by (auto simp: fs_held_def)

lemma keeps_handles_trans: "keeps_handles s t \<Longrightarrow> keeps_handles t u \<Longrightarrow> keeps_handles s u"
  by (simp add: keeps_handles_def)

lemma alloc_room_card:
  assumes "fs_held H s" and "alloc_room B s"
  shows "t_open (tabs s)" "card (t_logged (tabs s)) < t_room (tabs s)" "card (insert n H \<union> t_logged (tabs s)) < NBUF"
    "card (insert n H \<union> insert B (t_logged (tabs s))) < NBUF"
proof -
  note D = fs_heldD [OF assms(1)]
  have R: "t_open (tabs s)" "card (insert B (t_logged (tabs s))) < t_room (tabs s)" "card (H \<union> insert B (t_logged (tabs s))) + 1 < NBUF"
    using assms(2) D(2) by (auto simp: alloc_room_def)
  have "card (t_logged (tabs s)) \<le> card (insert B (t_logged (tabs s)))" by (rule card_mono) (use D(3) in auto)
  then show "t_open (tabs s)" "card (t_logged (tabs s)) < t_room (tabs s)" using R by auto
  have "insert n H \<union> insert B (t_logged (tabs s)) = insert n (H \<union> insert B (t_logged (tabs s)))" by auto
  then show l: "card (insert n H \<union> insert B (t_logged (tabs s))) < NBUF"
    using R(3) D(3,4) by (simp add: card_insert_if split: if_splits)
  have "card (insert n H \<union> t_logged (tabs s)) \<le> card (insert n H \<union> insert B (t_logged (tabs s)))"
    by (rule card_mono) (use D(3,4) in auto)
  then show "card (insert n H \<union> t_logged (tabs s)) < NBUF" using l by simp
qed

lemma readsb_held:
  assumes "fs_held H s" and "1 < t_limit (tabs s)" and "1 \<notin> H" and "card (insert 1 H \<union> t_logged (tabs s)) < NBUF"
  shows "\<exists>t. readsb 1 s = Ok (sb_at (t_view (tabs s))) t \<and> fs_held H t \<and> tabs t = tabs s \<and> trest t = trest s \<and> keeps_handles s t"
proof -
  note D = fs_heldD [OF assms(1)]
  obtain h s1 where 1: "bread 1 1 s = Ok h s1" "buf_data h s1 = Ok (t_view (tabs s) 1) s1"
      "\<exists>t. brelse h s1 = Ok () t \<and> log_inv {} t \<and> tabs t = tabs s \<and> trest t = trest s \<and> (\<forall>k m. handle s k m \<longrightarrow> handle t k m)"
    by (rule tx.open_held [OF D(1) _ assms(2)]) (use assms(3,4) D(2) in auto)
  then obtain t where "brelse h s1 = Ok () t" "log_inv {} t" "tabs t = tabs s" "trest t = trest s" "keeps_handles s t"
    by (auto simp: keeps_handles_def)
  then show ?thesis using 1(1,2) D(2) by (auto simp: readsb_def sb_at_def fs_held_def kmonad)
qed

lemma update_held:
  assumes "fs_held H s" and "n \<notin> H" and "n < t_limit (tabs s)" and "t_open (tabs s)"
    and "card (t_logged (tabs s)) < t_room (tabs s)" and "card (insert n H \<union> t_logged (tabs s)) < NBUF"
  shows "\<exists>t. kbind (bread 1 n) (\<lambda>h. kseq (set_data h u) (kseq (log_write h) (brelse h))) s = Ok () t \<and> fs_held H t \<and>
    trest t = trest s \<and> keeps_handles s t \<and>
    tabs t = (tabs s)\<lparr>t_view := (t_view (tabs s))(n := u (t_view (tabs s) n)), t_logged := insert n (t_logged (tabs s))\<rparr>"
proof -
  note D = fs_heldD [OF assms(1)]
  obtain h s1 where 1: "bread 1 n s = Ok h s1"
      "\<exists>t. kseq (set_data h u) (kseq (log_write h) (brelse h)) s1 = Ok () t \<and> log_inv {} t \<and> trest t = trest s \<and>
        tabs t = (tabs s)\<lparr>t_view := (t_view (tabs s))(n := u (t_view (tabs s) n)), t_logged := insert n (t_logged (tabs s))\<rparr> \<and>
        (\<forall>k m. handle s k m \<longrightarrow> handle t k m)"
    by (rule tx.open_held [OF D(1) _ assms(3)]) (use assms(2,4,5,6) D(2) in auto)
  then obtain t where "kseq (set_data h u) (kseq (log_write h) (brelse h)) s1 = Ok () t" "log_inv {} t" "trest t = trest s"
      "tabs t = (tabs s)\<lparr>t_view := (t_view (tabs s))(n := u (t_view (tabs s) n)), t_logged := insert n (t_logged (tabs s))\<rparr>"
      "keeps_handles s t"
    by (auto simp: keeps_handles_def)
  then show ?thesis using 1(1) D(2) by (auto simp: fs_held_def kbind_Ok)
qed

lemma readsb_idle:
  assumes "fs_idle s" and "1 < t_limit (tabs s)"
  shows "\<exists>t. readsb 1 s = Ok (sb_at (t_view (tabs s))) t \<and> fs_idle t \<and> tabs t = tabs s \<and> trest t = trest s"
  using tx.read_then [OF fs_idleD [OF assms(1)] assms(2), of "\<lambda>d. kreturn (sb_of d)"] fs_idleD(2) [OF assms(1)]
  by (auto simp: readsb_def sb_at_def fs_idle_def kmonad)

lemma card_insert_le': "finite A \<Longrightarrow> card (insert x A) \<le> card A + 1"
  by (simp add: card_insert_if)

text \<open>The state after block \<open>x\<close> has been taken.\<close>

definition after_alloc :: "nat \<Rightarrow> txn_abs \<Rightarrow> txn_abs" where
  "after_alloc x a = (let V = t_view a; B = bitmap_block V x;
       V1 = V(B := set_bit_at (x mod BPB) (V B)) in
     a\<lparr>t_view := V1(x := fill (V1 x) 0 0 BSIZE), t_logged := insert x (insert B (t_logged a))\<rparr>)"

lemma balloc_take:
  assumes S: "fs_held H s" and room: "alloc_room (bitmap_block V x) s" and V: "V = t_view (tabs s)"
    and x: "x < t_limit (tabs s)" "x \<notin> H" and b: "bitmap_block V b = bitmap_block V x" "b + bi = x" "x mod BPB = bi"
    and h: "kseq (set_data h (set_bit_at bi)) (kseq (log_write h) (brelse h)) s1 = Ok () s2" "fs_held H s2" "trest s2 = trest s"
      "tabs s2 = (tabs s)\<lparr>t_view := V(bitmap_block V b := set_bit_at bi (V (bitmap_block V b))), t_logged := insert (bitmap_block V b) (t_logged (tabs s))\<rparr>"
      "keeps_handles s s2"
  shows "\<exists>t. kseq (set_data h (set_bit_at bi)) (kseq (log_write h) (kseq (brelse h) (kseq (bzero 1 (b + bi)) (kreturn (b + bi))))) s1 = Ok x t \<and>
    fs_held H t \<and> trest t = trest s \<and> keeps_handles s t \<and> tabs t = after_alloc x (tabs s)"
proof -
  let ?B = "bitmap_block V x"
  note R = alloc_room_card [OF S room]
  have l: "t_open (tabs s2)" "card (t_logged (tabs s2)) < t_room (tabs s2)" "card (insert x H \<union> t_logged (tabs s2)) < NBUF" "x < t_limit (tabs s2)"
    using h(4) R(1,4) x(1) room b(1) by (simp_all add: alloc_room_def)
  obtain t where t: "bzero 1 x s2 = Ok () t" "fs_held H t" "trest t = trest s2" "keeps_handles s2 t"
      "tabs t = (tabs s2)\<lparr>t_view := (t_view (tabs s2))(x := fill (t_view (tabs s2) x) 0 0 BSIZE), t_logged := insert x (t_logged (tabs s2))\<rparr>"
    using update_held [OF h(2) x(2) l(4,1,2,3), of "\<lambda>d. fill d 0 0 BSIZE"] unfolding bzero_def by blast
  have "kseq (set_data h (set_bit_at bi)) (kseq (log_write h) (kseq (brelse h) (kseq (bzero 1 (b + bi)) (kreturn (b + bi))))) s1 = Ok x t"
    unfolding kseq3_run [OF h(1)] using t(1) b(2) by (simp add: kmonad)
  moreover have "tabs t = after_alloc x (tabs s)"
    unfolding t(5) h(4) after_alloc_def Let_def V [symmetric] b by simp
  ultimately show ?thesis using t(2,3) h(3) keeps_handles_trans [OF h(5) t(4)] by auto
qed

lemma balloc_from_run:
  assumes "fs_held H s" and "alloc_room (bitmap_block V x) s" and V: "V = t_view (tabs s)" and L: "fs_layout (t_limit (tabs s)) V"
    and "\<forall>b < nblk V. bitmap_block V b \<notin> H"
    and x: "x < nblk V" "x < t_limit (tabs s)" "x \<notin> H" "blk_free V x" "\<forall>y. BPB * k \<le> y \<and> y < x \<longrightarrow> \<not> blk_free V y" "BPB * k \<le> x"
    and K: "K = (nblk V + BPB - 1) div BPB"
  shows "\<exists>t. balloc_from 1 (sb_at V) (map ((*) BPB) [k..<K]) s = Ok x t \<and> fs_held H t \<and> trest t = trest s \<and> keeps_handles s t \<and>
    tabs t = after_alloc x (tabs s)"
  using assms
proof (induction "K - k" arbitrary: k s)
  case 0
  then show ?case by (auto simp: less_eq_div_iff_mult_less_eq)
next
  case (Suc d)
  let ?a = "tabs s" and ?b = "BPB * k" and ?B = "bitmap_block V (BPB * k)"
  note D = fs_heldD [OF Suc.prems(1)] and R = alloc_room_card [OF Suc.prems(1,2)]
  have k: "k < K" using Suc.hyps(2) by simp
  have bn: "?b < nblk V" using Suc.prems(6,11) by simp
  then have B: "?B < t_limit ?a" "?B \<notin> t_busy ?a" using Suc.prems(4,5) D(2) by (auto simp: fs_layout_def)
  have cap: "card (insert ?B (t_busy ?a) \<union> t_logged ?a) < NBUF" using R(3) D(2) by simp
  obtain h s1 where 1: "bread 1 ?B s = Ok h s1" "buf_data h s1 = Ok (V ?B) s1"
      "\<exists>t. brelse h s1 = Ok () t \<and> log_inv {} t \<and> tabs t = tabs s \<and> trest t = trest s \<and> (\<forall>k m. handle s k m \<longrightarrow> handle t k m)"
      "\<And>u. t_open (tabs s) \<Longrightarrow> card (t_logged (tabs s)) < t_room (tabs s) \<Longrightarrow>
      \<exists>t. kseq (set_data h u) (kseq (log_write h) (brelse h)) s1 = Ok () t \<and> log_inv {} t \<and> trest t = trest s \<and>
        tabs t = (tabs s)\<lparr>t_view := (t_view (tabs s))(?B := u (t_view (tabs s) ?B)), t_logged := insert ?B (t_logged (tabs s))\<rparr> \<and>
        (\<forall>k m. handle s k m \<longrightarrow> handle t k m)"
    using tx.open_held [OF D(1) B(2,1) cap] Suc.prems(3) by metis
  have free: "bit_clear (V ?B) bi \<longleftrightarrow> blk_free V (?b + bi)" if "bi < BPB" for bi
    using bitmap_split [OF refl that] by (simp add: blk_free_def)
  show ?case
  proof (cases "x < ?b + BPB")
    case True
    let ?i = "x - ?b"
    have f: "find (bit_clear (V ?B)) [0..<min BPB (nblk V - ?b)] = Some ?i"
      unfolding find_upt_Some
    proof (intro conjI allI impI)
      show "?i < min BPB (nblk V - ?b)" using True Suc.prems(6,11) by auto
      show "bit_clear (V ?B) ?i" using free [of ?i] True Suc.prems(9,11) by auto
      show "\<not> bit_clear (V ?B) j" if "j < ?i" for j using free [of j] that True Suc.prems(10) by auto
    qed
    obtain s2 where 2: "kseq (set_data h (set_bit_at ?i)) (kseq (log_write h) (brelse h)) s1 = Ok () s2" "fs_held H s2"
        "trest s2 = trest s" "tabs s2 = ?a\<lparr>t_view := V(?B := set_bit_at ?i (V ?B)), t_logged := insert ?B (t_logged ?a)\<rparr>" "keeps_handles s s2"
      using 1(4) [OF R(1,2), of "set_bit_at ?i"] Suc.prems(3) D(2) by (auto simp: fs_held_def keeps_handles_def)
    have bx: "bitmap_block V ?b = bitmap_block V x" "?b + ?i = x" "x mod BPB = ?i"
      using Suc.prems(11) True bitmap_split(1) [of ?b k ?i V] bitmap_split(2) [of ?b k ?i] by auto
    obtain t where t: "kseq (set_data h (set_bit_at ?i)) (kseq (log_write h) (kseq (brelse h) (kseq (bzero 1 (?b + ?i)) (kreturn (?b + ?i))))) s1 = Ok x t"
        "fs_held H t" "trest t = trest s" "keeps_handles s t" "tabs t = after_alloc x (tabs s)"
      using balloc_take [OF Suc.prems(1,2,3,7,8) bx 2] by blast
    then have "balloc_from 1 (sb_at V) (?b # map ((*) BPB) [Suc k..<K]) s = Ok x t"
      using 1(1,2) f by (simp add: kmonad bitmap_block_def nblk_def)
    then show ?thesis using k t(2-5) by (simp add: upt_conv_Cons)
  next
    case False
    have f: "find (bit_clear (V ?B)) [0..<min BPB (nblk V - ?b)] = None"
      using free Suc.prems(10) False by (auto simp: find_None_iff)
    obtain s2 where 2: "brelse h s1 = Ok () s2" "log_inv {} s2" "tabs s2 = ?a" "trest s2 = trest s" "keeps_handles s s2"
      using 1(3) by (auto simp: keeps_handles_def)
    have "\<exists>t. balloc_from 1 (sb_at V) (map ((*) BPB) [Suc k..<K]) s2 = Ok x t \<and> fs_held H t \<and> trest t = trest s2 \<and> keeps_handles s2 t \<and>
        tabs t = after_alloc x (tabs s2)"
    proof (rule Suc.hyps(1))
      show "d = K - Suc k" "fs_held H s2" "alloc_room (bitmap_block V x) s2" "V = t_view (tabs s2)" "fs_layout (t_limit (tabs s2)) V"
          "x < t_limit (tabs s2)"
        using Suc.hyps(2) Suc.prems(2,3,4,7) 2 D(2) by (simp_all add: fs_held_def alloc_room_def)
      show "BPB * Suc k \<le> x" using False by simp
      then show "\<forall>y. BPB * Suc k \<le> y \<and> y < x \<longrightarrow> \<not> blk_free V y" using Suc.prems(10) by simp
    qed (fact Suc.prems)+
    moreover have "balloc_from 1 (sb_at V) (?b # map ((*) BPB) [Suc k..<K]) s = balloc_from 1 (sb_at V) (map ((*) BPB) [Suc k..<K]) s2"
      using 1(1,2) f 2(1) by (simp add: kbind_Ok bitmap_block_def nblk_def)
    ultimately show ?thesis using k 2(3,4) keeps_handles_trans [OF 2(5)] by (auto simp: upt_conv_Cons)
  qed
qed

text \<open>\<open>balloc\<close> takes the lowest-numbered free block.\<close>

lemma balloc_held:
  assumes S: "fs_held H s" and room: "alloc_room (bitmap_block (t_view (tabs s)) x) s" and L: "fs_layout (t_limit (tabs s)) (t_view (tabs s))"
    and H: "1 \<notin> H" "\<forall>b < nblk (t_view (tabs s)). bitmap_block (t_view (tabs s)) b \<notin> H" "x \<notin> H"
    and x: "x < nblk (t_view (tabs s))" "x < t_limit (tabs s)" "blk_free (t_view (tabs s)) x"
      "\<forall>y<x. \<not> blk_free (t_view (tabs s)) y"
  shows "\<exists>t. balloc 1 s = Ok x t \<and> fs_held H t \<and> trest t = trest s \<and> keeps_handles s t \<and> tabs t = after_alloc x (tabs s)"
proof -
  let ?V = "t_view (tabs s)"
  obtain s1 where 1: "readsb 1 s = Ok (sb_at ?V) s1" "fs_held H s1" "tabs s1 = tabs s" "trest s1 = trest s" "keeps_handles s s1"
    using readsb_held [OF S _ H(1) alloc_room_card(3) [OF S room]] L by (auto simp: fs_layout_def)
  have "\<exists>t. balloc_from 1 (sb_at ?V) (map ((*) BPB) [0..<(nblk ?V + BPB - 1) div BPB]) s1 = Ok x t \<and> fs_held H t \<and>
      trest t = trest s1 \<and> keeps_handles s1 t \<and> tabs t = after_alloc x (tabs s1)"
    by (rule balloc_from_run) (use 1 room L H x in \<open>auto simp: alloc_room_def\<close>)
  then show ?thesis using 1 keeps_handles_trans [OF 1(5)] by (auto simp: balloc_def kbind_Ok nblk_def)
qed

lemma balloc_run:
  assumes idle: "fs_idle s" and room: "room_for 2 s" and L: "fs_layout (t_limit (tabs s)) (t_view (tabs s))"
    and x: "x < nblk (t_view (tabs s))" "x < t_limit (tabs s)" "blk_free (t_view (tabs s)) x"
      "\<forall>y<x. \<not> blk_free (t_view (tabs s)) y"
  shows "\<exists>t. balloc 1 s = Ok x t \<and> fs_idle t \<and> trest t = trest s \<and> tabs t = after_alloc x (tabs s)"
proof -
  have "fs_held {} s" using idle by (simp add: fs_idle_held)
  note D = fs_heldD [OF this]
  have "t_room (tabs s) < NBUF" by (rule tx.room_cap [OF D(1)])
  then have "alloc_room (bitmap_block (t_view (tabs s)) x) s"
    using room card_insert_le' [OF D(3), of "bitmap_block (t_view (tabs s)) x"] D(2) by (simp add: alloc_room_def room_for_def)
  then show ?thesis using balloc_held [OF \<open>fs_held {} s\<close> _ L _ _ _ x] by (auto simp: fs_idle_held)
qed

text \<open>When every block is in use the search ends in a panic.\<close>

lemma balloc_from_full:
  assumes "fs_idle s" and "t_view (tabs s) = V" and "fs_layout (t_limit (tabs s)) V"
    and "\<forall>y<nblk V. \<not> blk_free V y" and "K = (nblk V + BPB - 1) div BPB"
  shows "balloc_from 1 (sb_at V) (map ((*) BPB) [k..<K]) s = Panic ''balloc: out of blocks''"
  using assms
proof (induction "K - k" arbitrary: k s)
  case 0
  then show ?case by (simp add: kmonad)
next
  case (Suc n)
  let ?b = "BPB * k" and ?B = "bitmap_block V (BPB * k)"
  have k: "k < K" using Suc.hyps(2) by simp
  then have bn: "?b < nblk V" using Suc.prems(5) by simp
  then have B: "?B < t_limit (tabs s)" using Suc.prems(3) by (simp add: fs_layout_def)
  obtain h s1 where 1: "bread 1 ?B s = Ok h s1" "buf_data h s1 = Ok (V ?B) s1"
      "\<exists>t. brelse h s1 = Ok () t \<and> log_inv {} t \<and> tabs t = tabs s \<and> trest t = trest s"
    using tx.open_block [OF fs_idleD [OF Suc.prems(1)] B] Suc.prems(2) by metis
  have "find (bit_clear (V ?B)) [0..<min BPB (nblk V - ?b)] = None"
    unfolding find_upt_None
  proof (intro allI impI)
    fix bi assume bi: "bi < min BPB (nblk V - ?b)"
    then have "\<not> blk_free V (?b + bi)" using Suc.prems(4) by auto
    then show "\<not> bit_clear (V ?B) bi"
      using bitmap_split(1) [of ?b k bi V] bitmap_split(2) [of ?b k bi] bi by (auto simp: blk_free_def)
  qed
  moreover obtain s2 where 2: "brelse h s1 = Ok () s2" "log_inv {} s2" "tabs s2 = tabs s" using 1(3) by blast
  moreover have "balloc_from 1 (sb_at V) (map ((*) BPB) [Suc k..<K]) s2 = Panic ''balloc: out of blocks''"
    by (rule Suc.hyps(1)) (use Suc.hyps(2) Suc.prems 2 fs_idleD(2) [OF Suc.prems(1)] in \<open>auto simp: fs_idle_def\<close>)
  ultimately have "balloc_from 1 (sb_at V) (?b # map ((*) BPB) [Suc k..<K]) s = Panic ''balloc: out of blocks''"
    using 1(1,2) by (simp add: kbind_Ok bitmap_block_def nblk_def)
  then show ?case using k by (simp add: upt_conv_Cons)
qed

lemma balloc_full:
  assumes idle: "fs_idle s" and L: "fs_layout (t_limit (tabs s)) (t_view (tabs s))"
    and full: "\<forall>y<nblk (t_view (tabs s)). \<not> blk_free (t_view (tabs s)) y"
  shows "balloc 1 s = Panic ''balloc: out of blocks''"
proof -
  let ?V = "t_view (tabs s)"
  obtain s1 where 1: "readsb 1 s = Ok (sb_at ?V) s1" "fs_idle s1" "tabs s1 = tabs s"
    using readsb_idle [OF idle] L by (auto simp: fs_layout_def)
  have "balloc_from 1 (sb_at ?V) (map ((*) BPB) [0..<(nblk ?V + BPB - 1) div BPB]) s1 = Panic ''balloc: out of blocks''"
    by (rule balloc_from_full) (use 1 L full in auto)
  then show ?thesis using 1(1) by (simp add: balloc_def kbind_Ok nblk_def)
qed

section \<open>Freeing\<close>

definition after_free :: "nat \<Rightarrow> txn_abs \<Rightarrow> txn_abs" where
  "after_free x a = (let V = t_view a; B = bitmap_block V x in
     a\<lparr>t_view := V(B := clear_bit_at (x mod BPB) (V B)), t_logged := insert B (t_logged a)\<rparr>)"

lemma bfree_run:
  assumes idle: "fs_idle s" and room: "room_for 1 s" and L: "fs_layout (t_limit (tabs s)) (t_view (tabs s))"
    and x: "x < nblk (t_view (tabs s))" "\<not> blk_free (t_view (tabs s)) x"
  shows "\<exists>t. bfree 1 x s = Ok () t \<and> fs_idle t \<and> trest t = trest s \<and> tabs t = after_free x (tabs s)"
proof -
  let ?V = "t_view (tabs s)" and ?B = "bitmap_block (t_view (tabs s)) x"
  obtain s1 where 1: "readsb 1 s = Ok (sb_at ?V) s1" "fs_idle s1" "tabs s1 = tabs s" "trest s1 = trest s"
    using readsb_idle [OF idle] L by (auto simp: fs_layout_def)
  have B: "?B < t_limit (tabs s1)" using L x(1) 1(3) by (simp add: fs_layout_def)
  have op: "t_open (tabs s1)" "card (t_logged (tabs s1)) < t_room (tabs s1)"
    using room 1(3) by (simp_all add: room_for_def)
  obtain h s2 where 2: "bread 1 ?B s1 = Ok h s2" "buf_data h s2 = Ok (t_view (tabs s1) ?B) s2"
      "\<exists>t. kseq (set_data h (clear_bit_at (x mod BPB))) (kseq (log_write h) (brelse h)) s2 = Ok () t \<and> log_inv {} t \<and>
        trest t = trest s1 \<and> tabs t = (tabs s1)\<lparr>t_view := (t_view (tabs s1))(?B := clear_bit_at (x mod BPB) (t_view (tabs s1) ?B)),
          t_logged := insert ?B (t_logged (tabs s1))\<rparr>"
    by (rule tx.open_block [OF fs_idleD [OF 1(2)] B]) (use op in blast)
  then obtain t where t: "kseq (set_data h (clear_bit_at (x mod BPB))) (kseq (log_write h) (brelse h)) s2 = Ok () t" "log_inv {} t"
      "trest t = trest s" "tabs t = after_free x (tabs s)"
    using 1(3,4) by (auto simp: after_free_def Let_def)
  have "\<not> bit_clear (?V ?B) (x mod BPB)" using x(2) by (simp add: blk_free_def)
  then have "bfree 1 x s = Ok () t"
    using 1(1,3) 2(1,2) t(1) by (simp add: bfree_def kbind_Ok bitmap_block_def)
  moreover have "fs_idle t" using t(2,4) fs_idleD(2) [OF idle] by (simp add: fs_idle_def after_free_def Let_def)
  ultimately show ?thesis using t(3,4) by blast
qed

lemma bfree_free:
  assumes idle: "fs_idle s" and L: "fs_layout (t_limit (tabs s)) (t_view (tabs s))"
    and x: "x < nblk (t_view (tabs s))" "blk_free (t_view (tabs s)) x"
  shows "bfree 1 x s = Panic ''freeing free block''"
proof -
  let ?V = "t_view (tabs s)" and ?B = "bitmap_block (t_view (tabs s)) x"
  obtain s1 where 1: "readsb 1 s = Ok (sb_at ?V) s1" "fs_idle s1" "tabs s1 = tabs s"
    using readsb_idle [OF idle] L by (auto simp: fs_layout_def)
  have B: "?B < t_limit (tabs s1)" using L x(1) 1(3) by (simp add: fs_layout_def)
  obtain h s2 where 2: "bread 1 ?B s1 = Ok h s2" "buf_data h s2 = Ok (?V ?B) s2"
    using tx.open_block [OF fs_idleD [OF 1(2)] B] 1(3) by metis
  have "bit_clear (?V ?B) (x mod BPB)" using x(2) by (simp add: blk_free_def)
  then show ?thesis using 1(1) 2 by (simp add: bfree_def kbind_Ok bitmap_block_def kmonad)
qed

section \<open>Effect on the bitmap\<close>

lemma after_alloc_view:
  assumes "data_block (t_view a) x" and "x < nblk (t_view a)"
  defines "V \<equiv> t_view a" and "V' \<equiv> t_view (after_alloc x a)"
  shows "sb_at V' = sb_at V" "\<forall>y < nblk V. blk_free V' y \<longleftrightarrow> blk_free V y \<and> y \<noteq> x"
    "\<forall>i < BSIZE. V' x i = 0" "\<forall>m. m \<noteq> x \<longrightarrow> m \<noteq> bitmap_block V x \<longrightarrow> V' m = V m"
proof -
  have x: "1 < x" "\<forall>b < nblk V. bitmap_block V b < x" using assms(1) by (auto simp: data_block_def V_def)
  then have B: "bitmap_block V x \<noteq> x" "bitmap_block V x \<noteq> 1" using assms(2) by (auto simp: V_def bitmap_block_def BBLOCK_def)
  have V': "V' = V(bitmap_block V x := set_bit_at (x mod BPB) (V (bitmap_block V x)), x := fill (V x) 0 0 BSIZE)"
    using B by (simp add: V'_def after_alloc_def Let_def V_def)
  show sb: "sb_at V' = sb_at V" using V' B x(1) by (simp add: sb_at_def)
  show "\<forall>i < BSIZE. V' x i = 0" by (simp add: V')
  show "\<forall>m. m \<noteq> x \<longrightarrow> m \<noteq> bitmap_block V x \<longrightarrow> V' m = V m" by (simp add: V')
  show "\<forall>y < nblk V. blk_free V' y \<longleftrightarrow> blk_free V y \<and> y \<noteq> x"
  proof (intro allI impI)
    fix y assume "y < nblk V"
    then have y: "bitmap_block V y \<noteq> x" "bitmap_block V' y = bitmap_block V y" using x(2) sb by (auto simp: bitmap_block_def)
    show "blk_free V' y \<longleftrightarrow> blk_free V y \<and> y \<noteq> x"
    proof (cases "bitmap_block V y = bitmap_block V x")
      case True
      then have "y div BPB = x div BPB" by (simp add: bitmap_block_def BBLOCK_def)
      then have "y mod BPB = x mod BPB \<longleftrightarrow> y = x" by (metis div_mult_mod_eq)
      then show ?thesis using True y B by (simp add: blk_free_def V' bit_clear_set) 
    next
      case False
      then show ?thesis using y by (auto simp: blk_free_def V')
    qed
  qed
qed

end
