(* ===== verification/Fs_Files.thy ===== *)
theory Fs_Files
  imports Fs_Blocks
begin

text \<open>
  The content of files whose blocks are allocated: \<open>readi\<close> and \<open>writei\<close> against the content as a
  function from offsets to bytes, over direct and indirect blocks.
\<close>

section \<open>Definitions\<close>

definition ind_block :: "inode \<Rightarrow> nat" where
  "ind_block x = unat (i_addrs x NDIRECT)"

text \<open>The disk block of the \<open>bn\<close>th block of a file.\<close>

definition blk_addr :: "(nat \<Rightarrow> bytes) \<Rightarrow> inode \<Rightarrow> nat \<Rightarrow> nat" where
  "blk_addr V x bn = (if bn < NDIRECT then unat (i_addrs x bn) else unat (ld32 (V (ind_block x)) (4 * (bn - NDIRECT))))"

definition fcontent :: "(nat \<Rightarrow> bytes) \<Rightarrow> inode \<Rightarrow> nat \<Rightarrow> u8" where
  "fcontent V x off = V (blk_addr V x (off div BSIZE)) (off mod BSIZE)"

text \<open>The first \<open>nb\<close> blocks of the file are allocated below the log, and no two are the same block.\<close>

definition file_ok :: "nat \<Rightarrow> (nat \<Rightarrow> bytes) \<Rightarrow> inode \<Rightarrow> nat \<Rightarrow> bool" where
  "file_ok limit V x nb \<longleftrightarrow> nb \<le> MAXFILE \<and>
     (\<forall>bn < nb. 0 < blk_addr V x bn \<and> blk_addr V x bn < limit) \<and> inj_on (blk_addr V x) {..<nb} \<and>
     (NDIRECT < nb \<longrightarrow> 0 < ind_block x \<and> ind_block x < limit \<and> (\<forall>bn < nb. blk_addr V x bn \<noteq> ind_block x))"

text \<open>Blocks touched by \<open>n\<close> bytes at offset \<open>off\<close>, and the number of turns of the copy loop.\<close>

definition end_block :: "nat \<Rightarrow> nat \<Rightarrow> nat" where
  "end_block off n = (off + n + BSIZE - 1) div BSIZE"

definition turns :: "nat \<Rightarrow> nat \<Rightarrow> nat" where
  "turns off n = (if n = 0 then 0 else end_block off n - off div BSIZE)"

section \<open>Lemmas\<close>

declare readi_loop.simps [simp del] writei_loop.simps [simp del]

lemma more_icache: "log_st.more t = log_st.more s \<Longrightarrow> icache t = icache s \<and> fs_st.more t = fs_st.more s"
  by (cases s; cases t; simp)

lemma trest_icache: "trest t = trest s \<Longrightarrow> icache t = icache s"
  using more_icache [of t s] by (simp add: trest_def)

lemma file_okD:
  assumes "file_ok limit V x nb"
  shows "nb \<le> MAXFILE" "\<And>bn. bn < nb \<Longrightarrow> 0 < blk_addr V x bn" "\<And>bn. bn < nb \<Longrightarrow> blk_addr V x bn < limit"
    "inj_on (blk_addr V x) {..<nb}" "NDIRECT < nb \<Longrightarrow> 0 < ind_block x" "NDIRECT < nb \<Longrightarrow> ind_block x < limit"
    "\<And>bn. NDIRECT < nb \<Longrightarrow> bn < nb \<Longrightarrow> blk_addr V x bn \<noteq> ind_block x"
  using assms by (auto simp: file_ok_def)

lemma bmap_mapped:
  assumes idle: "fs_idle s" and x: "icache s ip = x" "i_dev x = 1" and F: "file_ok (t_limit (tabs s)) (t_view (tabs s)) x nb"
    and bn: "bn < nb"
  shows "\<exists>t. bmap ip bn s = Ok (blk_addr (t_view (tabs s)) x bn) t \<and> fs_idle t \<and> tabs t = tabs s \<and> trest t = trest s"
proof (cases "bn < NDIRECT")
  case True
  then show ?thesis using file_okD(2) [OF F bn] idle x(1)
    by (auto simp: bmap_def get_inode_def kmonad blk_addr_def unat_eq_0 )
next
  case False
  let ?V = "t_view (tabs s)"
  have nb: "NDIRECT < nb" using False bn by simp
  have r: "bn - NDIRECT < NINDIRECT" using file_okD(1) [OF F] bn False by simp
  have i: "i_addrs x NDIRECT \<noteq> 0" "ind_block x < t_limit (tabs s)" "ld32 (?V (ind_block x)) (4 * (bn - NDIRECT)) \<noteq> 0"
    using file_okD(5,6) [OF F nb] file_okD(2) [OF F bn] False by (auto simp: ind_block_def blk_addr_def unat_eq_0)
  obtain h s1 where 1: "bread 1 (ind_block x) s = Ok h s1" "buf_data h s1 = Ok (?V (ind_block x)) s1"
      "\<exists>t. brelse h s1 = Ok () t \<and> log_inv {} t \<and> tabs t = tabs s \<and> trest t = trest s"
    by (rule tx.open_block [OF fs_idleD [OF idle] i(2)]) blast
  obtain t where t: "brelse h s1 = Ok () t" "log_inv {} t" "tabs t = tabs s" "trest t = trest s" using 1(3) by blast
  have "bmap ip bn s = Ok (blk_addr ?V x bn) t"
    using False r i(1,3) 1(1,2) t(1) x by (simp add: bmap_def get_inode_def kmonad blk_addr_def ind_block_def)
  then show ?thesis using t fs_idleD(2) [OF idle] by (auto simp: fs_idle_def)
qed

text \<open>One turn of the loops keeps within the blocks of the range.\<close>

lemma chunk_range:
  assumes "tot < n"
  shows "off mod BSIZE + chunk n tot off \<le> BSIZE" "tot + chunk n tot off \<le> n" "0 < chunk n tot off"
    "off div BSIZE < end_block off (n - tot)"
    "end_block (off + chunk n tot off) (n - (tot + chunk n tot off)) = end_block off (n - tot)"
proof -
  have m: "off mod BSIZE < BSIZE" by simp
  show "off mod BSIZE + chunk n tot off \<le> BSIZE" "tot + chunk n tot off \<le> n" "0 < chunk n tot off"
    using assms m unfolding chunk_def by linarith+
  then show "end_block (off + chunk n tot off) (n - (tot + chunk n tot off)) = end_block off (n - tot)"
    by (simp add: end_block_def)
  have "off div BSIZE < (off + 1 + BSIZE - 1) div BSIZE" by simp
  also have "\<dots> \<le> end_block off (n - tot)" unfolding end_block_def by (rule div_le_mono) (use assms in simp)
  finally show "off div BSIZE < end_block off (n - tot)" .
qed

lemma chunk_block:
  assumes "tot < n" and "off \<le> i" and "i < off + chunk n tot off"
  shows "i div BSIZE = off div BSIZE" "i mod BSIZE = off mod BSIZE + (i - off)"
proof -
  have "i = off div BSIZE * BSIZE + (off mod BSIZE + (i - off))" using assms(2) by simp
  moreover have "off mod BSIZE + (i - off) < BSIZE" using chunk_range(1) [OF assms(1), of off] assms(3) by simp
  ultimately show "i div BSIZE = off div BSIZE" "i mod BSIZE = off mod BSIZE + (i - off)"
    by (metis add.commute div_less div_mult_self3 plus_nat.add_0 zero_neq_numeral, metis mod_less mod_mult_self3)
qed

lemma readi_loop_run:
  assumes "fs_idle s" and "icache s ip = x" and "i_dev x = 1" and "file_ok (t_limit (tabs s)) (t_view (tabs s)) x nb"
    and "end_block off (n - tot) \<le> nb"
  shows "\<exists>t. readi_loop ip dst off n tot s =
      Ok (\<lambda>i. if tot \<le> i \<and> i < n then fcontent (t_view (tabs s)) x (off + (i - tot)) else dst i) t \<and>
      fs_idle t \<and> tabs t = tabs s \<and> trest t = trest s"
  using assms
proof (induction "n - tot" arbitrary: dst off tot s rule: less_induct)
  case less
  show ?case
  proof (cases "tot < n")
    case False
    have "readi_loop ip dst off n tot s = Ok dst s" using False by (simp add: readi_loop.simps [of ip dst] kmonad)
    moreover have "(\<lambda>i. if tot \<le> i \<and> i < n then fcontent (t_view (tabs s)) x (off + (i - tot)) else dst i) = dst"
      using False by (intro ext) auto
    ultimately show ?thesis using less.prems(1) by simp
  next
    case True
    let ?V = "t_view (tabs s)" and ?m = "chunk n tot off" and ?bn = "off div BSIZE"
    let ?a = "blk_addr ?V x ?bn"
    note c = chunk_range [OF True, of off]
    have bn: "?bn < nb" using c(4) less.prems(5) by simp
    obtain s1 where 1: "bmap ip ?bn s = Ok ?a s1" "fs_idle s1" "tabs s1 = tabs s" "trest s1 = trest s"
      using bmap_mapped [OF less.prems(1,2,3,4) bn] by blast
    have a: "?a < t_limit (tabs s1)" using file_okD(3) [OF less.prems(4) bn] 1(3) by simp
    obtain h s2 where 2: "bread 1 ?a s1 = Ok h s2" "buf_data h s2 = Ok (t_view (tabs s1) ?a) s2"
        "\<exists>t. brelse h s2 = Ok () t \<and> log_inv {} t \<and> tabs t = tabs s1 \<and> trest t = trest s1"
      by (rule tx.open_block [OF fs_idleD [OF 1(2)] a]) blast
    obtain s3 where 3: "brelse h s2 = Ok () s3" "log_inv {} s3" "tabs s3 = tabs s" "trest s3 = trest s"
      using 2(3) 1(3,4) by auto
    let ?d = "blit dst tot (?V ?a) (off mod BSIZE) ?m"
    have idle3: "fs_idle s3" using 3(2,3) fs_idleD(2) [OF less.prems(1)] by (simp add: fs_idle_def)
    have ic: "icache s1 ip = x" "icache s3 ip = x" using trest_icache 1(4) 3(4) less.prems(2) by metis+
    let ?f = "\<lambda>i. if tot + ?m \<le> i \<and> i < n then fcontent (t_view (tabs s3)) x (off + ?m + (i - (tot + ?m))) else ?d i"
    let ?g = "\<lambda>i. if tot \<le> i \<and> i < n then fcontent ?V x (off + (i - tot)) else dst i"
    have "\<exists>t. readi_loop ip ?d (off + ?m) n (tot + ?m) s3 = Ok ?f t \<and> fs_idle t \<and> tabs t = tabs s3 \<and> trest t = trest s3"
      by (rule less.hyps) (use c True idle3 ic(2) less.prems(3,4,5) 3(3) in simp_all)
    moreover have "?f = ?g"
    proof
      fix i show "?f i = ?g i"
        using chunk_block [OF True, of off "off + (i - tot)"] c(2) 3(3) by (auto simp: fcontent_def blit_def)
    qed
    moreover have "readi_loop ip dst off n tot s = readi_loop ip ?d (off + ?m) n (tot + ?m) s3"
      using True 1(1,3) 2(1,2) 3(1) ic(1) less.prems(3) by (simp add: readi_loop.simps [of ip dst] kmonad get_inode_def)
    ultimately show ?thesis using 3(3,4) by (simp only:)
  qed
qed

section \<open>Writing\<close>

text \<open>Assigning to one data block of a file.\<close>

definition put_chunk :: "inode \<Rightarrow> nat \<Rightarrow> bytes \<Rightarrow> nat \<Rightarrow> nat \<Rightarrow> (nat \<Rightarrow> bytes) \<Rightarrow> nat \<Rightarrow> bytes" where
  "put_chunk x off src tot m V = (let a = blk_addr V x (off div BSIZE) in V(a := blit (V a) (off mod BSIZE) src tot m))"

lemma put_chunk_addr:
  assumes "file_ok limit V x nb" and "off div BSIZE < nb" and "bn < nb"
  shows "blk_addr (put_chunk x off src tot m V) x bn = blk_addr V x bn"
  using file_okD(7) [OF assms(1) _ assms(2)] assms(3) by (auto simp: blk_addr_def put_chunk_def Let_def)

lemma put_chunk_ok:
  assumes "file_ok limit V x nb" and "off div BSIZE < nb"
  shows "file_ok limit (put_chunk x off src tot m V) x nb"
proof -
  have "inj_on (blk_addr (put_chunk x off src tot m V) x) {..<nb} = inj_on (blk_addr V x) {..<nb}"
    by (rule inj_on_cong) (simp add: put_chunk_addr [OF assms])
  then show ?thesis using file_okD [OF assms(1)] put_chunk_addr [OF assms] by (simp add: file_ok_def)
qed

lemma put_chunk_content:
  assumes F: "file_ok limit V x nb" and "tot < n" and bn: "off div BSIZE < nb" and o: "k < nb * BSIZE" and m: "m = chunk n tot off"
  shows "fcontent (put_chunk x off src tot m V) x k = (if off \<le> k \<and> k < off + m then src (tot + (k - off)) else fcontent V x k)"
proof (cases "k div BSIZE = off div BSIZE")
  case False
  have kb: "k div BSIZE < nb" using o by (simp add: less_mult_imp_div_less)
  then have "blk_addr V x (k div BSIZE) \<noteq> blk_addr V x (off div BSIZE)"
    using file_okD(4) [OF F] bn False by (auto dest: inj_onD)
  moreover have "\<not> (off \<le> k \<and> k < off + m)" using chunk_block(1) [OF assms(2), of off k] False m by auto
  ultimately show ?thesis
    using put_chunk_addr [OF F bn kb] by (auto simp: fcontent_def put_chunk_def Let_def)
next
  case True
  then have mod: "off \<le> k \<longleftrightarrow> off mod BSIZE \<le> k mod BSIZE" "k < off + m \<longleftrightarrow> k mod BSIZE < off mod BSIZE + m"
      "off \<le> k \<Longrightarrow> k - off = k mod BSIZE - off mod BSIZE"
    using div_mult_mod_eq [of k BSIZE] div_mult_mod_eq [of off BSIZE] by linarith+
  have "blk_addr (put_chunk x off src tot m V) x (k div BSIZE) = blk_addr V x (off div BSIZE)"
    using put_chunk_addr [OF F bn bn] True by simp
  then show ?thesis using mod True by (auto simp: fcontent_def put_chunk_def Let_def blit_def)
qed

lemma turns_step:
  assumes "tot < n"
  shows "turns off (n - tot) = Suc (turns (off + chunk n tot off) (n - (tot + chunk n tot off)))"
proof -
  let ?m = "chunk n tot off"
  note c = chunk_range [OF assms, of off]
  have q: "off = off div BSIZE * BSIZE + off mod BSIZE" by simp
  have r: "off mod BSIZE < BSIZE" by simp
  show ?thesis
  proof (cases "n - (tot + ?m) = 0")
    case True
    then have m: "?m = n - tot" using c(2) by simp
    have "off div BSIZE * BSIZE + BSIZE \<le> off + (n - tot) + BSIZE - 1" "off + (n - tot) + BSIZE - 1 < off div BSIZE * BSIZE + 2 * BSIZE"
      using q r c(1) m assms by linarith+
    then have "end_block off (n - tot) = off div BSIZE + 1"
      unfolding end_block_def by (intro div_nat_eqI) auto
    then show ?thesis using True assms by (simp add: turns_def)
  next
    case False
    then have "?m = BSIZE - off mod BSIZE" by (auto simp: chunk_def min_def split: if_splits)
    then have m: "off mod BSIZE + ?m = BSIZE" using r by simp
    have "off + ?m = off div BSIZE * BSIZE + (off mod BSIZE + ?m)" by simp
    then have "(off + ?m) div BSIZE = off div BSIZE + 1" unfolding m by simp
    then show ?thesis using False assms c(4,5) by (simp add: turns_def Suc_diff_Suc)
  qed
qed

text \<open>What a write of \<open>n\<close> bytes of \<open>src\<close> at \<open>off\<close> makes of the blocks of a file.\<close>

definition wrote :: "nat \<Rightarrow> inode \<Rightarrow> nat \<Rightarrow> nat \<Rightarrow> (nat \<Rightarrow> u8) \<Rightarrow> nat \<Rightarrow> (nat \<Rightarrow> bytes) \<Rightarrow> (nat \<Rightarrow> bytes) \<Rightarrow> bool" where
  "wrote limit x nb off data n V V' \<longleftrightarrow> file_ok limit V' x nb \<and> (\<forall>bn < nb. blk_addr V' x bn = blk_addr V x bn) \<and>
     (\<forall>k < nb * BSIZE. fcontent V' x k = (if off \<le> k \<and> k < off + n then data (k - off) else fcontent V x k)) \<and>
     (\<forall>m. m \<notin> blk_addr V x ` {..<nb} \<longrightarrow> V' m = V m)"

lemma wrote_step:
  assumes F: "file_ok limit V x nb" and "tot < n" and bn: "off div BSIZE < nb" and m: "m = chunk n tot off"
    and W: "wrote limit x nb (off + m) (\<lambda>i. src (tot + m + i)) (n - (tot + m)) (put_chunk x off src tot m V) V'"
  shows "wrote limit x nb off (\<lambda>i. src (tot + i)) (n - tot) V V'"
proof -
  let ?W = "put_chunk x off src tot m V"
  have w: "file_ok limit V' x nb" "\<forall>bn < nb. blk_addr V' x bn = blk_addr ?W x bn"
      "\<And>k. k < nb * BSIZE \<Longrightarrow> fcontent V' x k = (if off + m \<le> k \<and> k < off + m + (n - (tot + m)) then src (tot + m + (k - (off + m))) else fcontent ?W x k)"
      "\<forall>k. k \<notin> blk_addr ?W x ` {..<nb} \<longrightarrow> V' k = ?W k"
    using W by (auto simp: wrote_def)
  have im: "blk_addr ?W x ` {..<nb} = blk_addr V x ` {..<nb}" using put_chunk_addr [OF F bn] by simp
  have mt: "m \<le> n - tot" using chunk_range(2) [OF assms(2), of off] m by simp
  have "fcontent V' x k = (if off \<le> k \<and> k < off + (n - tot) then src (tot + (k - off)) else fcontent V x k)" if k: "k < nb * BSIZE" for k
    using w(3) [OF k] put_chunk_content [OF F assms(2) bn k m, of src] mt by (auto simp: add.assoc)
  moreover have "V' k = V k" if "k \<notin> blk_addr V x ` {..<nb}" for k
    using w(4) im that bn by (auto simp: put_chunk_def Let_def)
  ultimately show ?thesis using w(1,2) put_chunk_addr [OF F bn] by (simp add: wrote_def)
qed

lemma writei_loop_run:
  assumes "fs_idle s" and "icache s ip = x" and "i_dev x = 1" and "file_ok (t_limit (tabs s)) (t_view (tabs s)) x nb"
    and "end_block off (n - tot) \<le> nb" and "room_for (turns off (n - tot)) s"
  shows "\<exists>t V'. writei_loop ip src off n tot s = Ok () t \<and> fs_idle t \<and> trest t = trest s \<and>
    wrote (t_limit (tabs s)) x nb off (\<lambda>i. src (tot + i)) (n - tot) (t_view (tabs s)) V' \<and>
    (\<exists>L. tabs t = (tabs s)\<lparr>t_view := V', t_logged := L\<rparr> \<and> card L \<le> card (t_logged (tabs s)) + turns off (n - tot))"
  using assms
proof (induction "n - tot" arbitrary: off tot s rule: less_induct)
  case less
  let ?V = "t_view (tabs s)" and ?l = "t_limit (tabs s)"
  note idle = fs_idleD [OF less.prems(1)]
  show ?case
  proof (cases "tot < n")
    case False
    then have "writei_loop ip src off n tot s = Ok () s" by (simp add: writei_loop.simps [of ip src] kmonad)
    moreover have "wrote ?l x nb off (\<lambda>i. src (tot + i)) (n - tot) ?V ?V" using False less.prems(4) by (auto simp: wrote_def)
    ultimately show ?thesis using less.prems(1) False
      by (intro exI [of _ s] exI [of _ ?V] conjI exI [of _ "t_logged (tabs s)"]) simp_all
  next
    case True
    let ?m = "chunk n tot off" and ?bn = "off div BSIZE"
    let ?a = "blk_addr ?V x ?bn"
    note c = chunk_range [OF True, of off]
    have bn: "?bn < nb" using c(4) less.prems(5) by simp
    obtain s1 where 1: "bmap ip ?bn s = Ok ?a s1" "fs_idle s1" "tabs s1 = tabs s" "trest s1 = trest s"
      using bmap_mapped [OF less.prems(1,2,3,4) bn] by blast
    have a: "?a < t_limit (tabs s1)" using file_okD(3) [OF less.prems(4) bn] 1(3) by simp
    have rm: "t_open (tabs s1)" "card (t_logged (tabs s1)) < t_room (tabs s1)"
      using less.prems(6) turns_step [OF True, of off] 1(3) by (auto simp: room_for_def)
    let ?W = "put_chunk x off src tot ?m ?V"
    obtain s2 where 2: "kbind (bread 1 ?a) (\<lambda>bp. kseq (set_data bp (\<lambda>d. blit d (off mod BSIZE) src tot ?m))
          (kseq (log_write bp) (brelse bp))) s1 = Ok () s2" "log_inv {} s2" "trest s2 = trest s1"
        "tabs s2 = (tabs s)\<lparr>t_view := ?W, t_logged := insert ?a (t_logged (tabs s))\<rparr>"
      using tx.update_block [OF fs_idleD [OF 1(2)] a rm, of "\<lambda>d. blit d (off mod BSIZE) src tot ?m"] 1(3)
      by (auto simp: put_chunk_def Let_def)
    have fin: "finite (t_logged (tabs s))" using tx.logged [OF idle(1)] by simp
    have p2: "fs_idle s2" "icache s2 ip = x" "file_ok (t_limit (tabs s2)) (t_view (tabs s2)) x nb"
        "room_for (turns (off + ?m) (n - (tot + ?m))) s2"
      using 2(2,4) idle(2) trest_icache [OF 2(3)] trest_icache [OF 1(4)] less.prems(2,6) put_chunk_ok [OF less.prems(4) bn]
        turns_step [OF True, of off] card_insert_le' [OF fin, of ?a] by (auto simp: fs_idle_def room_for_def)
    have "n - (tot + ?m) < n - tot" using c(3) True by simp
    then obtain t V' L where t: "writei_loop ip src (off + ?m) n (tot + ?m) s2 = Ok () t" "fs_idle t" "trest t = trest s2"
        "wrote ?l x nb (off + ?m) (\<lambda>i. src (tot + ?m + i)) (n - (tot + ?m)) ?W V'"
        "tabs t = (tabs s2)\<lparr>t_view := V', t_logged := L\<rparr>"
        "card L \<le> card (insert ?a (t_logged (tabs s))) + turns (off + ?m) (n - (tot + ?m))"
      using less.hyps [of "tot + ?m" s2 "off + ?m"] p2 less.prems(3,5) c(5) 2(4) by auto
    have "writei_loop ip src off n tot s = Ok () t"
      using True 1(1) kseq3_run less.prems(2,3) trest_icache [OF 1(4)] 2(1) t(1)
      by (auto simp: writei_loop.simps [of ip src off] kmonad get_inode_def kbind_Ok_iff)
    moreover have "wrote ?l x nb off (\<lambda>i. src (tot + i)) (n - tot) ?V V'"
      by (rule wrote_step [OF less.prems(4) True bn refl t(4)])
    moreover have "tabs t = (tabs s)\<lparr>t_view := V', t_logged := L\<rparr>" using t(5) 2(4) by simp
    moreover have "card L \<le> card (t_logged (tabs s)) + turns off (n - tot)"
      using t(6) turns_step [OF True, of off] card_insert_le' [OF fin, of ?a] by simp
    ultimately show ?thesis using t(2,3) 2(3) 1(4) by auto
  qed
qed

end
