(* ===== verification/Fs_Inodes.thy ===== *)
theory Fs_Inodes
  imports Fs_Files
begin

text \<open>
  The inode cache: updates of the cache leave the blocks alone, \<open>iupdate\<close> and \<open>ilock\<close> are inverse
  to each other, and \<open>iget\<close>, \<open>idup\<close> and \<open>iput\<close> keep one entry per inode with its count of references.
\<close>

section \<open>Definitions\<close>

text \<open>No two entries in use are the same inode, and counts are not negative.\<close>

definition icache_ok :: "(nat \<Rightarrow> inode) \<Rightarrow> bool" where
  "icache_ok c \<longleftrightarrow> (\<forall>i<NINODE. 0 \<le> i_ref (c i)) \<and>
     (\<forall>i<NINODE. \<forall>j<NINODE. 0 < i_ref (c i) \<and> 0 < i_ref (c j) \<and> i_dev (c i) = i_dev (c j) \<and> i_inum (c i) = i_inum (c j) \<longrightarrow> i = j)"

text \<open>The references held on inode \<open>(dev, inum)\<close> in the whole cache.\<close>

definition refs :: "(nat \<Rightarrow> inode) \<Rightarrow> nat \<Rightarrow> nat \<Rightarrow> int" where
  "refs c dev inum = (\<Sum>i<NINODE. if i_dev (c i) = dev \<and> i_inum (c i) = inum then i_ref (c i) else 0)"

text \<open>The inode as the disk with content \<open>V\<close> has it.\<close>

definition disk_inode :: "(nat \<Rightarrow> bytes) \<Rightarrow> nat \<Rightarrow> dinode" where
  "disk_inode V inum = get_dinode (V (IBLOCK inum)) (inum mod IPB)"

definition same_dinode :: "dinode \<Rightarrow> dinode \<Rightarrow> bool" where
  "same_dinode a b \<longleftrightarrow> d_type a = d_type b \<and> d_major a = d_major b \<and> d_minor a = d_minor b \<and> d_nlink a = d_nlink b \<and>
     d_size a = d_size b \<and> (\<forall>i < NDIRECT + 1. d_addrs a i = d_addrs b i)"

section \<open>Updates of the cache\<close>

lemma icache_update_binv [simp]: "binv (s\<lparr>icache := c\<rparr>) = binv s"
  by (simp add: binv_def)

lemma icache_update_cabs [simp]: "cabs (s\<lparr>icache := c\<rparr>) = cabs s"
proof -
  have "view (s\<lparr>icache := c\<rparr>) = view s" by (simp add: view_def fun_eq_iff split: option.split)
  then show ?thesis by (simp add: cabs_def busyset_def dirtyset_def)
qed

lemma icache_update_tabs [simp]: "tabs (s\<lparr>icache := c\<rparr>) = tabs s"
  by (simp add: tabs_def homes_def cong: if_cong)

lemma icache_update_idle [simp]: "fs_idle (s\<lparr>icache := c\<rparr>) = fs_idle s" "room_for k (s\<lparr>icache := c\<rparr>) = room_for k s"
  by (simp_all add: fs_idle_def room_for_def log_inv_def homes_def)

lemma ptable_update_tabs [simp]: "tabs (s\<lparr>ptable := p\<rparr>) = tabs s"
  by (simp add: tabs_def homes_def cong: if_cong)

lemma ptable_update_idle [simp]: "fs_idle (s\<lparr>ptable := p\<rparr>) = fs_idle s"
  by (simp add: fs_idle_def log_inv_def homes_def)

lemma idle_held: "fs_idle s \<Longrightarrow> held s = {}"
  by (simp add: fs_idle_def log_inv_def binv_def)

section \<open>Inodes on disk\<close>

lemma iupdate_run:
  assumes idle: "fs_idle s" and room: "room_for 1 s" and x: "icache s ip = x" "i_dev x = 1"
    and ib: "IBLOCK (i_inum x) < t_limit (tabs s)"
  shows "\<exists>t. iupdate ip s = Ok () t \<and> fs_idle t \<and> trest t = trest s \<and>
    tabs t = (tabs s)\<lparr>t_view := (t_view (tabs s))(IBLOCK (i_inum x) :=
        put_dinode (i_inum x mod IPB) (dinode_of x) (t_view (tabs s) (IBLOCK (i_inum x)))),
      t_logged := insert (IBLOCK (i_inum x)) (t_logged (tabs s))\<rparr>"
  using tx.update_block [OF fs_idleD [OF idle] ib, of "put_dinode (i_inum x mod IPB) (dinode_of x)"] room x fs_idleD(2) [OF idle]
  by (auto simp: iupdate_def get_inode_def kmonad room_for_def fs_idle_def)

lemma disk_inode_update:
  "same_dinode (disk_inode (V(IBLOCK k := put_dinode (k mod IPB) x (V (IBLOCK k)))) j)
     (if j = k then x else disk_inode V j)"
proof (cases "IBLOCK j = IBLOCK k \<and> j \<noteq> k")
  case True
  then have "j div 8 = k div 8" by (simp add: IBLOCK_def)
  then have "j mod IPB \<noteq> k mod IPB" using True by simp (metis div_mult_mod_eq)
  then show ?thesis using True by (simp add: disk_inode_def same_dinode_def put_dinode_other)
next
  case False
  then show ?thesis by (auto simp: disk_inode_def same_dinode_def get_put_dinode)
qed

text \<open>\<open>ilock\<close> of an entry that is not valid reads the inode from its block.\<close>

lemma ilock_load:
  assumes idle: "fs_idle s" and x: "icache s ip = x" "i_dev x = 1" "1 \<le> i_ref x" "\<not> i_busy x" "\<not> i_valid x"
    and ib: "IBLOCK (i_inum x) < t_limit (tabs s)" and ty: "d_type (disk_inode (t_view (tabs s)) (i_inum x)) \<noteq> 0"
  shows "\<exists>t. ilock ip s = Ok () t \<and> fs_idle t \<and> tabs t = tabs s \<and>
    icache t = (icache s)(ip := (load_dinode (disk_inode (t_view (tabs s)) (i_inum x)) (x\<lparr>i_busy := True\<rparr>))\<lparr>i_valid := True\<rparr>)"
proof -
  let ?V = "t_view (tabs s)" and ?s0 = "s\<lparr>icache := (icache s)(ip := x\<lparr>i_busy := True\<rparr>)\<rparr>" and ?n = "IBLOCK (i_inum x)"
  let ?d = "disk_inode ?V (i_inum x)"
  have i0: "fs_idle ?s0" "?n < t_limit (tabs ?s0)" using idle ib by simp_all
  obtain h s1 where 1: "bread 1 ?n ?s0 = Ok h s1" "buf_data h s1 = Ok (?V ?n) s1" "handle s1 h ?n" "log_inv {} s1"
      "tabs s1 = (tabs s)\<lparr>t_busy := {?n}\<rparr>" "trest s1 = trest ?s0"
    by (rule tx.open_block [OF fs_idleD [OF i0(1)] i0(2)]) (metis icache_update_tabs)
  define s2 where "s2 = s1\<lparr>icache := (icache s1)(ip := load_dinode ?d (icache s1 ip))\<rparr>"
  have ic1: "icache s1 = (icache s)(ip := x\<lparr>i_busy := True\<rparr>)" using trest_icache [OF 1(6)] by simp
  have 2: "log_inv {} s2" "handle s2 h ?n" "tabs s2 = (tabs s)\<lparr>t_busy := {?n}\<rparr>"
    using 1(3,4,5) by (simp_all add: s2_def log_inv_def homes_def handle_def)
  obtain s3 where 3: "brelse h s2 = Ok () s3" "log_inv {} s3" "tabs s3 = tabs s" "trest s3 = trest s2"
    using tx.brelse [OF 2(1,2)] 2(3) fs_idleD(2) [OF idle] by auto
  let ?t = "s3\<lparr>icache := (icache s3)(ip := (icache s3 ip)\<lparr>i_valid := True\<rparr>)\<rparr>"
  have ic3: "icache s3 = (icache s)(ip := load_dinode ?d (x\<lparr>i_busy := True\<rparr>))"
    using trest_icache [OF 3(4)] ic1 by (simp add: s2_def)
  have h: "held s = {}" by (rule idle_held [OF idle])
  have ty3: "i_type (icache s3 ip) \<noteq> 0" using ic3 ty by (simp add: load_dinode_def)
  have b2: "brelse h (s1\<lparr>icache := (icache s1)(ip := load_dinode (get_dinode (?V ?n) (i_inum x mod IPB)) (icache s1 ip))\<rparr>) = Ok () s3"
    using 3(1) by (simp add: s2_def disk_inode_def)
  have "ilock ip s = Ok () ?t"
    using x 1(1,2) b2 h ty3 by (simp add: ilock_def get_inode_def upd_inode_def kmonad)
  moreover have "icache ?t = (icache s)(ip := (load_dinode ?d (x\<lparr>i_busy := True\<rparr>))\<lparr>i_valid := True\<rparr>)"
    using ic3 by simp
  moreover have "fs_idle ?t" "tabs ?t = tabs s" using 3(2,3) fs_idleD(2) [OF idle] by (simp_all add: fs_idle_def log_inv_def homes_def)
  ultimately show ?thesis by blast
qed

section \<open>References\<close>

definition refs_of :: "inode \<Rightarrow> nat \<Rightarrow> nat \<Rightarrow> int" where
  "refs_of x dev inum = (if i_dev x = dev \<and> i_inum x = inum then i_ref x else 0)"

lemma refs_upd:
  assumes "ip < NINODE"
  shows "refs (c(ip := y)) dev inum = refs c dev inum - refs_of (c ip) dev inum + refs_of y dev inum"
proof -
  have s: "refs d dev inum = (\<Sum>i\<in>{..<NINODE}. refs_of (d i) dev inum)" for d by (simp add: refs_def refs_of_def)
  have r: "refs d dev inum = refs_of (d ip) dev inum + (\<Sum>i\<in>{..<NINODE} - {ip}. refs_of (d i) dev inum)" for d
    unfolding s using assms by (simp add: sum.remove)
  have "(\<Sum>i\<in>{..<NINODE} - {ip}. refs_of ((c(ip := y)) i) dev inum) = (\<Sum>i\<in>{..<NINODE} - {ip}. refs_of (c i) dev inum)"
    by (rule sum.cong) auto
  then show ?thesis using r [of c] r [of "c(ip := y)"] by simp
qed

lemma icache_okD:
  assumes "icache_ok c"
  shows "\<And>i. i < NINODE \<Longrightarrow> 0 \<le> i_ref (c i)"
    "\<And>i j. i < NINODE \<Longrightarrow> j < NINODE \<Longrightarrow> 0 < i_ref (c i) \<Longrightarrow> 0 < i_ref (c j) \<Longrightarrow> i_dev (c i) = i_dev (c j) \<Longrightarrow>
      i_inum (c i) = i_inum (c j) \<Longrightarrow> i = j"
  using assms by (auto simp: icache_ok_def)

text \<open>Changing the count of one entry in use, keeping its identity.\<close>

lemma icache_ok_ref:
  assumes "icache_ok c" and "0 < i_ref (c ip)" and "0 \<le> i_ref y" and "i_dev y = i_dev (c ip)" "i_inum y = i_inum (c ip)"
  shows "icache_ok (c(ip := y))"
  unfolding icache_ok_def
proof (intro conjI allI impI)
  fix i j
  assume "i < NINODE" "j < NINODE" "0 < i_ref ((c(ip := y)) i) \<and> 0 < i_ref ((c(ip := y)) j) \<and>
    i_dev ((c(ip := y)) i) = i_dev ((c(ip := y)) j) \<and> i_inum ((c(ip := y)) i) = i_inum ((c(ip := y)) j)"
  then show "i = j" using icache_okD(2) [OF assms(1), of i j] assms(2,4,5) by (auto split: if_splits)
qed (use icache_okD(1) [OF assms(1)] assms(3) in auto)

lemma icache_ok_new:
  assumes "icache_ok c" and "\<And>i. i < NINODE \<Longrightarrow> 0 < i_ref (c i) \<Longrightarrow> \<not> (i_dev (c i) = dev \<and> i_inum (c i) = inum)"
    and "i_dev y = dev" "i_inum y = inum" "i_ref y = 1"
  shows "icache_ok (c(ip := y))"
  unfolding icache_ok_def
proof (intro conjI allI impI)
  fix i j
  assume a: "i < NINODE" "j < NINODE" "0 < i_ref ((c(ip := y)) i) \<and> 0 < i_ref ((c(ip := y)) j) \<and>
    i_dev ((c(ip := y)) i) = i_dev ((c(ip := y)) j) \<and> i_inum ((c(ip := y)) i) = i_inum ((c(ip := y)) j)"
  show "i = j"
    using a icache_okD(2) [OF assms(1) a(1,2)] assms(2) [OF a(1)] assms(2) [OF a(2)] assms(3,4) by (auto split: if_splits)
qed (use icache_okD(1) [OF assms(1)] assms(5) in auto)

lemma iget_run:
  assumes h: "held s = {}" and C: "icache_ok (icache s)" and free: "\<exists>i<NINODE. i_ref (icache s i) = 0"
  shows "\<exists>ip<NINODE. \<exists>x. iget dev inum s = Ok ip (s\<lparr>icache := (icache s)(ip := x)\<rparr>) \<and>
    icache_ok ((icache s)(ip := x)) \<and> i_dev x = dev \<and> i_inum x = inum \<and> 0 < i_ref x \<and>
    (\<forall>d n. refs ((icache s)(ip := x)) d n = refs (icache s) d n + (if d = dev \<and> n = inum then 1 else 0))"
proof -
  let ?c = "icache s"
  let ?P = "\<lambda>ip. 0 < i_ref (?c ip) \<and> i_dev (?c ip) = dev \<and> i_inum (?c ip) = inum"
  show ?thesis
  proof (cases "find ?P [0..<NINODE]")
    case (Some ip)
    then have ip: "ip < NINODE" "?P ip" by (auto simp: find_upt_Some)
    let ?x = "(?c ip)\<lparr>i_ref := i_ref (?c ip) + 1\<rparr>"
    have "iget dev inum s = Ok ip (s\<lparr>icache := ?c(ip := ?x)\<rparr>)"
      using Some h by (simp add: iget_def upd_inode_def kmonad)
    moreover have "icache_ok (?c(ip := ?x))" by (rule icache_ok_ref [OF C]) (use ip in auto)
    moreover have "refs (?c(ip := ?x)) d n = refs ?c d n + (if d = dev \<and> n = inum then 1 else 0)" for d n
      using ip by (auto simp: refs_upd refs_of_def)
    ultimately show ?thesis using ip by (intro exI [of _ ip] conjI exI [of _ ?x]) auto
  next
    case None
    then have none: "i < NINODE \<Longrightarrow> \<not> ?P i" for i by (simp add: find_upt_None)
    obtain ip where f: "find (\<lambda>ip. i_ref (?c ip) = 0) [0..<NINODE] = Some ip"
      using free by (cases "find (\<lambda>ip. i_ref (?c ip) = 0) [0..<NINODE]") (auto simp: find_upt_None)
    then have ip: "ip < NINODE" "i_ref (?c ip) = 0" by (auto simp: find_upt_Some)
    let ?x = "(?c ip)\<lparr>i_dev := dev, i_inum := inum, i_ref := 1, i_busy := False, i_valid := False\<rparr>"
    have "iget dev inum s = Ok ip (s\<lparr>icache := ?c(ip := ?x)\<rparr>)"
      using None f h by (simp add: iget_def upd_inode_def kmonad)
    moreover have "icache_ok (?c(ip := ?x))" by (rule icache_ok_new [OF C]) (use none in auto)
    moreover have "refs (?c(ip := ?x)) d n = refs ?c d n + (if d = dev \<and> n = inum then 1 else 0)" for d n
      using ip by (auto simp: refs_upd refs_of_def)
    ultimately show ?thesis using ip by (intro exI [of _ ip] conjI exI [of _ ?x]) auto
  qed
qed

lemma idup_run:
  assumes h: "held s = {}" and C: "icache_ok (icache s)" and ip: "ip < NINODE" "0 < i_ref (icache s ip)"
  shows "\<exists>x. idup ip s = Ok ip (s\<lparr>icache := (icache s)(ip := x)\<rparr>) \<and> icache_ok ((icache s)(ip := x)) \<and>
    (\<forall>d n. refs ((icache s)(ip := x)) d n = refs (icache s) d n +
      (if d = i_dev (icache s ip) \<and> n = i_inum (icache s ip) then 1 else 0))"
proof -
  let ?x = "(icache s ip)\<lparr>i_ref := i_ref (icache s ip) + 1\<rparr>"
  have "idup ip s = Ok ip (s\<lparr>icache := (icache s)(ip := ?x)\<rparr>)" using h by (simp add: idup_def upd_inode_def kmonad)
  moreover have "icache_ok ((icache s)(ip := ?x))" by (rule icache_ok_ref [OF C]) (use ip in auto)
  moreover have "refs ((icache s)(ip := ?x)) d n = refs (icache s) d n +
      (if d = i_dev (icache s ip) \<and> n = i_inum (icache s ip) then 1 else 0)" for d n
    using ip by (auto simp: refs_upd refs_of_def)
  ultimately show ?thesis by blast
qed

text \<open>\<open>iput\<close> when the inode keeps a link or another reference.\<close>

lemma iput_run:
  assumes h: "held s = {}" and C: "icache_ok (icache s)" and ip: "ip < NINODE" "0 < i_ref (icache s ip)"
    and keep: "\<not> (i_ref (icache s ip) = 1 \<and> i_valid (icache s ip) \<and> i_nlink (icache s ip) = 0)"
  shows "\<exists>x. iput ip s = Ok () (s\<lparr>icache := (icache s)(ip := x)\<rparr>) \<and> icache_ok ((icache s)(ip := x)) \<and>
    (\<forall>d n. refs ((icache s)(ip := x)) d n = refs (icache s) d n -
      (if d = i_dev (icache s ip) \<and> n = i_inum (icache s ip) then 1 else 0))"
proof -
  let ?x = "(icache s ip)\<lparr>i_ref := i_ref (icache s ip) - 1\<rparr>"
  have "iput ip s = Ok () (s\<lparr>icache := (icache s)(ip := ?x)\<rparr>)"
    using h keep by (auto simp: iput_def upd_inode_def get_inode_def kmonad)
  moreover have "icache_ok ((icache s)(ip := ?x))" by (rule icache_ok_ref [OF C]) (use ip in auto)
  moreover have "refs ((icache s)(ip := ?x)) d n = refs (icache s) d n -
      (if d = i_dev (icache s ip) \<and> n = i_inum (icache s ip) then 1 else 0)" for d n
    using ip by (auto simp: refs_upd refs_of_def)
  ultimately show ?thesis by blast
qed

end
