(* ===== verification/Fs_Io.thy ===== *)
theory Fs_Io
  imports Fs_Inodes
begin

text \<open>
  Whole reads and writes of a file: \<open>readi\<close> and \<open>writei\<close> around their copy loops, with the bounds
  they check, the bytes they move and the size they leave.
\<close>

section \<open>Definitions\<close>

text \<open>
  Inode \<open>x\<close> of slot \<open>ip\<close> is a file with its first \<open>nb\<close> blocks mapped, whose inode block is none of them.
\<close>

definition file_open :: "nat \<Rightarrow> nat \<Rightarrow> 'a fs_st_scheme \<Rightarrow> bool" where
  "file_open ip nb s \<longleftrightarrow> fs_idle s \<and> i_dev (icache s ip) = 1 \<and> i_type (icache s ip) \<noteq> T_DEV \<and>
     file_ok (t_limit (tabs s)) (t_view (tabs s)) (icache s ip) nb \<and>
     IBLOCK (i_inum (icache s ip)) < t_limit (tabs s) \<and>
     IBLOCK (i_inum (icache s ip)) \<notin> insert (ind_block (icache s ip)) (blk_addr (t_view (tabs s)) (icache s ip) ` {..<nb})"

text \<open>The bytes of the file, and its size.\<close>

definition file_bytes :: "nat \<Rightarrow> 'a fs_st_scheme \<Rightarrow> nat \<Rightarrow> u8" where
  "file_bytes ip s = fcontent (t_view (tabs s)) (icache s ip)"

definition file_size :: "nat \<Rightarrow> 'a fs_st_scheme \<Rightarrow> nat" where
  "file_size ip s = unat (i_size (icache s ip))"

section \<open>Lemmas\<close>

lemma file_openD:
  assumes "file_open ip nb s"
  shows "fs_idle s" "i_dev (icache s ip) = 1" "i_type (icache s ip) \<noteq> T_DEV"
    "file_ok (t_limit (tabs s)) (t_view (tabs s)) (icache s ip) nb" "IBLOCK (i_inum (icache s ip)) < t_limit (tabs s)"
    "IBLOCK (i_inum (icache s ip)) \<noteq> ind_block (icache s ip)"
    "bn < nb \<Longrightarrow> IBLOCK (i_inum (icache s ip)) \<noteq> blk_addr (t_view (tabs s)) (icache s ip) bn"
  using assms by (auto simp: file_open_def)

lemma file_ok_bound: "file_ok limit V x nb \<Longrightarrow> nb * BSIZE \<le> 71680"
  by (auto simp: file_ok_def)

lemma end_block_le: "off + n \<le> nb * BSIZE \<Longrightarrow> end_block off n \<le> nb"
  by (simp add: end_block_def)

lemma sint_small: "unat (n :: u32) < 2 ^ 31 \<Longrightarrow> sint n = int (unat n)"
proof -
  assume "unat n < 2 ^ 31"
  then have "int (unat n) < 2 ^ 31" by (simp only: of_nat_less_iff [symmetric, where 'a = int]) simp
  then have "uint n < 2 ^ 31" by simp
  moreover have "- (2 ^ 31) \<le> uint n" by (rule order_trans [of _ 0]) simp_all
  ultimately have "signed_take_bit 31 (uint n) = uint n" by (simp add: signed_take_bit_int_eq_self)
  then show ?thesis by (simp add: sint_uint)
qed

lemma unat_add_small: "unat (a :: u32) + unat b < 2 ^ 32 \<Longrightarrow> unat (a + b) = unat a + unat b"
  by (simp add: unat_word_ariths)

lemma readi_run:
  assumes F: "file_open ip nb s" and off: "unat off \<le> file_size ip s" and sz: "file_size ip s \<le> nb * BSIZE"
    and ov: "unat off + unat n < 2 ^ 32"
  shows "\<exists>t m. m = min (unat n) (file_size ip s - unat off) \<and>
    readi dv ip dst off n s = Ok (int m, \<lambda>i. if i < m then file_bytes ip s (unat off + i) else dst i) t \<and>
    fs_idle t \<and> tabs t = tabs s \<and> icache t = icache s"
proof -
  let ?x = "icache s ip"
  define k where "k = (if i_size ?x < off + n then i_size ?x - off else n)"
  note D = file_openD [OF F]
  have oz: "off \<le> i_size ?x" using off by (simp add: file_size_def word_le_nat_alt)
  have sum: "unat (off + n) = unat off + unat n" using ov by (rule unat_add_small)
  have k: "unat k = min (unat n) (file_size ip s - unat off)"
    using oz off sum unat_sub [OF oz] by (auto simp: k_def file_size_def word_less_nat_alt)
  have kb: "unat off + unat k \<le> nb * BSIZE" using k off sz by linarith
  then have "unat k < 2 ^ 31" using file_ok_bound [OF D(4)] by simp
  then have sk: "sint k = int (unat k)" by (rule sint_small)
  obtain t where t: "readi_loop ip dst (unat off) (unat k) 0 s =
      Ok (\<lambda>i. if i < unat k then fcontent (t_view (tabs s)) ?x (unat off + i) else dst i) t"
      "fs_idle t" "tabs t = tabs s" "trest t = trest s"
    using readi_loop_run [OF D(1) refl D(2,4), of "unat off" "unat k" 0 dst] end_block_le [of "unat off" "unat k" nb] kb
    by (auto cong: if_cong)
  have "\<not> (i_size ?x < off \<or> off + n < off)" using oz sum by (auto simp: word_less_nat_alt word_le_nat_alt)
  then have "readi dv ip dst off n s = kbind (readi_loop ip dst (unat off) (unat k) 0) (\<lambda>dst. kreturn (sint k, dst)) s"
    using D(3) by (simp add: readi_def get_inode_def kmonad k_def [symmetric] Let_def)
  then have "readi dv ip dst off n s = Ok (int (unat k), \<lambda>i. if i < unat k then file_bytes ip s (unat off + i) else dst i) t"
    using t(1) sk by (simp add: kmonad file_bytes_def cong: if_cong)
  then show ?thesis using t(2,3) trest_icache [OF t(4)] k by auto
qed

lemma readi_refuses:
  assumes "i_type (icache s ip) \<noteq> T_DEV" and "file_size ip s < unat off \<or> 2 ^ 32 \<le> unat off + unat n"
  shows "readi dv ip dst off n s = Ok (-1, dst) s" "writei dv ip src off n s = Ok (-1) s"
proof -
  have "off + n < off" if "2 ^ 32 \<le> unat off + unat n"
  proof -
    have "unat (off + n) = (unat off + unat n) mod 2 ^ 32" by (simp add: unat_word_ariths)
    moreover have "(unat off + unat n) mod 2 ^ 32 = unat off + unat n - 2 ^ 32"
      using that unat_u32_less [of off] unat_u32_less [of n] by (simp add: le_mod_geq)
    moreover have "unat n < 2 ^ 32" using unat_u32_less [of n] by simp
    ultimately show ?thesis using that by (simp add: word_less_nat_alt)
  qed
  then have "i_size (icache s ip) < off \<or> off + n < off"
    using assms(2) by (auto simp: file_size_def word_less_nat_alt)
  then show "readi dv ip dst off n s = Ok (-1, dst) s" "writei dv ip src off n s = Ok (-1) s"
    using assms(1) by (auto simp: readi_def writei_def get_inode_def kmonad)
qed

text \<open>The copy loop and the update of the inode when the file grew.\<close>

lemma blk_addr_size [simp]: "blk_addr V (x\<lparr>i_size := k\<rparr>) = blk_addr V x" "ind_block (x\<lparr>i_size := k\<rparr>) = ind_block x"
  by (simp_all add: blk_addr_def ind_block_def fun_eq_iff)

lemma file_ok_size [simp]: "file_ok l V (x\<lparr>i_size := k\<rparr>) nb = file_ok l V x nb" "fcontent V (x\<lparr>i_size := k\<rparr>) = fcontent V x"
  by (simp_all add: file_ok_def fcontent_def fun_eq_iff)

lemma other_block:
  assumes "bn < nb" "B \<noteq> ind_block x" "NDIRECT < nb \<or> bn < NDIRECT"
  shows "blk_addr (V(B := v)) x bn = blk_addr V x bn"
  using assms by (auto simp: blk_addr_def)

lemma file_ok_other:
  assumes F: "file_ok limit V x nb" and B: "B \<noteq> ind_block x" "B \<notin> blk_addr V x ` {..<nb}"
  shows "file_ok limit (V(B := v)) x nb" "bn < nb \<Longrightarrow> blk_addr (V(B := v)) x bn = blk_addr V x bn"
    "k < nb * BSIZE \<Longrightarrow> fcontent (V(B := v)) x k = fcontent V x k"
proof -
  have a: "blk_addr (V(B := v)) x bn = blk_addr V x bn" if "bn < nb" for bn
    using B(1) by (rule other_block [OF that]) (use that in linarith)
  then show "bn < nb \<Longrightarrow> blk_addr (V(B := v)) x bn = blk_addr V x bn" by simp
  have "inj_on (blk_addr (V(B := v)) x) {..<nb} = inj_on (blk_addr V x) {..<nb}" by (rule inj_on_cong) (simp add: a)
  then show "file_ok limit (V(B := v)) x nb" using F a by (simp add: file_ok_def)
  show "fcontent (V(B := v)) x k = fcontent V x k" if "k < nb * BSIZE"
  proof -
    have "k div BSIZE < nb" using that by (simp add: less_mult_imp_div_less)
    moreover from this have "blk_addr V x (k div BSIZE) \<noteq> B" using B(2) by auto
    ultimately show ?thesis using a by (simp add: fcontent_def)
  qed
qed

lemma wrote_file_open:
  assumes F: "file_open ip nb s" and V: "wrote (t_limit (tabs s)) (icache s ip) nb off data n (t_view (tabs s)) (t_view (tabs t))"
    and "fs_idle t" and "icache t = icache s" and "t_limit (tabs t) = t_limit (tabs s)"
  shows "file_open ip nb t"
    "k < nb * BSIZE \<Longrightarrow> file_bytes ip t k = (if off \<le> k \<and> k < off + n then data (k - off) else file_bytes ip s k)"
    "m \<notin> blk_addr (t_view (tabs s)) (icache s ip) ` {..<nb} \<Longrightarrow> t_view (tabs t) m = t_view (tabs s) m"
  using assms by (auto simp: file_open_def wrote_def file_bytes_def)

text \<open>Setting the size in the cache and writing the inode to its block keeps the bytes of the file.\<close>

definition set_size :: "nat \<Rightarrow> u32 \<Rightarrow> ('a fs_st_scheme, chan, unit) km" where
  "set_size ip sz = kseq (upd_inode ip (\<lambda>x. x\<lparr>i_size := sz\<rparr>)) (iupdate ip)"

lemma set_size_run:
  assumes F: "file_open ip nb s" and room: "room_for 1 s"
  shows "\<exists>t. set_size ip sz s = Ok () t \<and> file_open ip nb t \<and> icache t = (icache s)(ip := (icache s ip)\<lparr>i_size := sz\<rparr>) \<and>
    (\<forall>k < nb * BSIZE. file_bytes ip t k = file_bytes ip s k) \<and>
    (\<forall>m. m \<noteq> IBLOCK (i_inum (icache s ip)) \<longrightarrow> t_view (tabs t) m = t_view (tabs s) m) \<and>
    same_dinode (disk_inode (t_view (tabs t)) (i_inum (icache s ip))) (dinode_of (icache t ip)) \<and>
    t_disk (tabs t) = t_disk (tabs s) \<and> t_limit (tabs t) = t_limit (tabs s) \<and> t_room (tabs t) = t_room (tabs s)"
proof -
  let ?x = "icache s ip" and ?V = "t_view (tabs s)" and ?B = "IBLOCK (i_inum (icache s ip))"
  let ?x' = "?x\<lparr>i_size := sz\<rparr>" and ?s = "s\<lparr>icache := (icache s)(ip := (icache s ip)\<lparr>i_size := sz\<rparr>)\<rparr>"
  let ?V' = "?V(?B := put_dinode (i_inum ?x mod IPB) (dinode_of ?x') (?V ?B))"
  note D = file_openD [OF F]
  have B: "?B \<notin> blk_addr ?V ?x ` {..<nb}" using D(7) by blast
  have "fs_idle ?s" "room_for 1 ?s" "icache ?s ip = ?x'" "i_dev ?x' = 1" "IBLOCK (i_inum ?x') < t_limit (tabs ?s)"
    using D room by simp_all
  from iupdate_run [OF this] obtain t where t: "iupdate ip ?s = Ok () t" "fs_idle t" "trest t = trest ?s"
      "tabs t = (tabs s)\<lparr>t_view := ?V', t_logged := insert ?B (t_logged (tabs s))\<rparr>" by auto
  have ic: "icache t = (icache s)(ip := ?x')" using trest_icache [OF t(3)] by simp
  have "set_size ip sz s = Ok () t" using t(1) by (simp add: set_size_def upd_inode_def kmonad)
  moreover note ok = file_ok_other [OF D(4,6) B]
  have "file_open ip nb t" using t(2,4) ic D ok(1,2) by (auto simp: file_open_def)
  moreover have "\<forall>k < nb * BSIZE. file_bytes ip t k = file_bytes ip s k" using ok(3) t(4) ic by (simp add: file_bytes_def)
  moreover have "same_dinode (disk_inode (t_view (tabs t)) (i_inum ?x)) (dinode_of (icache t ip))"
    using disk_inode_update [of ?V "i_inum ?x" "dinode_of ?x'" "i_inum ?x"] t(4) ic by simp
  ultimately show ?thesis using t(4) ic by simp
qed

lemma writei_unfold:
  assumes "i_type (icache s ip) \<noteq> T_DEV" and "\<not> (i_size (icache s ip) < off \<or> off + n < off)" and "\<not> MAXFILE * BSIZE < unat (off + n)"
  shows "writei dv ip src off n s = kseq (writei_loop ip src (unat off) (unat n) 0) (kbind (get_inode ip) (\<lambda>x.
     kseq (kwhen (0 < n \<and> i_size x < off + n) (set_size ip (off + n))) (kreturn (sint n)))) s"
  using assms by (simp add: writei_def get_inode_def kmonad set_size_def)

lemma writei_run:
  assumes F: "file_open ip nb s" and off: "unat off \<le> file_size ip s" and nb: "unat off + unat n \<le> nb * BSIZE"
    and room: "room_for (turns (unat off) (unat n) + 1) s"
  shows "\<exists>t. writei dv ip src off n s = Ok (int (unat n)) t \<and> file_open ip nb t \<and>
    (let grow = 0 < n \<and> file_size ip s < unat off + unat n in
      icache t = (if grow then (icache s)(ip := (icache s ip)\<lparr>i_size := off + n\<rparr>) else icache s) \<and>
      (grow \<longrightarrow> same_dinode (disk_inode (t_view (tabs t)) (i_inum (icache s ip))) (dinode_of (icache t ip)))) \<and>
    (\<forall>k < nb * BSIZE. file_bytes ip t k =
      (if unat off \<le> k \<and> k < unat off + unat n then src (k - unat off) else file_bytes ip s k)) \<and>
    (\<forall>m. m \<notin> insert (IBLOCK (i_inum (icache s ip))) (blk_addr (t_view (tabs s)) (icache s ip) ` {..<nb}) \<longrightarrow>
      t_view (tabs t) m = t_view (tabs s) m) \<and> t_disk (tabs t) = t_disk (tabs s) \<and>
    t_limit (tabs t) = t_limit (tabs s) \<and> t_room (tabs t) = t_room (tabs s)"
proof -
  let ?x = "icache s ip"
  note D = file_openD [OF F]
  have b: "nb * BSIZE \<le> 71680" by (rule file_ok_bound [OF D(4)])
  have sum: "unat (off + n) = unat off + unat n" using nb b by (intro unat_add_small) simp
  have sn: "sint n = int (unat n)" using nb b by (intro sint_small) simp
  have guards: "\<not> (i_size ?x < off \<or> off + n < off)" "\<not> MAXFILE * BSIZE < unat (off + n)"
    using off sum nb b by (auto simp: word_less_nat_alt file_size_def)
  have "room_for (turns (unat off) (unat n)) s" using room by (simp add: room_for_def)
  then obtain s1 L where s1: "writei_loop ip src (unat off) (unat n) 0 s = Ok () s1" "fs_idle s1" "trest s1 = trest s"
      "wrote (t_limit (tabs s)) ?x nb (unat off) src (unat n) (t_view (tabs s)) (t_view (tabs s1))"
      "tabs s1 = (tabs s)\<lparr>t_view := t_view (tabs s1), t_logged := L\<rparr>" "card L \<le> card (t_logged (tabs s)) + turns (unat off) (unat n)"
    using writei_loop_run [OF D(1) refl D(2,4), of "unat off" "unat n" 0 src] end_block_le [OF nb] by auto
  have ic: "icache s1 = icache s" by (rule trest_icache [OF s1(3)])
  have rest: "t_limit (tabs s1) = t_limit (tabs s)" "t_disk (tabs s1) = t_disk (tabs s)" "t_logged (tabs s1) = L" "t_room (tabs s1) = t_room (tabs s)"
    "t_open (tabs s1) = t_open (tabs s)"
    using arg_cong [OF s1(5), of t_limit] arg_cong [OF s1(5), of t_disk] arg_cong [OF s1(5), of t_logged] arg_cong [OF s1(5), of t_room]
      arg_cong [OF s1(5), of t_open]
    by simp_all
  note W = wrote_file_open [OF F s1(4) s1(2) ic rest(1)]
  have grow: "0 < n \<and> i_size ?x < off + n \<longleftrightarrow> 0 < n \<and> file_size ip s < unat off + unat n"
    using sum by (auto simp: word_less_nat_alt file_size_def)
  have run: "writei dv ip src off n s =
      kseq (kwhen (0 < n \<and> file_size ip s < unat off + unat n) (set_size ip (off + n))) (kreturn (int (unat n))) s1"
    using writei_unfold [OF D(3) guards, of dv src] s1(1) ic grow sn by (simp add: kmonad get_inode_def)
  show ?thesis
  proof (cases "0 < n \<and> file_size ip s < unat off + unat n")
    case False
    then have "writei dv ip src off n s = Ok (int (unat n)) s1" using run by (simp only: if_False kmonad)
    then show ?thesis using False W ic rest(1,2,4) by (auto simp: Let_def)
  next
    case True
    have "room_for 1 s1" using room s1(6) rest by (simp add: room_for_def)
    from set_size_run [OF W(1) this, of "off + n"] obtain t where t: "set_size ip (off + n) s1 = Ok () t" "file_open ip nb t"
        "icache t = (icache s)(ip := ?x\<lparr>i_size := off + n\<rparr>)" "\<forall>k < nb * BSIZE. file_bytes ip t k = file_bytes ip s1 k"
        "\<forall>m. m \<noteq> IBLOCK (i_inum ?x) \<longrightarrow> t_view (tabs t) m = t_view (tabs s1) m"
        "same_dinode (disk_inode (t_view (tabs t)) (i_inum ?x)) (dinode_of (icache t ip))"
        "t_disk (tabs t) = t_disk (tabs s1)" "t_limit (tabs t) = t_limit (tabs s1)" "t_room (tabs t) = t_room (tabs s1)" using ic by auto
    have "writei dv ip src off n s = Ok (int (unat n)) t" using True run t(1) by (simp only: if_True kmonad kres.case simp_thms)
    then show ?thesis using True W t rest(1,2,4) by (simp add: Let_def)
  qed
qed

end
