(* ===== verification/Fs_Grow.thy ===== *)
theory Fs_Grow
  imports Fs_Io
begin

text \<open>
  Files that grow, as disk content: a free block taken for a file becomes its next direct block, its indirect block or
  the next entry of the indirect block, and the bytes of the file and everything outside it stay as they were.
\<close>

section \<open>Definitions\<close>

definition bitmap_blocks :: "(nat \<Rightarrow> bytes) \<Rightarrow> nat set" where
  "bitmap_blocks V = bitmap_block V ` {..<nblk V}"

text \<open>A data block in use.\<close>

definition used_block :: "nat \<Rightarrow> (nat \<Rightarrow> bytes) \<Rightarrow> nat \<Rightarrow> bool" where
  "used_block limit V y \<longleftrightarrow> y < limit \<and> y < nblk V \<and> \<not> blk_free V y \<and> data_block V y"

text \<open>The blocks of a file of \<open>nb\<close> blocks; \<open>q\<close> says that it has an indirect block.\<close>

definition file_blocks :: "(nat \<Rightarrow> bytes) \<Rightarrow> inode \<Rightarrow> nat \<Rightarrow> bool \<Rightarrow> nat set" where
  "file_blocks V x nb q = blk_addr V x ` {..<nb} \<union> (if q then {ind_block x} else {})"

text \<open>
  The file has exactly \<open>nb\<close> blocks, all different and marked in use, and the table entries past them are zero.
\<close>

definition file_map :: "nat \<Rightarrow> (nat \<Rightarrow> bytes) \<Rightarrow> inode \<Rightarrow> nat \<Rightarrow> bool \<Rightarrow> bool" where
  "file_map limit V x nb q \<longleftrightarrow> nb \<le> MAXFILE \<and> (NDIRECT < nb \<longrightarrow> q) \<and>
     (\<forall>y \<in> file_blocks V x nb q. used_block limit V y) \<and> inj_on (blk_addr V x) {..<nb} \<and>
     (q \<longrightarrow> (\<forall>bn < nb. blk_addr V x bn \<noteq> ind_block x)) \<and>
     (\<forall>bn. nb \<le> bn \<and> bn < NDIRECT \<longrightarrow> i_addrs x bn = 0) \<and> (\<not> q \<longrightarrow> i_addrs x NDIRECT = 0) \<and>
     (q \<longrightarrow> (\<forall>bn. nb \<le> bn \<and> NDIRECT \<le> bn \<and> bn < MAXFILE \<longrightarrow> ld32 (V (ind_block x)) (4 * (bn - NDIRECT)) = 0))"

definition file_whole :: "nat \<Rightarrow> (nat \<Rightarrow> bytes) \<Rightarrow> inode \<Rightarrow> nat \<Rightarrow> bool" where
  "file_whole limit V x nb \<longleftrightarrow> file_map limit V x nb (NDIRECT < nb)"

text \<open>Every block marked free is a data block.\<close>

definition alloc_ok :: "nat \<Rightarrow> (nat \<Rightarrow> bytes) \<Rightarrow> bool" where
  "alloc_ok limit V \<longleftrightarrow> fs_layout limit V \<and> (\<forall>y < nblk V. blk_free V y \<longrightarrow> data_block V y)"

definition free_below :: "nat \<Rightarrow> (nat \<Rightarrow> bytes) \<Rightarrow> nat set" where
  "free_below limit V = {y. y < limit \<and> y < nblk V \<and> blk_free V y}"

text \<open>The bytes of the file, zero past its blocks.\<close>

definition fbytes :: "(nat \<Rightarrow> bytes) \<Rightarrow> inode \<Rightarrow> nat \<Rightarrow> nat \<Rightarrow> u8" where
  "fbytes V x nb k = (if k < nb * BSIZE then fcontent V x k else 0)"

section \<open>Frame\<close>

lemma sb_same:
  assumes "sb_at V' = sb_at V"
  shows "nblk V' = nblk V" "bitmap_block V' = bitmap_block V" "bitmap_blocks V' = bitmap_blocks V" "data_block V' = data_block V"
    "fs_layout limit V' = fs_layout limit V"
  using assms by (simp_all add: nblk_def bitmap_block_def bitmap_blocks_def data_block_def fs_layout_def fun_eq_iff)

lemma data_block_not_bitmap: "data_block V y \<Longrightarrow> y \<notin> bitmap_blocks V" "data_block V y \<Longrightarrow> y \<noteq> 1" "data_block V y \<Longrightarrow> y \<noteq> 0"
  by (auto simp: data_block_def bitmap_blocks_def)

lemma bitmap_frame:
  assumes "a \<notin> bitmap_blocks V" and "a \<noteq> 1"
  shows "sb_at (V(a := v)) = sb_at V" "z < nblk V \<Longrightarrow> blk_free (V(a := v)) z = blk_free V z"
proof -
  show s: "sb_at (V(a := v)) = sb_at V" using assms(2) by (simp add: sb_at_def)
  assume "z < nblk V"
  then have "bitmap_block V z \<noteq> a" using assms(1) by (auto simp: bitmap_blocks_def)
  then show "blk_free (V(a := v)) z = blk_free V z" using sb_same(2) [OF s] by (simp add: blk_free_def)
qed

lemma file_mapD:
  assumes "file_map limit V x nb q"
  shows "nb \<le> MAXFILE" "NDIRECT < nb \<Longrightarrow> q" "\<And>y. y \<in> file_blocks V x nb q \<Longrightarrow> used_block limit V y" "inj_on (blk_addr V x) {..<nb}"
    "\<And>bn. q \<Longrightarrow> bn < nb \<Longrightarrow> blk_addr V x bn \<noteq> ind_block x" "\<And>bn. nb \<le> bn \<Longrightarrow> bn < NDIRECT \<Longrightarrow> i_addrs x bn = 0"
    "\<not> q \<Longrightarrow> i_addrs x NDIRECT = 0"
    "\<And>bn. q \<Longrightarrow> nb \<le> bn \<Longrightarrow> NDIRECT \<le> bn \<Longrightarrow> bn < MAXFILE \<Longrightarrow> ld32 (V (ind_block x)) (4 * (bn - NDIRECT)) = 0"
    "\<And>bn. bn < nb \<Longrightarrow> used_block limit V (blk_addr V x bn)" "q \<Longrightarrow> used_block limit V (ind_block x)"
  using assms by (auto simp: file_map_def file_blocks_def)

lemma blk_addr_frame:
  assumes F: "file_map limit V x nb q" and m: "\<And>m. m \<in> file_blocks V x nb q \<Longrightarrow> V' m = V m" and bn: "bn < nb"
  shows "blk_addr V' x bn = blk_addr V x bn"
proof (cases "bn < NDIRECT")
  case False
  then have "q" using file_mapD(2) [OF F] bn by simp
  then have "V' (ind_block x) = V (ind_block x)" by (intro m) (simp add: file_blocks_def)
  then show ?thesis by (simp add: blk_addr_def)
qed (simp add: blk_addr_def)

lemma file_map_frame:
  assumes F: "file_map limit V x nb q" and sb: "sb_at V' = sb_at V"
    and m: "\<And>m. m \<in> file_blocks V x nb q \<Longrightarrow> V' m = V m" "\<And>m. m \<in> file_blocks V x nb q \<Longrightarrow> \<not> blk_free V' m"
  shows "file_map limit V' x nb q" "fbytes V' x nb = fbytes V x nb" "file_blocks V' x nb q = file_blocks V x nb q"
proof -
  note a = blk_addr_frame [OF F m(1)] and D = file_mapD [OF F]
  have im: "blk_addr V' x ` {..<nb} = blk_addr V x ` {..<nb}" using a by simp
  then show b: "file_blocks V' x nb q = file_blocks V x nb q" by (simp add: file_blocks_def)
  have inj: "inj_on (blk_addr V' x) {..<nb} = inj_on (blk_addr V x) {..<nb}" by (rule inj_on_cong) (simp add: a)
  have u: "used_block limit V' y" if "y \<in> file_blocks V x nb q" for y
    using D(3) [OF that] m(2) [OF that] sb_same [OF sb] by (simp add: used_block_def)
  have i: "q \<Longrightarrow> V' (ind_block x) = V (ind_block x)" by (rule m(1)) (simp add: file_blocks_def)
  show "file_map limit V' x nb q"
    using F u i b a unfolding file_map_def inj by auto
  show "fbytes V' x nb = fbytes V x nb"
  proof
    fix k
    show "fbytes V' x nb k = fbytes V x nb k"
    proof (cases "k < nb * BSIZE")
      case True
      then have "k div BSIZE < nb" by (simp add: less_mult_imp_div_less)
      moreover from this have "V' (blk_addr V x (k div BSIZE)) = V (blk_addr V x (k div BSIZE))" by (intro m(1)) (simp add: file_blocks_def)
      ultimately show ?thesis using a by (simp add: fbytes_def fcontent_def)
    qed (simp add: fbytes_def)
  qed
qed

text \<open>Taking a free block \<open>y\<close> leaves the blocks of every file.\<close>

definition took :: "nat \<Rightarrow> nat \<Rightarrow> (nat \<Rightarrow> bytes) \<Rightarrow> (nat \<Rightarrow> bytes) \<Rightarrow> bool" where
  "took limit y V V' \<longleftrightarrow> sb_at V' = sb_at V \<and> y < limit \<and> y < nblk V \<and> blk_free V y \<and> data_block V y \<and>
     (\<forall>z < nblk V. blk_free V' z \<longleftrightarrow> blk_free V z \<and> z \<noteq> y) \<and> (\<forall>i < BSIZE. V' y i = 0) \<and>
     (\<forall>m. m \<noteq> y \<longrightarrow> m \<notin> bitmap_blocks V \<longrightarrow> V' m = V m)"

lemma after_alloc_took:
  assumes "y < limit" "y < nblk (t_view a)" "blk_free (t_view a) y" "data_block (t_view a) y"
  shows "took limit y (t_view a) (t_view (after_alloc y a))"
  using after_alloc_view [OF assms(4,2)] assms by (auto simp: took_def bitmap_blocks_def)

lemma took_file:
  assumes T: "took limit y V V'" and F: "file_map limit V x nb q"
  shows "file_map limit V' x nb q" "fbytes V' x nb = fbytes V x nb" "file_blocks V' x nb q = file_blocks V x nb q" "y \<notin> file_blocks V x nb q"
    "bn < nb \<Longrightarrow> blk_addr V' x bn = blk_addr V x bn"
proof -
  have t: "sb_at V' = sb_at V" "blk_free V y" "\<And>z. z < nblk V \<Longrightarrow> blk_free V' z \<longleftrightarrow> blk_free V z \<and> z \<noteq> y"
      "\<And>m. m \<noteq> y \<Longrightarrow> m \<notin> bitmap_blocks V \<Longrightarrow> V' m = V m"
    using T by (auto simp: took_def)
  have u: "m < nblk V" "\<not> blk_free V m" "data_block V m" if "m \<in> file_blocks V x nb q" for m
    using file_mapD(3) [OF F that] by (simp_all add: used_block_def)
  show y: "y \<notin> file_blocks V x nb q" using u(2) t(2) by blast
  have k: "V' m = V m" "\<not> blk_free V' m" if m: "m \<in> file_blocks V x nb q" for m
    using t(3) [OF u(1) [OF m]] u(2) [OF m] t(4) [of m] m y data_block_not_bitmap(1) [OF u(3) [OF m]] by auto
  show "bn < nb \<Longrightarrow> blk_addr V' x bn = blk_addr V x bn" by (rule blk_addr_frame [OF F k(1)])
  from file_map_frame [OF F t(1) k]
  show "file_map limit V' x nb q" "fbytes V' x nb = fbytes V x nb" "file_blocks V' x nb q = file_blocks V x nb q" by simp_all
qed

lemma took_alloc_ok: "took limit y V V' \<Longrightarrow> alloc_ok limit V \<Longrightarrow> alloc_ok limit V'"
  using sb_same [of V' V] by (auto simp: took_def alloc_ok_def)

lemma took_used: "took limit y V V' \<Longrightarrow> used_block limit V' y"
  using sb_same [of V' V] by (auto simp: took_def used_block_def)

lemma took_free_below: "took limit y V V' \<Longrightarrow> free_below limit V' = free_below limit V - {y}"
  using sb_same [of V' V] by (auto simp: took_def free_below_def)

section \<open>Growth\<close>

text \<open>
  The file of inode \<open>x\<close> became that of \<open>x'\<close>: the old blocks are still its first ones, the new ones were free and are
  in use now, and nothing else of the disk changed but the bitmap and the blocks of the file.
\<close>

definition grew :: "nat \<Rightarrow> (nat \<Rightarrow> bytes) \<Rightarrow> inode \<Rightarrow> nat \<Rightarrow> bool \<Rightarrow> (nat \<Rightarrow> bytes) \<Rightarrow> inode \<Rightarrow> nat \<Rightarrow> bool \<Rightarrow> bool" where
  "grew limit V x nb q V' x' nb' q' \<longleftrightarrow> sb_at V' = sb_at V \<and> file_map limit V' x' nb' q' \<and> nb \<le> nb' \<and> (q \<longrightarrow> q') \<and>
     x' = x\<lparr>i_addrs := i_addrs x'\<rparr> \<and> (\<forall>bn < nb. blk_addr V' x' bn = blk_addr V x bn) \<and> (q \<longrightarrow> ind_block x' = ind_block x) \<and>
     (\<forall>z < nblk V. blk_free V' z \<longleftrightarrow> blk_free V z \<and> z \<notin> file_blocks V' x' nb' q') \<and>
     (\<forall>m. m \<notin> bitmap_blocks V \<longrightarrow> m \<notin> file_blocks V' x' nb' q' \<longrightarrow> V' m = V m) \<and>
     (\<forall>m \<in> file_blocks V' x' nb' q' - file_blocks V x nb q. blk_free V m)"

lemma grewD:
  assumes "grew limit V x nb q V' x' nb' q'"
  shows "sb_at V' = sb_at V" "file_map limit V' x' nb' q'" "nb \<le> nb'" "q \<Longrightarrow> q'" "x' = x\<lparr>i_addrs := i_addrs x'\<rparr>"
    "\<And>bn. bn < nb \<Longrightarrow> blk_addr V' x' bn = blk_addr V x bn" "q \<Longrightarrow> ind_block x' = ind_block x"
    "\<And>z. z < nblk V \<Longrightarrow> blk_free V' z \<longleftrightarrow> blk_free V z \<and> z \<notin> file_blocks V' x' nb' q'"
    "\<And>m. m \<notin> bitmap_blocks V \<Longrightarrow> m \<notin> file_blocks V' x' nb' q' \<Longrightarrow> V' m = V m"
    "\<And>m. m \<in> file_blocks V' x' nb' q' \<Longrightarrow> m \<notin> file_blocks V x nb q \<Longrightarrow> blk_free V m"
  using assms unfolding grew_def by blast+

lemma grew_blocks:
  assumes "grew limit V x nb q V' x' nb' q'"
  shows "file_blocks V x nb q \<subseteq> file_blocks V' x' nb' q'"
proof
  note D = grewD [OF assms]
  fix m assume "m \<in> file_blocks V x nb q"
  then consider bn where "bn < nb" "m = blk_addr V x bn" | "q" "m = ind_block x"
    by (auto simp: file_blocks_def split: if_splits)
  then show "m \<in> file_blocks V' x' nb' q'"
  proof cases
    case 1
    then have "m = blk_addr V' x' bn" "bn < nb'" using D(3,6) by auto
    then show ?thesis by (simp add: file_blocks_def)
  next
    case 2
    then show ?thesis using D(4,7) by (simp add: file_blocks_def)
  qed
qed

lemma grew_trans:
  assumes g: "grew limit V x nb q V1 x1 n1 q1" "grew limit V1 x1 n1 q1 V2 x2 n2 q2"
  shows "grew limit V x nb q V2 x2 n2 q2"
proof -
  note A = grewD [OF g(1)] and B = grewD [OF g(2)] and S = sb_same [OF grewD(1) [OF g(1)]]
  note sub = grew_blocks [OF g(2)]
  have "x2 = x\<lparr>i_addrs := i_addrs x2\<rparr>" by (rule trans [OF B(5)]) (subst A(5), simp)
  moreover have "\<forall>bn < nb. blk_addr V2 x2 bn = blk_addr V x bn" using A(3,6) B(6) by simp
  moreover have "\<forall>z < nblk V. blk_free V2 z \<longleftrightarrow> blk_free V z \<and> z \<notin> file_blocks V2 x2 n2 q2" using A(8) B(8) S(1) sub by auto
  moreover have "\<forall>m. m \<notin> bitmap_blocks V \<longrightarrow> m \<notin> file_blocks V2 x2 n2 q2 \<longrightarrow> V2 m = V m"
    using A(9) B(9) S(3) sub by auto
  moreover have "blk_free V m" if m: "m \<in> file_blocks V2 x2 n2 q2" "m \<notin> file_blocks V x nb q" for m
  proof (cases "m \<in> file_blocks V1 x1 n1 q1")
    case False
    then have "blk_free V1 m" by (rule B(10) [OF m(1)])
    moreover have "m < nblk V" using file_mapD(3) [OF B(2) m(1)] B(1) A(1) by (simp add: used_block_def nblk_def)
    ultimately show ?thesis using A(8) by blast
  qed (use A(10) m(2) in blast)
  ultimately show ?thesis using A(1,3,4,7) B(1,2,3,4,7) by (simp add: grew_def)
qed

lemma grew_refl: "file_map limit V x nb q \<Longrightarrow> grew limit V x nb q V x nb q"
  by (auto simp: grew_def dest: file_mapD(3) simp: used_block_def)

text \<open>A free block taken for the file.\<close>

lemma grew_take:
  assumes T: "took limit y V V'" and F: "file_map limit V x nb q" and F': "file_map limit V'' x' nb' q'"
    and b: "file_blocks V'' x' nb' q' = insert y (file_blocks V x nb q)" and le: "nb \<le> nb'" "q \<longrightarrow> q'"
    and x: "x' = x\<lparr>i_addrs := i_addrs x'\<rparr>" "\<And>bn. bn < nb \<Longrightarrow> blk_addr V'' x' bn = blk_addr V x bn" "q \<Longrightarrow> ind_block x' = ind_block x"
    and V'': "sb_at V'' = sb_at V'" "\<And>z. z < nblk V \<Longrightarrow> blk_free V'' z = blk_free V' z" "\<And>m. m \<notin> file_blocks V x nb q \<Longrightarrow> V'' m = V' m"
  shows "grew limit V x nb q V'' x' nb' q'"
proof -
  have t: "sb_at V' = sb_at V" "blk_free V y" "\<And>z. z < nblk V \<Longrightarrow> blk_free V' z \<longleftrightarrow> blk_free V z \<and> z \<noteq> y"
      "\<And>m. m \<noteq> y \<Longrightarrow> m \<notin> bitmap_blocks V \<Longrightarrow> V' m = V m"
    using T by (auto simp: took_def)
  have "\<not> blk_free V z" if "z \<in> file_blocks V x nb q" for z using file_mapD(3) [OF F that] by (simp add: used_block_def)
  then have "\<forall>z < nblk V. blk_free V'' z \<longleftrightarrow> blk_free V z \<and> z \<notin> insert y (file_blocks V x nb q)" using t(3) V''(2) by auto
  then show ?thesis using F' b le x V''(1,3) t(1,2,4) by (auto simp: grew_def)
qed

lemma took_unat: "took limit y V V' \<Longrightarrow> unat (of_nat y :: u32) = y"
proof -
  assume "took limit y V V'"
  then have "y < 2 ^ 32" using unat_u32_less [of "sb_size (sb_at V)"] by (simp add: took_def nblk_def)
  then show ?thesis by (simp add: unat_of_nat take_bit_nat_eq_self)
qed

lemma fbytes_cong:
  assumes "\<And>bn. bn < nb \<Longrightarrow> blk_addr V' x' bn = blk_addr V x bn" and "\<And>bn. bn < nb \<Longrightarrow> V' (blk_addr V x bn) = V (blk_addr V x bn)"
  shows "fbytes V' x' nb = fbytes V x nb"
  using assms by (auto simp: fbytes_def fcontent_def fun_eq_iff less_mult_imp_div_less)

text \<open>A new block at the end holds zeros.\<close>

lemma new_block_bytes:
  assumes old: "fbytes V' x nb = fbytes V x nb" and a: "\<And>bn. bn < nb \<Longrightarrow> blk_addr V'' x' bn = blk_addr V' x bn"
    and v: "\<And>bn. bn < nb \<Longrightarrow> V'' (blk_addr V' x bn) = V' (blk_addr V' x bn)"
    and y: "blk_addr V'' x' nb = y" "\<And>i. i < BSIZE \<Longrightarrow> V'' y i = 0"
  shows "fbytes V'' x' (Suc nb) = fbytes V x nb"
  unfolding old [symmetric]
proof
  fix k
  consider "k < nb * BSIZE" "k div BSIZE < nb" | "nb * BSIZE \<le> k" "k < Suc nb * BSIZE" "k div BSIZE = nb" | "Suc nb * BSIZE \<le> k"
    using less_mult_imp_div_less [of k nb BSIZE] div_nat_eqI [of BSIZE nb k] by (force simp: mult.commute)
  then show "fbytes V'' x' (Suc nb) k = fbytes V' x nb k"
  proof cases
    case 1
    then show ?thesis using a v by (simp add: fbytes_def fcontent_def)
  next
    case 2
    then show ?thesis using y by (simp add: fbytes_def fcontent_def)
  qed (simp add: fbytes_def)
qed

lemma inj_on_extend:
  assumes "inj_on f {..<nb :: nat}" and a: "\<And>bn. bn \<le> nb \<Longrightarrow> g bn = (if bn = nb then y else f bn)" and "y \<notin> f ` {..<nb}"
  shows "inj_on g {..<Suc nb}"
proof -
  have "inj_on g {..<nb}" using assms(1) a by (auto simp: inj_on_def)
  moreover have "g nb \<notin> g ` {..<nb}" using assms(3) a by auto
  ultimately show ?thesis by (simp add: lessThan_Suc)
qed

text \<open>A direct block.\<close>

lemma add_direct:
  assumes T: "took limit y V V'" and F: "file_map limit V x nb q" and nb: "nb < NDIRECT"
    and x': "x' = x\<lparr>i_addrs := (i_addrs x)(nb := of_nat y)\<rparr>"
  shows "grew limit V x nb q V' x' (Suc nb) q" "blk_addr V' x' nb = y" "fbytes V' x' (Suc nb) = fbytes V x nb"
proof -
  note T1 = took_file [OF T F] and D = file_mapD [OF took_file(1) [OF T F]]
  note uy = took_unat [OF T]
  have a: "blk_addr V' x' bn = (if bn = nb then y else blk_addr V' x bn)" if "bn \<le> nb" for bn
    using that nb uy by (simp add: blk_addr_def x')
  then show addr: "blk_addr V' x' nb = y" by simp
  have i: "ind_block x' = ind_block x" "i_addrs x' NDIRECT = i_addrs x NDIRECT" using nb by (simp_all add: ind_block_def x')
  have im: "blk_addr V' x' ` {..<Suc nb} = insert y (blk_addr V' x ` {..<nb})"
    using a by (auto simp: lessThan_Suc)
  have b: "file_blocks V' x' (Suc nb) q = insert y (file_blocks V x nb q)"
    unfolding T1(3) [symmetric] using im i(1) by (auto simp: file_blocks_def)
  have "y \<notin> blk_addr V' x ` {..<nb}" using T1(3,4) by (auto simp: file_blocks_def)
  then have "inj_on (blk_addr V' x') {..<Suc nb}" using a by (intro inj_on_extend [OF D(4), where y = y])
  moreover have "used_block limit V' z" if "z \<in> file_blocks V' x' (Suc nb) q" for z
    using that took_used [OF T] D(3) T1(3) unfolding b by auto
  moreover have "blk_addr V' x' bn \<noteq> ind_block x'" if "q" "bn < Suc nb" for bn
    using that a D(5) T1(3,4) i(1) by (auto simp: less_Suc_eq file_blocks_def)
  ultimately have F': "file_map limit V' x' (Suc nb) q"
    using D(2,6,7,8) nb i by (simp add: file_map_def x')
  show "grew limit V x nb q V' x' (Suc nb) q"
  proof (rule grew_take [OF T F F' b])
    show "blk_addr V' x' bn = blk_addr V x bn" if "bn < nb" for bn using a [of bn] T1(5) [OF that] that by simp
  qed (use i(1) in \<open>simp_all add: x'\<close>)
  show "fbytes V' x' (Suc nb) = fbytes V x nb"
    by (rule new_block_bytes [OF T1(2)]) (use a addr T in \<open>auto simp: took_def\<close>)
qed


text \<open>The indirect block of a file with all direct blocks in use.\<close>

lemma add_indirect:
  assumes T: "took limit y V V'" and F: "file_map limit V x NDIRECT False"
    and x': "x' = x\<lparr>i_addrs := (i_addrs x)(NDIRECT := of_nat y)\<rparr>"
  shows "grew limit V x NDIRECT False V' x' NDIRECT True" "ind_block x' = y" "fbytes V' x' NDIRECT = fbytes V x NDIRECT"
proof -
  note T1 = took_file [OF T F] and D = file_mapD [OF took_file(1) [OF T F]]
  show i: "ind_block x' = y" using took_unat [OF T] by (simp add: ind_block_def x')
  have a: "blk_addr V'' x' bn = blk_addr V'' x bn" if "bn < NDIRECT" for bn V'' using that by (simp add: blk_addr_def x')
  then have im: "blk_addr V' x' ` {..<NDIRECT} = blk_addr V' x ` {..<NDIRECT}" by (intro image_cong) simp_all
  have b: "file_blocks V' x' NDIRECT True = insert y (file_blocks V x NDIRECT False)"
    unfolding T1(3) [symmetric] using im i by (simp add: file_blocks_def)
  have zero: "ld32 (V' y) (4 * (bn - NDIRECT)) = 0" if "bn < MAXFILE" for bn using T that by (intro ld32_zero) (simp add: took_def)
  have "inj_on (blk_addr V' x') {..<NDIRECT} = inj_on (blk_addr V' x) {..<NDIRECT}" by (rule inj_on_cong) (simp add: a)
  moreover have "used_block limit V' z" if "z \<in> file_blocks V' x' NDIRECT True" for z
    using that took_used [OF T] D(3) T1(3) unfolding b by auto
  moreover have "blk_addr V' x' bn \<noteq> ind_block x'" if "bn < NDIRECT" for bn
  proof -
    have "blk_addr V x bn \<in> file_blocks V x NDIRECT False" using that by (simp add: file_blocks_def)
    then show ?thesis using a [OF that, of V'] T1(5) [OF that] T1(4) i by metis
  qed
  ultimately have F': "file_map limit V' x' NDIRECT True"
    using D(4) zero i by (auto simp: file_map_def)
  show "grew limit V x NDIRECT False V' x' NDIRECT True"
  proof (rule grew_take [OF T F F' b])
    show "blk_addr V' x' bn = blk_addr V x bn" if "bn < NDIRECT" for bn using a [OF that] T1(5) [OF that] by simp
  qed (simp_all add: x')
  show "fbytes V' x' NDIRECT = fbytes V x NDIRECT"
    unfolding T1(2) [symmetric] using a by (intro fbytes_cong) simp_all
qed

text \<open>A block entered in the indirect block.\<close>

lemma add_entry:
  assumes T: "took limit y V V'" and F: "file_map limit V x nb True" and nb: "NDIRECT \<le> nb" "nb < MAXFILE"
    and V'': "V'' = V'(ind_block x := st32 (V' (ind_block x)) (4 * (nb - NDIRECT)) (of_nat y))"
  shows "grew limit V x nb True V'' x (Suc nb) True" "blk_addr V'' x nb = y" "fbytes V'' x (Suc nb) = fbytes V x nb"
proof -
  let ?i = "ind_block x"
  note T1 = took_file [OF T F] and D = file_mapD [OF took_file(1) [OF T F]]
  have ib: "?i \<in> file_blocks V x nb True" by (simp add: file_blocks_def)
  have iy: "?i \<noteq> y" using T1(4) ib by blast
  have u: "used_block limit V ?i" by (rule file_mapD(3) [OF F ib])
  have db: "?i \<notin> bitmap_blocks V" "?i \<noteq> 1" using u data_block_not_bitmap by (auto simp: used_block_def)
  have sb': "sb_at V' = sb_at V" using T by (simp add: took_def)
  have sb: "sb_at V'' = sb_at V'" unfolding V'' using bitmap_frame [of ?i V'] db sb_same(3) [OF sb'] by auto
  have free: "blk_free V'' z = blk_free V' z" if "z < nblk V" for z
    unfolding V'' using bitmap_frame [of ?i V'] db sb_same(1,3) [OF sb'] that by auto
  have e: "ld32 (V'' ?i) (4 * (bn - NDIRECT)) = (if bn = nb then of_nat y else ld32 (V' ?i) (4 * (bn - NDIRECT)))" if "NDIRECT \<le> bn" for bn
  proof (cases "bn = nb")
    case False
    then have "4 * (nb - NDIRECT) + 4 \<le> 4 * (bn - NDIRECT) \<or> 4 * (bn - NDIRECT) + 4 \<le> 4 * (nb - NDIRECT)" using that nb by linarith
    then show ?thesis using False by (simp add: V'' ld32_st32_other)
  qed (simp add: V'')
  have a: "blk_addr V'' x bn = (if bn = nb then y else blk_addr V' x bn)" if "bn \<le> nb" for bn
    using that nb e took_unat [OF T] by (auto simp: blk_addr_def)
  then show addr: "blk_addr V'' x nb = y" by simp
  have im: "blk_addr V'' x ` {..<Suc nb} = insert y (blk_addr V' x ` {..<nb})" using a by (auto simp: lessThan_Suc)
  have b: "file_blocks V'' x (Suc nb) True = insert y (file_blocks V x nb True)"
    unfolding T1(3) [symmetric] using im by (auto simp: file_blocks_def)
  have new: "y \<notin> blk_addr V' x ` {..<nb}" using T1(3,4) by (auto simp: file_blocks_def)
  have "inj_on (blk_addr V'' x) {..<Suc nb}"
    using a new by (intro inj_on_extend [OF D(4), where y = y])
  moreover have "used_block limit V'' z" if "z \<in> file_blocks V'' x (Suc nb) True" for z
  proof -
    have "used_block limit V' z" using that took_used [OF T] D(3) T1(3) unfolding b by auto
    then show ?thesis using free sb_same [OF sb] sb_same [OF sb'] by (simp add: used_block_def)
  qed
  moreover have "blk_addr V'' x bn \<noteq> ?i" if "bn < Suc nb" for bn using that a D(5) iy by (auto simp: less_Suc_eq)
  ultimately have F': "file_map limit V'' x (Suc nb) True"
    using D(8) nb e by (auto simp: file_map_def)
  show "grew limit V x nb True V'' x (Suc nb) True"
  proof (rule grew_take [OF T F F' b])
    show "blk_addr V'' x bn = blk_addr V x bn" if "bn < nb" for bn using a [of bn] T1(5) [OF that] that by simp
    show "V'' m = V' m" if "m \<notin> file_blocks V x nb True" for m using that ib by (auto simp: V'')
  qed (use sb free in simp_all)
  show "fbytes V'' x (Suc nb) = fbytes V x nb"
  proof (rule new_block_bytes [OF T1(2) _ _ addr])
    show "V'' (blk_addr V' x bn) = V' (blk_addr V' x bn)" if "bn < nb" for bn using D(5) [OF _ that] by (simp add: V'')
    show "V'' y i = 0" if "i < BSIZE" for i using T that iy by (simp add: V'' took_def)
  qed (use a in simp)
qed

text \<open>Assigning to a block of the file.\<close>

lemma file_map_ok: "file_map limit V x nb q \<Longrightarrow> file_ok limit V x nb"
  unfolding file_ok_def using file_mapD [of limit V x nb q] data_block_not_bitmap(3) [of V] by (auto simp: used_block_def)

lemma put_grew:
  assumes F: "file_map limit V x nb q" and "tot < n" and bn: "off div BSIZE < nb" and m: "m = chunk n tot off" and W: "W = put_chunk x off src tot m V"
  shows "grew limit V x nb q W x nb q"
    "fbytes W x nb k = (if off \<le> k \<and> k < off + m then src (tot + (k - off)) else fbytes V x nb k)"
proof -
  let ?a = "blk_addr V x (off div BSIZE)"
  note D = file_mapD [OF F] and ok = file_map_ok [OF F]
  have ab: "?a \<in> file_blocks V x nb q" using bn by (simp add: file_blocks_def)
  have u: "used_block limit V ?a" by (rule D(3) [OF ab])
  have db: "?a \<notin> bitmap_blocks V" "?a \<noteq> 1" using u data_block_not_bitmap by (auto simp: used_block_def)
  have sb: "sb_at W = sb_at V" unfolding W put_chunk_def Let_def using bitmap_frame [OF db] by auto
  have free: "blk_free W z = blk_free V z" if "z < nblk V" for z
    unfolding W put_chunk_def Let_def using bitmap_frame [OF db] that by auto
  have a: "blk_addr W x bn' = blk_addr V x bn'" if "bn' < nb" for bn' unfolding W by (rule put_chunk_addr [OF ok bn that])
  have b: "file_blocks W x nb q = file_blocks V x nb q" using a by (auto simp: file_blocks_def)
  have "inj_on (blk_addr W x) {..<nb} = inj_on (blk_addr V x) {..<nb}" by (rule inj_on_cong) (simp add: a)
  moreover have "used_block limit W z" if "z \<in> file_blocks V x nb q" for z
    using D(3) [OF that] free sb_same [OF sb] by (simp add: used_block_def)
  moreover have "q \<Longrightarrow> W (ind_block x) = V (ind_block x)" using D(5) [OF _ bn] by (auto simp: W put_chunk_def Let_def)
  ultimately have F': "file_map limit W x nb q" using D a b by (simp add: file_map_def)
  have "\<not> blk_free V z" if "z \<in> file_blocks V x nb q" for z using D(3) [OF that] by (simp add: used_block_def)
  moreover have "W z = V z" if "z \<notin> file_blocks V x nb q" for z using that ab by (auto simp: W put_chunk_def Let_def)
  ultimately show "grew limit V x nb q W x nb q" using F' sb a b free by (auto simp: grew_def)
  have "\<not> (off \<le> k \<and> k < off + m)" if "nb * BSIZE \<le> k"
  proof
    assume "off \<le> k \<and> k < off + m"
    then have "k div BSIZE = off div BSIZE" using chunk_block(1) [OF assms(2), of off k] m by simp
    then have "k div BSIZE < nb" using bn by simp
    then show False using that by (simp add: div_less_iff_less_mult)
  qed
  then show "fbytes W x nb k = (if off \<le> k \<and> k < off + m then src (tot + (k - off)) else fbytes V x nb k)"
    using put_chunk_content [OF ok assms(2) bn _ m, of k src] by (auto simp: fbytes_def W)
qed

end
