(* ===== verification/Fs_Alloc.thy ===== *)
theory Fs_Alloc
  imports Fs_Grow
begin

text \<open>
  Running the allocation: \<open>bmap\<close> of the block after the last one of a file, and the copy loop of \<open>writei\<close> when
  it extends the file, with the blocks they log counted against the room of the transaction.
\<close>

section \<open>Allocating the next block\<close>

text \<open>
  The blocks a transaction may have to log to allocate, on top of those it has logged: the bitmap, and the indirect
  block when the file has one.
\<close>

definition gload :: "nat set \<Rightarrow> txn_abs \<Rightarrow> nat" where
  "gload H a = card (t_logged a \<union> bitmap_blocks (t_view a) \<union> H)"

definition ind_set :: "inode \<Rightarrow> nat \<Rightarrow> nat set" where
  "ind_set x nb = (if NDIRECT < nb then {ind_block x} else {})"

text \<open>The blocks a file of \<open>nb\<close> blocks takes on the disk.\<close>

definition nblocks :: "nat \<Rightarrow> nat" where
  "nblocks nb = nb + (if NDIRECT < nb then 1 else 0)"

text \<open>A step of a transaction that logs only blocks of \<open>N\<close>.\<close>

definition txn_ran :: "nat set \<Rightarrow> 'a log_st_scheme \<Rightarrow> 'a log_st_scheme \<Rightarrow> bool" where
  "txn_ran N s t \<longleftrightarrow> tabs t = (tabs s)\<lparr>t_view := t_view (tabs t), t_logged := t_logged (tabs t)\<rparr> \<and>
     t_logged (tabs t) \<subseteq> t_logged (tabs s) \<union> N"

lemma txn_ranD:
  assumes "txn_ran N s t"
  shows "t_limit (tabs t) = t_limit (tabs s)" "t_room (tabs t) = t_room (tabs s)" "t_open (tabs t) = t_open (tabs s)"
    "t_disk (tabs t) = t_disk (tabs s)" "t_busy (tabs t) = t_busy (tabs s)" "t_logged (tabs t) \<subseteq> t_logged (tabs s) \<union> N"
    "t_size (tabs t) = t_size (tabs s)"
proof -
  have e: "tabs t = (tabs s)\<lparr>t_view := t_view (tabs t), t_logged := t_logged (tabs t)\<rparr>" using assms by (simp add: txn_ran_def)
  show "t_limit (tabs t) = t_limit (tabs s)" "t_room (tabs t) = t_room (tabs s)" "t_open (tabs t) = t_open (tabs s)"
    "t_disk (tabs t) = t_disk (tabs s)" "t_busy (tabs t) = t_busy (tabs s)" "t_size (tabs t) = t_size (tabs s)"
    by (subst e; simp)+
  show "t_logged (tabs t) \<subseteq> t_logged (tabs s) \<union> N" using assms by (simp add: txn_ran_def)
qed

lemma txn_ran_trans: "txn_ran N s t \<Longrightarrow> txn_ran M t u \<Longrightarrow> txn_ran (N \<union> M) s u"
proof -
  assume a: "txn_ran N s t" "txn_ran M t u"
  have "tabs u = (tabs s)\<lparr>t_view := t_view (tabs u), t_logged := t_logged (tabs u)\<rparr>"
    by (rule txn_abs.equality) (use txn_ranD [OF a(1)] txn_ranD [OF a(2)] in simp_all)
  then show ?thesis using txn_ranD(6) [OF a(1)] txn_ranD(6) [OF a(2)] by (auto simp: txn_ran_def)
qed

lemma finite_bitmap [simp]: "finite (bitmap_blocks V)"
  by (simp add: bitmap_blocks_def)

lemma gload_ran:
  assumes "fs_held H s" and r: "txn_ran N s t" and sb: "sb_at (t_view (tabs t)) = sb_at (t_view (tabs s))" and fin: "finite K"
    and "N \<union> K' \<subseteq> bitmap_blocks (t_view (tabs s)) \<union> K \<union> M" and "finite M"
  shows "gload K' (tabs t) \<le> gload K (tabs s) + card M"
proof -
  let ?A = "t_logged (tabs s) \<union> bitmap_blocks (t_view (tabs s)) \<union> K"
  have "finite (t_logged (tabs s))" by (rule fs_heldD(3) [OF assms(1)])
  then have f: "finite (?A \<union> M)" using fin assms(6) by simp
  have "t_logged (tabs t) \<union> bitmap_blocks (t_view (tabs t)) \<union> K' \<subseteq> ?A \<union> M"
    using txn_ranD(6) [OF r] sb_same(3) [OF sb] assms(5) by auto
  then have "gload K' (tabs t) \<le> card (?A \<union> M)" unfolding gload_def by (rule card_mono [OF f])
  also have "\<dots> \<le> gload K (tabs s) + card M" unfolding gload_def by (rule card_Un_le)
  finally show ?thesis .
qed

lemma balloc_least:
  assumes S: "fs_held H s" and V: "V = t_view (tabs s)" and A: "alloc_ok (t_limit (tabs s)) V"
    and H: "\<And>m. m \<in> H \<Longrightarrow> used_block (t_limit (tabs s)) V m" and free: "free_below (t_limit (tabs s)) V \<noteq> {}"
    and op: "t_open (tabs s)" and room: "gload H (tabs s) < t_room (tabs s)"
  obtains y t where "balloc 1 s = Ok y t" "fs_held H t" "trest t = trest s" "keeps_handles s t"
    "took (t_limit (tabs s)) y V (t_view (tabs t))" "txn_ran (insert y (bitmap_blocks V)) s t" "y \<in> t_logged (tabs t)"
proof -
  define y where "y = (LEAST y. y < nblk V \<and> blk_free V y)"
  obtain z where z: "z < t_limit (tabs s)" "z < nblk V" "blk_free V z" using free by (auto simp: free_below_def)
  have y: "y < nblk V" "blk_free V y" using LeastI [of "\<lambda>y. y < nblk V \<and> blk_free V y" z] z by (auto simp: y_def)
  have "y \<le> z" unfolding y_def by (rule Least_le) (use z in simp)
  then have lim: "y < t_limit (tabs s)" using z(1) by simp
  have "\<not> (w < nblk V \<and> blk_free V w)" if "w < y" for w using that unfolding y_def by (rule not_less_Least)
  then have least: "\<forall>w<y. \<not> blk_free V w" using y(1) by force
  note D = fs_heldD [OF S]
  have "m \<noteq> 1" "m \<notin> bitmap_blocks V" "m \<noteq> y" if "m \<in> H" for m
    using H [OF that] data_block_not_bitmap [of V m] y(2) by (auto simp: used_block_def)
  then have Hb: "1 \<notin> H" "\<forall>b < nblk V. bitmap_block V b \<notin> H" "y \<notin> H" unfolding bitmap_blocks_def by blast+
  let ?B = "bitmap_block V y" and ?L = "t_logged (tabs s) \<union> bitmap_blocks V \<union> H"
  have fin: "finite ?L" using D(3,4) by simp
  have B: "?B \<in> bitmap_blocks V" using y(1) by (simp add: bitmap_blocks_def)
  have "card (insert ?B (t_logged (tabs s))) \<le> card ?L" "card (H \<union> insert ?B (t_logged (tabs s))) \<le> card ?L"
    by (rule card_mono [OF fin]; use B in auto)+
  then have ar: "alloc_room ?B s" using room op D(2) tx.room_cap [OF D(1)] by (simp add: alloc_room_def gload_def V)
  have "\<exists>t. balloc 1 s = Ok y t \<and> fs_held H t \<and> trest t = trest s \<and> keeps_handles s t \<and> tabs t = after_alloc y (tabs s)"
    by (rule balloc_held) (use S ar A V Hb y lim least in \<open>simp_all add: alloc_ok_def\<close>)
  then obtain t where t: "balloc 1 s = Ok y t" "fs_held H t" "trest t = trest s" "keeps_handles s t" "tabs t = after_alloc y (tabs s)"
    by blast
  have "took (t_limit (tabs s)) y V (t_view (tabs t))"
    unfolding t(5) V by (rule after_alloc_took) (use lim y A V in \<open>auto simp: alloc_ok_def\<close>)
  moreover have "txn_ran (insert y (bitmap_blocks V)) s t" "y \<in> t_logged (tabs t)"
    using B V by (auto simp: txn_ran_def t(5) after_alloc_def Let_def)
  ultimately show ?thesis by (rule that [OF t(1-4)])
qed

lemma grew_alloc_ok: "grew limit V x nb q V' x' nb' q' \<Longrightarrow> alloc_ok limit V \<Longrightarrow> alloc_ok limit V'"
  using sb_same [OF grewD(1)] grewD(8) [of limit V x nb q V' x' nb' q'] by (auto simp: alloc_ok_def)

lemma card_file_blocks:
  assumes "file_map limit V x nb q"
  shows "card (file_blocks V x nb q) = nb + (if q then 1 else 0)"
proof -
  note D = file_mapD [OF assms]
  have c: "card (blk_addr V x ` {..<nb}) = nb" using card_image [OF D(4)] by simp
  show ?thesis
  proof (cases q)
    case True
    then have "ind_block x \<notin> blk_addr V x ` {..<nb}" using D(5) by fastforce
    then show ?thesis using True c by (simp add: file_blocks_def)
  qed (simp add: file_blocks_def c)
qed

lemma grew_free:
  assumes G: "grew limit V x nb q V' x' nb' q'" and F: "file_map limit V x nb q"
  shows "card (free_below limit V') + (nb' + (if q' then 1 else 0)) = card (free_below limit V) + (nb + (if q then 1 else 0))"
proof -
  let ?F = "file_blocks V x nb q" and ?F' = "file_blocks V' x' nb' q'"
  note D = grewD [OF G] and S = sb_same [OF grewD(1) [OF G]]
  have fin: "finite ?F" "finite ?F'" "finite (free_below limit V)" by (simp_all add: file_blocks_def free_below_def)
  have sub: "?F \<subseteq> ?F'" by (rule grew_blocks [OF G])
  have new: "?F' - ?F \<subseteq> free_below limit V"
    using D(10) file_mapD(3) [OF D(2)] S by (auto simp: free_below_def used_block_def)
  have old: "?F \<inter> free_below limit V = {}" using file_mapD(3) [OF F] by (auto simp: free_below_def used_block_def)
  have "free_below limit V' = free_below limit V - (?F' - ?F)" using D(8) S old by (auto simp: free_below_def)
  then have "card (free_below limit V') = card (free_below limit V) - (card ?F' - card ?F)"
    using new fin by (simp add: card_Diff_subset sub)
  moreover have "card (?F' - ?F) \<le> card (free_below limit V)" by (rule card_mono [OF fin(3) new])
  then have "card ?F' - card ?F \<le> card (free_below limit V)" using fin sub by (simp add: card_Diff_subset)
  moreover have "card ?F \<le> card ?F'" by (rule card_mono [OF fin(2) sub])
  ultimately show ?thesis using card_file_blocks [OF F] card_file_blocks [OF D(2)] by linarith
qed

text \<open>The end of \<open>bmap\<close> once the indirect block is known.\<close>

definition bmap_entry :: "nat \<Rightarrow> nat \<Rightarrow> ('a fs_st_scheme, chan, nat) km" where
  "bmap_entry addr k = kbind (bread 1 addr) (\<lambda>bp.
     kbind (buf_data bp) (\<lambda>a.
     kbind (if ld32 a (4 * k) = 0 then
         kbind (balloc 1) (\<lambda>addr.
         kseq (set_data bp (\<lambda>a. st32 a (4 * k) (of_nat addr)))
         (kseq (log_write bp)
         (kreturn addr)))
       else kreturn (unat (ld32 a (4 * k)))) (\<lambda>addr.
     kseq (brelse bp)
     (kreturn addr))))"

lemma bmap_entry_run:
  assumes idle: "fs_idle s" and V: "V = t_view (tabs s)" and A: "alloc_ok (t_limit (tabs s)) V"
    and F: "file_map (t_limit (tabs s)) V x nb True" and nb: "NDIRECT \<le> nb" "nb < MAXFILE"
    and free: "free_below (t_limit (tabs s)) V \<noteq> {}" and op: "t_open (tabs s)" and room: "gload {ind_block x} (tabs s) + 1 < t_room (tabs s)"
  shows "\<exists>y t V'. bmap_entry (ind_block x) (nb - NDIRECT) s = Ok y t \<and> fs_idle t \<and> trest t = trest s \<and> V' = t_view (tabs t) \<and>
    grew (t_limit (tabs s)) V x nb True V' x (Suc nb) True \<and> blk_addr V' x nb = y \<and> fbytes V' x (Suc nb) = fbytes V x nb \<and>
    txn_ran (insert y (insert (ind_block x) (bitmap_blocks V))) s t \<and> y \<in> t_logged (tabs t)"
proof -
  let ?i = "ind_block x" and ?l = "t_limit (tabs s)"
  have held: "fs_held {} s" using idle by (simp add: fs_idle_held)
  note D = fs_heldD [OF held]
  have u: "used_block ?l V ?i" using file_mapD(10) [OF F] by simp
  then have il: "?i < ?l" by (simp add: used_block_def)
  have fin: "finite (t_logged (tabs s) \<union> bitmap_blocks V \<union> {?i})" using D(3) by simp
  have "card (insert ?i (t_busy (tabs s)) \<union> t_logged (tabs s)) \<le> gload {?i} (tabs s)"
    unfolding gload_def V [symmetric] using D(2) by (intro card_mono [OF fin]) auto
  then have cap: "card (insert ?i (t_busy (tabs s)) \<union> t_logged (tabs s)) < NBUF" using room tx.room_cap [OF D(1)] by simp
  obtain h s1 where 1: "bread 1 ?i s = Ok h s1" "buf_data h s1 = Ok (V ?i) s1" "handle s1 h ?i" "log_inv {} s1"
      "tabs s1 = (tabs s)\<lparr>t_busy := {?i}\<rparr>" "trest s1 = trest s"
    by (rule tx.open_held [OF D(1) _ il cap]) (use D(2) V in auto)
  have h1: "fs_held {?i} s1" using 1(4,5) by (simp add: fs_held_def)
  obtain y s2 where 2: "balloc 1 s1 = Ok y s2" "fs_held {?i} s2" "trest s2 = trest s1" "keeps_handles s1 s2"
      "took ?l y V (t_view (tabs s2))" "txn_ran (insert y (bitmap_blocks V)) s1 s2" "y \<in> t_logged (tabs s2)"
  proof (rule balloc_least [OF h1, of V])
    show "gload {?i} (tabs s1) < t_room (tabs s1)" using room 1(5) by (simp add: gload_def)
  qed (use 1(5) V A u free op in auto)
  note D2 = fs_heldD [OF 2(2)] and R2 = txn_ranD [OF 2(6)]
  let ?W = "t_view (tabs s2)"
  let ?V = "?W(?i := st32 (?W ?i) (4 * (nb - NDIRECT)) (of_nat y))"
  have hd2: "handle s2 h ?i" using 2(4) 1(3) by (simp add: keeps_handles_def)
  obtain s3 where 3: "set_data h (\<lambda>a. st32 a (4 * (nb - NDIRECT)) (of_nat y)) s2 = Ok () s3" "log_inv {?i} s3" "handle s3 h ?i"
      "tabs s3 = (tabs s2)\<lparr>t_view := ?V\<rparr>" "trest s3 = trest s2"
    using tx.set_data [OF D2(1) hd2, of "\<lambda>a. st32 a (4 * (nb - NDIRECT)) (of_nat y)"] hd2 il R2(1) 1(5) by auto
  have "gload {?i} (tabs s2) \<le> gload {?i} (tabs s1) + card {y}"
    by (rule gload_ran [OF h1 2(6)]) (use 2(5) 1(5) V in \<open>auto simp: took_def\<close>)
  then have g2: "gload {?i} (tabs s2) < t_room (tabs s)" using room 1(5) by (simp add: gload_def)
  have "finite (t_logged (tabs s2) \<union> bitmap_blocks ?W \<union> {?i})" using D2(3) by simp
  then have "card (t_logged (tabs s2)) \<le> gload {?i} (tabs s2)" "card ({?i} \<union> t_logged (tabs s2)) \<le> gload {?i} (tabs s2)"
    unfolding gload_def by (intro card_mono; auto)+
  then have c3: "card (t_logged (tabs s3)) < t_room (tabs s3)" "card (t_busy (tabs s3) \<union> t_logged (tabs s3)) < NBUF"
    using g2 3(4) R2(2) 1(5) D2(2) tx.room_cap [OF D(1)] by auto
  obtain s4 where 4: "log_write h s3 = Ok () s4" "log_inv {} s4" "handle s4 h ?i"
      "tabs s4 = (tabs s3)\<lparr>t_logged := insert ?i (t_logged (tabs s3))\<rparr>" "trest s4 = trest s3"
    using tx.log_write [OF 3(2,3) _ _ c3] 3(3,4) R2(1,3) 1(5) il op by auto
  obtain t where t: "brelse h s4 = Ok () t" "log_inv {} t" "tabs t = (tabs s4)\<lparr>t_busy := t_busy (tabs s4) - {?i}\<rparr>" "trest t = trest s4"
    using tx.brelse [OF 4(2,3)] by auto
  have z: "ld32 (V ?i) (4 * (nb - NDIRECT)) = 0" using file_mapD(8) [OF F, of nb] nb by simp
  have run: "bmap_entry ?i (nb - NDIRECT) s = Ok y t"
    using 1(1,2) 2(1) 3(1) 4(1) t(1) z by (simp add: bmap_entry_def kmonad)
  have Vt: "t_view (tabs t) = ?V" "t_logged (tabs t) = insert ?i (t_logged (tabs s2))" using 3(4) 4(4) t(3) by simp_all
  have bt: "t_busy (tabs t) = {}" using 3(4) 4(4) t(3) D2(2) by simp
  have "tabs t = (tabs s)\<lparr>t_view := t_view (tabs t), t_logged := t_logged (tabs t)\<rparr>"
    by (rule txn_abs.equality) (use bt D(2) R2 1(5) 3(4) 4(4) t(3) in simp_all)
  then have "txn_ran (insert y (insert ?i (bitmap_blocks V))) s t" using Vt(2) R2(6) 1(5) by (auto simp: txn_ran_def)
  moreover have "fs_idle t" using t(2) bt by (simp add: fs_idle_def)
  moreover have "trest t = trest s" using 1(6) 2(3) 3(5) 4(5) t(4) by simp
  ultimately show ?thesis using run Vt 2(7) add_entry [OF 2(5) F nb refl] by (intro exI [of _ y] exI [of _ t] exI [of _ ?V]) simp
qed

lemma trest_set_icache: "trest t = trest s \<Longrightarrow> trest (t\<lparr>icache := c\<rparr>) = trest (s\<lparr>icache := c :: nat \<Rightarrow> inode\<rparr>)"
  by (cases s; cases t) (simp add: trest_def)

lemma txn_ran_any: "txn_ran N s t \<Longrightarrow> txn_ran UNIV s t"
  by (simp add: txn_ran_def)

lemma txn_ran_icache [simp]: "txn_ran N s (t\<lparr>icache := c\<rparr>) = txn_ran N s t" "txn_ran N (s\<lparr>icache := c\<rparr>) t = txn_ran N s t"
  by (simp_all add: txn_ran_def)

text \<open>\<open>bmap\<close> of the block after the last one.\<close>

definition bmap_grew :: "nat \<Rightarrow> nat \<Rightarrow> inode \<Rightarrow> inode \<Rightarrow> nat \<Rightarrow> 'a fs_st_scheme \<Rightarrow> 'a fs_st_scheme \<Rightarrow> bool" where
  "bmap_grew ip nb x x' y s t \<longleftrightarrow> bmap ip nb s = Ok y t \<and> fs_idle t \<and> trest t = trest (s\<lparr>icache := (icache s)(ip := x')\<rparr>) \<and>
     grew (t_limit (tabs s)) (t_view (tabs s)) x nb (NDIRECT < nb) (t_view (tabs t)) x' (Suc nb) (NDIRECT < Suc nb) \<and>
     blk_addr (t_view (tabs t)) x' nb = y \<and> fbytes (t_view (tabs t)) x' (Suc nb) = fbytes (t_view (tabs s)) x nb \<and>
     y \<in> t_logged (tabs t) \<and> txn_ran UNIV s t \<and>
     gload (ind_set x' (Suc nb)) (tabs t) + nblocks nb \<le> gload (ind_set x nb) (tabs s) + nblocks (Suc nb)"

lemma bmap_grow_direct:
  assumes idle: "fs_idle s" and V: "V = t_view (tabs s)" and x: "icache s ip = x" "i_dev x = 1" and A: "alloc_ok (t_limit (tabs s)) V"
    and F: "file_whole (t_limit (tabs s)) V x nb" and nb: "nb < NDIRECT" and free: "free_below (t_limit (tabs s)) V \<noteq> {}"
    and op: "t_open (tabs s)" and room: "gload {} (tabs s) < t_room (tabs s)"
  shows "\<exists>y t x'. bmap_grew ip nb x x' y s t"
proof -
  have held: "fs_held {} s" using idle by (simp add: fs_idle_held)
  have F1: "file_map (t_limit (tabs s)) V x nb False" using F nb by (simp add: file_whole_def)
  obtain y s1 where 1: "balloc 1 s = Ok y s1" "fs_held {} s1" "trest s1 = trest s"
      "took (t_limit (tabs s)) y V (t_view (tabs s1))" "txn_ran (insert y (bitmap_blocks V)) s s1" "y \<in> t_logged (tabs s1)"
    by (rule balloc_least [OF held V A _ free op room]) auto
  define x' where "x' = x\<lparr>i_addrs := (i_addrs x)(nb := of_nat y)\<rparr>"
  let ?t = "s1\<lparr>icache := (icache s)(ip := x')\<rparr>"
  have ic: "icache s1 = icache s" by (rule trest_icache [OF 1(3)])
  have z: "i_addrs x nb = 0" using file_mapD(6) [OF F1, of nb] nb by simp
  have "bmap ip nb s = Ok y ?t"
    using nb z x 1(1) ic by (simp add: bmap_def get_inode_def upd_inode_def kmonad x'_def)
  moreover have "fs_idle ?t" using 1(2) by (simp add: fs_idle_held [symmetric])
  moreover have "gload {} (tabs s1) \<le> gload {} (tabs s) + card {y}"
    by (rule gload_ran [OF held 1(5)]) (use 1(4) V in \<open>auto simp: took_def\<close>)
  ultimately have "bmap_grew ip nb x x' y s ?t"
    using add_direct [OF 1(4) F1 nb x'_def] 1(6) nb trest_set_icache [OF 1(3)] txn_ran_any [OF 1(5)] V
    by (simp add: bmap_grew_def ind_set_def nblocks_def)
  then show ?thesis by blast
qed

lemma bmap_indirect:
  assumes "NDIRECT \<le> nb" "nb < MAXFILE" and "icache s ip = x" "i_dev x = 1"
  shows "i_addrs x NDIRECT \<noteq> 0 \<Longrightarrow> bmap ip nb s = bmap_entry (ind_block x) (nb - NDIRECT) s"
    "i_addrs x NDIRECT = 0 \<Longrightarrow> balloc 1 s = Ok y s1 \<Longrightarrow> icache s1 = icache s \<Longrightarrow> bmap ip nb s = bmap_entry y (nb - NDIRECT)
      (s1\<lparr>icache := (icache s)(ip := x\<lparr>i_addrs := (i_addrs x)(NDIRECT := of_nat y)\<rparr>)\<rparr>)"
proof -
  have k: "\<not> nb < NDIRECT" "nb - NDIRECT < NINDIRECT" using assms by simp_all
  show "i_addrs x NDIRECT \<noteq> 0 \<Longrightarrow> bmap ip nb s = bmap_entry (ind_block x) (nb - NDIRECT) s"
    using k assms(3,4) by (simp add: bmap_def bmap_entry_def get_inode_def ind_block_def kbind_get kbind_Ok [of "kreturn _"] kreturn_run cong: if_cong)
  assume z: "i_addrs x NDIRECT = 0" "balloc 1 s = Ok y s1" "icache s1 = icache s"
  then have "kbind (balloc 1) (\<lambda>addr. kseq (upd_inode ip (\<lambda>x. x\<lparr>i_addrs := (i_addrs x)(NDIRECT := of_nat addr)\<rparr>)) (kreturn addr)) s =
      Ok y (s1\<lparr>icache := (icache s)(ip := x\<lparr>i_addrs := (i_addrs x)(NDIRECT := of_nat y)\<rparr>)\<rparr>)"
    using assms(3) by (simp add: kmonad upd_inode_def)
  then show "bmap ip nb s = bmap_entry y (nb - NDIRECT) (s1\<lparr>icache := (icache s)(ip := x\<lparr>i_addrs := (i_addrs x)(NDIRECT := of_nat y)\<rparr>)\<rparr>)"
    using k assms(3,4) z(1) by (simp add: bmap_def bmap_entry_def get_inode_def kbind_get kbind_Ok [of "kbind _ _"] cong: if_cong)
qed

lemma bmap_grow_more:
  assumes idle: "fs_idle s" and V: "V = t_view (tabs s)" and x: "icache s ip = x" "i_dev x = 1" and A: "alloc_ok (t_limit (tabs s)) V"
    and F: "file_whole (t_limit (tabs s)) V x nb" and nb: "NDIRECT < nb" "nb < MAXFILE" and free: "free_below (t_limit (tabs s)) V \<noteq> {}"
    and op: "t_open (tabs s)" and room: "gload {ind_block x} (tabs s) + 1 < t_room (tabs s)"
  shows "\<exists>y t x'. bmap_grew ip nb x x' y s t"
proof -
  have held: "fs_held {} s" using idle by (simp add: fs_idle_held)
  have F1: "file_map (t_limit (tabs s)) V x nb True" using F nb by (simp add: file_whole_def)
  have nz: "i_addrs x NDIRECT \<noteq> 0"
    using file_mapD(10) [OF F1] data_block_not_bitmap(3) [of V "ind_block x"] by (auto simp: used_block_def ind_block_def)
  obtain y t where t: "bmap_entry (ind_block x) (nb - NDIRECT) s = Ok y t" "fs_idle t" "trest t = trest s"
      "grew (t_limit (tabs s)) V x nb True (t_view (tabs t)) x (Suc nb) True" "blk_addr (t_view (tabs t)) x nb = y"
      "fbytes (t_view (tabs t)) x (Suc nb) = fbytes V x nb"
      "txn_ran (insert y (insert (ind_block x) (bitmap_blocks V))) s t" "y \<in> t_logged (tabs t)"
    using bmap_entry_run [OF idle V A F1 less_imp_le [OF nb(1)] nb(2) free op room] by blast
  have "gload {ind_block x} (tabs t) \<le> gload {ind_block x} (tabs s) + card {y}"
    by (rule gload_ran [OF held t(7)]) (use grewD(1) [OF t(4)] V in auto)
  moreover have "trest t = trest (s\<lparr>icache := (icache s)(ip := x)\<rparr>)" using t(3) x(1) by (simp add: fun_upd_idem)
  moreover have "bmap ip nb s = Ok y t" using bmap_indirect(1) [OF less_imp_le [OF nb(1)] nb(2) x nz] t(1) by simp
  ultimately have "bmap_grew ip nb x x y s t"
    using t nb V txn_ran_any [OF t(7)] by (simp add: bmap_grew_def ind_set_def nblocks_def)
  then show ?thesis by blast
qed

lemma bmap_grow_first:
  assumes idle: "fs_idle s" and V: "V = t_view (tabs s)" and x: "icache s ip = x" "i_dev x = 1" and A: "alloc_ok (t_limit (tabs s)) V"
    and F: "file_whole (t_limit (tabs s)) V x NDIRECT" and free: "2 \<le> card (free_below (t_limit (tabs s)) V)"
    and op: "t_open (tabs s)" and room: "gload {} (tabs s) + 2 < t_room (tabs s)"
  shows "\<exists>y t x'. bmap_grew ip NDIRECT x x' y s t"
proof -
  let ?l = "t_limit (tabs s)"
  have held: "fs_held {} s" using idle by (simp add: fs_idle_held)
  have F1: "file_map ?l V x NDIRECT False" using F by (simp add: file_whole_def)
  have ne: "free_below ?l V \<noteq> {}" and room1: "gload {} (tabs s) < t_room (tabs s)" using free room by auto
  obtain z s1 where 1: "balloc 1 s = Ok z s1" "fs_held {} s1" "trest s1 = trest s"
      "took ?l z V (t_view (tabs s1))" "txn_ran (insert z (bitmap_blocks V)) s s1" "z \<in> t_logged (tabs s1)"
    by (rule balloc_least [OF held V A _ ne op room1]) auto
  define x' where "x' = x\<lparr>i_addrs := (i_addrs x)(NDIRECT := of_nat z)\<rparr>"
  define s2 where "s2 = s1\<lparr>icache := (icache s)(ip := x')\<rparr>"
  note G = add_indirect [OF 1(4) F1 x'_def] and R1 = txn_ranD [OF 1(5)]
  have ic: "icache s1 = icache s" by (rule trest_icache [OF 1(3)])
  have t2: "tabs s2 = tabs s1" "fs_idle s2" using 1(2) by (simp_all add: s2_def fs_idle_held [symmetric])
  have "gload {z} (tabs s1) \<le> gload {} (tabs s) + card {z}"
    by (rule gload_ran [OF held 1(5)]) (use 1(4) V in \<open>auto simp: took_def\<close>)
  then have g1: "gload {z} (tabs s1) \<le> gload {} (tabs s) + 1" by simp
  have "card (free_below ?l (t_view (tabs s1))) + 1 = card (free_below ?l V)" using grew_free [OF G(1) F1] by simp
  then have ne2: "free_below (t_limit (tabs s2)) (t_view (tabs s2)) \<noteq> {}" using free t2(1) R1(1) by auto
  have z: "ind_block x' = z" "i_addrs x NDIRECT = 0" using G(2) file_mapD(7) [OF F1] by simp_all
  obtain y t where t: "bmap_entry z (NDIRECT - NDIRECT) s2 = Ok y t" "fs_idle t" "trest t = trest s2"
      "grew ?l (t_view (tabs s1)) x' NDIRECT True (t_view (tabs t)) x' (Suc NDIRECT) True" "blk_addr (t_view (tabs t)) x' NDIRECT = y"
      "fbytes (t_view (tabs t)) x' (Suc NDIRECT) = fbytes (t_view (tabs s1)) x' NDIRECT"
      "txn_ran (insert y (insert z (bitmap_blocks (t_view (tabs s2))))) s2 t" "y \<in> t_logged (tabs t)"
    using bmap_entry_run [OF t2(2) refl, of x' NDIRECT] ne2 g1 room op R1 grewD(2) [OF G(1)] took_alloc_ok [OF 1(4) A] t2(1) z by auto
  have "gload {z} (tabs t) \<le> gload {z} (tabs s1) + card {y}"
    by (rule gload_ran [OF 1(2)]) (use t(7) grewD(1) [OF t(4)] t2(1) in \<open>auto simp: s2_def\<close>)
  moreover have "bmap ip NDIRECT s = Ok y t"
    using bmap_indirect(2) [of NDIRECT s ip x z s1] x z(2) 1(1) ic t(1) by (simp add: s2_def x'_def)
  moreover have "trest t = trest (s\<lparr>icache := (icache s)(ip := x')\<rparr>)" using t(3) trest_set_icache [OF 1(3)] by (simp add: s2_def)
  moreover have "txn_ran UNIV s t" using txn_ran_trans [OF 1(5), of _ t] t(7) txn_ran_any by (auto simp: s2_def)
  ultimately have "bmap_grew ip NDIRECT x x' y s t"
    using grew_trans [OF G(1) t(4)] t(2,5,6,8) G(3) g1 z(1) V by (simp add: bmap_grew_def ind_set_def nblocks_def)
  then show ?thesis by blast
qed

lemma bmap_grow:
  assumes "fs_idle s" and "icache s ip = x" "i_dev x = 1" and "alloc_ok (t_limit (tabs s)) (t_view (tabs s))"
    and "file_whole (t_limit (tabs s)) (t_view (tabs s)) x nb" and nb: "nb < MAXFILE"
    and free: "nblocks (Suc nb) \<le> nblocks nb + card (free_below (t_limit (tabs s)) (t_view (tabs s)))"
    and "t_open (tabs s)" and room: "gload (ind_set x nb) (tabs s) + nblocks (Suc nb) < nblocks nb + t_room (tabs s)"
  shows "\<exists>y t x'. bmap_grew ip nb x x' y s t"
proof -
  consider "nb < NDIRECT" | "nb = NDIRECT" | "NDIRECT < nb" by linarith
  then show ?thesis
  proof cases
    case 1
    then show ?thesis using assms by (intro bmap_grow_direct [OF _ refl]) (auto simp: nblocks_def ind_set_def)
  next
    case 2
    then show ?thesis using bmap_grow_first [OF assms(1) refl assms(2-4)] assms by (simp add: nblocks_def ind_set_def)
  next
    case 3
    then show ?thesis using assms by (intro bmap_grow_more [OF _ refl]) (auto simp: nblocks_def ind_set_def)
  qed
qed

section \<open>Writing\<close>

text \<open>
  What a write of \<open>n\<close> bytes of \<open>data\<close> at \<open>off\<close> makes of a file and of the disk around it.
\<close>

definition wrote_grow :: "nat \<Rightarrow> nat \<Rightarrow> (nat \<Rightarrow> u8) \<Rightarrow> nat \<Rightarrow> (nat \<Rightarrow> bytes) \<Rightarrow> inode \<Rightarrow> nat \<Rightarrow> (nat \<Rightarrow> bytes) \<Rightarrow> inode \<Rightarrow> nat \<Rightarrow> bool" where
  "wrote_grow limit off data n V x nb V' x' nb' \<longleftrightarrow> grew limit V x nb (NDIRECT < nb) V' x' nb' (NDIRECT < nb') \<and>
     (\<forall>k. fbytes V' x' nb' k = (if off \<le> k \<and> k < off + n then data (k - off) else fbytes V x nb k))"

text \<open>One turn of the loop of \<open>writei\<close>.\<close>

definition write_chunk :: "nat \<Rightarrow> bytes \<Rightarrow> nat \<Rightarrow> nat \<Rightarrow> nat \<Rightarrow> ('a fs_st_scheme, chan, unit) km" where
  "write_chunk ip src off n tot = kbind (bmap ip (off div BSIZE)) (\<lambda>addr.
     kbind (get_inode ip) (\<lambda>x.
     kbind (bread (i_dev x) addr) (\<lambda>bp.
     kseq (set_data bp (\<lambda>d. blit d (off mod BSIZE) src tot (chunk n tot off)))
     (kseq (log_write bp)
     (brelse bp)))))"

lemma writei_loop_turn:
  assumes "tot < n" and "write_chunk ip src off n tot s = Ok () t"
  shows "writei_loop ip src off n tot s = writei_loop ip src (off + chunk n tot off) n (tot + chunk n tot off) t"
  using assms by (auto simp: writei_loop.simps [of ip src off] write_chunk_def kbind_def split: kres.splits)

lemma write_chunk_put:
  assumes b: "bmap ip (off div BSIZE) s = Ok (blk_addr (t_view (tabs s1)) x (off div BSIZE)) s1" and idle: "fs_idle s1" and "icache s1 ip = x" "i_dev x = 1"
    and F: "file_map (t_limit (tabs s1)) (t_view (tabs s1)) x nb q" and bn: "off div BSIZE < nb"
    and "t_open (tabs s1)" "card (t_logged (tabs s1)) < t_room (tabs s1)"
  shows "\<exists>t. write_chunk ip src off n tot s = Ok () t \<and> fs_idle t \<and> trest t = trest s1 \<and>
    t_view (tabs t) = put_chunk x off src tot (chunk n tot off) (t_view (tabs s1)) \<and>
    txn_ran {blk_addr (t_view (tabs s1)) x (off div BSIZE)} s1 t"
proof -
  let ?a = "blk_addr (t_view (tabs s1)) x (off div BSIZE)"
  have a: "?a < t_limit (tabs s1)" using file_mapD(9) [OF F bn] by (simp add: used_block_def)
  obtain t where t: "kbind (bread 1 ?a) (\<lambda>bp. kseq (set_data bp (\<lambda>d. blit d (off mod BSIZE) src tot (chunk n tot off)))
        (kseq (log_write bp) (brelse bp))) s1 = Ok () t" "log_inv {} t" "trest t = trest s1"
      "tabs t = (tabs s1)\<lparr>t_view := put_chunk x off src tot (chunk n tot off) (t_view (tabs s1)), t_logged := insert ?a (t_logged (tabs s1))\<rparr>"
    using tx.update_block [OF fs_idleD [OF idle] a assms(7,8), of "\<lambda>d. blit d (off mod BSIZE) src tot (chunk n tot off)"]
    by (auto simp: put_chunk_def Let_def)
  then show ?thesis using b assms(3,4) fs_idleD(2) [OF idle]
    by (intro exI [of _ t]) (simp add: write_chunk_def kmonad get_inode_def fs_idle_def txn_ran_def)
qed

text \<open>The state between turns, and the extra block logged when the file outgrows its direct blocks.\<close>

definition growing :: "nat \<Rightarrow> nat \<Rightarrow> 'a fs_st_scheme \<Rightarrow> bool" where
  "growing ip nb s \<longleftrightarrow> fs_idle s \<and> i_dev (icache s ip) = 1 \<and> alloc_ok (t_limit (tabs s)) (t_view (tabs s)) \<and>
     file_whole (t_limit (tabs s)) (t_view (tabs s)) (icache s ip) nb \<and> t_open (tabs s)"

definition ind_cost :: "nat \<Rightarrow> nat \<Rightarrow> nat" where
  "ind_cost nb nb' = (if nb \<le> NDIRECT \<and> NDIRECT < nb' then 1 else 0)"

definition file_load :: "nat \<Rightarrow> nat \<Rightarrow> 'a fs_st_scheme \<Rightarrow> nat" where
  "file_load ip nb s = gload (ind_set (icache s ip) nb) (tabs s)"

definition free_blocks :: "'a fs_st_scheme \<Rightarrow> nat" where
  "free_blocks s = card (free_below (t_limit (tabs s)) (t_view (tabs s)))"

definition grew_run :: "nat \<Rightarrow> nat \<Rightarrow> (nat \<Rightarrow> u8) \<Rightarrow> nat \<Rightarrow> nat \<Rightarrow> nat \<Rightarrow> 'a fs_st_scheme \<Rightarrow> 'a fs_st_scheme \<Rightarrow> bool" where
  "grew_run ip off data n nb nb' s t \<longleftrightarrow> growing ip nb' t \<and> trest t = trest (s\<lparr>icache := (icache s)(ip := icache t ip)\<rparr>) \<and>
     wrote_grow (t_limit (tabs s)) off data n (t_view (tabs s)) (icache s ip) nb (t_view (tabs t)) (icache t ip) nb' \<and> txn_ran UNIV s t"

lemma growingD:
  assumes "growing ip nb s"
  shows "fs_idle s" "i_dev (icache s ip) = 1" "alloc_ok (t_limit (tabs s)) (t_view (tabs s))"
    "file_whole (t_limit (tabs s)) (t_view (tabs s)) (icache s ip) nb" "t_open (tabs s)"
    "file_map (t_limit (tabs s)) (t_view (tabs s)) (icache s ip) nb (NDIRECT < nb)"
  using assms by (auto simp: growing_def file_whole_def)

lemma grew_dev: "grew limit V x nb q V' x' nb' q' \<Longrightarrow> i_dev x' = i_dev x \<and> i_inum x' = i_inum x \<and> i_type x' = i_type x \<and>
    i_size x' = i_size x \<and> i_ref x' = i_ref x \<and> i_busy x' = i_busy x \<and> i_valid x' = i_valid x"
  by (drule grewD(5)) (erule ssubst, simp)

lemma grew_runI:
  assumes s: "growing ip nb s" and "fs_idle t" and r: "trest t = trest (s\<lparr>icache := (icache s)(ip := x')\<rparr>)" and R: "txn_ran UNIV s t"
    and W: "wrote_grow (t_limit (tabs s)) off data n (t_view (tabs s)) (icache s ip) nb (t_view (tabs t)) x' nb'"
  shows "grew_run ip off data n nb nb' s t" "icache t ip = x'" "free_blocks t + nblocks nb' = free_blocks s + nblocks nb"
proof -
  note D = growingD [OF s] and R = txn_ranD [OF R]
  have G: "grew (t_limit (tabs s)) (t_view (tabs s)) (icache s ip) nb (NDIRECT < nb) (t_view (tabs t)) x' nb' (NDIRECT < nb')"
    using W by (simp add: wrote_grow_def)
  show ic: "icache t ip = x'" using trest_icache [OF r] by simp
  have "growing ip nb' t" using assms(2) ic R(1,3) D(2,5) grew_dev [OF G] grew_alloc_ok [OF G D(3)] grewD(2) [OF G]
    by (simp add: growing_def file_whole_def)
  then show "grew_run ip off data n nb nb' s t" using assms ic by (simp add: grew_run_def)
  show "free_blocks t + nblocks nb' = free_blocks s + nblocks nb"
    using grew_free [OF G D(6)] R(1) by (simp add: free_blocks_def nblocks_def)
qed

lemma logged_load:
  assumes "fs_idle s"
  shows "card (t_logged (tabs s)) \<le> gload (ind_set x nb) (tabs s)"
proof -
  have "fs_held {} s" using assms by (simp add: fs_idle_held)
  then have "finite (t_logged (tabs s) \<union> bitmap_blocks (t_view (tabs s)) \<union> ind_set x nb)" using fs_heldD(3) by (auto simp: ind_set_def)
  then show ?thesis unfolding gload_def by (rule card_mono) auto
qed

lemma turn_mapped:
  assumes s: "growing ip nb s" and "tot < n" and bn: "off div BSIZE < nb" and m: "m = chunk n tot off"
    and room: "file_load ip nb s < t_room (tabs s)"
  shows "\<exists>t. write_chunk ip src off n tot s = Ok () t \<and> grew_run ip off (\<lambda>i. src (tot + i)) m nb nb s t \<and>
    free_blocks t = free_blocks s \<and> file_load ip nb t \<le> file_load ip nb s + 1"
proof -
  let ?V = "t_view (tabs s)" and ?x = "icache s ip"
  let ?a = "blk_addr ?V ?x (off div BSIZE)"
  note D = growingD [OF s]
  obtain s1 where 1: "bmap ip (off div BSIZE) s = Ok ?a s1" "fs_idle s1" "tabs s1 = tabs s" "trest s1 = trest s"
    using bmap_mapped [OF D(1) refl D(2) file_map_ok [OF D(6)] bn] by blast
  have ic: "icache s1 = icache s" by (rule trest_icache [OF 1(4)])
  have "card (t_logged (tabs s1)) < t_room (tabs s1)" using logged_load [OF D(1), of ?x nb] room 1(3) by (simp add: file_load_def)
  then obtain t where t: "write_chunk ip src off n tot s = Ok () t" "fs_idle t" "trest t = trest s1"
      "t_view (tabs t) = put_chunk ?x off src tot m ?V" "txn_ran {?a} s1 t"
    using write_chunk_put [of ip off s s1 ?x nb "NDIRECT < nb" src n tot] 1 ic D bn m by auto
  have R: "txn_ran {?a} s t" using t(5) 1(3) by (simp add: txn_ran_def)
  note P = put_grew [OF D(6) assms(2) bn m refl, of src]
  have W: "wrote_grow (t_limit (tabs s)) off (\<lambda>i. src (tot + i)) m ?V ?x nb (t_view (tabs t)) ?x nb"
    unfolding wrote_grow_def t(4) using P by auto
  have "trest t = trest (s\<lparr>icache := (icache s)(ip := ?x)\<rparr>)" using t(3) 1(4) by (simp add: fun_upd_idem)
  note I = grew_runI [OF s t(2) this txn_ran_any [OF R] W]
  have "fs_held {} s" using D(1) by (simp add: fs_idle_held)
  then have "gload (ind_set ?x nb) (tabs t) \<le> gload (ind_set ?x nb) (tabs s) + card {?a}"
    by (rule gload_ran [OF _ R]) (use grewD(1) [OF P(1)] t(4) in \<open>auto simp: ind_set_def\<close>)
  then show ?thesis using t(1) I by (auto simp: file_load_def)
qed

lemma turn_grows:
  assumes s: "growing ip nb s" and "tot < n" and bn: "off div BSIZE = nb" "nb < MAXFILE" and m: "m = chunk n tot off"
    and free: "nblocks (Suc nb) \<le> nblocks nb + free_blocks s" and room: "file_load ip nb s + 1 + ind_cost nb (Suc nb) < t_room (tabs s)"
  shows "\<exists>t. write_chunk ip src off n tot s = Ok () t \<and> grew_run ip off (\<lambda>i. src (tot + i)) m nb (Suc nb) s t \<and>
    free_blocks t + nblocks (Suc nb) = free_blocks s + nblocks nb \<and> file_load ip (Suc nb) t \<le> file_load ip nb s + 1 + ind_cost nb (Suc nb)"
proof -
  let ?V = "t_view (tabs s)" and ?x = "icache s ip" and ?l = "t_limit (tabs s)"
  note D = growingD [OF s]
  have c: "nblocks (Suc nb) = nblocks nb + 1 + ind_cost nb (Suc nb)" by (auto simp: nblocks_def ind_cost_def)
  then have "gload (ind_set ?x nb) (tabs s) + nblocks (Suc nb) < nblocks nb + t_room (tabs s)" using room by (simp add: file_load_def)
  then obtain y s1 x' where 1: "bmap ip nb s = Ok y s1" "fs_idle s1" "trest s1 = trest (s\<lparr>icache := (icache s)(ip := x')\<rparr>)"
      "grew ?l ?V ?x nb (NDIRECT < nb) (t_view (tabs s1)) x' (Suc nb) (NDIRECT < Suc nb)" "blk_addr (t_view (tabs s1)) x' nb = y"
      "fbytes (t_view (tabs s1)) x' (Suc nb) = fbytes ?V ?x nb" "y \<in> t_logged (tabs s1)" "txn_ran UNIV s s1"
      "gload (ind_set x' (Suc nb)) (tabs s1) + nblocks nb \<le> gload (ind_set ?x nb) (tabs s) + nblocks (Suc nb)"
    using bmap_grow [OF D(1) refl D(2,3,4) bn(2) _ D(5)] free unfolding bmap_grew_def free_blocks_def by blast
  note R = txn_ranD [OF 1(8)] and F1 = grewD(2) [OF 1(4)]
  have ic: "icache s1 ip = x'" using trest_icache [OF 1(3)] by simp
  have "card (t_logged (tabs s1)) < t_room (tabs s1)"
    using logged_load [OF 1(2), of x' "Suc nb"] 1(9) c room R(2) by (simp add: file_load_def)
  moreover have "off div BSIZE < Suc nb" "i_dev x' = 1" "t_open (tabs s1)" using bn grew_dev [OF 1(4)] D(2,5) R(3) by simp_all
  ultimately obtain t where t: "write_chunk ip src off n tot s = Ok () t" "fs_idle t" "trest t = trest s1"
      "t_view (tabs t) = put_chunk x' off src tot m (t_view (tabs s1))" "txn_ran {y} s1 t"
    using write_chunk_put [of ip off s s1 x' "Suc nb" "NDIRECT < Suc nb" src n tot] 1(1,2,5) ic F1 R(1) bn m by auto
  have R1: "txn_ran {} s1 t" using t(5) 1(7) by (auto simp: txn_ran_def)
  have F1': "file_map ?l (t_view (tabs s1)) x' (Suc nb) (NDIRECT < Suc nb)" using F1 .
  note P = put_grew [OF F1' assms(2) _ m t(4)]
  have P1: "grew ?l (t_view (tabs s1)) x' (Suc nb) (NDIRECT < Suc nb) (t_view (tabs t)) x' (Suc nb) (NDIRECT < Suc nb)"
    by (rule P(1)) (use bn in simp)
  have W: "wrote_grow ?l off (\<lambda>i. src (tot + i)) m ?V ?x nb (t_view (tabs t)) x' (Suc nb)"
    unfolding wrote_grow_def using grew_trans [OF 1(4) P1] P(2) 1(6) bn by simp
  have "trest t = trest (s\<lparr>icache := (icache s)(ip := x')\<rparr>)" using t(3) 1(3) by simp
  note I = grew_runI [OF s t(2) this txn_ran_any [OF txn_ran_trans [OF 1(8) R1]] W]
  have "fs_held {} s1" using 1(2) by (simp add: fs_idle_held)
  then have "gload (ind_set x' (Suc nb)) (tabs t) \<le> gload (ind_set x' (Suc nb)) (tabs s1) + card ({} :: nat set)"
    by (rule gload_ran [OF _ R1]) (use grewD(1) [OF P1] in \<open>auto simp: ind_set_def\<close>)
  then have "file_load ip (Suc nb) t \<le> file_load ip nb s + 1 + ind_cost nb (Suc nb)" using 1(9) c I(2) by (simp add: file_load_def)
  then show ?thesis using t(1) I(1,3) by blast
qed

lemma turn_run:
  assumes s: "growing ip nb s" and "tot < n" and off: "off \<le> nb * BSIZE" "off div BSIZE < MAXFILE" and m: "m = chunk n tot off"
    and nb1: "nb1 = max nb (Suc (off div BSIZE))" and free: "nblocks nb1 \<le> nblocks nb + free_blocks s"
    and room: "file_load ip nb s + 1 + ind_cost nb nb1 < t_room (tabs s)"
  shows "\<exists>t. write_chunk ip src off n tot s = Ok () t \<and> grew_run ip off (\<lambda>i. src (tot + i)) m nb nb1 s t \<and>
    free_blocks t + nblocks nb1 = free_blocks s + nblocks nb \<and> file_load ip nb1 t \<le> file_load ip nb s + 1 + ind_cost nb nb1"
proof (cases "off div BSIZE < nb")
  case True
  then have "nb1 = nb" using nb1 by simp
  then show ?thesis using turn_mapped [OF s assms(2) True m, of src] room by (auto simp: ind_cost_def)
next
  case False
  have "off div BSIZE \<le> nb" using div_le_mono [OF off(1), of BSIZE] by simp
  then have b: "off div BSIZE = nb" "nb1 = Suc nb" using False nb1 by simp_all
  then show ?thesis using turn_grows [OF s assms(2) b(1) _ m, of src] off(2) free room by simp
qed

lemma wrote_grow_step:
  assumes "wrote_grow limit off (\<lambda>i. src (tot + i)) m V x nb V1 x1 nb1"
    and "wrote_grow limit (off + m) (\<lambda>i. src (tot + m + i)) (n - (tot + m)) V1 x1 nb1 V' x' nb'" and m: "tot + m \<le> n"
  shows "wrote_grow limit off (\<lambda>i. src (tot + i)) (n - tot) V x nb V' x' nb'"
  unfolding wrote_grow_def
proof (intro conjI allI)
  show "grew limit V x nb (NDIRECT < nb) V' x' nb' (NDIRECT < nb')" using assms(1,2) grew_trans by (auto simp: wrote_grow_def)
  fix k
  show "fbytes V' x' nb' k = (if off \<le> k \<and> k < off + (n - tot) then src (tot + (k - off)) else fbytes V x nb k)"
    using assms by (auto simp: wrote_grow_def add.assoc)
qed

lemma grew_run_step:
  assumes "grew_run ip off (\<lambda>i. src (tot + i)) m nb nb1 s s1" and "tot + m \<le> n"
    and "grew_run ip (off + m) (\<lambda>i. src (tot + m + i)) (n - (tot + m)) nb1 nb' s1 t"
  shows "grew_run ip off (\<lambda>i. src (tot + i)) (n - tot) nb nb' s t"
proof -
  have a: "trest s1 = trest (s\<lparr>icache := (icache s)(ip := icache s1 ip)\<rparr>)" "trest t = trest (s1\<lparr>icache := (icache s1)(ip := icache t ip)\<rparr>)"
      "txn_ran UNIV s s1" "txn_ran UNIV s1 t"
    using assms(1,3) by (auto simp: grew_run_def)
  have "icache s1 = (icache s)(ip := icache s1 ip)" using trest_icache [OF a(1)] by simp
  then have "(icache s1)(ip := icache t ip) = (icache s)(ip := icache t ip)" by (metis fun_upd_upd)
  moreover have "trest (s1\<lparr>icache := (icache s)(ip := icache t ip)\<rparr>) = trest (s\<lparr>icache := (icache s)(ip := icache t ip)\<rparr>)"
    using trest_set_icache [OF a(1), of "(icache s)(ip := icache t ip)"] by simp
  ultimately have "trest t = trest (s\<lparr>icache := (icache s)(ip := icache t ip)\<rparr>)" using a(2) by simp
  moreover have "txn_ran UNIV s t" using txn_ran_trans [OF a(3,4)] by simp
  ultimately show ?thesis
    using wrote_grow_step [of _ off src tot m _ _ nb _ _ nb1 n _ _ nb'] assms txn_ranD(1) [OF a(3)] by (auto simp: grew_run_def)
qed

lemma nblocks_mono: "nb \<le> nb' \<Longrightarrow> nblocks nb \<le> nblocks nb'"
  by (auto simp: nblocks_def)

lemma ind_cost_add: "nb \<le> nb1 \<Longrightarrow> nb1 \<le> nb' \<Longrightarrow> ind_cost nb nb1 + ind_cost nb1 nb' = ind_cost nb nb'"
  by (auto simp: ind_cost_def)

lemma end_block_0: "off \<le> nb * BSIZE \<Longrightarrow> end_block off 0 \<le> nb"
  by (rule end_block_le) simp

lemma next_offset:
  assumes "tot < n" and "nb1 = max nb (Suc (off div BSIZE))"
  shows "off + chunk n tot off \<le> nb1 * BSIZE"
proof -
  have "off + chunk n tot off = off div BSIZE * BSIZE + (off mod BSIZE + chunk n tot off)" by simp
  also have "\<dots> \<le> off div BSIZE * BSIZE + BSIZE" using chunk_range(1) [OF assms(1), of off] by linarith
  also have "\<dots> = Suc (off div BSIZE) * BSIZE" by simp
  also have "\<dots> \<le> nb1 * BSIZE" unfolding assms(2) by (rule mult_le_mono1) simp
  finally show ?thesis .
qed

lemma writei_loop_grow:
  assumes "growing ip nb s" and "off \<le> nb * BSIZE" and "end_block off (n - tot) \<le> MAXFILE" and "nb' = max nb (end_block off (n - tot))"
    and "nblocks nb' \<le> nblocks nb + free_blocks s" and "file_load ip nb s + turns off (n - tot) + ind_cost nb nb' < t_room (tabs s)"
  shows "\<exists>t. writei_loop ip src off n tot s = Ok () t \<and> grew_run ip off (\<lambda>i. src (tot + i)) (n - tot) nb nb' s t \<and>
    file_load ip nb' t \<le> file_load ip nb s + turns off (n - tot) + ind_cost nb nb'"
  using assms
proof (induction "n - tot" arbitrary: off tot nb s rule: less_induct)
  case less
  note D = growingD [OF less.prems(1)]
  show ?case
  proof (cases "tot < n")
    case False
    then have "nb' = nb" using less.prems(2,4) end_block_0 by simp
    moreover have "writei_loop ip src off n tot s = Ok () s" using False by (simp add: writei_loop.simps [of ip src] kmonad)
    moreover have "grew_run ip off (\<lambda>i. src (tot + i)) (n - tot) nb nb s s"
      using less.prems(1) grew_refl [OF D(6)] False by (auto simp: grew_run_def wrote_grow_def txn_ran_def)
    ultimately show ?thesis by auto
  next
    case True
    define m where "m = chunk n tot off"
    define nb1 where "nb1 = max nb (Suc (off div BSIZE))"
    note c = chunk_range [OF True, of off] and T = turns_step [OF True, of off]
    have le: "nb \<le> nb1" "nb1 \<le> nb'" "off div BSIZE < MAXFILE" using c(4) less.prems(3,4) by (auto simp: nb1_def)
    note ic = ind_cost_add [OF le(1,2)]
    have free: "nblocks nb1 \<le> nblocks nb + free_blocks s" using nblocks_mono [OF le(2)] less.prems(5) by simp
    have "file_load ip nb s + 1 + ind_cost nb nb1 < t_room (tabs s)" using less.prems(6) T ic by simp
    then obtain s1 where 1: "write_chunk ip src off n tot s = Ok () s1" "grew_run ip off (\<lambda>i. src (tot + i)) m nb nb1 s s1"
        "free_blocks s1 + nblocks nb1 = free_blocks s + nblocks nb" "file_load ip nb1 s1 \<le> file_load ip nb s + 1 + ind_cost nb nb1"
      using turn_run [OF less.prems(1) True less.prems(2) le(3) m_def nb1_def free, of src] by blast
    have g1: "growing ip nb1 s1" "t_room (tabs s1) = t_room (tabs s)" using 1(2) txn_ranD(2) by (auto simp: grew_run_def)
    have "n - (tot + m) < n - tot" using c(3) True by (simp add: m_def)
    moreover have "off + m \<le> nb1 * BSIZE" unfolding m_def by (rule next_offset [OF True nb1_def])
    moreover have e: "end_block (off + m) (n - (tot + m)) = end_block off (n - tot)" using c(5) by (simp add: m_def)
    moreover have "nb' = max nb1 (end_block (off + m) (n - (tot + m)))" unfolding e nb1_def using less.prems(4) c(4) by (simp add: max_def)
    moreover have "nblocks nb' \<le> nblocks nb1 + free_blocks s1" using less.prems(5) 1(3) by simp
    moreover have "file_load ip nb1 s1 + turns (off + m) (n - (tot + m)) + ind_cost nb1 nb' < t_room (tabs s1)"
      using less.prems(6) 1(4) T ic g1(2) by (simp add: m_def)
    ultimately obtain t where t: "writei_loop ip src (off + m) n (tot + m) s1 = Ok () t"
        "grew_run ip (off + m) (\<lambda>i. src (tot + m + i)) (n - (tot + m)) nb1 nb' s1 t"
        "file_load ip nb' t \<le> file_load ip nb1 s1 + turns (off + m) (n - (tot + m)) + ind_cost nb1 nb'"
      using less.hyps [of "tot + m" nb1 s1 "off + m"] g1(1) less.prems(3) by auto
    have "writei_loop ip src off n tot s = Ok () t" using writei_loop_turn [OF True 1(1)] t(1) by (simp add: m_def)
    moreover have "grew_run ip off (\<lambda>i. src (tot + i)) (n - tot) nb nb' s t"
      by (rule grew_run_step [OF 1(2) _ t(2)]) (use c(2) in \<open>simp add: m_def\<close>)
    moreover have "file_load ip nb' t \<le> file_load ip nb s + turns off (n - tot) + ind_cost nb nb'" using t(3) 1(4) T ic by (simp add: m_def)
    ultimately show ?thesis by blast
  qed
qed

end
