(* ===== verification/Fs_Append.thy ===== *)
theory Fs_Append
  imports Fs_Alloc
begin

text \<open>
  \<open>writei\<close> on files that grow: the bytes, the size, the inode on disk and the blocks of every other file after a write
  that may allocate.
\<close>

section \<open>Regular files\<close>

text \<open>
  Inode slot \<open>ip\<close> holds a file or directory of \<open>nb\<close> blocks, of which its inode is one of the disk's and its bytes are
  within its blocks, on a disk whose free blocks are data blocks.
\<close>

definition reg_file :: "nat \<Rightarrow> nat \<Rightarrow> 'a fs_st_scheme \<Rightarrow> bool" where
  "reg_file ip nb s \<longleftrightarrow> fs_idle s \<and> i_dev (icache s ip) = 1 \<and> i_type (icache s ip) \<noteq> T_DEV \<and>
     alloc_ok (t_limit (tabs s)) (t_view (tabs s)) \<and> file_whole (t_limit (tabs s)) (t_view (tabs s)) (icache s ip) nb \<and>
     IBLOCK (i_inum (icache s ip)) < t_limit (tabs s) \<and> i_inum (icache s ip) < unat (sb_ninodes (sb_at (t_view (tabs s)))) \<and>
     file_size ip s \<le> nb * BSIZE"

text \<open>The inode block holds the inode as the cache has it.\<close>

definition inode_synced :: "nat \<Rightarrow> 'a fs_st_scheme \<Rightarrow> bool" where
  "inode_synced ip s \<longleftrightarrow> same_dinode (disk_inode (t_view (tabs s)) (i_inum (icache s ip))) (dinode_of (icache s ip))"

lemma reg_fileD:
  assumes "reg_file ip nb s"
  shows "fs_idle s" "i_dev (icache s ip) = 1" "i_type (icache s ip) \<noteq> T_DEV" "alloc_ok (t_limit (tabs s)) (t_view (tabs s))"
    "file_map (t_limit (tabs s)) (t_view (tabs s)) (icache s ip) nb (NDIRECT < nb)" "IBLOCK (i_inum (icache s ip)) < t_limit (tabs s)"
    "i_inum (icache s ip) < unat (sb_ninodes (sb_at (t_view (tabs s))))" "file_size ip s \<le> nb * BSIZE"
  using assms by (auto simp: reg_file_def file_whole_def)

lemma iblock_apart:
  assumes "i < unat (sb_ninodes (sb_at V))"
  shows "IBLOCK i \<notin> bitmap_blocks V" "IBLOCK i \<noteq> 1" "used_block limit V y \<Longrightarrow> IBLOCK i \<noteq> y"
proof -
  have "i div IPB \<le> unat (sb_ninodes (sb_at V)) div IPB" by (rule div_le_mono) (use assms in simp)
  then have lt: "IBLOCK i < bitmap_block V b" for b by (simp add: IBLOCK_def bitmap_block_def BBLOCK_def)
  then have "IBLOCK i \<noteq> bitmap_block V b" for b using less_irrefl by metis
  then show "IBLOCK i \<notin> bitmap_blocks V" by (auto simp: bitmap_blocks_def)
  show "IBLOCK i \<noteq> 1" by (simp add: IBLOCK_def)
  assume "used_block limit V y"
  then have "bitmap_block V y < y" by (simp add: used_block_def data_block_def)
  then show "IBLOCK i \<noteq> y" using lt [of y] by simp
qed

lemma reg_file_open: "reg_file ip nb s \<Longrightarrow> file_open ip nb s"
proof -
  assume "reg_file ip nb s"
  note D = reg_fileD [OF this] and I = iblock_apart(3) [OF reg_fileD(7) [OF this]]
  have "IBLOCK (i_inum (icache s ip)) \<noteq> ind_block (icache s ip)"
    using I [OF file_mapD(10) [OF D(5)]] file_mapD(7) [OF D(5)] by (cases "NDIRECT < nb") (simp_all add: ind_block_def IBLOCK_def)
  moreover have "IBLOCK (i_inum (icache s ip)) \<notin> blk_addr (t_view (tabs s)) (icache s ip) ` {..<nb}"
    using I [OF file_mapD(9) [OF D(5)]] by auto
  ultimately show ?thesis using D file_map_ok [OF D(5)] by (simp add: file_open_def)
qed

text \<open>Writing the size changes the inode and its block only.\<close>

lemma size_blocks [simp]:
  "file_blocks V (x\<lparr>i_size := k\<rparr>) nb q = file_blocks V x nb q" "file_map limit V (x\<lparr>i_size := k\<rparr>) nb q = file_map limit V x nb q"
  "fbytes V (x\<lparr>i_size := k\<rparr>) nb = fbytes V x nb"
  by (simp_all add: file_blocks_def file_map_def fbytes_def fun_eq_iff)

lemma agree_frame:
  assumes "V' 1 = V 1" and "\<And>m. m \<in> bitmap_blocks V \<Longrightarrow> V' m = V m"
  shows "sb_at V' = sb_at V" "z < nblk V \<Longrightarrow> blk_free V' z = blk_free V z"
proof -
  show s: "sb_at V' = sb_at V" using assms(1) by (simp add: sb_at_def)
  assume "z < nblk V"
  then have "V' (bitmap_block V z) = V (bitmap_block V z)" by (intro assms(2)) (simp add: bitmap_blocks_def)
  then show "blk_free V' z = blk_free V z" using sb_same(2) [OF s] by (simp add: blk_free_def)
qed

lemma iblock_frame:
  assumes i: "i < unat (sb_ninodes (sb_at V))" and V': "\<And>m. m \<noteq> IBLOCK i \<Longrightarrow> V' m = V m"
  shows "sb_at V' = sb_at V" "alloc_ok limit V \<Longrightarrow> alloc_ok limit V'" "free_below limit V' = free_below limit V"
    "file_map limit V x nb q \<Longrightarrow> file_map limit V' x nb q \<and> fbytes V' x nb = fbytes V x nb \<and> file_blocks V' x nb q = file_blocks V x nb q"
proof -
  note I = iblock_apart [OF i]
  have A: "V' 1 = V 1" "\<And>m. m \<in> bitmap_blocks V \<Longrightarrow> V' m = V m" using I(1,2) V' by metis+
  show sb: "sb_at V' = sb_at V" by (rule agree_frame(1) [of V' V, OF A])
  have f: "z < nblk V \<Longrightarrow> blk_free V' z = blk_free V z" for z by (rule agree_frame(2) [of V' V, OF A])
  show "alloc_ok limit V \<Longrightarrow> alloc_ok limit V'" "free_below limit V' = free_below limit V"
    using f sb_same [OF sb] by (auto simp: alloc_ok_def free_below_def)
  assume F: "file_map limit V x nb q"
  have "V' m = V m" "\<not> blk_free V' m" if "m \<in> file_blocks V x nb q" for m
    using file_mapD(3) [OF F that] I(3) [OF file_mapD(3) [OF F that]] V' [of m] f by (auto simp: used_block_def)
  from file_map_frame [OF F sb this]
  show "file_map limit V' x nb q \<and> fbytes V' x nb = fbytes V x nb \<and> file_blocks V' x nb q = file_blocks V x nb q" by simp
qed

lemma set_size_reg:
  assumes R: "reg_file ip nb s" and room: "room_for 1 s" and sz: "unat sz \<le> nb * BSIZE"
  shows "\<exists>t. set_size ip sz s = Ok () t \<and> reg_file ip nb t \<and> inode_synced ip t \<and> icache t = (icache s)(ip := (icache s ip)\<lparr>i_size := sz\<rparr>) \<and>
    (\<forall>m. m \<noteq> IBLOCK (i_inum (icache s ip)) \<longrightarrow> t_view (tabs t) m = t_view (tabs s) m) \<and>
    t_disk (tabs t) = t_disk (tabs s) \<and> t_limit (tabs t) = t_limit (tabs s) \<and> t_room (tabs t) = t_room (tabs s)"
proof -
  note D = reg_fileD [OF R]
  obtain t where t: "set_size ip sz s = Ok () t" "file_open ip nb t" "icache t = (icache s)(ip := (icache s ip)\<lparr>i_size := sz\<rparr>)"
      "\<forall>m. m \<noteq> IBLOCK (i_inum (icache s ip)) \<longrightarrow> t_view (tabs t) m = t_view (tabs s) m"
      "same_dinode (disk_inode (t_view (tabs t)) (i_inum (icache s ip))) (dinode_of (icache t ip))"
      "t_disk (tabs t) = t_disk (tabs s)" "t_limit (tabs t) = t_limit (tabs s)" "t_room (tabs t) = t_room (tabs s)"
    using set_size_run [OF reg_file_open [OF R] room, of sz] by blast
  note F = iblock_frame [OF D(7), of "t_view (tabs t)"]
  have "reg_file ip nb t" unfolding reg_file_def file_whole_def file_size_def
    using D t F(1) F(2) [OF _ D(4)] F(4) [OF _ D(5)] sz file_openD(1) [OF t(2)] by simp
  moreover have "inode_synced ip t" using t(3,5) by (simp add: inode_synced_def)
  ultimately show ?thesis using t by blast
qed

text \<open>A file whose blocks are apart from those of the file that grows.\<close>

definition file_set :: "(nat \<Rightarrow> bytes) \<Rightarrow> inode \<Rightarrow> nat \<Rightarrow> nat set" where
  "file_set V x nb = file_blocks V x nb (NDIRECT < nb)"

definition others_kept :: "nat \<Rightarrow> (nat \<Rightarrow> bytes) \<Rightarrow> inode \<Rightarrow> nat \<Rightarrow> (nat \<Rightarrow> bytes) \<Rightarrow> inode \<Rightarrow> nat \<Rightarrow> bool" where
  "others_kept limit V x nb V' x' nb' \<longleftrightarrow> (\<forall>y k. file_whole limit V y k \<and> file_set V x nb \<inter> file_set V y k = {} \<longrightarrow>
     file_whole limit V' y k \<and> fbytes V' y k = fbytes V y k \<and> file_set V' x' nb' \<inter> file_set V' y k = {})"

lemma grew_others:
  assumes G: "grew limit V x nb (NDIRECT < nb) V' x' nb' (NDIRECT < nb')"
  shows "others_kept limit V x nb V' x' nb'"
  unfolding others_kept_def
proof (intro allI impI)
  fix y k
  assume "file_whole limit V y k \<and> file_set V x nb \<inter> file_set V y k = {}"
  then have F: "file_map limit V y k (NDIRECT < k)" and a: "file_set V x nb \<inter> file_set V y k = {}" by (auto simp: file_whole_def)
  note D = grewD [OF G]
  have u: "used_block limit V m" if "m \<in> file_set V y k" for m using file_mapD(3) [OF F] that by (simp add: file_set_def)
  have n: "m \<notin> file_set V' x' nb'" if "m \<in> file_set V y k" for m
    using D(10) [of m] u [OF that] a that by (auto simp: used_block_def file_set_def)
  have "V' m = V m" "\<not> blk_free V' m" if "m \<in> file_blocks V y k (NDIRECT < k)" for m
  proof -
    have m: "m \<in> file_set V y k" using that by (simp add: file_set_def)
    then show "V' m = V m" "\<not> blk_free V' m"
      using D(8,9) [of m] u [OF m] n [OF m] data_block_not_bitmap(1) [of V m] by (auto simp: used_block_def file_set_def)
  qed
  note A = file_map_frame [OF F D(1) this]
  show "file_whole limit V' y k \<and> fbytes V' y k = fbytes V y k \<and> file_set V' x' nb' \<inter> file_set V' y k = {}"
    using A n by (auto simp: file_whole_def file_set_def)
qed

lemma grew_same_addrs:
  assumes G: "grew limit V x nb q V' x' nb q" and F: "file_map limit V x nb q" and i: "i < NDIRECT + 1"
  shows "i_addrs x' i = i_addrs x i"
proof -
  note D = grewD [OF G] and E = file_mapD [OF F] and E' = file_mapD [OF grewD(2) [OF G]]
  consider "i < NDIRECT" "i < nb" | "i < NDIRECT" "nb \<le> i" | "i = NDIRECT" using i by linarith
  then show ?thesis
  proof cases
    case 1
    then have "unat (i_addrs x' i) = unat (i_addrs x i)" using D(6) [of i] by (simp add: blk_addr_def)
    then show ?thesis by (simp only: word_unat_eq_iff [symmetric])
  next
    case 2
    then show ?thesis using E(6) E'(6) by simp
  next
    case 3
    then show ?thesis using D(7) E(7) E'(7) by (cases q) (simp_all only: ind_block_def word_unat_eq_iff [symmetric] not_False_eq_True simp_thms)
  qed
qed

lemma others_kept_frame:
  assumes O: "others_kept limit V x nb V1 x' nb'" and F: "file_whole limit V1 x' nb'" and i: "i < unat (sb_ninodes (sb_at V1))"
    and V': "\<And>m. m \<noteq> IBLOCK i \<Longrightarrow> V' m = V1 m"
  shows "others_kept limit V x nb V' (x'\<lparr>i_size := k\<rparr>) nb'"
  unfolding others_kept_def
proof (intro allI impI)
  fix y j
  assume "file_whole limit V y j \<and> file_set V x nb \<inter> file_set V y j = {}"
  then have a: "file_map limit V1 y j (NDIRECT < j)" "fbytes V1 y j = fbytes V y j" "file_set V1 x' nb' \<inter> file_set V1 y j = {}"
    using O by (auto simp: others_kept_def file_whole_def)
  note I = iblock_frame(4) [OF i, of V' limit] and F1 = F [unfolded file_whole_def]
  show "file_whole limit V' y j \<and> fbytes V' y j = fbytes V y j \<and> file_set V' (x'\<lparr>i_size := k\<rparr>) nb' \<inter> file_set V' y j = {}"
    using I [OF V' a(1)] I [OF V' F1] a(2,3) by (simp add: file_whole_def file_set_def)
qed

text \<open>What a write leaves of the file, of its inode and of everything else.\<close>

definition write_result :: "nat \<Rightarrow> nat \<Rightarrow> bytes \<Rightarrow> nat \<Rightarrow> nat \<Rightarrow> nat \<Rightarrow> 'a fs_st_scheme \<Rightarrow> 'a fs_st_scheme \<Rightarrow> bool" where
  "write_result ip off src n nb nb' s t \<longleftrightarrow> reg_file ip nb' t \<and> file_size ip t = max (file_size ip s) (off + n) \<and>
     (\<forall>k. fbytes (t_view (tabs t)) (icache t ip) nb' k =
       (if off \<le> k \<and> k < off + n then src (k - off) else fbytes (t_view (tabs s)) (icache s ip) nb k)) \<and>
     (inode_synced ip s \<or> file_size ip s < file_size ip t \<longrightarrow> inode_synced ip t) \<and>
     icache t = (icache s)(ip := (icache s ip)\<lparr>i_addrs := i_addrs (icache t ip), i_size := i_size (icache t ip)\<rparr>) \<and>
     others_kept (t_limit (tabs s)) (t_view (tabs s)) (icache s ip) nb (t_view (tabs t)) (icache t ip) nb' \<and>
     free_blocks t + nblocks nb' = free_blocks s + nblocks nb \<and> sb_at (t_view (tabs t)) = sb_at (t_view (tabs s)) \<and>
     t_disk (tabs t) = t_disk (tabs s) \<and> t_limit (tabs t) = t_limit (tabs s) \<and> t_room (tabs t) = t_room (tabs s)"

lemma loop_result:
  assumes R: "reg_file ip nb s" and G: "grew_run ip off src n nb nb' s t" and off: "off \<le> file_size ip s"
  shows "reg_file ip nb' t" "off + n \<le> file_size ip s \<Longrightarrow> nb' = max nb (end_block off n) \<Longrightarrow> write_result ip off src n nb nb' s t"
    "icache t = (icache s)(ip := (icache s ip)\<lparr>i_addrs := i_addrs (icache t ip)\<rparr>)"
    "free_blocks t + nblocks nb' = free_blocks s + nblocks nb"
proof -
  let ?V = "t_view (tabs s)" and ?x = "icache s ip" and ?V' = "t_view (tabs t)" and ?x' = "icache t ip"
  note D = reg_fileD [OF R]
  have g: "growing ip nb' t" "trest t = trest (s\<lparr>icache := (icache s)(ip := ?x')\<rparr>)" "txn_ran UNIV s t"
      "wrote_grow (t_limit (tabs s)) off src n ?V ?x nb ?V' ?x' nb'"
    using G by (simp_all add: grew_run_def)
  note gr = growingD [OF g(1)] and T = txn_ranD [OF g(3)]
  have gw: "grew (t_limit (tabs s)) ?V ?x nb (NDIRECT < nb) ?V' ?x' nb' (NDIRECT < nb')" using g(4) by (simp add: wrote_grow_def)
  note W = grewD [OF gw]
  have ic: "icache t = (icache s)(ip := ?x')" using trest_icache [OF g(2)] by simp
  have x': "?x' = ?x\<lparr>i_addrs := i_addrs ?x'\<rparr>" by (rule W(5))
  then show ic': "icache t = (icache s)(ip := ?x\<lparr>i_addrs := i_addrs ?x'\<rparr>)" using ic by metis
  note dv = grew_dev [OF gw]
  have "nb * BSIZE \<le> nb' * BSIZE" by (rule mult_le_mono1 [OF W(3)])
  then show R': "reg_file ip nb' t" unfolding reg_file_def using D gr dv T(1) W(1) by (simp add: file_size_def)
  show fr: "free_blocks t + nblocks nb' = free_blocks s + nblocks nb"
    using grew_free [OF gw D(5)] T(1) by (simp add: free_blocks_def nblocks_def)
  assume le: "off + n \<le> file_size ip s" and nb': "nb' = max nb (end_block off n)"
  have "end_block off n \<le> nb" by (rule end_block_le) (use le D(8) in simp)
  then have nb: "nb' = nb" using nb' by simp
  have B: "?V' (IBLOCK (i_inum ?x)) = ?V (IBLOCK (i_inum ?x))"
    using W(9) [of "IBLOCK (i_inum ?x)"] iblock_apart [OF D(7)] file_mapD(3) [OF W(2)] W(1)
    by (metis iblock_apart(3) D(7))
  have "same_dinode a (dinode_of ?x')" if "same_dinode a (dinode_of ?x)" for a
    using that grew_same_addrs [of "t_limit (tabs s)" ?V ?x nb "NDIRECT < nb" ?V' ?x'] gw D(5) nb
    by (subst x') (auto simp: same_dinode_def dinode_of_def)
  then have "inode_synced ip s \<Longrightarrow> inode_synced ip t" using B dv by (simp add: inode_synced_def disk_inode_def)
  moreover have "file_size ip t = file_size ip s" using dv by (simp add: file_size_def)
  moreover have "icache t = (icache s)(ip := ?x\<lparr>i_addrs := i_addrs ?x', i_size := i_size ?x'\<rparr>)" using ic' dv by simp
  ultimately show "write_result ip off src n nb nb' s t" unfolding write_result_def
    using R' g(4) grew_others [OF gw] fr W(1) T le by (simp add: wrote_grow_def max_def)
qed

text \<open>The blocks a write needs free, and the blocks it may log.\<close>

definition write_room :: "nat \<Rightarrow> nat \<Rightarrow> nat \<Rightarrow> nat \<Rightarrow> 'a fs_st_scheme \<Rightarrow> bool" where
  "write_room ip nb off n s \<longleftrightarrow> off + n \<le> MAXFILE * BSIZE \<and> nblocks (max nb (end_block off n)) \<le> nblocks nb + free_blocks s \<and>
     t_open (tabs s) \<and> file_load ip nb s + turns off n + ind_cost nb (max nb (end_block off n)) < t_room (tabs s)"

lemma size_result:
  assumes R: "reg_file ip nb s" and G: "grew_run ip (unat off) src n nb nb' s s1" and off: "unat off \<le> file_size ip s"
    and sz: "file_size ip s < unat off + n" "unat sz = unat off + n" "unat sz \<le> nb' * BSIZE"
    and room: "card (t_logged (tabs s1)) < t_room (tabs s)" and op: "t_open (tabs s)"
  shows "\<exists>t. set_size ip sz s1 = Ok () t \<and> write_result ip (unat off) src n nb nb' s t"
proof -
  note L = loop_result [OF R G off] and D = reg_fileD [OF R]
  have g: "txn_ran UNIV s s1" "wrote_grow (t_limit (tabs s)) (unat off) src n (t_view (tabs s)) (icache s ip) nb (t_view (tabs s1)) (icache s1 ip) nb'"
    using G by (simp_all add: grew_run_def)
  note T = txn_ranD [OF g(1)]
  have gw: "grew (t_limit (tabs s)) (t_view (tabs s)) (icache s ip) nb (NDIRECT < nb) (t_view (tabs s1)) (icache s1 ip) nb' (NDIRECT < nb')"
    using g(2) by (simp add: wrote_grow_def)
  note D1 = reg_fileD [OF L(1)]
  have "room_for 1 s1" using room op T(2,3) by (simp add: room_for_def)
  then obtain t where t: "set_size ip sz s1 = Ok () t" "reg_file ip nb' t" "inode_synced ip t"
      "icache t = (icache s1)(ip := (icache s1 ip)\<lparr>i_size := sz\<rparr>)"
      "\<forall>m. m \<noteq> IBLOCK (i_inum (icache s1 ip)) \<longrightarrow> t_view (tabs t) m = t_view (tabs s1) m"
      "t_disk (tabs t) = t_disk (tabs s1)" "t_limit (tabs t) = t_limit (tabs s1)" "t_room (tabs t) = t_room (tabs s1)"
    using set_size_reg [OF L(1) _ sz(3)] by blast
  note F = iblock_frame [OF D1(7), of "t_view (tabs t)"]
  have "fbytes (t_view (tabs t)) (icache t ip) nb' = fbytes (t_view (tabs s1)) (icache s1 ip) nb'"
    using F(4) [OF _ D1(5)] t(4,5) by simp
  then have b: "\<forall>k. fbytes (t_view (tabs t)) (icache t ip) nb' k =
      (if unat off \<le> k \<and> k < unat off + n then src (k - unat off) else fbytes (t_view (tabs s)) (icache s ip) nb k)"
    using g(2) by (simp add: wrote_grow_def)
  have tip: "icache t ip = (icache s1 ip)\<lparr>i_size := sz\<rparr>" using t(4) by simp
  have "others_kept (t_limit (tabs s)) (t_view (tabs s)) (icache s ip) nb (t_view (tabs t)) (icache t ip) nb'"
    unfolding tip by (rule others_kept_frame [OF grew_others [OF gw] _ D1(7)]) (use grewD(2) [OF gw] t(5) in \<open>auto simp: file_whole_def\<close>)
  moreover have "free_blocks t = free_blocks s1" using F(3) t(5,7) by (simp add: free_blocks_def)
  moreover obtain a where a: "icache s1 = (icache s)(ip := (icache s ip)\<lparr>i_addrs := a\<rparr>)" using L(3) by blast
  have it: "icache t = (icache s)(ip := (icache s ip)\<lparr>i_addrs := a, i_size := sz\<rparr>)" unfolding t(4) a by simp
  have "icache t = (icache s)(ip := (icache s ip)\<lparr>i_addrs := i_addrs (icache t ip), i_size := i_size (icache t ip)\<rparr>)"
    unfolding it by simp
  moreover have "file_size ip t = unat off + n" using t(4) sz(2) by (simp add: file_size_def)
  ultimately have "write_result ip (unat off) src n nb nb' s t" unfolding write_result_def
    using t(2,3,5-8) b sz(1) L(4) T F(1) grewD(1) [OF gw] by (simp add: max_def)
  then show ?thesis using t(1) by blast
qed

lemma writei_grow:
  assumes R: "reg_file ip nb s" and off: "unat off \<le> file_size ip s" and room: "write_room ip nb (unat off) (unat n) s"
    and nb': "nb' = max nb (end_block (unat off) (unat n))"
  shows "\<exists>t. writei dv ip src off n s = Ok (int (unat n)) t \<and> write_result ip (unat off) src (unat n) nb nb' s t"
proof -
  let ?x = "icache s ip"
  note D = reg_fileD [OF R]
  have W: "unat off + unat n \<le> MAXFILE * BSIZE" "nblocks nb' \<le> nblocks nb + free_blocks s" "t_open (tabs s)"
      "file_load ip nb s + turns (unat off) (unat n) + ind_cost nb nb' < t_room (tabs s)"
    using room nb' by (simp_all add: write_room_def)
  have sum: "unat (off + n) = unat off + unat n" using W(1) by (intro unat_add_small) simp
  have sn: "sint n = int (unat n)" using W(1) by (intro sint_small) simp
  have guards: "\<not> (i_size ?x < off \<or> off + n < off)" "\<not> MAXFILE * BSIZE < unat (off + n)"
    using off sum W(1) by (auto simp: word_less_nat_alt file_size_def)
  have g: "growing ip nb s" using D W(3) by (simp add: growing_def file_whole_def)
  have "end_block (unat off) (unat n) \<le> MAXFILE" by (rule end_block_le [OF W(1)])
  then obtain s1 where s1: "writei_loop ip src (unat off) (unat n) 0 s = Ok () s1" "grew_run ip (unat off) src (unat n) nb nb' s s1"
      "file_load ip nb' s1 \<le> file_load ip nb s + turns (unat off) (unat n) + ind_cost nb nb'"
    using writei_loop_grow [OF g, of "unat off" "unat n" 0 nb' src] off D(8) W nb' by auto
  note L = loop_result [OF R s1(2) off]
  have ic: "icache s1 ip = ?x\<lparr>i_addrs := i_addrs (icache s1 ip)\<rparr>" using L(3) by (metis fun_upd_same)
  have sz1: "i_size (icache s1 ip) = i_size ?x" by (subst ic) simp
  have grow: "0 < n \<and> i_size ?x < off + n \<longleftrightarrow> file_size ip s < unat off + unat n"
    using sum off by (auto simp: word_less_nat_alt file_size_def word_gt_0)
  have run: "writei dv ip src off n s = kseq (kwhen (file_size ip s < unat off + unat n) (set_size ip (off + n))) (kreturn (int (unat n))) s1"
    using writei_unfold [OF D(3) guards, of dv src] s1(1) sz1 grow sn by (simp add: kmonad get_inode_def)
  show ?thesis
  proof (cases "file_size ip s < unat off + unat n")
    case False
    then have "writei dv ip src off n s = Ok (int (unat n)) s1" using run by (simp only: if_False kmonad)
    then show ?thesis using L(2) nb' False by auto
  next
    case True
    have "unat off + unat n \<le> end_block (unat off) (unat n) * BSIZE" by (simp add: end_block_def)
    also have "\<dots> \<le> nb' * BSIZE" by (rule mult_le_mono1) (simp add: nb')
    finally have le: "unat (off + n) \<le> nb' * BSIZE" unfolding sum .
    have "card (t_logged (tabs s1)) < t_room (tabs s)"
      using logged_load [OF reg_fileD(1) [OF L(1)], of "icache s1 ip" nb'] s1(3) W(4) by (simp add: file_load_def)
    then obtain t where t: "set_size ip (off + n) s1 = Ok () t" "write_result ip (unat off) src (unat n) nb nb' s t"
      using size_result [OF R s1(2) off True sum le _ W(3)] by blast
    then have "writei dv ip src off n s = Ok (int (unat n)) t" using True run by (simp only: if_True kmonad kres.case simp_thms)
    then show ?thesis using t(2) by blast
  qed
qed

lemma write_resultD:
  assumes W: "write_result ip off src n nb nb' s t" and off: "off \<le> file_size ip s" and sz: "file_size ip s \<le> nb * BSIZE"
  shows "reg_file ip nb' t" "file_size ip t = max (file_size ip s) (off + n)"
    "\<forall>k < file_size ip t. file_bytes ip t k = (if off \<le> k \<and> k < off + n then src (k - off) else file_bytes ip s k)"
    "inode_synced ip s \<or> file_size ip s < file_size ip t \<longrightarrow> inode_synced ip t"
    "icache t = (icache s)(ip := (icache s ip)\<lparr>i_addrs := i_addrs (icache t ip), i_size := i_size (icache t ip)\<rparr>)"
    "others_kept (t_limit (tabs s)) (t_view (tabs s)) (icache s ip) nb (t_view (tabs t)) (icache t ip) nb'"
    "free_blocks t + nblocks nb' = free_blocks s + nblocks nb" "sb_at (t_view (tabs t)) = sb_at (t_view (tabs s))"
    "t_disk (tabs t) = t_disk (tabs s)" "t_limit (tabs t) = t_limit (tabs s)" "t_room (tabs t) = t_room (tabs s)"
proof -
  show r: "reg_file ip nb' t" "file_size ip t = max (file_size ip s) (off + n)"
    "inode_synced ip s \<or> file_size ip s < file_size ip t \<longrightarrow> inode_synced ip t"
    "icache t = (icache s)(ip := (icache s ip)\<lparr>i_addrs := i_addrs (icache t ip), i_size := i_size (icache t ip)\<rparr>)"
    "others_kept (t_limit (tabs s)) (t_view (tabs s)) (icache s ip) nb (t_view (tabs t)) (icache t ip) nb'"
    "free_blocks t + nblocks nb' = free_blocks s + nblocks nb" "sb_at (t_view (tabs t)) = sb_at (t_view (tabs s))"
    "t_disk (tabs t) = t_disk (tabs s)" "t_limit (tabs t) = t_limit (tabs s)" "t_room (tabs t) = t_room (tabs s)"
    using W unfolding write_result_def by blast+
  have f: "fbytes (t_view (tabs t)) (icache t ip) nb' k =
      (if off \<le> k \<and> k < off + n then src (k - off) else fbytes (t_view (tabs s)) (icache s ip) nb k)" for k
    using W by (simp add: write_result_def)
  show "\<forall>k < file_size ip t. file_bytes ip t k = (if off \<le> k \<and> k < off + n then src (k - off) else file_bytes ip s k)"
  proof (intro allI impI)
    fix k assume k: "k < file_size ip t"
    have "file_bytes ip t k = fbytes (t_view (tabs t)) (icache t ip) nb' k"
      using k reg_fileD(8) [OF r(1)] by (simp add: file_bytes_def fbytes_def)
    moreover have "\<not> (off \<le> k \<and> k < off + n) \<Longrightarrow> k < nb * BSIZE" using k r(2) off sz by (auto simp: max_def split: if_splits)
    ultimately show "file_bytes ip t k = (if off \<le> k \<and> k < off + n then src (k - off) else file_bytes ip s k)"
      using f [of k] by (auto simp: file_bytes_def fbytes_def)
  qed
qed

end
