(* ===== verification/Log_Crash.thy ===== *)
theory Log_Crash
  imports Log_Spec
begin

text \<open>
  Crash safety of the log: what a disk holds after a crash at any write of \<open>commit_trans\<close>, any
  number of boots that crash in turn, and a boot that ends.
\<close>

section \<open>Definitions\<close>

definition commit_writes :: "'a log_st_scheme \<Rightarrow> dwrite list" where
  "commit_writes s = (case commit_trans s of Ok _ t \<Rightarrow> drop (length (diskhist s)) (diskhist t) | _ \<Rightarrow> [])"

text \<open>A disk recovery can start from: its superblock places the log, and no install touches it.\<close>

definition bootable :: "nat \<Rightarrow> nat \<Rightarrow> (nat \<Rightarrow> bytes) \<Rightarrow> bool" where
  "bootable start limit D \<longleftrightarrow> geometry_ok limit D \<and> sb_log_start D = start \<and> log_ok start limit (D start) \<and>
     1 \<notin> fst ` set (installs start D)"

section \<open>Lemmas\<close>

lemma geometry_cong: "D 1 = E 1 \<Longrightarrow> geometry_ok limit D = geometry_ok limit E \<and> sb_log_start D = sb_log_start E"
  by (simp add: geometry_ok_def sb_log_size_def sb_log_start_def)

lemma log_ok_empty: "start < limit \<Longrightarrow> log_count h = 0 \<Longrightarrow> log_ok start limit h"
  by (simp add: log_ok_def)

lemma bootableD:
  assumes "bootable start limit D"
  shows "geometry_ok limit D" "sb_log_start D = start" "log_ok start limit (D start)"
    "1 \<notin> fst ` set (installs start D)" "1 < start" "start < limit"
  using assms by (auto simp: bootable_def geometry_ok_def)

text \<open>One interrupted boot leaves a disk that stands for the same content.\<close>

lemma boot_crash:
  assumes G: "bootable start limit D" and E: "E = apply_writes (take j (boot_writes limit D)) D"
  shows "bootable start limit E" "\<forall>m. m \<noteq> start \<longrightarrow> recovered start E m = recovered start D m"
proof -
  note g = bootableD [OF G]
  obtain h0 where h0: "boot_writes limit D = installs start D @ [(start, h0)]" "log_count h0 = 0"
    using boot_run [OF g(1)] g(2,3) by auto
  note rp = recovered_prefix [OF g(3) h0(2) E [unfolded h0(1)]]
  have w: "fst ` set (take j (boot_writes limit D)) \<subseteq> insert start (fst ` set (installs start D))"
    using set_take_subset [of j "boot_writes limit D"] h0(1) by auto
  then have "1 \<notin> fst ` set (take j (boot_writes limit D))" using g(4,5) by auto
  then have E1: "E 1 = D 1" using E by simp
  have above: "E m = D m" if "start < m" for m
  proof -
    have "m \<notin> fst ` set (installs start D)" using installs_below [of start limit D m] g(3) that by simp
    then have "m \<notin> fst ` set (take j (boot_writes limit D))" using w that by auto
    then show ?thesis using E by simp
  qed
  have "log_ok start limit (E start)" using rp(2) g(3) log_ok_empty [OF g(6) h0(2)] by auto
  moreover have "1 \<notin> fst ` set (installs start E)"
    using rp(2)
  proof
    assume "E start = D start"
    then have "installs start E = installs start D"
      by (intro installs_cong) (use above in \<open>auto simp: le_less\<close>)
    then show ?thesis using g(4) by simp
  next
    assume "E start = h0"
    then show ?thesis using h0(2) by (simp add: installs_def)
  qed
  ultimately show "bootable start limit E" using g(1,2) geometry_cong [of E D, OF E1] by (simp add: bootable_def)
  show "\<forall>m. m \<noteq> start \<longrightarrow> recovered start E m = recovered start D m" by (rule rp(1))
qed

lemma reboots_recovered:
  assumes "reboots limit D E" and "bootable start limit D"
  shows "bootable start limit E \<and> (\<forall>m. m \<noteq> start \<longrightarrow> recovered start E m = recovered start D m)"
  using assms
proof (induction rule: reboots.induct)
  case (crash E j)
  then show ?case using boot_crash [of start limit E _ j] by auto
qed simp

lemma boot_recovered:
  assumes "bootable start limit E"
  shows "\<exists>t. kseq binit initlog (boot limit E) = Ok () t \<and> log_inv {} t \<and> lh_n t = 0 \<and> view t = memdisk t \<and>
    (\<forall>m. m \<noteq> start \<longrightarrow> memdisk t m = recovered start E m)"
proof -
  note g = bootableD [OF assms]
  obtain t h0 where "kseq binit initlog (boot limit E) = Ok () t" "log_inv {} t" "lh_n t = 0"
      "boot_writes limit E = installs start E @ [(start, h0)]" "memdisk t = apply_writes (boot_writes limit E) E"
      "view t = memdisk t"
    using boot_run [OF g(1)] g(2,3) by auto
  then show ?thesis by (auto simp: recovered_def)
qed

lemma recovered_empty: "log_count (D start) = 0 \<Longrightarrow> recovered start D = D"
  by (simp add: recovered_def installs_def)

lemma log_inv_bootable:
  assumes L: "log_inv M s" and "geometry_ok (disksize s) (memdisk s)" and "sb_log_start (memdisk s) = l_start s"
  shows "bootable (l_start s) (disksize s) (memdisk s)"
proof -
  have d: "memdisk s = c_disk (cabs s)" "disksize s = c_size (cabs s)" by (simp_all add: cabs_def)
  have "l_start s < disksize s" using log_invD(3,4,6) [OF L] d by simp
  moreover have "log_count (memdisk s (l_start s)) = 0" using log_invD(15) [OF L] d by simp
  ultimately show ?thesis using assms(2,3) by (simp add: bootable_def log_ok_empty installs_def)
qed

lemma commit_writes_eq:
  assumes "log_inv {} s" and "c_busy (cabs s) = {}"
  shows "\<exists>h0. log_count h0 = 0 \<and>
    commit_writes s = (if lh_n s = 0 then [] else (l_start s, commit_head s) # lh_installs s @ [(l_start s, h0)])"
proof -
  obtain t h0 W where t: "commit_trans s = Ok () t" "log_count h0 = 0"
      "W = (if lh_n s = 0 then [] else (l_start s, commit_head s) # lh_installs s @ [(l_start s, h0)])"
      "cabs t = cputs W (cabs s)"
    using commit_trans_run [OF assms] by blast
  have "diskhist t = c_hist (cabs t)" "diskhist s = c_hist (cabs s)" by (simp_all add: cabs_def)
  then have "commit_writes s = W" using t(1,4) by (simp add: commit_writes_def)
  then show ?thesis using t(2,3) by blast
qed

text \<open>The disk after a crash once the commit record is down.\<close>

lemma commit_crash_disk:
  assumes L: "log_inv {} s" and busy: "c_busy (cabs s) = {}"
    and geo: "geometry_ok (disksize s) (memdisk s)" "sb_log_start (memdisk s) = l_start s" and sb: "1 \<notin> homes s"
    and E: "E = apply_writes (take j (commit_writes s)) (memdisk s)"
  shows "bootable (l_start s) (disksize s) E \<and>
    (\<forall>m. m \<noteq> l_start s \<longrightarrow> recovered (l_start s) E m = (if j = 0 then memdisk s m else view s m))"
proof -
  let ?S = "l_start s" and ?n = "disksize s" and ?D = "memdisk s"
  have c: "c_disk (cabs s) = ?D" "c_view (cabs s) = view s" "c_size (cabs s) = ?n" by (simp_all add: cabs_def)
  have B: "bootable ?S ?n ?D" using log_inv_bootable [OF L geo] .
  have R: "recovered ?S ?D = ?D" using recovered_empty log_invD(15) [OF L] c by simp
  obtain h0 where h0: "log_count h0 = 0" "commit_writes s = (if lh_n s = 0 then [] else
      (?S, commit_head s) # lh_installs s @ [(?S, h0)])"
    using commit_writes_eq [OF L busy] by blast
  consider "lh_n s = 0" | "j = 0" | i where "lh_n s \<noteq> 0" "j = Suc i" by (cases j) auto
  then show ?thesis
  proof cases
    case 1
    then have "view s m = ?D m" for m using log_invD(14) [OF L, of m] c by (simp add: homes_def)
    then show ?thesis using 1 h0(2) E B R by simp
  next
    case 2
    then show ?thesis using E B R by simp
  next
    case 3
    let ?F = "?D(?S := commit_head s)"
    have i: "installs ?S ?F = lh_installs s" using commit_installs [OF L] c by simp
    have ok: "log_ok ?S ?n (?F ?S)" using commit_head_ok [OF L] c by simp
    have "fst ` set (lh_installs s) \<subseteq> homes s" by (auto simp: lh_installs_def homes_def)
    moreover have "1 \<noteq> ?S" using bootableD(5) [OF B] by simp
    ultimately have BF: "bootable ?S ?n ?F"
      using i ok geo sb geometry_cong [of ?F ?D] by (auto simp: bootable_def)
    obtain h1 where h1: "boot_writes ?n ?F = installs ?S ?F @ [(?S, h1)]" "log_count h1 = 0"
      using boot_run [OF bootableD(1) [OF BF]] bootableD(2,3) [OF BF] by auto
    have rec: "recovered ?S ?F m = view s m" if "m \<noteq> ?S" for m
      using commit_content_upd(1) [OF L that, of "commit_head s"] i c by (simp add: recovered_def)
    have EF: "E = apply_writes (take i (installs ?S ?F @ [(?S, h0)])) ?F" using E h0(2) 3 i by simp
    show ?thesis
    proof (cases "i \<le> length (installs ?S ?F)")
      case True
      then have "E = apply_writes (take i (boot_writes ?n ?F)) ?F" using EF h1(1) by simp
      then show ?thesis using boot_crash [OF BF] rec 3 by auto
    next
      case False
      then have E0: "E = (apply_writes (installs ?S ?F) ?F)(?S := h0)" using EF by simp
      have "E 1 = ?D 1" using E0 bootableD(4,5) [OF BF] by simp
      then have "bootable ?S ?n E"
        using geo geometry_cong [of E ?D] h0(1) log_ok_empty [OF bootableD(6) [OF B] h0(1)] E0
        by (simp add: bootable_def installs_def)
      moreover have "recovered ?S E = E" using recovered_empty [of E ?S] E0 h0(1) by simp
      ultimately show ?thesis using 3 E0 rec by (simp add: recovered_def)
    qed
  qed
qed

end
