(* ===== verification/Log_Props.thy ===== *)
theory Log_Props
  imports Log_Crash Log_Txn
begin

text \<open>
  The properties of the buffer cache and of the log, with a run of the model on a small disk
  (40 sectors, a log of 10 at sector 30) that their instances are taken from.
\<close>

section \<open>A concrete run\<close>

definition sample_disk :: "nat \<Rightarrow> bytes" where
  "sample_disk = (\<lambda>_ _. 0)(1 := st32 (st32 (\<lambda>_. 0) 0 40) 12 10)"

definition sample_write :: "('a log_st_scheme, chan, unit) km" where
  "sample_write = kbind (bread 1 5) (\<lambda>h. kseq (set_data h (\<lambda>_ _. 7)) (kseq (log_write h) (brelse h)))"

definition sample_txn :: "('a log_st_scheme, chan, unit) km" where
  "sample_txn = kseq binit (kseq initlog (kseq begin_trans sample_write))"

lemma sample_sb: "sb_of (sample_disk 1) = \<lparr>sb_size = 40, sb_nblocks = 0, sb_ninodes = 0, sb_nlog = 10\<rparr>"
proof -
  have z: "ld32 (\<lambda>_. 0 :: u8) k = 0" for k by (rule ld32_zero) simp
  show ?thesis by (simp add: sb_of_def sample_disk_def le_fields z)
qed

lemma sample_bootable: "bootable 30 40 sample_disk"
proof -
  have "sb_log_start sample_disk = 30" "sb_log_size sample_disk = 10"
    using sample_sb by (simp_all add: sb_log_start_def sb_log_size_def)
  moreover have "log_count (sample_disk 30) = 0"
    by (simp add: sample_disk_def log_count_def ld32_zero)
  ultimately show ?thesis by (simp add: bootable_def geometry_ok_def log_ok_empty installs_def)
qed

lemma sample_boot:
  "\<exists>t. kseq binit initlog (boot 40 sample_disk) = Ok () t \<and> log_inv {} t \<and> lh_n t = 0 \<and> c_busy (cabs t) = {} \<and>
    l_start t = 30 \<and> l_size t = 10 \<and> \<not> l_busy t \<and> (\<forall>m. m \<noteq> 30 \<longrightarrow> view t m = sample_disk m) \<and>
    view t = memdisk t \<and> disksize t = 40"
proof -
  note g = bootableD [OF sample_bootable]
  have "sb_log_size sample_disk = 10" using sample_sb by (simp add: sb_log_size_def)
  moreover have "installs 30 sample_disk = []"
    by (simp add: installs_def sample_disk_def log_count_def ld32_zero)
  ultimately show ?thesis using boot_run [OF g(1)] g(2,3) by auto
qed

lemma sample_txn_run:
  "\<exists>s. sample_txn (boot 40 sample_disk) = Ok () s \<and> log_inv {} s \<and> c_busy (cabs s) = {} \<and> homes s = {5} \<and>
    l_start s = 30 \<and> l_size s = 10 \<and> disksize s = 40 \<and> l_busy s \<and> view s 5 = (\<lambda>_. 7) \<and> memdisk s 5 = (\<lambda>_. 0) \<and>
    memdisk s 1 = sample_disk 1"
proof -
  obtain r where r: "kseq binit initlog (boot 40 sample_disk) = Ok () r" "log_inv {} r" "lh_n r = 0" "c_busy (cabs r) = {}"
      "l_start r = 30" "l_size r = 10" "\<not> l_busy r" "\<forall>m. m \<noteq> 30 \<longrightarrow> view r m = sample_disk m" "view r = memdisk r"
      "disksize r = 40"
    using sample_boot by blast
  let ?b = "r\<lparr>l_busy := True\<rparr>"
  have b: "log_inv {} ?b" using r(2) by (simp add: log_inv_def homes_def)
  have ta: "t_busy (tabs ?b) = {}" "5 < t_limit (tabs ?b)" "t_open (tabs ?b)" "t_logged (tabs ?b) = {}" "t_room (tabs ?b) = 9"
      "t_view (tabs ?b) = (\<lambda>m. if m < 30 then view r m else (\<lambda>_. 0))" "t_disk (tabs ?b) = (\<lambda>m. if m < 30 then memdisk r m else (\<lambda>_. 0))"
    using r by (simp_all add: tabs_def homes_def cabs_def cong: if_cong)
  obtain s where s: "sample_write ?b = Ok () s" "log_inv {} s"
      "tabs s = (tabs ?b)\<lparr>t_view := (t_view (tabs ?b))(5 := (\<lambda>_. 7)), t_logged := {5}\<rparr>"
    using tx.update_block [OF b ta(1,2,3), of "\<lambda>_ _. 7"] ta(4,5) by (auto simp: sample_write_def)
  have "held r = {}" using log_invD(1) [OF r(2)] by (simp add: binv_def)
  then have "begin_trans r = Ok () ?b" using r(7) by (rule begin_trans_run)
  then have run: "sample_txn (boot 40 sample_disk) = Ok () s"
    using r(1) s(1) by (auto simp: sample_txn_def kbind_Ok_iff kmonad)
  have sv: "l_start s = 30" "l_size s = 10" "l_busy s" "c_busy (cabs s) = {}" "homes s = {5}" "disksize s = 40"
    using arg_cong [OF s(3), of t_limit] arg_cong [OF s(3), of t_room] arg_cong [OF s(3), of t_open]
      arg_cong [OF s(3), of t_busy] arg_cong [OF s(3), of t_logged]
      arg_cong [OF s(3), of t_size] ta r(5,10) log_invD(3,4) [OF s(2)]
    by (simp_all add: tabs_def cabs_def)
  have "t_view (tabs s) 5 = (\<lambda>_. 7)" "t_disk (tabs s) 5 = t_disk (tabs ?b) 5" "t_disk (tabs s) 1 = t_disk (tabs ?b) 1"
    using s(3) by simp_all
  then have sd: "view s 5 = (\<lambda>_. 7)" "memdisk s 5 = memdisk r 5" "memdisk s 1 = memdisk r 1"
    using sv(1) r(5) by (simp_all add: tabs_def cabs_def)
  show ?thesis using run s(2) sv sd r(8) [rule_format, of 5] r(8) [rule_format, of 1] r(9)
    by (simp add: sample_disk_def)
qed

lemma sample_geometry:
  assumes "memdisk s 1 = sample_disk 1" and "disksize s = 40" and "l_start s = 30"
  shows "geometry_ok (disksize s) (memdisk s)" "sb_log_start (memdisk s) = l_start s"
  using geometry_cong [of "memdisk s" sample_disk 40] bootableD(1,2) [OF sample_bootable] assms by auto

lemma idle_busy: "c_busy (cabs s) = busyset s" "c_view (cabs s) = view s" "c_disk (cabs s) = memdisk s"
    "c_size (cabs s) = disksize s" "c_dirty (cabs s) = dirtyset s"
  by (simp_all add: cabs_def)

section \<open>Crash safety\<close>

text \<open>
  C1: a transaction is atomic and durable over crashes.  Let \<open>commit_trans\<close> be cut short by a crash
  after any number \<open>j\<close> of its disk writes, let any number of reboots crash in turn during recovery,
  and then let one boot (\<open>binit\<close>, \<open>initlog\<close>) run.  The boot ends normally with an empty log, and
  every sector but the log header holds what it held before the transaction when the commit record
  was not written (\<open>j = 0\<close>), and what the transaction last made of it otherwise.
\<close>

theorem commit_crash_atomic:
  assumes "log_inv {} s" and "busyset s = {}"
    and "geometry_ok (disksize s) (memdisk s)" and "sb_log_start (memdisk s) = l_start s" and "1 \<notin> homes s"
    and "E0 = apply_writes (take j (commit_writes s)) (memdisk s)"
    and "reboots (disksize s) E0 E"
  shows "\<exists>t. kseq binit initlog (boot (disksize s) E) = Ok () t \<and> log_inv {} t \<and> lh_n t = 0 \<and>
    (\<forall>m. m \<noteq> l_start s \<longrightarrow> memdisk t m = (if j = 0 then memdisk s m else view s m))"
proof -
  have c: "bootable (l_start s) (disksize s) E0"
      "\<forall>m. m \<noteq> l_start s \<longrightarrow> recovered (l_start s) E0 m = (if j = 0 then memdisk s m else view s m)"
    using commit_crash_disk [OF assms(1) _ assms(3,4,5,6)] assms(2) by (simp_all add: idle_busy)
  have "bootable (l_start s) (disksize s) E"
      "\<forall>m. m \<noteq> l_start s \<longrightarrow> recovered (l_start s) E m = recovered (l_start s) E0 m"
    using reboots_recovered [OF assms(7) c(1)] by simp_all
  then show ?thesis using boot_recovered [of "l_start s" "disksize s" E] c(2) by auto
qed

theorem commit_crash_atomic_witness:
  "\<exists>s t. sample_txn (boot 40 sample_disk) = Ok () s \<and>
    kseq binit initlog (boot 40 (apply_writes (take 2 (commit_writes s)) (memdisk s))) = Ok () t \<and>
    memdisk s 5 = (\<lambda>_. 0) \<and> memdisk t 5 = (\<lambda>_. 7)"
proof -
  obtain s where s: "sample_txn (boot 40 sample_disk) = Ok () s" "log_inv {} s" "busyset s = {}" "homes s = {5}"
    "l_start s = 30" "disksize s = 40" "view s 5 = (\<lambda>_. 7)" "memdisk s 5 = (\<lambda>_. 0)" "memdisk s 1 = sample_disk 1"
    using sample_txn_run by (auto simp: idle_busy)
  have "\<exists>t. kseq binit initlog (boot (disksize s) (apply_writes (take 2 (commit_writes s)) (memdisk s))) = Ok () t \<and>
      log_inv {} t \<and> lh_n t = 0 \<and> (\<forall>m. m \<noteq> l_start s \<longrightarrow> memdisk t m = (if 2 = (0 :: nat) then memdisk s m else view s m))"
    by (rule commit_crash_atomic [OF s(2,3) sample_geometry [OF s(9,6,5)] _ refl reboots.start]) (simp add: s(4))
  then show ?thesis using s by auto
qed



section \<open>Transactions\<close>

text \<open>What \<open>commit_trans\<close> leaves, with the geometry of the log unchanged.\<close>

lemma commit_leaves:
  assumes "log_inv {} s" and "busyset s = {}"
  shows "\<exists>t. commit_trans s = Ok () t \<and> log_inv {} t \<and> \<not> l_busy t \<and> lh_n t = 0 \<and> busyset t = {} \<and> dirtyset t = {} \<and>
    same_log s (t\<lparr>l_busy := l_busy s\<rparr>) \<and> (\<forall>m. m \<noteq> l_start s \<longrightarrow> memdisk t m = view s m \<and> view t m = view s m)"
proof -
  obtain t h0 W where t: "commit_trans s = Ok () t" "log_inv {} t" "\<not> l_busy t" "lh_n t = 0" "same_log s (t\<lparr>l_busy := l_busy s\<rparr>)"
      "W = (if lh_n s = 0 then [] else (l_start s, commit_head s) # lh_installs s @ [(l_start s, h0)])"
      "cabs t = cputs W (cabs s)"
    using commit_trans_run [OF assms(1)] assms(2) by (auto simp: idle_busy)
  have "homes t = {}" using t(4) by (simp add: homes_def)
  then have e: "dirtyset t = {}" "view t = memdisk t" using log_invD(10,14) [OF t(2)] by (auto simp: idle_busy)
  have "c_disk (cabs t) = apply_writes W (c_disk (cabs s))" "c_busy (cabs t) = c_busy (cabs s)" using t(7) by simp_all
  then have d: "memdisk t = apply_writes W (memdisk s)" "busyset t = {}" using assms(2) by (simp_all add: idle_busy)
  have "memdisk t m = view s m" if "m \<noteq> l_start s" for m
  proof (cases "lh_n s = 0")
    case True
    then show ?thesis using t(6) d(1) log_invD(14) [OF assms(1), of m] by (simp add: idle_busy homes_def)
  next
    case False
    then show ?thesis using t(6) d(1) commit_content_upd(1) [OF assms(1) that] that by (simp add: idle_busy)
  qed
  then show ?thesis using t(1-5) e d(2) by auto
qed

text \<open>
  C3: without a crash, \<open>commit_trans\<close> writes exactly the transaction: it returns, every home block on
  disk holds its logged content, the content the cache shows is unchanged, the log is empty and
  free for the next transaction.
\<close>

theorem commit_trans_durable:
  assumes "log_inv {} s" and "busyset s = {}"
  shows "\<exists>t. commit_trans s = Ok () t \<and> log_inv {} t \<and> \<not> l_busy t \<and> lh_n t = 0 \<and> busyset t = {} \<and> dirtyset t = {} \<and>
    (\<forall>m. m \<noteq> l_start s \<longrightarrow> memdisk t m = view s m \<and> view t m = view s m)"
  using commit_leaves [OF assms] by blast

theorem commit_trans_durable_witness:
  "\<exists>s t. sample_txn (boot 40 sample_disk) = Ok () s \<and> memdisk s 5 = (\<lambda>_. 0) \<and>
    commit_trans s = Ok () t \<and> memdisk t 5 = (\<lambda>_. 7)"
proof -
  obtain s where s: "sample_txn (boot 40 sample_disk) = Ok () s" "log_inv {} s" "busyset s = {}"
    "l_start s = 30" "view s 5 = (\<lambda>_. 7)" "memdisk s 5 = (\<lambda>_. 0)"
    using sample_txn_run by (auto simp: idle_busy)
  show ?thesis using commit_trans_durable [OF s(2,3)] s by auto
qed

text \<open>
  C4: \<open>log_write\<close> absorbs repeated writes.  On a block the transaction has logged before it takes no
  new slot of the log; on a new one it takes exactly one.  Either way the block is in the log
  afterwards, with its current content, and the home block on disk is not touched.
\<close>

theorem log_write_absorbs:
  assumes "log_inv M s" and "l_busy s" and "handle s b n" and "n < l_start s" and "lh_n s < l_size s - 1"
    and "card (busyset s \<union> homes s) < NBUF"
  shows "\<exists>t. log_write b s = Ok () t \<and> log_inv (M - {n}) t \<and>
    lh_n t = (if n \<in> homes s then lh_n s else lh_n s + 1) \<and> homes t = insert n (homes s) \<and>
    (\<exists>i. i < nat (lh_n t) \<and> lh_sector t i = n \<and> memdisk t (l_start s + i + 1) = view s n) \<and>
    (\<forall>m < l_start s. view t m = view s m \<and> memdisk t m = memdisk s m)"
proof -
  have c: "card (c_busy (cabs s) \<union> homes s) < NBUF" using assms(6) by (simp add: idle_busy)
  obtain t where t: "log_write b s = Ok () t" "log_inv (M - {n}) t" "same_log s t" "homes t = insert n (homes s)"
      "\<forall>m < l_start s. c_view (cabs t) m = c_view (cabs s) m \<and> c_disk (cabs t) m = c_disk (cabs s) m"
    using log_write_inv [OF assms(1-5) c] by blast
  have v: "\<forall>m < l_start s. view t m = view s m \<and> memdisk t m = memdisk s m" using t(5) by (simp add: idle_busy)
  have "lh_n t = (if n \<in> homes s then lh_n s else lh_n s + 1)"
  proof -
    have "card (homes t) = nat (lh_n t)" "card (homes s) = nat (lh_n s)"
      using card_homes [OF log_invD(8) [OF t(2)]] card_homes [OF log_invD(8) [OF assms(1)]] by simp_all
    moreover have "finite (homes s)" by (simp add: homes_def)
    ultimately have "nat (lh_n t) = (if n \<in> homes s then nat (lh_n s) else Suc (nat (lh_n s)))"
      using t(4) by (cases "n \<in> homes s") (simp_all add: insert_absorb)
    then show ?thesis using log_invD(3) [OF t(2)] log_invD(3) [OF assms(1)] by (auto split: if_splits)
  qed
  moreover have "\<exists>i. i < nat (lh_n t) \<and> lh_sector t i = n \<and> memdisk t (l_start s + i + 1) = view s n"
  proof -
    have "n \<in> homes t" using t(4) by simp
    then obtain i where i: "i < nat (lh_n t)" "lh_sector t i = n" by (auto simp: homes_def)
    have "memdisk t (l_start s + i + 1) = view t n"
      using log_invD(13) [OF t(2) i(1)] same_logD(1) [OF t(3)] i(2) by (simp add: idle_busy)
    then show ?thesis using i v assms(4) by auto
  qed
  ultimately show ?thesis using t(1,2,4) v by blast
qed

theorem log_write_absorbs_witness:
  "\<exists>s b u t. sample_txn (boot 40 sample_disk) = Ok () s \<and> lh_n s = 1 \<and> bread 1 5 s = Ok b u \<and>
    log_write b u = Ok () t \<and> lh_n t = 1"
proof -
  obtain s where s: "sample_txn (boot 40 sample_disk) = Ok () s" "log_inv {} s" "c_busy (cabs s) = {}" "homes s = {5}"
    "l_start s = 30" "l_size s = 10" "l_busy s"
    using sample_txn_run by auto
  have n: "lh_n s = 1" using card_homes [OF log_invD(8) [OF s(2)]] s(4) log_invD(3) [OF s(2)] by simp
  obtain b u where u: "bread 1 5 s = Ok b u" "log_inv {} u" "handle u b 5" "tabs u = (tabs s)\<lparr>t_busy := {5}\<rparr>"
    using tx.bread [OF s(2), of 5] s(3,4,5) by (auto simp: tabs_def)
  have u': "l_start u = 30" "l_size u = 10" "l_busy u" "homes u = {5}" "busyset u = {5}"
    using arg_cong [OF u(4), of t_limit] arg_cong [OF u(4), of t_room] arg_cong [OF u(4), of t_open]
      arg_cong [OF u(4), of t_logged] arg_cong [OF u(4), of t_busy] s log_invD(3,4) [OF u(2)]
    by (simp_all add: tabs_def idle_busy)
  have nu: "lh_n u = 1" using card_homes [OF log_invD(8) [OF u(2)]] u'(4) log_invD(3) [OF u(2)] by simp
  show ?thesis
    using log_write_absorbs [OF u(2) u'(3) u(3)] u' nu s(1) n u(1) by auto
qed



section \<open>The buffer cache\<close>

text \<open>
  C6: the buffer list is a least-recently-used list.  When the \<open>prev\<close>/\<open>next\<close> pointers link the
  buffers in the order \<open>xs\<close>, \<open>bget\<close> always ends: it takes the buffer that holds the sector if
  there is one (sleeping when it is locked), else recycles the last buffer of the list that is
  neither locked nor dirty, and panics only when there is none.
\<close>

theorem bget_lru:
  assumes "held s = {}" and "lru (bufs s) xs"
  shows "bget dev n s =
    (case find (\<lambda>b. b_dev (bufs s b) = dev \<and> b_sector (bufs s b) = n) xs of
       Some b \<Rightarrow> if b_busy (bufs s b) then Sleep (ChBuf b) else Ok b (s\<lparr>bufs := upd_buf b (\<lambda>x. x\<lparr>b_busy := True\<rparr>) (bufs s)\<rparr>)
     | None \<Rightarrow>
        (case find (\<lambda>b. \<not> b_busy (bufs s b) \<and> \<not> b_dirty (bufs s b)) (rev xs) of
           Some b \<Rightarrow> Ok b (s\<lparr>bufs := upd_buf b (\<lambda>x. x\<lparr>b_dev := dev, b_sector := n, b_busy := True,
             b_valid := False, b_dirty := False\<rparr>) (bufs s)\<rparr>)
         | None \<Rightarrow> Panic ''bget: no buffers''))"
  using assms lru_scan_next [OF assms(2)] lru_scan_prev [OF assms(2)]
  by (auto simp: bget_def kmonad mod_buf_def split: option.split)

theorem bget_lru_witness:
  "\<exists>s. binit (boot 40 sample_disk) = Ok () s \<and> bget 1 7 s = Ok 0 (s\<lparr>bufs := upd_buf 0 (\<lambda>x. x\<lparr>b_dev := 1, b_sector := 7,
     b_busy := True, b_valid := False, b_dirty := False\<rparr>) (bufs s)\<rparr>)"
proof -
  let ?s = "boot 40 sample_disk"
  let ?t = "?s\<lparr>bufs := binit_bufs (bufs ?s)\<rparr>"
  have t: "binit ?s = Ok () ?t" by (simp add: binit_def kmonad)
  have l: "held ?t = {}" "lru (bufs ?t) (rev [0..<NBUF])" using binit_lru by (simp_all add: boot_def boot_with_def)
  have "\<not> b_busy (bufs ?t i)" "\<not> b_dirty (bufs ?t i)" "b_dev (bufs ?t i) = NODEV" if "i < NBUF" for i
    using that by (simp_all add: binit_bufs_def binit_fold_core upd_buf_def boot_def boot_with_def)
  then have "find (\<lambda>b. b_dev (bufs ?t b) = 1 \<and> b_sector (bufs ?t b) = 7) (rev [0..<NBUF]) = None"
    "find (\<lambda>b. \<not> b_busy (bufs ?t b) \<and> \<not> b_dirty (bufs ?t b)) (rev (rev [0..<NBUF])) = Some 0"
    by (simp_all add: find_None_iff upt_rec)
  then show ?thesis using bget_lru [OF l, of 1 7] t by auto
qed

text \<open>
  C7: \<open>brelse\<close> moves the buffer to the front of the list, whatever the order was, unlocks it, and makes
  every process that sleeps on it runnable.
\<close>

theorem brelse_front:
  assumes "held s = {}" and "lru (bufs s) (us @ b # vs)" and "b_busy (bufs s b)"
  shows "\<exists>t. brelse b s = Ok () t \<and> lru (bufs t) (b # us @ vs) \<and> \<not> b_busy (bufs t b) \<and>
    (\<forall>i. b_data (bufs t i) = b_data (bufs s i) \<and> b_dirty (bufs t i) = b_dirty (bufs s i)) \<and>
    (\<forall>i < length (ptable s). p_state (ptable s ! i) = SLEEPING \<and> p_chan (ptable s ! i) = Some (ChBuf b) \<longrightarrow>
       p_state (ptable t ! i) = RUNNABLE)"
proof -
  let ?C = "upd_buf b (\<lambda>x. x\<lparr>b_busy := False\<rparr>) (brelse_links b (bufs s))"
  let ?t = "s\<lparr>bufs := ?C, ptable := wakeup1_tab (ChBuf b) (ptable s)\<rparr>"
  have "brelse b s = Ok () ?t"
    using assms(1,3) by (simp add: brelse_def kmonad mod_buf_def)
  moreover have "lru ?C (b # us @ vs)"
    by (rule lru_fields [OF brelse_links_lru [OF assms(2)]]) (simp_all add: upd_buf_def)
  moreover have "\<forall>i. b_data (?C i) = b_data (bufs s i) \<and> b_dirty (?C i) = b_dirty (bufs s i)"
    using brelse_links_core [of b "bufs s"] by (auto simp: upd_buf_def same_core_def)
  ultimately show ?thesis by (intro exI [of _ ?t]) (auto simp: upd_buf_def wakeup1_tab_nth)
qed

theorem brelse_front_witness:
  "\<exists>s t :: log_st. bget 1 7 s = Ok 0 (s\<lparr>bufs := upd_buf 0 (\<lambda>x. x\<lparr>b_busy := True\<rparr>) (bufs s)\<rparr>) \<and>
    brelse 0 (s\<lparr>bufs := upd_buf 0 (\<lambda>x. x\<lparr>b_busy := True\<rparr>) (bufs s)\<rparr>) = Ok () t \<and>
    lru (bufs s) [9, 8, 7, 6, 5, 4, 3, 2, 1, 0] \<and> lru (bufs t) [0, 9, 8, 7, 6, 5, 4, 3, 2, 1]"
proof -
  let ?s = "boot 40 sample_disk"
  let ?B = "upd_buf 0 (\<lambda>x. x\<lparr>b_dev := 1, b_sector := 7\<rparr>) (binit_bufs (bufs ?s))"
  let ?t = "?s\<lparr>bufs := ?B\<rparr>"
  let ?u = "?t\<lparr>bufs := upd_buf 0 (\<lambda>x. x\<lparr>b_busy := True\<rparr>) ?B\<rparr>"
  have r: "rev [0..<NBUF] = [9, 8, 7, 6, 5, 4, 3, 2, 1, 0]" by (simp add: upt_rec)
  have l: "lru (bufs ?t) [9, 8, 7, 6, 5, 4, 3, 2, 1, 0]"
    using lru_fields [OF binit_lru [of "bufs ?s", unfolded r], of ?B] by (simp add: upd_buf_def)
  have lu: "lru (bufs ?u) ([9, 8, 7, 6, 5, 4, 3, 2, 1] @ 0 # [])"
    using lru_fields [OF l, of "bufs ?u"] by (simp add: upd_buf_def)
  have h: "held ?t = {}" "held ?u = {}" "b_busy (bufs ?u 0)" by (simp_all add: boot_def boot_with_def upd_buf_def)
  have B: "\<not> b_busy (?B 0)" "b_dev (?B 0) = 1" "b_sector (?B 0) = 7"
    "\<And>i. 0 < i \<Longrightarrow> i < NBUF \<Longrightarrow> b_dev (?B i) = NODEV"
    by (simp_all add: binit_bufs_def binit_fold_core upd_buf_def boot_def boot_with_def)
  have "find (\<lambda>b. b_dev (bufs ?t b) = 1 \<and> b_sector (bufs ?t b) = 7) [9, 8, 7, 6, 5, 4, 3, 2, 1, 0] = Some 0"
    using B by simp
  then have g: "bget 1 7 ?t = Ok 0 ?u"
    using B(1) lru_scan_next [OF l, of "\<lambda>b. b_dev (bufs ?t b) = 1 \<and> b_sector (bufs ?t b) = 7"] h(1)
    by (simp add: bget_def kmonad mod_buf_def)
  obtain t where t: "brelse 0 ?u = Ok () t" "lru (bufs t) (0 # [9, 8, 7, 6, 5, 4, 3, 2, 1] @ [])"
    using brelse_front [OF h(2) lu h(3)] by blast
  show ?thesis by (rule exI [of _ ?t], rule exI [of _ t]) (use g t l in simp)
qed

text \<open>
  C8: the cache is transparent.  \<open>bread\<close> of a sector that is not locked always succeeds while a
  buffer can be recycled, returns a locked buffer with the current content of the sector (the
  cached copy, also a dirty one, or else the disk's), and changes neither the content of any
  sector nor the disk.
\<close>

theorem bread_current:
  assumes "binv s" and "n \<notin> busyset s" and "n < disksize s" and "card (busyset s \<union> dirtyset s) < NBUF"
  shows "\<exists>b t. bread 1 n s = Ok b t \<and> binv t \<and> handle t b n \<and> b_data (bufs t b) = view s n \<and>
    view t = view s \<and> memdisk t = memdisk s \<and> busyset t = insert n (busyset s)"
proof -
  obtain b t where t: "bread 1 n s = Ok b t" "binv t" "handle t b n"
      "cabs t = (cabs s)\<lparr>c_busy := insert n (c_busy (cabs s))\<rparr>"
    using bc.bread [OF assms(1), of n] assms(2-4) by (auto simp: idle_busy)
  have "c_view (cabs t) = c_view (cabs s)" "c_disk (cabs t) = c_disk (cabs s)"
      "c_busy (cabs t) = insert n (c_busy (cabs s))" using t(4) by simp_all
  then have v: "view t = view s" "memdisk t = memdisk s" "busyset t = insert n (busyset s)" by (simp_all add: idle_busy)
  show ?thesis using t(1,2,3) v handle_view [OF t(2,3)] by auto
qed

theorem bread_current_witness:
  "\<exists>s b t. sample_txn (boot 40 sample_disk) = Ok () s \<and> bread 1 5 s = Ok b t \<and> b_data (bufs t b) = (\<lambda>_. 7) \<and>
    memdisk t 5 = (\<lambda>_. 0)"
proof -
  obtain s where s: "sample_txn (boot 40 sample_disk) = Ok () s" "log_inv {} s" "c_busy (cabs s) = {}" "homes s = {5}"
    "disksize s = 40" "view s 5 = (\<lambda>_. 7)" "memdisk s 5 = (\<lambda>_. 0)"
    using sample_txn_run by auto
  have "binv s" "busyset s = {}" "dirtyset s = {5}"
    using log_invD(1,10) [OF s(2)] s(3,4) by (simp_all add: idle_busy)
  then show ?thesis using bread_current [of s 5] s by auto
qed

end
