(* ===== verification/Fs_Trans.thy ===== *)
theory Fs_Trans
  imports Fs_Append Log_Props
begin

text \<open>
  Transactions as the file system sees them: opening one, and what a commit leaves on the disk.
\<close>

lemma l_busy_cabs [simp]: "cabs (s\<lparr>l_busy := b\<rparr>) = cabs s"
proof -
  have "view (s\<lparr>l_busy := b\<rparr>) = view s" by (simp add: view_def fun_eq_iff split: option.split)
  then show ?thesis by (simp add: cabs_def busyset_def dirtyset_def)
qed

lemma begin_tabs:
  assumes "fs_idle s" and "\<not> l_busy s"
  shows "begin_trans s = Ok () (s\<lparr>l_busy := True\<rparr>)" "fs_idle (s\<lparr>l_busy := True\<rparr>)" "tabs (s\<lparr>l_busy := True\<rparr>) = (tabs s)\<lparr>t_open := True\<rparr>"
proof -
  show "begin_trans s = Ok () (s\<lparr>l_busy := True\<rparr>)" by (rule begin_trans_run [OF idle_held [OF assms(1)] assms(2)])
  show "fs_idle (s\<lparr>l_busy := True\<rparr>)" "tabs (s\<lparr>l_busy := True\<rparr>) = (tabs s)\<lparr>t_open := True\<rparr>"
    using assms by (simp_all add: tabs_def fs_idle_def log_inv_def homes_def binv_def cong: if_cong)
qed

lemma room_start: "lh_n s = 0 \<Longrightarrow> t_logged (tabs s) = {}"
  by (simp add: tabs_def homes_def)

lemma durable: 
  assumes "fs_idle s" and "lh_n s = 0"
  shows "t_disk (tabs s) = t_view (tabs s)"
proof -
  have "c_view (cabs s) m = c_disk (cabs s) m" for m
    using assms log_invD(14) [of "{}" s m] by (simp add: fs_idle_def homes_def)
  then show ?thesis by (simp add: tabs_def fun_eq_iff)
qed

lemma commit_tabs:
  assumes "fs_idle s"
  shows "\<exists>t. commit_trans s = Ok () t \<and> fs_idle t \<and> \<not> l_busy t \<and> lh_n t = 0 \<and> trest t = trest s \<and>
    t_view (tabs t) = t_view (tabs s) \<and> t_disk (tabs t) = t_view (tabs s) \<and> t_limit (tabs t) = t_limit (tabs s) \<and>
    t_room (tabs t) = t_room (tabs s)"
proof -
  have inv: "log_inv {} s" "busyset s = {}" using assms by (simp_all add: fs_idle_def tabs_def idle_busy)
  obtain t where t: "commit_trans s = Ok () t" "log_inv {} t" "\<not> l_busy t" "lh_n t = 0" "busyset t = {}"
    "same_log s (t\<lparr>l_busy := l_busy s\<rparr>)" "\<forall>m. m \<noteq> l_start s \<longrightarrow> memdisk t m = view s m \<and> view t m = view s m"
    using commit_leaves [OF inv] by blast
  have "l_start t = l_start s" "l_size t = l_size s" "trest t = trest s" using t(6) by (auto simp: same_log_def trest_def)
  then have "fs_idle t \<and> \<not> l_busy t \<and> lh_n t = 0 \<and> trest t = trest s \<and>
    t_view (tabs t) = t_view (tabs s) \<and> t_disk (tabs t) = t_view (tabs s) \<and> t_limit (tabs t) = t_limit (tabs s) \<and>
    t_room (tabs t) = t_room (tabs s)"
    using t by (auto simp: fs_idle_def tabs_def idle_busy fun_eq_iff cabs_def)
  then show ?thesis using t(1) by blast
qed

end
