(* ===== verification/Fs_Props.thy ===== *)
theory Fs_Props
  imports Fs_Trans
begin

text \<open>
  The properties of the file system.  The instances are taken from a run of the model on a disk of
  40 blocks with one inode block, one bitmap block and a file of one data block.
\<close>

section \<open>Path elements\<close>

text \<open>The reference for \<open>skipelem\<close>: the non-empty pieces of a path between slashes.\<close>

fun split_at :: "'a \<Rightarrow> 'a list \<Rightarrow> 'a list list" where
  "split_at c [] = [[]]"
| "split_at c (x # xs) = (if x = c then [] # split_at c xs else (x # hd (split_at c xs)) # tl (split_at c xs))"

definition elems :: "u8 list \<Rightarrow> u8 list list" where
  "elems path = filter (\<lambda>e. e \<noteq> []) (split_at slash path)"

text \<open>Array \<open>name\<close> holds element \<open>e\<close>, cut to \<open>DIRSIZ\<close> bytes.\<close>

definition holds_name :: "bytes \<Rightarrow> u8 list \<Rightarrow> bool" where
  "holds_name name e \<longleftrightarrow> (\<forall>i < min DIRSIZ (length e). name i = e ! i) \<and> (length e < DIRSIZ \<longrightarrow> name (length e) = 0)"

lemma split_at_cons: "split_at c xs \<noteq> []"
  by (cases xs) auto

lemma split_at_span:
  "split_at c xs = takeWhile (\<lambda>x. x \<noteq> c) xs # (case dropWhile (\<lambda>x. x \<noteq> c) xs of [] \<Rightarrow> [] | _ # ys \<Rightarrow> split_at c ys)"
  by (induction xs) (auto split: list.split)

lemma elems_slash: "elems (dropWhile (\<lambda>c. c = slash) path) = elems path"
  by (induction path) (auto simp: elems_def)

lemma elems_first:
  assumes "path \<noteq> []" and "hd path \<noteq> slash"
  shows "elems path = takeWhile (\<lambda>c. c \<noteq> slash) path # elems (dropWhile (\<lambda>c. c \<noteq> slash) path)"
proof -
  have "takeWhile (\<lambda>c. c \<noteq> slash) path \<noteq> []" using assms by (cases path) auto
  moreover have "elems (dropWhile (\<lambda>c. c \<noteq> slash) path) =
      filter (\<lambda>e. e \<noteq> []) (case dropWhile (\<lambda>c. c \<noteq> slash) path of [] \<Rightarrow> [] | _ # ys \<Rightarrow> split_at slash ys)"
  proof (cases "dropWhile (\<lambda>c. c \<noteq> slash) path")
    case (Cons y ys)
    then have "y = slash" using hd_dropWhile [of "\<lambda>c. c \<noteq> slash" path] by auto
    then show ?thesis using Cons by (simp add: elems_def)
  next
    case Nil
    show ?thesis unfolding Nil by (simp add: elems_def)
  qed
  ultimately show ?thesis by (simp add: elems_def split_at_span [of slash path])
qed

lemma elems_empty: "p = [] \<or> hd p \<noteq> slash \<Longrightarrow> p = [] \<longleftrightarrow> elems p = []"
  using elems_first [of p] by (cases "p = []") (simp_all add: elems_def)

text \<open>
  C9: \<open>skipelem\<close> takes paths apart at the slashes.  It returns 0 exactly when the path has no element
  left; otherwise \<open>name\<close> gets the first element, cut to \<open>DIRSIZ\<close> bytes, and the returned path has
  the remaining elements and no leading slash, so it is empty exactly when the element was the
  last one.  The returned path is shorter, so lookup of a path ends.
\<close>

theorem skipelem_elems:
  "case skipelem path name of
     None \<Rightarrow> elems path = []
   | Some (path', name') \<Rightarrow> \<exists>e. elems path = e # elems path' \<and> holds_name name' e \<and>
       dropWhile (\<lambda>c. c = slash) path' = path' \<and> (path' = [] \<longleftrightarrow> elems path' = []) \<and> length path' < length path"
proof -
  let ?q = "dropWhile (\<lambda>c. c = slash) path"
  show ?thesis
  proof (cases "?q = []")
    case True
    then have "elems path = []" using elems_slash [of path] unfolding True by (simp add: elems_def)
    then show ?thesis using True by (simp add: skipelem_def)
  next
    case False
    let ?e = "takeWhile (\<lambda>c. c \<noteq> slash) ?q" and ?r = "dropWhile (\<lambda>c. c \<noteq> slash) ?q"
    let ?p = "dropWhile (\<lambda>c. c = slash) ?r"
    obtain name' where s: "skipelem path name = Some (?p, name')"
        and n: "name' = (if DIRSIZ \<le> length ?e then blit name 0 (cstr ?e) 0 DIRSIZ else (blit name 0 (cstr ?e) 0 (length ?e))(length ?e := 0))"
      using False by (simp add: skipelem_def Let_def)
    have "hd ?q \<noteq> slash" using hd_dropWhile [OF False] by simp
    then have "elems path = ?e # elems ?p" using elems_first [OF False] elems_slash [of path] elems_slash [of ?r] by simp
    moreover have "holds_name name' ?e" by (auto simp: n holds_name_def cstr_def)
    moreover have p: "?p = [] \<or> hd ?p \<noteq> slash" using hd_dropWhile [of "\<lambda>c. c = slash" ?r] by auto
    moreover have "dropWhile (\<lambda>c. c = slash) ?p = ?p" by (simp add: dropWhile_idem)
    moreover have "?p = [] \<longleftrightarrow> elems ?p = []" by (rule elems_empty [OF p])
    moreover have "length ?p < length path" by (rule skipelem_shorter [OF s])
    ultimately show ?thesis unfolding s by (simp only: option.case prod.case) blast
  qed
qed

section \<open>A concrete file system\<close>

definition sample_fs_disk :: "nat \<Rightarrow> bytes" where
  "sample_fs_disk = (\<lambda>_ _. 0)(1 := st32 (st32 (st32 (\<lambda>_. 0) 0 40) 8 8) 12 10, 4 := (\<lambda>_. 0)(0 := 0x1F, 1 := 4))"

definition sample_inode :: inode where
  "sample_inode = \<lparr>i_dev = 1, i_inum = 1, i_ref = 1, i_busy = True, i_valid = True, i_type = T_FILE, i_major = 0,
     i_minor = 0, i_nlink = 1, i_size = 100, i_addrs = (\<lambda>_. 0)(0 := 10)\<rparr>"

definition sample_icache :: "nat \<Rightarrow> inode" where
  "sample_icache = (\<lambda>_. no_inode)(0 := sample_inode)"

definition sample_start :: "(fs_st, chan, unit) km" where
  "sample_start = kseq binit (kseq initlog begin_trans)"

lemma sample_fs_sb: "sb_of (sample_fs_disk 1) = \<lparr>sb_size = 40, sb_nblocks = 0, sb_ninodes = 8, sb_nlog = 10\<rparr>"
proof -
  have z: "ld32 (\<lambda>_. 0 :: u8) k = 0" for k by (rule ld32_zero) simp
  show ?thesis by (simp add: sb_of_def sample_fs_disk_def le_fields z)
qed

lemma sample_boot_run:
  "\<exists>r. kseq binit initlog (boot_with rest 40 sample_fs_disk) = Ok () r \<and> fs_idle r \<and> lh_n r = 0 \<and> \<not> l_busy r \<and> trest r = (0, rest) \<and>
    t_limit (tabs r) = 30 \<and> t_room (tabs r) = 9 \<and> (\<forall>m<30. t_view (tabs r) m = sample_fs_disk m)"
proof -
  have g: "sb_log_start sample_fs_disk = 30" "sb_log_size sample_fs_disk = 10"
    using sample_fs_sb by (simp_all add: sb_log_start_def sb_log_size_def)
  have z: "log_count (sample_fs_disk 30) = 0" by (simp add: sample_fs_disk_def log_count_def ld32_zero)
  have "geometry_ok 40 sample_fs_disk" "log_ok (sb_log_start sample_fs_disk) 40 (sample_fs_disk (sb_log_start sample_fs_disk))"
    using g z by (simp_all add: geometry_ok_def log_ok_empty)
  then obtain r h0 where r: "kseq binit initlog (boot_with rest 40 sample_fs_disk) = Ok () r" "log_inv {} r"
      "lh_n r = 0" "c_busy (cabs r) = {}" "l_start r = 30" "l_size r = 10" "\<not> l_busy r" "trest r = (0, rest)"
      "diskhist r = installs 30 sample_fs_disk @ [(30, h0)]" "memdisk r = apply_writes (diskhist r) sample_fs_disk"
      "view r = memdisk r"
    using boot_with_run [of 40 sample_fs_disk rest] g by auto
  have "installs 30 sample_fs_disk = []" using z by (simp add: installs_def)
  then have v: "m \<noteq> 30 \<Longrightarrow> view r m = sample_fs_disk m" for m using r(9-11) by simp
  have "fs_idle r" "t_limit (tabs r) = 30" "t_room (tabs r) = 9" "\<forall>m<30. t_view (tabs r) m = sample_fs_disk m"
    using r(2,4,5,6) v by (simp_all add: fs_idle_def tabs_def idle_busy)
  then show ?thesis using r(1,3,7,8) by blast
qed

lemma sample_fs_run:
  "\<exists>s. sample_start (boot_with \<lparr>icache = sample_icache\<rparr> 40 sample_fs_disk) = Ok () s \<and> fs_idle s \<and> room_for 9 s \<and>
    icache s = sample_icache \<and> t_limit (tabs s) = 30 \<and> (\<forall>m<30. t_view (tabs s) m = sample_fs_disk m)"
proof -
  obtain r where r: "kseq binit initlog (boot_with \<lparr>icache = sample_icache\<rparr> 40 sample_fs_disk) = Ok () r" "fs_idle r"
      "lh_n r = 0" "\<not> l_busy r" "trest r = (0, \<lparr>icache = sample_icache\<rparr>)" "t_limit (tabs r) = 30" "t_room (tabs r) = 9"
      "\<forall>m<30. t_view (tabs r) m = sample_fs_disk m"
    using sample_boot_run [of "\<lparr>icache = sample_icache\<rparr>"] by blast
  note b = begin_tabs [OF r(2,4)]
  have "sample_start (boot_with \<lparr>icache = sample_icache\<rparr> 40 sample_fs_disk) = Ok () (r\<lparr>l_busy := True\<rparr>)"
    using r(1) b(1) by (auto simp: sample_start_def kbind_Ok_iff kmonad)
  moreover have "room_for 9 (r\<lparr>l_busy := True\<rparr>)" using r(3,7) b(3) by (simp add: room_for_def room_start)
  moreover have "icache (r\<lparr>l_busy := True\<rparr>) = sample_icache" using r(5) by (cases r) (simp add: trest_def)
  ultimately show ?thesis using b r(6,8) by (intro exI [of _ "r\<lparr>l_busy := True\<rparr>"]) simp
qed

lemma sample_view:
  assumes "\<forall>m<30. V m = sample_fs_disk m"
  shows "sb_at V = \<lparr>sb_size = 40, sb_nblocks = 0, sb_ninodes = 8, sb_nlog = 10\<rparr>" "nblk V = 40"
    "b < 40 \<Longrightarrow> bitmap_block V b = 4" "V 4 = (\<lambda>_. 0)(0 := 0x1F, 1 := 4)" "fs_layout 30 V"
  using assms sample_fs_sb
  by (auto simp: sb_at_def nblk_def bitmap_block_def BBLOCK_def fs_layout_def sample_fs_disk_def)

lemma sample_free:
  assumes "\<forall>m<30. V m = sample_fs_disk m"
  shows "blk_free V 5" "y < 5 \<Longrightarrow> \<not> blk_free V y" "\<not> blk_free V 10"
proof -
  note v = sample_view [OF assms]
  show "blk_free V 5" "\<not> blk_free V 10" by (simp_all add: blk_free_def v(3,4) bit_clear_iff)
  show "\<not> blk_free V y" if "y < 5"
  proof -
    have "y \<in> {0, 1, 2, 3, 4}" using that by auto
    then show ?thesis by (auto simp: blk_free_def v(3,4) bit_clear_iff)
  qed
qed

section \<open>Blocks\<close>

text \<open>
  C10: \<open>balloc\<close> returns the lowest-numbered free block, marks exactly that block in use in the bitmap,
  fills it with zeros, and changes no other block; nothing reaches the home blocks on disk before
  the commit.  When no block is free it panics.
\<close>

theorem balloc_lowest_free:
  assumes "fs_idle s" and "room_for 2 s" and "V = t_view (tabs s)" and "fs_layout (t_limit (tabs s)) V"
  shows "(\<forall>x < nblk V. x < t_limit (tabs s) \<and> data_block V x \<and> blk_free V x \<and> (\<forall>y<x. \<not> blk_free V y) \<longrightarrow>
      (\<exists>t V'. balloc 1 s = Ok x t \<and> fs_idle t \<and> V' = t_view (tabs t) \<and> t_disk (tabs t) = t_disk (tabs s) \<and>
        (\<forall>y < nblk V. blk_free V' y \<longleftrightarrow> blk_free V y \<and> y \<noteq> x) \<and> (\<forall>i < BSIZE. V' x i = 0) \<and>
        (\<forall>m. m \<noteq> x \<and> m \<noteq> bitmap_block V x \<longrightarrow> V' m = V m))) \<and>
    ((\<forall>y < nblk V. \<not> blk_free V y) \<longrightarrow> balloc 1 s = Panic ''balloc: out of blocks'')"
proof (intro conjI allI impI)
  fix x
  assume n: "x < nblk V" and x: "x < t_limit (tabs s) \<and> data_block V x \<and> blk_free V x \<and> (\<forall>y<x. \<not> blk_free V y)"
  obtain t where t: "balloc 1 s = Ok x t" "fs_idle t" "tabs t = after_alloc x (tabs s)"
    using balloc_run [OF assms(1,2)] assms(3,4) n x by auto
  have "t_disk (tabs t) = t_disk (tabs s)" using t(3) by (simp add: after_alloc_def Let_def)
  then show "\<exists>t V'. balloc 1 s = Ok x t \<and> fs_idle t \<and> V' = t_view (tabs t) \<and> t_disk (tabs t) = t_disk (tabs s) \<and>
      (\<forall>y < nblk V. blk_free V' y \<longleftrightarrow> blk_free V y \<and> y \<noteq> x) \<and> (\<forall>i < BSIZE. V' x i = 0) \<and>
      (\<forall>m. m \<noteq> x \<and> m \<noteq> bitmap_block V x \<longrightarrow> V' m = V m)"
    using t after_alloc_view [of "tabs s" x] x n assms(3) by auto
next
  assume "\<forall>y < nblk V. \<not> blk_free V y"
  then show "balloc 1 s = Panic ''balloc: out of blocks''" using balloc_full [OF assms(1)] assms(3,4) by simp
qed

theorem balloc_lowest_free_witness:
  "\<exists>s t. sample_start (boot_with \<lparr>icache = sample_icache\<rparr> 40 sample_fs_disk) = Ok () s \<and> balloc 1 s = Ok 5 t \<and>
    blk_free (t_view (tabs s)) 5 \<and> \<not> blk_free (t_view (tabs t)) 5"
proof -
  obtain s where s: "sample_start (boot_with \<lparr>icache = sample_icache\<rparr> 40 sample_fs_disk) = Ok () s" "fs_idle s"
      "room_for 9 s" "t_limit (tabs s) = 30" "\<forall>m<30. t_view (tabs s) m = sample_fs_disk m"
    using sample_fs_run by blast
  note v = sample_view [OF s(5)] and f = sample_free [OF s(5)]
  have "room_for 2 s" using s(3) by (simp add: room_for_def)
  moreover have "data_block (t_view (tabs s)) 5" using v(2,3) by (simp add: data_block_def)
  moreover have "fs_layout (t_limit (tabs s)) (t_view (tabs s))" using v(5) s(4) by simp
  moreover have "5 < nblk (t_view (tabs s))" "5 < t_limit (tabs s)" using v(2) s(4) by simp_all
  ultimately show ?thesis
    using balloc_lowest_free [OF s(2) _ refl] s(1) f(1) f(2) by blast
qed

text \<open>
  C11: \<open>bfree\<close> undoes \<open>balloc\<close>: freeing the block just allocated gives back the bitmap, bit for bit.
  Freeing a block that is free is refused with a panic.
\<close>

theorem bfree_balloc:
  assumes "fs_idle s" and "room_for 3 s" and "V = t_view (tabs s)" and "fs_layout (t_limit (tabs s)) V"
    and "x < nblk V" and "x < t_limit (tabs s)" and "data_block V x" and "blk_free V x" and "\<forall>y<x. \<not> blk_free V y"
  shows "\<exists>t u. balloc 1 s = Ok x t \<and> bfree 1 x t = Ok () u \<and> fs_idle u \<and>
    (\<forall>m. m \<noteq> x \<longrightarrow> t_view (tabs u) m = V m) \<and> bfree 1 x s = Panic ''freeing free block''"
proof -
  have "room_for 2 s" using assms(2) by (simp add: room_for_def)
  then obtain t where t: "balloc 1 s = Ok x t" "fs_idle t" "tabs t = after_alloc x (tabs s)"
    using balloc_run [OF assms(1)] assms(3-9) by auto
  let ?V = "t_view (tabs t)" and ?B = "bitmap_block V x"
  have a: "sb_at ?V = sb_at V" "\<forall>y < nblk V. blk_free ?V y \<longleftrightarrow> blk_free V y \<and> y \<noteq> x"
    using after_alloc_view(1,2) [of "tabs s" x] assms(3,5,7) t(3) by simp_all
  have bb: "bitmap_block ?V y = bitmap_block V y" "nblk ?V = nblk V" for y using a(1) by (simp_all add: bitmap_block_def nblk_def)
  have B: "?B \<noteq> x" using assms(5,7) by (auto simp: data_block_def)
  have fin: "finite (t_logged (tabs s))" using tx.logged [OF fs_idleD(1) [OF assms(1)]] by simp
  have "card (insert x (insert ?B (t_logged (tabs s)))) \<le> card (t_logged (tabs s)) + 2"
    using fin by (simp add: card_insert_if)
  then have r: "room_for 1 t" using assms(2,3) t(3) by (simp add: room_for_def after_alloc_def Let_def)
  have "fs_layout (t_limit (tabs t)) ?V" using assms(4) bb t(3) by (simp add: fs_layout_def after_alloc_def Let_def)
  moreover have "x < nblk ?V" "\<not> blk_free ?V x" using assms(5) bb(2) a(2) by simp_all
  ultimately obtain u where u: "bfree 1 x t = Ok () u" "fs_idle u" "tabs u = after_free x (tabs t)"
    using bfree_run [OF t(2) r, of x] by blast
  have "t_view (tabs u) m = V m" if "m \<noteq> x" for m
  proof (cases "m = ?B")
    case True
    have "?V ?B = set_bit_at (x mod BPB) (V ?B)" using B assms(3) t(3) by (simp add: after_alloc_def Let_def)
    then show ?thesis
      using True u(3) bb assms(8) set_clear_bit [of "V ?B" "x mod BPB"] by (simp add: after_free_def Let_def blk_free_def)
  next
    case False
    then show ?thesis using that u(3) bb t(3) assms(3) by (simp add: after_free_def after_alloc_def Let_def)
  qed
  moreover have "bfree 1 x s = Panic ''freeing free block''" using bfree_free [OF assms(1)] assms(3,4,5,8) by simp
  ultimately show ?thesis using t(1) u by blast
qed

theorem bfree_balloc_witness:
  "\<exists>s t u. sample_start (boot_with \<lparr>icache = sample_icache\<rparr> 40 sample_fs_disk) = Ok () s \<and> balloc 1 s = Ok 5 t \<and>
    bfree 1 5 t = Ok () u \<and> t_view (tabs u) 4 = t_view (tabs s) 4"
proof -
  obtain s where s: "sample_start (boot_with \<lparr>icache = sample_icache\<rparr> 40 sample_fs_disk) = Ok () s" "fs_idle s"
      "room_for 9 s" "t_limit (tabs s) = 30" "\<forall>m<30. t_view (tabs s) m = sample_fs_disk m"
    using sample_fs_run by blast
  note v = sample_view [OF s(5)] and f = sample_free [OF s(5)]
  have "room_for 3 s" using s(3) by (simp add: room_for_def)
  moreover have "data_block (t_view (tabs s)) 5" using v(2,3) by (simp add: data_block_def)
  moreover have "fs_layout (t_limit (tabs s)) (t_view (tabs s))" using v(5) s(4) by simp
  moreover have "5 < nblk (t_view (tabs s))" "5 < t_limit (tabs s)" using v(2) s(4) by simp_all
  ultimately have "\<exists>t u. balloc 1 s = Ok 5 t \<and> bfree 1 5 t = Ok () u \<and> fs_idle u \<and>
      (\<forall>m. m \<noteq> 5 \<longrightarrow> t_view (tabs u) m = t_view (tabs s) m) \<and> bfree 1 5 s = Panic ''freeing free block''"
    using bfree_balloc [OF s(2) _ refl] f(1) f(2) by blast
  then show ?thesis using s(1) by auto
qed

section \<open>Files\<close>


text \<open>The sample file has one block; writing 1000 bytes at offset 50 allocates two more.\<close>

lemma sample_reg_file:
  assumes idle: "fs_idle s" and i: "icache s 0 = sample_inode\<lparr>i_busy := b\<rparr>" and l: "t_limit (tabs s) = 30"
    and v: "\<forall>m<30. t_view (tabs s) m = sample_fs_disk m"
  shows "reg_file 0 1 s" "file_size 0 s = 100" "bitmap_blocks (t_view (tabs s)) = {4}" "5 \<le> free_blocks s"
proof -
  let ?V = "t_view (tabs s)" and ?x = "icache s 0"
  note V = sample_view [OF v] and f = sample_free [OF v]
  have x: "blk_addr ?V ?x 0 = 10" "ind_block ?x = 0" "i_dev ?x = 1" "i_inum ?x = 1" "i_type ?x = T_FILE" "i_size ?x = 100"
      "\<And>k. 0 < k \<Longrightarrow> i_addrs ?x k = 0"
    using i by (simp_all add: blk_addr_def ind_block_def sample_inode_def)
  have "(\<forall>b<40. bitmap_block ?V b < y) \<longleftrightarrow> 4 < y" for y
  proof
    assume "\<forall>b<40. bitmap_block ?V b < y"
    then have "bitmap_block ?V 0 < y" by simp
    then show "4 < y" using V(3) [of 0] by simp
  qed (use V(3) in simp)
  then have d: "data_block ?V y \<longleftrightarrow> 4 < y" for y using V(2) by (auto simp: data_block_def)
  have "4 < y" if "blk_free ?V y" for y using f(2) [of y] that by linarith
  then have a: "alloc_ok 30 ?V" using V(5) d by (simp add: alloc_ok_def)
  have "file_whole 30 ?V ?x 1"
    unfolding file_whole_def file_map_def file_blocks_def used_block_def using x V(2) f(3) d by (simp add: lessThan_Suc)
  then show "reg_file 0 1 s" unfolding reg_file_def file_size_def using idle l x a V(1) by (simp add: IBLOCK_def)
  show "file_size 0 s = 100" using x by (simp add: file_size_def)
  have "bitmap_block ?V ` {..<40} = (\<lambda>_. 4) ` {..<40 :: nat}" using V(3) by (intro image_cong) simp_all
  then show "bitmap_blocks ?V = {4}" using V(2) by (simp add: bitmap_blocks_def image_constant_conv lessThan_empty_iff)
  have "{5, 6, 7, 8, 9} \<subseteq> free_below 30 ?V" using V(2,3,4) by (simp add: free_below_def blk_free_def bit_clear_iff)
  then have "card {5, 6, 7, 8, 9 :: nat} \<le> card (free_below 30 ?V)" by (rule card_mono [rotated]) (simp add: free_below_def)
  then show "5 \<le> free_blocks s" using l by (simp add: free_blocks_def)
qed

lemma sample_file_open:
  assumes "fs_idle s" and "icache s = sample_icache" and "t_limit (tabs s) = 30" and "\<forall>m<30. t_view (tabs s) m = sample_fs_disk m"
  shows "file_open 0 1 s" "file_size 0 s = 100"
proof -
  have "blk_addr V sample_inode 0 = 10" for V by (simp add: blk_addr_def sample_inode_def)
  moreover have "i_dev sample_inode = 1" "i_inum sample_inode = 1" "i_type sample_inode = T_FILE" "ind_block sample_inode = 0"
    by (simp_all add: sample_inode_def ind_block_def)
  ultimately show "file_open 0 1 s" using assms by (simp add: file_open_def sample_icache_def file_ok_def IBLOCK_def lessThan_Suc)
  show "file_size 0 s = 100" using assms(2) by (simp add: file_size_def sample_icache_def sample_inode_def)
qed


text \<open>
  C13: \<open>readi\<close> never reads past the end of a file: from an offset within the file it returns the smaller
  of the count and the bytes left, leaves the rest of the buffer alone and changes nothing; an
  offset past the end or a range that wraps around 32 bits gives -1 and leaves the buffer alone.
\<close>

theorem readi_bounds:
  assumes F: "file_open ip nb s" and sz: "file_size ip s \<le> nb * BSIZE"
  shows "if file_size ip s < unat off \<or> 2 ^ 32 \<le> unat off + unat n then readi dv ip dst off n s = Ok (-1, dst) s
    else \<exists>t r buf. readi dv ip dst off n s = Ok (r, buf) t \<and> r = int (min (unat n) (file_size ip s - unat off)) \<and>
      (\<forall>i. buf i = (if int i < r then file_bytes ip s (unat off + i) else dst i)) \<and> tabs t = tabs s \<and> icache t = icache s"
proof (cases "file_size ip s < unat off \<or> 2 ^ 32 \<le> unat off + unat n")
  case True
  then show ?thesis using readi_refuses(1) [OF file_openD(3) [OF F]] by simp
next
  case False
  then obtain t m where "m = min (unat n) (file_size ip s - unat off)" "tabs t = tabs s" "icache t = icache s"
      "readi dv ip dst off n s = Ok (int m, \<lambda>i. if i < m then file_bytes ip s (unat off + i) else dst i) t"
    using readi_run [OF F _ sz, of off n dv dst] by auto
  then show ?thesis unfolding if_not_P [OF False] by (intro exI conjI) (assumption | simp)+
qed

theorem readi_bounds_witness:
  "\<exists>s t buf. sample_start (boot_with \<lparr>icache = sample_icache\<rparr> 40 sample_fs_disk) = Ok () s \<and>
    readi \<lparr>dev_read = \<lambda>_. None, dev_write = \<lambda>_. None\<rparr> 0 (\<lambda>_. 1) 60 80 s = Ok (40, buf) t \<and> buf 39 = 0 \<and> buf 40 = 1"
proof -
  obtain s where s: "sample_start (boot_with \<lparr>icache = sample_icache\<rparr> 40 sample_fs_disk) = Ok () s" "fs_idle s"
      "icache s = sample_icache" "t_limit (tabs s) = 30" "\<forall>m<30. t_view (tabs s) m = sample_fs_disk m"
    using sample_fs_run by blast
  note F = sample_file_open [OF s(2,3,4,5)]
  have "file_bytes 0 s 99 = 0"
    using s(3,5) by (simp add: file_bytes_def fcontent_def sample_icache_def blk_addr_def sample_inode_def sample_fs_disk_def)
  then show ?thesis
    using readi_bounds [OF F(1), of 60 80 "\<lparr>dev_read = \<lambda>_. None, dev_write = \<lambda>_. None\<rparr>" "\<lambda>_. 1"] F(2) s(1) by auto
qed

section \<open>Inodes\<close>

text \<open>
  C14: \<open>iupdate\<close> and \<open>ilock\<close> are inverse: after \<open>iupdate\<close>, every field of the cached inode is in the
  inode's slot of its disk block and all other inodes of the disk are as before; \<open>ilock\<close> of an
  entry for this inode that is not valid loads all those fields again, whatever the entry held.
\<close>

theorem iupdate_ilock:
  assumes idle: "fs_idle s" and room: "room_for 1 s" and x: "icache s ip = x" "i_dev x = 1" "i_type x \<noteq> 0"
    and ib: "IBLOCK (i_inum x) < t_limit (tabs s)"
    and y: "i_dev y = 1" "i_inum y = i_inum x" "1 \<le> i_ref y" "\<not> i_busy y" "\<not> i_valid y"
  shows "\<exists>t u. iupdate ip s = Ok () t \<and>
    (\<forall>j. same_dinode (disk_inode (t_view (tabs t)) j) (if j = i_inum x then dinode_of x else disk_inode (t_view (tabs s)) j)) \<and>
    ilock ip (t\<lparr>icache := (icache t)(ip := y)\<rparr>) = Ok () u \<and>
    same_dinode (dinode_of (icache u ip)) (dinode_of x) \<and> i_valid (icache u ip) \<and> i_busy (icache u ip)"
proof -
  obtain t where t: "iupdate ip s = Ok () t" "fs_idle t" "t_limit (tabs t) = t_limit (tabs s)"
      "t_view (tabs t) = (t_view (tabs s))(IBLOCK (i_inum x) := put_dinode (i_inum x mod IPB) (dinode_of x) (t_view (tabs s) (IBLOCK (i_inum x))))"
    using iupdate_run [OF idle room x(1,2) ib] by auto
  have d: "same_dinode (disk_inode (t_view (tabs t)) j) (if j = i_inum x then dinode_of x else disk_inode (t_view (tabs s)) j)" for j
    unfolding t(4) by (rule disk_inode_update)
  let ?t = "t\<lparr>icache := (icache t)(ip := y)\<rparr>"
  have ty: "d_type (disk_inode (t_view (tabs t)) (i_inum x)) \<noteq> 0"
    using d [of "i_inum x"] x(3) by (simp add: same_dinode_def dinode_of_def)
  have "fs_idle ?t" "icache ?t ip = y" "IBLOCK (i_inum y) < t_limit (tabs ?t)" "d_type (disk_inode (t_view (tabs ?t)) (i_inum y)) \<noteq> 0"
    using t(2,3) ib y(2) ty by simp_all
  from ilock_load [OF this(1,2) y(1,3,4,5) this(3,4)] obtain u where u: "ilock ip ?t = Ok () u"
      "icache u ip = (load_dinode (disk_inode (t_view (tabs t)) (i_inum x)) (y\<lparr>i_busy := True\<rparr>))\<lparr>i_valid := True\<rparr>"
    using y(2) by auto
  have "same_dinode (dinode_of (icache u ip)) (dinode_of x)" "i_valid (icache u ip)" "i_busy (icache u ip)"
    using u(2) d [of "i_inum x"] by (simp_all add: load_dinode_def dinode_of_def same_dinode_def)
  then show ?thesis using t(1) d u(1) by blast
qed

theorem iupdate_ilock_witness:
  "\<exists>s t u. sample_start (boot_with \<lparr>icache = sample_icache\<rparr> 40 sample_fs_disk) = Ok () s \<and> iupdate 0 s = Ok () t \<and>
    ilock 0 (t\<lparr>icache := (icache t)(0 := no_inode\<lparr>i_dev := 1, i_inum := 1, i_ref := 1\<rparr>)\<rparr>) = Ok () u \<and>
    i_size (icache u 0) = 100"
proof -
  let ?y = "no_inode\<lparr>i_dev := 1, i_inum := 1, i_ref := 1\<rparr>"
  obtain s where s: "sample_start (boot_with \<lparr>icache = sample_icache\<rparr> 40 sample_fs_disk) = Ok () s" "fs_idle s"
      "room_for 9 s" "icache s = sample_icache" "t_limit (tabs s) = 30"
    using sample_fs_run by blast
  have r: "room_for 1 s" using s(3) by (simp add: room_for_def)
  have x: "icache s 0 = sample_inode" "i_dev sample_inode = 1" "i_type sample_inode \<noteq> 0"
      "IBLOCK (i_inum sample_inode) < t_limit (tabs s)" "i_size sample_inode = 100"
    using s(4,5) by (simp_all add: sample_icache_def sample_inode_def IBLOCK_def)
  have y: "i_dev ?y = 1" "i_inum ?y = i_inum sample_inode" "1 \<le> i_ref ?y" "\<not> i_busy ?y" "\<not> i_valid ?y"
    by (simp_all add: no_inode_def sample_inode_def)
  show ?thesis
    using iupdate_ilock [OF s(2) r x(1,2,3,4) y] s(1) x(5) by (auto simp: same_dinode_def dinode_of_def)
qed



end
