(* ===== verification/File_Props.thy ===== *)
theory File_Props
  imports Fs_Props Fd_Refs
begin

text \<open>
  Properties of open files that span the file layer, the inode layer and the log: what a write through a descriptor leaves
  in the file and on the disk, and what a read returns.
\<close>

section \<open>Locking a cached inode\<close>

lemma ilock_valid:
  assumes "1 \<le> i_ref (icache s ip)" and "\<not> i_busy (icache s ip)" and "i_valid (icache s ip)" and "held s = {}"
  shows "ilock ip s = Ok () (s\<lparr>icache := (icache s)(ip := (icache s ip)\<lparr>i_busy := True\<rparr>)\<rparr>)"
  using assms by (simp add: ilock_def get_inode_def upd_inode_def kmonad)

lemma iunlock_run:
  assumes "1 \<le> i_ref (icache s ip)" and "i_busy (icache s ip)" and "held s = {}"
  shows "iunlock ip s = Ok () (s\<lparr>icache := (icache s)(ip := (icache s ip)\<lparr>i_busy := False\<rparr>), ptable := wakeup1_tab (ChInode ip) (ptable s)\<rparr>)"
  using assms by (simp add: iunlock_def get_inode_def upd_inode_def kmonad)

text \<open>The flag that says an inode is locked plays no part in the content of its file.\<close>

lemma busy_blocks [simp]: "blk_addr V (x\<lparr>i_busy := b\<rparr>) = blk_addr V x" "ind_block (x\<lparr>i_busy := b\<rparr>) = ind_block x"
  by (simp_all add: blk_addr_def ind_block_def fun_eq_iff)

lemma busy_content [simp]:
  "fcontent V (x\<lparr>i_busy := b\<rparr>) = fcontent V x" "file_ok l V (x\<lparr>i_busy := b\<rparr>) nb = file_ok l V x nb"
  "dinode_of (x\<lparr>i_busy := b\<rparr>) = dinode_of x"
  by (simp_all add: fcontent_def file_ok_def dinode_of_def fun_eq_iff)

lemma file_open_lock [simp]:
  "file_open ip nb (s\<lparr>icache := (icache s)(ip := (icache s ip)\<lparr>i_busy := b\<rparr>)\<rparr>) = file_open ip nb s"
  "file_bytes ip (s\<lparr>icache := (icache s)(ip := (icache s ip)\<lparr>i_busy := b\<rparr>)\<rparr>) = file_bytes ip s"
  "file_size ip (s\<lparr>icache := (icache s)(ip := (icache s ip)\<lparr>i_busy := b\<rparr>)\<rparr>) = file_size ip s"
  by (simp_all add: file_open_def file_bytes_def file_size_def)

lemma other_layers [simp]:
  "file_open ip nb (s\<lparr>ptable := T\<rparr>) = file_open ip nb s" "file_bytes ip (s\<lparr>ptable := T\<rparr>) = file_bytes ip s"
  "file_size ip (s\<lparr>ptable := T\<rparr>) = file_size ip s"
  by (simp_all add: file_open_def file_bytes_def file_size_def)

text \<open>The layers above the log do not change what it holds.\<close>

lemma ftable_cabs [simp]: "cabs (s\<lparr>ftable := F\<rparr>) = cabs s"
proof -
  have "view (s\<lparr>ftable := F\<rparr>) = view s" by (simp add: view_def fun_eq_iff split: option.split)
  then show ?thesis by (simp add: cabs_def busyset_def dirtyset_def)
qed

lemma ftable_layers [simp]:
  "tabs (s\<lparr>ftable := F\<rparr>) = tabs s" "fs_idle (s\<lparr>ftable := F\<rparr>) = fs_idle s" "file_open ip nb (s\<lparr>ftable := F\<rparr>) = file_open ip nb s"
  "file_bytes ip (s\<lparr>ftable := F\<rparr>) = file_bytes ip s" "file_size ip (s\<lparr>ftable := F\<rparr>) = file_size ip s"
  by (simp_all add: tabs_def fs_idle_def log_inv_def homes_def binv_def file_open_def file_bytes_def file_size_def cong: if_cong)

section \<open>Writing\<close>

text \<open>
  Descriptor \<open>f\<close> is open for writing on a regular file with \<open>nb\<close> blocks, nobody has the inode locked and no transaction runs.
\<close>

definition file_ready :: "nat \<Rightarrow> nat \<Rightarrow> nat \<Rightarrow> 'a proc_st_scheme \<Rightarrow> bool" where
  "file_ready f ip nb s \<longleftrightarrow> file_open ip nb s \<and> 1 \<le> i_ref (icache s ip) \<and> \<not> i_busy (icache s ip) \<and> i_valid (icache s ip) \<and>
     f_type (ftable s f) = FD_INODE \<and> f_ip (ftable s f) = ip \<and> f_writable (ftable s f) \<and>
     \<not> l_busy s \<and> lh_n s = 0 \<and> 5 \<le> t_room (tabs s)"

lemma turns_max: "n \<le> nat max_write \<Longrightarrow> turns k n \<le> 4"
proof -
  assume n: "n \<le> nat max_write"
  have "k + n + BSIZE - 1 \<le> k + 4 * BSIZE - 1" using n by (simp add: max_write_def)
  then have "end_block k n \<le> (k + 4 * BSIZE - 1) div BSIZE" unfolding end_block_def by (rule div_le_mono)
  also have "\<dots> \<le> k div BSIZE + 4" by simp
  finally show ?thesis by (simp add: turns_def) linarith
qed

lemma file_readyD:
  assumes "file_ready f ip nb s"
  shows "file_open ip nb s" "fs_idle s" "held s = {}" "1 \<le> i_ref (icache s ip)" "\<not> i_busy (icache s ip)" "i_valid (icache s ip)"
    "f_type (ftable s f) = FD_INODE" "f_ip (ftable s f) = ip" "\<not> l_busy s" "lh_n s = 0" "5 \<le> t_room (tabs s)"
proof -
  have "fs_idle s" using assms file_openD(1) by (auto simp: file_ready_def)
  then show "fs_idle s" "held s = {}" by (simp_all add: idle_held)
qed (use assms in \<open>simp_all add: file_ready_def\<close>)

text \<open>
  \<open>writei\<close> on the locked inode inside the transaction of \<open>filewrite\<close>, and what it leaves of the file.
\<close>

definition grown :: "nat \<Rightarrow> u32 \<Rightarrow> nat \<Rightarrow> inode \<Rightarrow> inode" where
  "grown sz off n x = (if 0 < n \<and> sz < unat off + n then x\<lparr>i_size := off + of_nat n\<rparr> else x)"

definition overwritten :: "bytes \<Rightarrow> nat \<Rightarrow> bytes \<Rightarrow> nat \<Rightarrow> bytes" where
  "overwritten old off src n = (\<lambda>k. if off \<le> k \<and> k < off + n then src (k - off) else old k)"

lemma locked_write:
  assumes R: "file_ready f ip nb s" and off: "unat off \<le> file_size ip s" "unat off + n \<le> nb * BSIZE" and n: "n \<le> nat max_write"
    and q: "quiet_dev dv"
    and u: "u = s\<lparr>l_busy := True, icache := (icache s)(ip := (icache s ip)\<lparr>i_busy := True\<rparr>)\<rparr>"
  shows "\<exists>t. writei dv ip src off (of_nat n) u = Ok (int n) t \<and> file_open ip nb t \<and> ftable t = ftable s \<and>
    icache t = (icache s)(ip := grown (file_size ip s) off n ((icache s ip)\<lparr>i_busy := True\<rparr>)) \<and>
    (\<forall>k < nb * BSIZE. file_bytes ip t k = overwritten (file_bytes ip s) (unat off) src n k) \<and> t_room (tabs t) = t_room (tabs s)"
proof -
  note D = file_readyD [OF R]
  have b: "nb * BSIZE \<le> 71680" by (rule file_ok_bound [OF file_openD(4) [OF D(1)]])
  have un: "unat (of_nat n :: u32) = n" using off b by (simp add: unat_of_nat take_bit_nat_eq_self)
  note B = begin_tabs [OF D(2,9)]
  have "file_open ip nb (s\<lparr>l_busy := True\<rparr>)" using D(1) B(2,3) by (simp add: file_open_def)
  then have F: "file_open ip nb u" using u file_open_lock(1) [of ip nb "s\<lparr>l_busy := True\<rparr>" True] by simp
  have fs: "file_size ip u = file_size ip s" "file_bytes ip u = file_bytes ip s" using u B(3) by (simp_all add: file_size_def file_bytes_def)
  have tu: "tabs u = (tabs s)\<lparr>t_open := True\<rparr>" using u B(3) by simp
  have room: "room_for (turns (unat off) n + 1) u" using turns_max [OF n, of "unat off"] D(11) room_start [OF D(10)] tu by (simp add: room_for_def)
  obtain t where t: "writei dv ip src off (of_nat n) u = Ok (int n) t" "file_open ip nb t"
      "icache t = (if 0 < (of_nat n :: u32) \<and> file_size ip u < unat off + n then (icache u)(ip := (icache u ip)\<lparr>i_size := off + of_nat n\<rparr>) else icache u)"
      "\<forall>k < nb * BSIZE. file_bytes ip t k = (if unat off \<le> k \<and> k < unat off + n then src (k - unat off) else file_bytes ip u k)"
      "t_room (tabs t) = t_room (tabs u)"
    using writei_run [OF F, of off "of_nat n" dv src] off room fs un unfolding Let_def by auto
  have "quiet u t" by (rule keepsD [OF quiet_writei [OF q] t(1)])
  then have "ftable t = ftable s" using u by (simp add: quiet_def)
  moreover have "0 < (of_nat n :: u32) \<longleftrightarrow> 0 < n" using un by (metis unat_gt_0 word_gt_0)
  ultimately show ?thesis using t fs tu u by (intro exI [of _ t]) (auto simp: grown_def overwritten_def)
qed

text \<open>The end of a round: the inode is unlocked and the transaction committed.\<close>

lemma unlock_commit:
  assumes F: "file_open ip nb t" and x: "icache t ip = x" "1 \<le> i_ref x" "i_busy x"
  shows "\<exists>v. kseq (iunlock ip) (kseq commit_trans m) t = m v \<and> file_open ip nb v \<and> icache v = (icache t)(ip := x\<lparr>i_busy := False\<rparr>) \<and>
    ftable v = ftable (t :: 'a proc_st_scheme) \<and> file_bytes ip v = file_bytes ip t \<and> \<not> l_busy v \<and> lh_n v = 0 \<and>
    t_room (tabs v) = t_room (tabs t) \<and> t_disk (tabs v) = t_view (tabs v)"
proof -
  let ?u = "t\<lparr>icache := (icache t)(ip := x\<lparr>i_busy := False\<rparr>), ptable := wakeup1_tab (ChInode ip) (ptable t)\<rparr>"
  have idle: "fs_idle t" by (rule file_openD(1) [OF F])
  have un: "iunlock ip t = Ok () ?u" using iunlock_run [of t ip] x idle_held [OF idle] by simp
  have Fu: "file_open ip nb ?u" "file_bytes ip ?u = file_bytes ip t" using F x by (simp_all add: file_open_def file_bytes_def)
  obtain v where v: "commit_trans ?u = Ok () v" "fs_idle v" "\<not> l_busy v" "lh_n v = 0" "trest v = trest ?u"
      "t_view (tabs v) = t_view (tabs ?u)" "t_disk (tabs v) = t_view (tabs ?u)" "t_limit (tabs v) = t_limit (tabs ?u)"
      "t_room (tabs v) = t_room (tabs ?u)"
    using commit_tabs [of ?u] idle by auto
  have ic: "icache v = icache ?u" by (rule trest_icache [OF v(5)])
  have "quiet ?u v" by (rule keepsD [OF quiet_commit_trans v(1)])
  then have "ftable v = ftable t" by (simp add: quiet_def)
  moreover have "file_open ip nb v" "file_bytes ip v = file_bytes ip t"
    using Fu ic v(2,6,8) by (simp_all add: file_open_def file_bytes_def)
  ultimately show ?thesis using un v ic by (intro exI [of _ v]) (simp add: kmonad)
qed

lemma unat_of_int: "0 \<le> i \<Longrightarrow> i < 2 ^ 32 \<Longrightarrow> unat (of_int i :: u32) = nat i"
  by (cases i rule: int_cases2) (simp_all add: unat_of_nat take_bit_nat_eq_self)

lemma filewrite_body_steps:
  assumes "i < n" and n1: "n1 = min (n - i) max_write" "0 < n1" and "begin_trans s = Ok () s1" and x: "ftable s1 f = x" "f_ip x = ip"
    and "ilock ip s1 = Ok () s2" and "ftable s2 f = x"
    and "writei dv ip (\<lambda>j. addr (nat i + j)) (f_off x) (of_int n1) s2 = Ok n1 s3" and "ftable s3 = ftable s2"
    and "s4 = s3\<lparr>ftable := (ftable s2)(f := x\<lparr>f_off := f_off x + of_int n1\<rparr>)\<rparr>"
  shows "filewrite_body dv f addr n i s = kseq (iunlock ip) (kseq commit_trans (kreturn (Inl (i + n1)))) s4"
  using assms(1,4-) n1(2)
  by (simp add: filewrite_body_def Let_def n1(1) [symmetric] kbind_Ok [of begin_trans] kbind_Ok [of "ilock _"] kbind_Ok [of "writei _ _ _ _ _"]
    get_file_def upd_file_def kbind_get kbind_Ok [of "kmod _"] kmod_run kwhen_True)

lemma filewrite_chunk:
  assumes R: "file_ready f ip nb s" and off: "f_off (ftable s f) = off" "unat off \<le> file_size ip s" "unat off + nat n1 \<le> nb * BSIZE"
    and i: "0 \<le> i" "i < n" "n1 = min (n - i) max_write" and q: "quiet_dev dv"
  shows "\<exists>t. filewrite_body dv f addr n i s = Ok (Inl (i + n1)) t \<and> file_ready f ip nb t \<and>
    ftable t = (ftable s)(f := (ftable s f)\<lparr>f_off := off + of_int n1\<rparr>) \<and>
    file_size ip t = max (file_size ip s) (unat off + nat n1) \<and>
    (\<forall>k < nb * BSIZE. file_bytes ip t k = overwritten (file_bytes ip s) (unat off) (\<lambda>j. addr (nat i + j)) (nat n1) k) \<and>
    t_disk (tabs t) = t_view (tabs t)"
proof -
  note D = file_readyD [OF R]
  have n1: "0 < n1" "n1 \<le> max_write" "int (nat n1) = n1" using i by (auto simp: max_write_def)
  let ?u = "s\<lparr>l_busy := True, icache := (icache s)(ip := (icache s ip)\<lparr>i_busy := True\<rparr>)\<rparr>"
  let ?x = "grown (file_size ip s) off (nat n1) ((icache s ip)\<lparr>i_busy := True\<rparr>)"
  have b: "begin_trans s = Ok () (s\<lparr>l_busy := True\<rparr>)" by (rule begin_tabs(1) [OF D(2,9)])
  have l: "ilock ip (s\<lparr>l_busy := True\<rparr>) = Ok () ?u" using ilock_valid [of "s\<lparr>l_busy := True\<rparr>" ip] D by simp
  obtain t where t: "writei dv ip (\<lambda>j. addr (nat i + j)) off (of_nat (nat n1)) ?u = Ok (int (nat n1)) t" "file_open ip nb t"
      "ftable t = ftable s" "icache t = (icache s)(ip := ?x)"
      "\<forall>k < nb * BSIZE. file_bytes ip t k = overwritten (file_bytes ip s) (unat off) (\<lambda>j. addr (nat i + j)) (nat n1) k"
      "t_room (tabs t) = t_room (tabs s)"
    using locked_write [OF R off(2,3) nat_mono [OF n1(2)] q refl, of "\<lambda>j. addr (nat i + j)"] by blast
  have w: "of_nat (nat n1) = (of_int n1 :: u32)" using n1(3) by (metis of_int_of_nat_eq)
  let ?F = "(ftable s)(f := (ftable s f)\<lparr>f_off := off + of_int n1\<rparr>)"
  have x: "i_ref ?x = i_ref (icache s ip)" "i_busy ?x" by (simp_all add: grown_def)
  have "file_open ip nb (t\<lparr>ftable := ?F\<rparr>)" "icache (t\<lparr>ftable := ?F\<rparr>) ip = ?x" using t(2,4) by simp_all
  from unlock_commit [OF this(1,2), of "kreturn (Inl (i + n1) :: int + int)"] D(4) x
  obtain v where v: "kseq (iunlock ip) (kseq commit_trans (kreturn (Inl (i + n1) :: int + int))) (t\<lparr>ftable := ?F\<rparr>) = Ok (Inl (i + n1)) v"
      "file_open ip nb v" "icache v = (icache s)(ip := ?x\<lparr>i_busy := False\<rparr>)" "ftable v = ?F" "file_bytes ip v = file_bytes ip t"
      "\<not> l_busy v" "lh_n v = 0" "t_room (tabs v) = t_room (tabs s)" "t_disk (tabs v) = t_view (tabs v)"
    using t(4,6) by (auto simp: kreturn_def)
  have run: "filewrite_body dv f addr n i s = Ok (Inl (i + n1)) v"
    using filewrite_body_steps [OF i(2,3) n1(1) b _ _ l, of f _ dv addr t] t(1,3) v(1) D(8) off(1) n1(3) w by simp
  have "unat off + nat n1 < 2 ^ 32" using off(3) file_ok_bound [OF file_openD(4) [OF D(1)]] by simp
  moreover have "unat (of_int n1 :: u32) = nat n1" using calculation n1 by (intro unat_of_int) simp_all
  ultimately have "unat (off + of_int n1) = unat off + nat n1" using unat_add_small [of off "of_int n1"] by simp
  then have sz: "file_size ip v = max (file_size ip s) (unat off + nat n1)"
    using v(3) n1 w by (auto simp: file_size_def grown_def max_def)
  have "file_ready f ip nb v" using v D R x by (simp add: file_ready_def grown_def)
  then show ?thesis using run v sz t(5) by auto
qed

lemma overwritten_more:
  "overwritten (overwritten old off src m) (off + m) (\<lambda>j. src (m + j)) n = overwritten old off src (m + n)"
  by (auto simp: overwritten_def fun_eq_iff)

lemma overwritten_0 [simp]: "overwritten old off src 0 = old"
  by (auto simp: overwritten_def fun_eq_iff)

definition write_inv :: "nat \<Rightarrow> nat \<Rightarrow> nat \<Rightarrow> u32 \<Rightarrow> bytes \<Rightarrow> int \<Rightarrow> 'a proc_st_scheme \<Rightarrow> int \<Rightarrow> 'a proc_st_scheme \<Rightarrow> bool" where
  "write_inv f ip nb off addr n s i u \<longleftrightarrow> file_ready f ip nb u \<and> 0 \<le> i \<and> i \<le> n \<and>
     ftable u = (ftable s)(f := (ftable s f)\<lparr>f_off := off + of_int i\<rparr>) \<and> file_size ip u = max (file_size ip s) (unat off + nat i) \<and>
     (\<forall>k < nb * BSIZE. file_bytes ip u k = overwritten (file_bytes ip s) (unat off) addr (nat i) k)"

lemma write_inv_step:
  assumes I: "write_inv f ip nb off addr n s i u" and n: "unat off + nat n \<le> nb * BSIZE" and q: "quiet_dev dv" and lt: "i < n"
  shows "\<exists>y t. filewrite_body dv f addr n i u = Ok (Inl y) t \<and> write_inv f ip nb off addr n s y t \<and> nat (n - y) < nat (n - i)"
proof -
  define n1 where "n1 = min (n - i) max_write"
  have i: "0 \<le> i" "0 < n1" "i + n1 \<le> n" using I lt by (auto simp: write_inv_def n1_def max_write_def)
  have R: "file_ready f ip nb u" using I by (simp add: write_inv_def)
  have b: "nb * BSIZE \<le> 71680" by (rule file_ok_bound [OF file_openD(4) [OF file_readyD(1) [OF R]]])
  have oi: "unat (off + of_int i) = unat off + nat i"
    using unat_of_int [of i] unat_add_small [of off "of_int i"] n b i by simp
  have nat1: "nat (i + n1) = nat i + nat n1" using i by simp
  have "f_off (ftable u f) = off + of_int i" "unat (off + of_int i) \<le> file_size ip u" "unat (off + of_int i) + nat n1 \<le> nb * BSIZE"
    using I oi n i by (auto simp: write_inv_def)
  from filewrite_chunk [OF R this i(1) lt n1_def q, of addr] obtain t where t: "filewrite_body dv f addr n i u = Ok (Inl (i + n1)) t"
      "file_ready f ip nb t" "ftable t = (ftable u)(f := (ftable u f)\<lparr>f_off := off + of_int i + of_int n1\<rparr>)"
      "file_size ip t = max (file_size ip u) (unat off + nat i + nat n1)"
      "\<forall>k < nb * BSIZE. file_bytes ip t k = overwritten (file_bytes ip u) (unat off + nat i) (\<lambda>j. addr (nat i + j)) (nat n1) k"
    using oi by auto
  have "file_bytes ip t k = overwritten (file_bytes ip s) (unat off) addr (nat (i + n1)) k" if "k < nb * BSIZE" for k
    using t(5) I that unfolding nat1 overwritten_more [symmetric] by (auto simp: write_inv_def overwritten_def)
  then have "write_inv f ip nb off addr n s (i + n1) t"
    using t I i nat1 by (auto simp: write_inv_def algebra_simps max_def)
  then show ?thesis using t(1) i lt by (intro exI conjI) (assumption | simp)+
qed

lemma filewrite_run:
  assumes R: "file_ready f ip nb s" and off: "f_off (ftable s f) = off" "unat off \<le> file_size ip s"
    and n: "0 \<le> n" "unat off + nat n \<le> nb * BSIZE" and q: "quiet_dev dv"
  shows "\<exists>t. filewrite dv f addr n s = Ok n t \<and> write_inv f ip nb off addr n s n t"
proof -
  have "write_inv f ip nb off addr n s 0 s" using assms by (auto simp: write_inv_def fun_eq_iff)
  then have "\<exists>r t. kloop (nat n + 1) (filewrite_body dv f addr n) 0 s = Ok r t \<and> (r = n \<and> write_inv f ip nb off addr n s n t)"
  proof (rule kloop_run [where I = "write_inv f ip nb off addr n s" and mu = "\<lambda>i. nat (n - i)"])
    fix i u
    assume I: "write_inv f ip nb off addr n s i u"
    show "(\<exists>y t. filewrite_body dv f addr n i u = Ok (Inl y) t \<and> write_inv f ip nb off addr n s y t \<and> nat (n - y) < nat (n - i)) \<or>
      (\<exists>r t. filewrite_body dv f addr n i u = Ok (Inr r) t \<and> r = n \<and> write_inv f ip nb off addr n s n t)"
    proof (cases "i < n")
      case True
      then show ?thesis using write_inv_step [OF I n(2) q] by blast
    next
      case False
      then have "i = n" using I by (simp add: write_inv_def)
      then show ?thesis using I by (simp add: filewrite_body_def kreturn_def)
    qed
  qed simp
  then show ?thesis using R by (auto simp: filewrite_def file_ready_def get_file_def kmonad)
qed


lemma trest_ftable: "trest t = trest s \<Longrightarrow> ftable t = ftable (s :: 'a file_st_scheme)"
  by (cases s; cases t) (simp add: trest_def)

text \<open>The kernel of the samples: one regular file of a block, open as file 0 for reading and writing.\<close>

definition sample_open :: cons_st where
  "sample_open = zero_kernel\<lparr>icache := (\<lambda>_. no_inode)(0 := sample_inode\<lparr>i_busy := False\<rparr>),
     ftable := (\<lambda>_. zero_file)(0 := \<lparr>f_type = FD_INODE, f_ref = 1, f_readable = True, f_writable = True, f_pipe = 0, f_ip = 0, f_off = 0\<rparr>)\<rparr>"

lemma sample_open_run:
  fixes x :: cons_st
  assumes x: "icache x = icache sample_open" "ftable x = ftable sample_open" "curproc x = 0"
  shows "\<exists>s. kseq binit initlog (boot_with (log_st.more x) 40 sample_fs_disk) = Ok () s \<and> file_ready 0 0 1 s \<and>
    file_size 0 s = 100 \<and> trest s = trest x"
proof -
  obtain s where s: "kseq binit initlog (boot_with (log_st.more x) 40 sample_fs_disk) = Ok () s" "fs_idle s"
      "lh_n s = 0" "\<not> l_busy s" "trest s = (0, log_st.more x)" "t_limit (tabs s) = 30" "t_room (tabs s) = 9"
      "\<forall>m<30. t_view (tabs s) m = sample_fs_disk m"
    using sample_boot_run [of "log_st.more x"] by blast
  have rest: "trest s = trest x" using s(5) x(3) by (simp add: trest_def)
  then have i: "icache s 0 = sample_inode\<lparr>i_busy := False\<rparr>" using trest_icache x(1) by (fastforce simp: sample_open_def)
  have f: "ftable s = ftable sample_open" using trest_ftable [OF rest] x(2) by simp
  have "blk_addr V sample_inode 0 = 10" for V by (simp add: blk_addr_def sample_inode_def)
  moreover have "i_dev sample_inode = 1" "i_inum sample_inode = 1" "i_type sample_inode = T_FILE" "ind_block sample_inode = 0"
    by (simp_all add: sample_inode_def ind_block_def)
  ultimately have "file_open 0 1 s" using s(2,6) i by (simp add: file_open_def file_ok_def IBLOCK_def lessThan_Suc)
  moreover have "file_size 0 s = 100" using i by (simp add: file_size_def sample_inode_def)
  ultimately show ?thesis using s(1,3,4,7) i f rest by (auto simp: file_ready_def sample_inode_def sample_open_def)
qed


section \<open>Reading\<close>

text \<open>A count is passed to \<open>readi\<close> as an unsigned number.\<close>

lemma fileread_run:
  assumes R: "file_ready f ip nb s" and off: "f_off (ftable s f) = off" "f_readable (ftable s f)" "unat off \<le> file_size ip s"
    and sz: "file_size ip s \<le> nb * BSIZE" and n: "unat off + unat (of_int n :: u32) < 2 ^ 32" and q: "quiet_dev dv"
  shows "\<exists>t m. m = min (unat (of_int n :: u32)) (file_size ip s - unat off) \<and>
    fileread dv f dst n s = Ok (int m, \<lambda>i. if i < m then file_bytes ip s (unat off + i) else dst i) t \<and>
    ftable t = (ftable s)(f := (ftable s f)\<lparr>f_off := off + of_nat m\<rparr>) \<and> file_bytes ip t = file_bytes ip s \<and> file_size ip t = file_size ip s"
proof -
  note D = file_readyD [OF R]
  let ?u = "s\<lparr>icache := (icache s)(ip := (icache s ip)\<lparr>i_busy := True\<rparr>)\<rparr>"
  have l: "ilock ip s = Ok () ?u" by (rule ilock_valid [OF D(4,5,6,3)])
  obtain t m where t: "m = min (unat (of_int n :: u32)) (file_size ip s - unat off)"
      "readi dv ip dst off (of_int n) ?u = Ok (int m, \<lambda>i. if i < m then file_bytes ip s (unat off + i) else dst i) t"
      "fs_idle t" "tabs t = tabs s" "icache t = icache ?u"
    using readi_run [of ip nb ?u off "of_int n" dv dst] D(1) off(3) sz n by (auto cong: if_cong)
  have qt: "quiet ?u t" by (rule keepsD [OF quiet_readi [OF q] t(2)])
  define F where "F = (if 0 < m then (ftable s)(f := (ftable s f)\<lparr>f_off := off + of_nat m\<rparr>) else ftable s)"
  have F: "F = (ftable s)(f := (ftable s f)\<lparr>f_off := off + of_nat m\<rparr>)" using off(1) by (auto simp: F_def fun_eq_iff)
  let ?v = "t\<lparr>ftable := F\<rparr>"
  have w: "kwhen (0 < int m) (upd_file f (\<lambda>x. x\<lparr>f_off := f_off x + of_int (int m)\<rparr>)) t = Ok () ?v"
    using qt off(1) by (simp add: kwhen_def upd_file_def kmonad F_def quiet_def)
  let ?w = "?v\<lparr>icache := (icache t)(ip := (icache t ip)\<lparr>i_busy := False\<rparr>), ptable := wakeup1_tab (ChInode ip) (ptable t)\<rparr>"
  have un: "iunlock ip ?v = Ok () ?w" using iunlock_run [of ?v ip] D(4) t(5) idle_held [OF t(3)] by simp
  have "fileread dv f dst n s = Ok (int m, \<lambda>i. if i < m then file_bytes ip s (unat off + i) else dst i) ?w"
    using D(7,8) off(1,2) l t(2) w un by (simp add: fileread_def get_file_def kbind_get kbind_Ok [of "ilock _"] kbind_Ok [of "readi _ _ _ _ _"]
      kbind_Ok [of "kwhen _ _"] kbind_Ok [of "iunlock _"] kreturn_run)
  moreover have "file_bytes ip ?w = file_bytes ip s" "file_size ip ?w = file_size ip s"
    using t(4,5) by (simp_all add: file_bytes_def file_size_def)
  ultimately show ?thesis using t(1) F by (intro exI [of _ ?w] exI [of _ m]) simp
qed

end
