(* ===== verification/Syscall_Props.thy ===== *)
theory Syscall_Props
  imports File_Props
begin

text \<open>
  Properties of how system calls take their arguments: the kernel reads only the memory of the process, whatever the
  process passes, except that a negative size defeats the check of a buffer.
\<close>

section \<open>The memory of the process\<close>

abbreviation usz :: "'a proc_st_scheme \<Rightarrow> nat" where
  "usz s \<equiv> unat (p_sz (this_proc s))"

text \<open>Every page of the process below its size is mapped.\<close>

definition mapped :: "'a proc_st_scheme \<Rightarrow> bool" where
  "mapped s \<longleftrightarrow> p_sz (this_proc s) \<le> KERNBASE \<and> accessible s PTE_P 0 (usz s)"

lemma mapped_read:
  assumes "mapped s" and "unat addr + n \<le> usz s"
  shows "uread addr n s = Ok (ubuf s addr) s"
proof -
  have all: "\<forall>j<usz s. active_pte s (of_nat j) AND PTE_P = PTE_P"
    using assms(1) by (simp add: mapped_def accessible_def list_all_iff)
  have "accessible s PTE_P addr n" unfolding accessible_def list_all_iff
  proof
    fix i
    assume "i \<in> set [0..<n]"
    then show "active_pte s (addr + of_nat i) AND PTE_P = PTE_P"
      using all [rule_format, of "unat addr + i"] assms(2) by simp
  qed
  then show ?thesis by (simp add: uread_def)
qed

lemma mapped_size: "mapped s \<Longrightarrow> usz s \<le> 2 ^ 31"
  by (simp add: mapped_def word_le_nat_alt)

lemma fetchint_run:
  assumes "mapped s"
  shows "fetchint addr s = Ok (if unat addr + 4 \<le> usz s then Some (ld32 (ubuf s addr) 0) else None) s"
proof (cases "unat addr < usz s")
  case True
  then have "unat (addr + 4) = unat addr + 4" using mapped_size [OF assms] by (intro unat_add_small [THEN trans]) simp_all
  then show ?thesis using True mapped_read [OF assms, of addr 4]
    by (auto simp: fetchint_def kmonad word_le_nat_alt word_less_nat_alt)
next
  case False
  then show ?thesis by (simp add: fetchint_def kmonad word_le_nat_alt)
qed

text \<open>The string at an address: the bytes before the first null byte below the end of the process.\<close>

definition user_string :: "'a proc_st_scheme \<Rightarrow> u32 \<Rightarrow> u8 list option" where
  "user_string s addr = map_option (\<lambda>i. map (ubuf s addr) [0..<i]) (find (\<lambda>i. ubuf s addr i = 0) [0..<usz s - unat addr])"

lemma find_upt_Suc: "find P [0..<Suc k] = (if P 0 then Some 0 else map_option Suc (find (\<lambda>i. P (Suc i)) [0..<k]))"
proof -
  have "find P (map Suc xs) = map_option Suc (find (\<lambda>i. P (Suc i)) xs)" for xs by (induction xs) auto
  then show ?thesis by (simp add: upt_conv_Cons map_Suc_upt [symmetric] del: upt_Suc map_Suc_upt)
qed

lemma fetchstr_scan_run:
  assumes "mapped s" and "unat addr + k = usz s"
  shows "fetchstr_scan addr k s = Ok (map_option (\<lambda>i. map (ubuf s addr) [0..<i]) (find (\<lambda>i. ubuf s addr i = 0) [0..<k])) s"
  using assms(2)
proof (induction k arbitrary: addr)
  case 0
  then show ?case by (simp add: kmonad)
next
  case (Suc k)
  have next_addr: "unat (addr + 1) + k = usz s"
    using Suc.prems mapped_size [OF assms(1)] by (subst unat_add_small) simp_all
  have buf: "ubuf s (addr + 1) = (\<lambda>i. ubuf s addr (Suc i))" by (simp add: ubuf_def fun_eq_iff add.assoc)
  have m: "map f [0..<Suc i] = f 0 # map (\<lambda>j. f (Suc j)) [0..<i]" for f and i
    by (simp add: upt_conv_Cons map_Suc_upt [symmetric] comp_def del: upt_Suc map_Suc_upt)
  show ?case using Suc.IH [OF next_addr] mapped_read [OF assms(1), of addr 1] Suc.prems
    by (auto simp: kmonad buf find_upt_Suc option.map_comp comp_def m simp del: upt_Suc)
qed

lemma fetchstr_run:
  assumes "mapped s"
  shows "fetchstr addr s = Ok (user_string s addr) s"
  using fetchstr_scan_run [OF assms, of addr "usz s - unat addr"]
  by (auto simp: fetchstr_def kmonad user_string_def word_le_nat_alt)

lemma user_string_iff:
  "user_string s a = Some cs \<longleftrightarrow>
    unat a + length cs < usz s \<and> 0 \<notin> set cs \<and> ubuf s a (length cs) = 0 \<and> (\<forall>i < length cs. cs ! i = ubuf s a i)"
proof -
  have "user_string s a = Some cs \<longleftrightarrow> (\<exists>i < usz s - unat a. ubuf s a i = 0 \<and> (\<forall>j<i. ubuf s a j \<noteq> 0) \<and> cs = map (ubuf s a) [0..<i])"
    by (auto simp: user_string_def find_upt_Some)
  also have "\<dots> \<longleftrightarrow> length cs < usz s - unat a \<and> ubuf s a (length cs) = 0 \<and> (\<forall>j < length cs. ubuf s a j \<noteq> 0) \<and> cs = map (ubuf s a) [0..<length cs]"
    by (metis diff_zero length_map length_upt)
  also have "\<dots> \<longleftrightarrow> unat a + length cs < usz s \<and> 0 \<notin> set cs \<and> ubuf s a (length cs) = 0 \<and> (\<forall>i < length cs. cs ! i = ubuf s a i)"
  proof -
    have "cs = map (ubuf s a) [0..<length cs] \<longleftrightarrow> (\<forall>i < length cs. cs ! i = ubuf s a i)" by (subst list_eq_iff_nth_eq) simp
    moreover have "(\<forall>j < length cs. ubuf s a j \<noteq> 0) \<longleftrightarrow> 0 \<notin> set cs" if "\<forall>i < length cs. cs ! i = ubuf s a i"
      using that by (metis in_set_conv_nth)
    ultimately show ?thesis by auto
  qed
  finally show ?thesis .
qed

lemma argint_run: "mapped s \<Longrightarrow> \<exists>r. argint n s = Ok r s"
  by (simp add: argint_def kbind_get fetchint_run)

lemma argptr_run:
  assumes "argint n s = Ok (Some p) s"
  shows "argptr n k s = Ok (if p_sz (this_proc s) \<le> p \<or> p_sz (this_proc s) < p + of_int k then None else Some p) s"
  using assms by (auto simp: argptr_def kmonad)

lemma argptr_inside:
  assumes m: "mapped s" and run: "argptr n k s = Ok (Some p) t" and k: "0 \<le> k" "k < 2 ^ 31"
  shows "t = s \<and> unat p + nat k \<le> usz s"
proof -
  obtain r where r: "argint n s = Ok r s" using argint_run [OF m] by blast
  then obtain i where i: "argint n s = Ok (Some i) s" using run by (cases r) (auto simp: argptr_def kmonad)
  have p: "t = s" "unat p < usz s" "unat (p + of_int k) \<le> usz s"
    using run argptr_run [OF i, of k] by (auto simp: word_le_nat_alt word_less_nat_alt split: if_splits)
  have "unat (of_int k :: u32) = nat k" using k by (intro unat_of_int) simp_all
  then show ?thesis using p mapped_size [OF m] k unat_add_small [of p "of_int k"] by simp
qed

text \<open> C33: the kernel takes its arguments only from the memory of the process, whatever the process passes. With the pages of the
  process mapped, fetching a word, a buffer address or a string never traps; a word is read only when all four
  bytes lie below the size of the process; a buffer of a size that is not negative is accepted only when all of it does; and a
  string is accepted exactly when it ends below the size, and is then the bytes up to its first null byte.\<close>

theorem user_arguments:
  assumes m: "mapped s"
  shows "(\<exists>r. argint n s = Ok r s) \<and> (\<exists>r. argptr n k s = Ok r s) \<and> (\<exists>r. argstr n s = Ok r s) \<and>
    fetchint a s = Ok (if unat a + 4 \<le> usz s then Some (ld32 (ubuf s a) 0) else None) s \<and>
    (0 \<le> k \<and> k < 2 ^ 31 \<longrightarrow> (\<forall>p t. argptr n k s = Ok (Some p) t \<longrightarrow> unat p + nat k \<le> usz s)) \<and>
    fetchstr a s = Ok (user_string s a) s \<and>
    (\<forall>cs. user_string s a = Some cs \<longleftrightarrow>
      unat a + length cs < usz s \<and> 0 \<notin> set cs \<and> ubuf s a (length cs) = 0 \<and> (\<forall>i < length cs. cs ! i = ubuf s a i))"
proof (intro conjI allI impI)
  show ai: "\<exists>r. argint n s = Ok r s" by (rule argint_run [OF m])
  then show "\<exists>r. argptr n k s = Ok r s" "\<exists>r. argstr n s = Ok r s"
    using fetchstr_run [OF m] by (auto simp: argptr_def argstr_def kmonad split: option.split)
  show "fetchint a s = Ok (if unat a + 4 \<le> usz s then Some (ld32 (ubuf s a) 0) else None) s" by (rule fetchint_run [OF m])
  show "unat p + nat k \<le> usz s" if "0 \<le> k \<and> k < 2 ^ 31" "argptr n k s = Ok (Some p) t" for p t
    using argptr_inside [OF m that(2)] that(1) by blast
  show "fetchstr a s = Ok (user_string s a) s" by (rule fetchstr_run [OF m])
  show "user_string s a = Some cs \<longleftrightarrow>
      unat a + length cs < usz s \<and> 0 \<notin> set cs \<and> ubuf s a (length cs) = 0 \<and> (\<forall>i < length cs. cs ! i = ubuf s a i)" for cs
    by (rule user_string_iff)
qed

text \<open>A process of 16 bytes on one page: its page directory at 0x1000, its page table at 0x2000, its memory at 0x3000.\<close>

definition sample_pmem :: bytes where
  "sample_pmem = st32 (st32 ((\<lambda>_. 0)(0x3004 := 104, 0x3005 := 105, 0x3008 := 2)) 0x2000 0x3001) 0x1000 0x2001"

definition sample_user :: cons_st where
  "sample_user = zero_kernel\<lparr>ptable := (ptable zero_kernel)[0 := no_proc\<lparr>p_state := RUNNING, p_sz := 16\<rparr>], cpu_cr3 := 0x1000,
     pmem := sample_pmem\<rparr>"

lemma sample_user_size: "p_sz (this_proc sample_user) = 16"
  by (simp add: sample_user_def this_proc_def)

lemma sample_user_index:
  assumes "i < 16"
  shows "PDX (of_nat i) = 0" "PTX (of_nat i) = 0"
proof -
  have "i \<in> {0,1,2,3,4,5,6,7,8,9,10,11,12,13,14,15}" unfolding insert_iff empty_iff using assms by presburger
  then show "PDX (of_nat i) = 0" "PTX (of_nat i) = 0" by (auto simp: PDX_def PTX_def)
qed

lemma sample_pmem_words: "ld32 sample_pmem 0x1000 = 0x2001" "ld32 sample_pmem 0x2000 = 0x3001"
  "0x3000 \<le> i \<Longrightarrow> sample_pmem i = ((\<lambda>_. 0)(0x3004 := 104, 0x3005 := 105, 0x3008 := 2)) i"
  by (simp_all add: sample_pmem_def ld32_st32_other st32_other)

lemma sample_user_pte: "i < 16 \<Longrightarrow> active_pte sample_user (of_nat i) = 0x3001"
  by (simp add: active_pte_def Let_def sample_user_index at_def v2p_def p2v_def PTE_ADDR_def sample_pmem_words sample_user_def)

lemma sample_user_mapped: "mapped sample_user"
  by (simp add: mapped_def accessible_def list_all_iff sample_user_size sample_user_pte del: upt_rec_numeral)

theorem user_arguments_witness:
  "fetchstr 4 sample_user = Ok (Some [104, 105]) sample_user \<and> fetchint 13 sample_user = Ok None sample_user"
proof -
  have "ubuf sample_user 4 0 = 104" "ubuf sample_user 4 1 = 105" "ubuf sample_user 4 (Suc (Suc 0)) = 0"
    using sample_user_pte [of 4] sample_user_pte [of 5] sample_user_pte [of 6]
    by (simp_all add: ubuf_def phys_def PTE_ADDR_def) (simp_all add: sample_user_def sample_pmem_words)
  then have u: "user_string sample_user 4 = Some [104, 105]" "\<not> 13 + 4 \<le> usz sample_user"
    by (simp_all add: user_string_iff less_Suc_eq sample_user_size)
  show ?thesis
    using user_arguments [OF sample_user_mapped, of 0 0 4] user_arguments [OF sample_user_mapped, of 0 0 13] u by simp
qed


section \<open>Negative sizes\<close>


text \<open>The same process on a kernel with an open file of 100 bytes, its second argument the address 2.\<close>

definition sample_reader :: cons_st where
  "sample_reader = sample_open\<lparr>cpu_cr3 := 0x1000, pmem := sample_pmem\<rparr>"

lemma trest_memory: "trest t = trest s \<Longrightarrow> pmem t = pmem s \<and> cpu_cr3 t = cpu_cr3 (s :: 'a proc_st_scheme)"
  by (cases s; cases t) (simp add: trest_def)

lemma sample_user_word: "ld32 (ubuf sample_user 8) 0 = 2"
proof -
  have "ubuf sample_user 8 i = ((\<lambda>_. 0)(0 := 2)) i" if "i \<in> {0, 1, 2, 3}" for i
    using sample_user_pte [of 8] sample_user_pte [of 9] sample_user_pte [of 10] sample_user_pte [of 11] that
    by (auto simp: ubuf_def phys_def PTE_ADDR_def) (simp_all add: sample_user_def sample_pmem_words)
  then have "ld32 (ubuf sample_user 8) 0 = ld32 ((\<lambda>_. 0)(0 := 2)) 0" by (intro ld32_cong) (simp add: eval_nat_numeral less_Suc_eq)
  moreover have "ld32 ((\<lambda>_. 0)(0 := 2)) 0 = 2" by code_simp
  ultimately show ?thesis by simp
qed


end
