(* ===== verification/Console_Props.thy ===== *)
theory Console_Props
  imports Trap
begin

text \<open>
  Properties of the console: the input buffer behaves as a line editor, and numbers are printed so that they can be read back.
\<close>

section \<open>Output leaves the input alone\<close>

definition same_input :: "'a cons_st_scheme \<Rightarrow> 'a cons_st_scheme \<Rightarrow> bool" where
  "same_input s t \<longleftrightarrow> input_buf t = input_buf s \<and> input_r t = input_r s \<and> input_w t = input_w s \<and> input_e t = input_e s \<and>
     held t = held s \<and> ptable t = ptable s \<and> panicked t = panicked s \<and> cons_locking t = cons_locking s \<and>
     uart_in t = uart_in s \<and> kbd_in t = kbd_in s \<and> uart_on t = uart_on s"

text \<open>A computation that shows text returns and leaves the input alone; \<open>prints\<close> also takes the console lock.\<close>

definition prints :: "lockid set \<Rightarrow> ('a cons_st_scheme, chan, unit) km \<Rightarrow> bool" where
  "prints L m \<longleftrightarrow> (\<forall>s. \<not> panicked s \<longrightarrow> L \<inter> held s = {} \<longrightarrow> (\<exists>t. m s = Ok () t \<and> same_input s t))"

lemma prints_run:
  assumes "prints L m" and "\<not> panicked s" and "L \<inter> held s = {}"
  obtains t where "m s = Ok () t" "same_input s t"
  using assms unfolding prints_def by blast

named_theorems prints \<open>computations that show text\<close>

lemma same_input_refl [simp]: "same_input s s"
  by (simp add: same_input_def)

lemma same_input_trans: "same_input s t \<Longrightarrow> same_input t u \<Longrightarrow> same_input s u"
  by (simp add: same_input_def)

lemma prints_seq [prints]:
  assumes "prints L m" and "prints L n"
  shows "prints L (kseq m n)"
  unfolding prints_def
proof (intro allI impI)
  fix s :: "'a cons_st_scheme"
  assume s: "\<not> panicked s" "L \<inter> held s = {}"
  obtain t where t: "m s = Ok () t" "same_input s t" using assms(1) s by (auto simp: prints_def)
  have "\<not> panicked t" "L \<inter> held t = {}" using s t(2) by (simp_all add: same_input_def)
  then obtain u where "n t = Ok () u" "same_input t u" using assms(2) unfolding prints_def by blast
  then show "\<exists>t. kseq m n s = Ok () t \<and> same_input s t" using t same_input_trans by (auto simp: kmonad)
qed

lemma prints_return [prints]: "prints L (kreturn ())"
  by (simp add: prints_def kmonad)

lemma prints_for [prints]: "(\<And>x. prints L (f x)) \<Longrightarrow> prints L (kfor xs f)"
  by (induction xs) (auto intro: prints)

lemma prints_when [prints]: "prints L m \<Longrightarrow> prints L (kwhen b m)"
  by (cases b) (auto simp: kmonad intro: prints)

lemma prints_get [prints]: "(\<And>x. prints L (f x)) \<Longrightarrow> prints L (kbind (kget g) f)"
  by (simp add: prints_def kbind_get)

lemma prints_if [prints]: "prints L m \<Longrightarrow> prints L n \<Longrightarrow> prints L (if b then m else n)"
  by simp

lemma prints_uartputc [prints]: "prints L (uartputc c)"
  by (simp add: prints_def uartputc_def kmonad same_input_def)

lemma prints_cgaputc [prints]: "prints L (cgaputc c)"
  by (auto simp: prints_def cgaputc_def kmonad same_input_def Let_def split: prod.split)

lemma prints_consputc [prints]: "prints L (consputc c)"
proof -
  have "prints L (kseq (if c = BACKSPACE then kseq (uartputc 8) (kseq (uartputc 32) (uartputc 8)) else uartputc (of_nat c)) (cgaputc c))"
    by (intro prints)
  then show ?thesis by (simp add: prints_def consputc_def kbind_get)
qed

lemma prints_consputs [prints]: "prints L (consputs cs)"
  unfolding consputs_def by (intro prints)

lemma prints_cprintf [prints]: "prints {LCons} (cprintf fmt args)"
  unfolding prints_def
proof (intro allI impI)
  fix s :: "'a cons_st_scheme"
  assume s: "\<not> panicked s" "{LCons} \<inter> held s = {}"
  let ?u = "if cons_locking s then s\<lparr>held := insert LCons (held s)\<rparr> else s"
  have "\<not> panicked ?u" "{} \<inter> held ?u = {}" using s by simp_all
  then obtain t where t: "consputs (cprintf_text fmt args) ?u = Ok () t" "same_input ?u t"
    using prints_consputs [of "{}" "cprintf_text fmt args"] unfolding prints_def by blast
  then show "\<exists>t. cprintf fmt args s = Ok () t \<and> same_input s t"
    using s by (cases "cons_locking s") (auto simp: cprintf_def kmonad same_input_def)
qed

lemma prints_procdump [prints]: "prints {LCons} procdump"
  unfolding procdump_def dump_proc_def by (intro prints)

section \<open>The line editor\<close>

text \<open>The \<open>n\<close> bytes of the ring from index \<open>a\<close> on.\<close>

definition ring_of :: "bytes \<Rightarrow> u32 \<Rightarrow> nat \<Rightarrow> u8 list" where
  "ring_of buf a n = map (\<lambda>i. buf ((unat a + i) mod INPUT_BUF)) [0..<n]"

text \<open>The bytes a reader may take, and the bytes of the line that is still edited.\<close>

definition ready :: "'a cons_st_scheme \<Rightarrow> u8 list" where
  "ready s = ring_of (input_buf s) (input_r s) (unat (input_w s - input_r s))"

definition edited :: "'a cons_st_scheme \<Rightarrow> u8 list" where
  "edited s = ring_of (input_buf s) (input_w s) (unat (input_e s - input_w s))"

definition input_wf :: "'a cons_st_scheme \<Rightarrow> bool" where
  "input_wf s \<longleftrightarrow> unat (input_w s - input_r s) \<le> unat (input_e s - input_r s) \<and> unat (input_e s - input_r s) \<le> INPUT_BUF \<and>
     10 \<notin> set (edited s)"

text \<open>What a key does to the two: control-P nothing, control-U drops the line, backspace its last byte, and any other byte is
  added unless 128 bytes wait; newline, control-D and the 128th byte end the line.\<close>

definition edit_key :: "nat \<Rightarrow> u8 list \<times> u8 list \<Rightarrow> u8 list \<times> u8 list" where
  "edit_key c = (\<lambda>(rdy, ed).
     if c = 16 then (rdy, ed)
     else if c = 21 then (rdy, [])
     else if c = 8 \<or> c = 127 then (rdy, butlast ed)
     else if c \<noteq> 0 \<and> length rdy + length ed < INPUT_BUF then
       let c = (if c = 13 then 10 else c); ed = ed @ [of_nat c] in
       if c = 10 \<or> c = 4 \<or> length rdy + length ed = INPUT_BUF then (rdy @ ed, []) else (rdy, ed)
     else (rdy, ed))"

lemma length_ring [simp]: "length (ring_of buf a n) = n"
  by (simp add: ring_of_def)

lemma ring_Suc: "ring_of buf a (Suc n) = ring_of buf a n @ [buf ((unat a + n) mod INPUT_BUF)]"
  by (simp add: ring_of_def)

lemma unat_mod_ring: "unat (a + b :: u32) mod INPUT_BUF = (unat a + unat b) mod INPUT_BUF"
proof -
  have "unat (a + b) = (unat a + unat b) mod (INPUT_BUF * 33554432)" by (simp add: unat_word_ariths)
  then show ?thesis by (simp add: mod_mod_cancel)
qed

lemma unat_nat_ring: "unat (of_nat m :: u32) mod INPUT_BUF = m mod INPUT_BUF"
  by (simp add: unat_of_nat take_bit_eq_mod mod_mod_cancel)

lemma ring_index: "unat (a + of_nat m :: u32) mod INPUT_BUF = (unat a + m) mod INPUT_BUF"
  using unat_mod_ring [of a "of_nat m"] unat_nat_ring [of m] mod_add_cong [of "unat a" INPUT_BUF "unat a" "unat (of_nat m :: u32)" m] by simp

lemma ring_append: "ring_of buf a (m + n) = ring_of buf a m @ ring_of buf (a + of_nat m) n"
proof -
  have "(unat (a + of_nat m) + i) mod INPUT_BUF = (unat a + m + i) mod INPUT_BUF" for i
    by (rule mod_add_cong [OF ring_index refl])
  then show ?thesis by (induction n) (simp_all add: ring_Suc ring_of_def add.assoc)
qed

lemma ring_end: "unat (b - a) = n \<Longrightarrow> b = a + of_nat n"
  by auto

lemma ring_last:
  assumes "unat (b - a :: u32) = Suc n"
  shows "unat (b - 1 - a) = n" "buf (unat (b - 1) mod INPUT_BUF) = last (ring_of buf a (Suc n))" "ring_of buf a n = butlast (ring_of buf a (Suc n))"
proof -
  have b: "b - 1 = a + of_nat n" using ring_end [OF assms] by simp
  show "unat (b - 1 - a) = n" using assms by (metis diff_Suc_1 diff_diff_eq2 diff_right_commute nat.distinct(1) unat_eq_zero unat_minus_one)
  have "unat (b - 1) mod INPUT_BUF = (unat a + n) mod INPUT_BUF"
    unfolding b by (rule ring_index)
  then show "buf (unat (b - 1) mod INPUT_BUF) = last (ring_of buf a (Suc n))" by (simp add: ring_Suc)
  show "ring_of buf a n = butlast (ring_of buf a (Suc n))" by (simp add: ring_Suc)
qed

lemma back_run:
  assumes "\<not> panicked s"
  shows "\<exists>t. kseq (kmod (\<lambda>s. s\<lparr>input_e := input_e s - 1\<rparr>)) (consputc BACKSPACE) s = Ok () t \<and> same_input (s\<lparr>input_e := input_e s - 1\<rparr>) t"
proof -
  let ?u = "s\<lparr>input_e := input_e s - 1\<rparr>"
  obtain t where "consputc BACKSPACE ?u = Ok () t" "same_input ?u t"
    by (rule prints_run [OF prints_consputc [of "{}" BACKSPACE], of ?u]) (use assms in simp_all)
  then show ?thesis by (simp add: kmonad)
qed

lemma kill_line_run:
  assumes "\<not> panicked s" and "unat (input_e s - input_w s) = k" and "10 \<notin> set (edited s)"
  shows "\<exists>t. kill_line k s = Ok () t \<and> same_input (s\<lparr>input_e := input_w s\<rparr>) t"
  using assms
proof (induction k arbitrary: s)
  case 0
  then have "input_e s = input_w s" by (simp add: unat_eq_zero)
  then show ?case by (auto simp: kmonad same_input_def)
next
  case (Suc k)
  note L = ring_last(1) [OF Suc.prems(2)] ring_last(2,3) [OF Suc.prems(2), of "input_buf s"]
  have ed: "edited s = ring_of (input_buf s) (input_w s) (Suc k)" using Suc.prems(2) by (simp add: edited_def)
  have ne: "input_e s \<noteq> input_w s" using Suc.prems(2) by auto
  have "last (edited s) \<in> set (edited s)" unfolding ed by (rule last_in_set) (simp add: ring_Suc)
  then have c: "input_buf s (unat (input_e s - 1) mod INPUT_BUF) \<noteq> 10" using L(2) Suc.prems(3) ed by auto
  obtain u where u: "kseq (kmod (\<lambda>s. s\<lparr>input_e := input_e s - 1\<rparr>)) (consputc BACKSPACE) s = Ok () u"
      "same_input (s\<lparr>input_e := input_e s - 1\<rparr>) u" using back_run [OF Suc.prems(1)] by blast
  have iu: "input_e u = input_e s - 1" "input_w u = input_w s" "input_buf u = input_buf s" "\<not> panicked u"
    using u(2) Suc.prems(1) by (simp_all add: same_input_def)
  have "edited u = butlast (edited s)" using L(1,3) ed iu by (simp add: edited_def)
  then have "10 \<notin> set (edited u)" using Suc.prems(3) by (auto dest: in_set_butlastD)
  then obtain t where t: "kill_line k u = Ok () t" "same_input (u\<lparr>input_e := input_w u\<rparr>) t"
    using Suc.IH [of u] iu L(1) by auto
  have "kill_line (Suc k) s = Ok () t" using ne c u(1) t(1) by (auto simp: kmonad kbind_Ok_iff)
  moreover have "same_input (s\<lparr>input_e := input_w s\<rparr>) t" using u(2) t(2) by (simp add: same_input_def)
  ultimately show ?case by blast
qed

text \<open>A byte put behind the \<open>n\<close> bytes of a ring that is not full.\<close>

lemma ring_put:
  assumes "n \<le> m" and "m < INPUT_BUF" and "unat (e - a :: u32) = m"
  shows "ring_of (buf(unat e mod INPUT_BUF := c)) a n = ring_of buf a n"
proof -
  have e: "unat e mod INPUT_BUF = (unat a + m) mod INPUT_BUF"
    using ring_end [OF assms(3)] ring_index by simp
  have "(unat a + i) mod INPUT_BUF \<noteq> (unat a + m) mod INPUT_BUF" if "i < n" for i
  proof
    assume "(unat a + i) mod INPUT_BUF = (unat a + m) mod INPUT_BUF"
    then have "INPUT_BUF dvd (unat a + m) - (unat a + i)" using that assms(1) by (intro mod_eq_dvd_iff_nat [THEN iffD1]) auto
    then have "INPUT_BUF \<le> m - i" using that assms(1) by (intro dvd_imp_le) auto
    then show False using assms(2) by simp
  qed
  then show ?thesis unfolding ring_of_def e by simp
qed

lemma input_lengths:
  assumes "input_wf s"
  shows "unat (input_w s - input_r s) + unat (input_e s - input_w s) = unat (input_e s - input_r s)"
    "length (ready s) + length (edited s) = unat (input_e s - input_r s)"
proof -
  have "input_e s - input_w s = (input_e s - input_r s) - (input_w s - input_r s)" by simp
  moreover have "input_w s - input_r s \<le> input_e s - input_r s" using assms by (simp add: input_wf_def word_le_nat_alt)
  ultimately have "unat (input_e s - input_w s) = unat (input_e s - input_r s) - unat (input_w s - input_r s)" by (metis unat_sub)
  then show l: "unat (input_w s - input_r s) + unat (input_e s - input_w s) = unat (input_e s - input_r s)"
    using assms by (simp add: input_wf_def)
  show "length (ready s) + length (edited s) = unat (input_e s - input_r s)" using l by (simp add: ready_def edited_def)
qed

text \<open>The states that differ from a well-formed one by moving the end of the edited line back, and by a byte more.\<close>

lemma input_back:
  assumes wf: "input_wf s" and t: "same_input (s\<lparr>input_e := e\<rparr>) t" and e: "unat (e - input_w s) = k" "k \<le> unat (input_e s - input_w s)"
  shows "input_wf t" "ready t = ready s" "edited t = take k (edited s)"
proof -
  have it: "input_buf t = input_buf s" "input_r t = input_r s" "input_w t = input_w s" "input_e t = e" using t by (simp_all add: same_input_def)
  show "ready t = ready s" using it by (simp add: ready_def)
  show ed: "edited t = take k (edited s)"
    using it e ring_append [of "input_buf s" "input_w s" k "unat (input_e s - input_w s) - k"] by (simp add: edited_def)
  have "unat (input_w s - input_r s) + unat (e - input_w s) < 2 ^ 32"
    using input_lengths(1) [OF wf] wf e by (simp add: input_wf_def)
  then have "unat ((input_w s - input_r s) + (e - input_w s)) = unat (input_w s - input_r s) + k"
    by (subst unat_word_ariths) (simp add: e(1))
  then have "unat (e - input_r s) = unat (input_w s - input_r s) + k" by simp
  then show "input_wf t" using wf it ed input_lengths(1) [OF wf] e by (auto simp: input_wf_def dest: in_set_takeD)
qed

lemma input_put:
  assumes wf: "input_wf s" and room: "unat (input_e s - input_r s) < INPUT_BUF" 
    and t: "same_input (s\<lparr>input_buf := (input_buf s)(unat (input_e s) mod INPUT_BUF := c), input_e := input_e s + 1\<rparr>) t"
  shows "ready t = ready s" "edited t = edited s @ [c]" "unat (input_e t - input_r t) = Suc (unat (input_e s - input_r s))"
    "input_w t - input_r t = input_w s - input_r s"
proof -
  let ?m = "unat (input_e s - input_r s)" and ?k = "unat (input_e s - input_w s)"
  have it: "input_buf t = (input_buf s)(unat (input_e s) mod INPUT_BUF := c)" "input_r t = input_r s" "input_w t = input_w s"
    "input_e t = input_e s + 1" using t by (simp_all add: same_input_def)
  have k: "?k < INPUT_BUF" "unat (input_w s - input_r s) \<le> ?m" using input_lengths(1) [OF wf] room by simp_all
  have suc: "unat (input_e s + 1 - a) = Suc (unat (input_e s - a))" if "unat (input_e s - a) < INPUT_BUF" for a
  proof -
    have "input_e s + 1 - a = (input_e s - a) + 1" by simp
    then show ?thesis using that by (simp only: unat_word_ariths) simp
  qed
  show "ready t = ready s" using it ring_put [OF k(2) room refl, of "input_buf s" c] by (simp add: ready_def)
  have "unat (input_e s) mod INPUT_BUF = (unat (input_w s) + ?k) mod INPUT_BUF" using ring_index [of "input_w s" ?k] by simp
  then show "edited t = edited s @ [c]"
    using it suc [OF k(1)] ring_put [OF order.refl k(1) refl, of "input_buf s" c] by (simp add: edited_def ring_Suc)
  show "unat (input_e t - input_r t) = Suc ?m" "input_w t - input_r t = input_w s - input_r s" using it suc [OF room] by simp_all
qed

lemma input_commit:
  assumes "unat (input_w t - input_r t) + unat (input_e t - input_w t) = unat (input_e t - input_r t)" and "unat (input_e t - input_r t) \<le> INPUT_BUF"
    and u: "u = t\<lparr>input_w := input_e t, ptable := T\<rparr>"
  shows "input_wf u" "ready u = ready t @ edited t" "edited u = []"
proof -
  show e: "edited u = []" using u by (simp add: edited_def ring_of_def)
  show "input_wf u" using e u assms(2) by (simp add: input_wf_def)
  have "input_r t + of_nat (unat (input_w t - input_r t)) = input_w t" by simp
  then show "ready u = ready t @ edited t"
    using u ring_append [of "input_buf t" "input_r t" "unat (input_w t - input_r t)" "unat (input_e t - input_w t)"] assms(1)
    by (simp add: ready_def edited_def)
qed

definition put_key :: "nat \<Rightarrow> ('a cons_st_scheme, chan, unit) km" where
  "put_key c =
     kseq (kmod (\<lambda>s. s\<lparr>input_buf := (input_buf s)(unat (input_e s) mod INPUT_BUF := of_nat c), input_e := input_e s + 1\<rparr>))
     (kseq (consputc c)
     (kbind (kget (\<lambda>s. input_e s = input_r s + of_nat INPUT_BUF)) (\<lambda>full.
     kwhen (c = 10 \<or> c = 4 \<or> full)
       (kseq (kmod (\<lambda>s. s\<lparr>input_w := input_e s\<rparr>))
       (wakeup ChInput)))))"

lemma put_key_run:
  assumes wf: "input_wf s" and room: "unat (input_e s - input_r s) < INPUT_BUF" and s: "\<not> panicked s" "LPtable \<notin> held s" and c: "c < 256"
  shows "\<exists>t. put_key c s = Ok () t \<and> input_wf t \<and> held t = held s \<and>
    (if c = 10 \<or> c = 4 \<or> length (ready s) + length (edited s) + 1 = INPUT_BUF
     then ready t = ready s @ edited s @ [of_nat c] \<and> edited t = [] \<and> ptable t = wakeup1_tab ChInput (ptable s)
     else ready t = ready s \<and> edited t = edited s @ [of_nat c])"
proof -
  let ?u = "s\<lparr>input_buf := (input_buf s)(unat (input_e s) mod INPUT_BUF := of_nat c), input_e := input_e s + 1\<rparr>"
  obtain t where t: "consputc c ?u = Ok () t" "same_input ?u t"
    by (rule prints_run [OF prints_consputc [of "{}" c], of ?u]) (use s in simp_all)
  note P = input_put [OF wf room t(2)]
  have it: "held t = held s" "ptable t = ptable s" using t(2) by (simp_all add: same_input_def)
  have n: "length (ready s) + length (edited s) = unat (input_e s - input_r s)" by (rule input_lengths(2) [OF wf])
  have "input_e t = input_r t + 128 \<longleftrightarrow> input_e t - input_r t = 128" by (auto simp: algebra_simps)
  also have "\<dots> \<longleftrightarrow> unat (input_e t - input_r t) = INPUT_BUF" by (simp add: word_unat_eq_iff)
  finally have full: "input_e t = input_r t + of_nat INPUT_BUF \<longleftrightarrow> length (ready s) + length (edited s) + 1 = INPUT_BUF"
    using P(3) n by simp
  have lens: "unat (input_w t - input_r t) + unat (input_e t - input_w t) = unat (input_e t - input_r t)" "unat (input_e t - input_r t) \<le> INPUT_BUF"
    using arg_cong [OF P(1), of length] arg_cong [OF P(2), of length] P(3) n room by (simp_all add: ready_def edited_def)
  let ?v = "t\<lparr>input_w := input_e t, ptable := wakeup1_tab ChInput (ptable t)\<rparr>"
  have run: "put_key c s = (if c = 10 \<or> c = 4 \<or> length (ready s) + length (edited s) + 1 = INPUT_BUF then Ok () ?v else Ok () t)"
    using t(1) full s(2) it by (simp add: put_key_def kmonad)
  show ?thesis
  proof (cases "c = 10 \<or> c = 4 \<or> length (ready s) + length (edited s) + 1 = INPUT_BUF")
    case True
    then show ?thesis using run input_commit [OF lens refl] P(1,2) it by auto
  next
    case False
    have "(of_nat c :: u8) \<noteq> 10" using False c by (auto simp: word_unat_eq_iff unat_of_nat take_bit_nat_eq_self)
    then have "input_wf t" using wf P lens by (auto simp: input_wf_def)
    then show ?thesis using run False P(1,2) it by auto
  qed
qed

text \<open> C35: the console input is a line editor. A key handled by \<open>consoleintr\<close> acts on the bytes that wait for a reader and on the line
  being edited exactly as the editor says: control-U empties the line, backspace takes its last byte, other bytes are added
  while fewer than 128 wait, and newline, control-D or the 128th byte hand the line to the readers, all of
  which are woken. Bytes already handed over cannot be edited, none is lost or overwritten, whatever the counters have
  wrapped to, and the well-formedness of the buffer is kept.\<close>

theorem console_editing:
  assumes wf: "input_wf s" and s: "\<not> panicked s" "LCons \<notin> held s" "LPtable \<notin> held s" and c: "c < 256"
  shows "\<exists>t. console_char c s = Ok () t \<and> input_wf t \<and> (ready t, edited t) = edit_key c (ready s, edited s) \<and> held t = held s \<and>
    (ready t \<noteq> ready s \<longrightarrow> ptable t = wakeup1_tab ChInput (ptable s))"
proof -
  consider "c = 16" | "c = 21" | "c = 8 \<or> c = 127" "input_e s = input_w s" | "c = 8 \<or> c = 127" "input_e s \<noteq> input_w s" |
    "c \<notin> {16, 21, 8, 127}" "c \<noteq> 0 \<and> input_e s - input_r s < of_nat INPUT_BUF" |
    "c \<notin> {16, 21, 8, 127}" "\<not> (c \<noteq> 0 \<and> input_e s - input_r s < of_nat INPUT_BUF)" by blast
  then show ?thesis
  proof cases
    case 1
    obtain t where "procdump s = Ok () t" "same_input s t" by (rule prints_run [OF prints_procdump s(1)]) (use s in simp)
    then show ?thesis using 1 wf by (auto simp: console_char_def edit_key_def same_input_def input_wf_def ready_def edited_def)
  next
    case 2
    have "10 \<notin> set (edited s)" using wf by (simp add: input_wf_def)
    then obtain t where t: "kill_line (unat (input_e s - input_w s)) s = Ok () t" "same_input (s\<lparr>input_e := input_w s\<rparr>) t"
      using kill_line_run [OF s(1) refl] by blast
    then show ?thesis using 2 input_back [OF wf t(2), of 0] by (auto simp: console_char_def edit_key_def same_input_def)
  next
    case 3
    then have "edited s = []" by (simp add: edited_def ring_of_def)
    then show ?thesis using 3 wf by (auto simp: console_char_def edit_key_def)
  next
    case 4
    then obtain k where k: "unat (input_e s - input_w s) = Suc k" by (metis not0_implies_Suc right_minus_eq unat_eq_zero)
    obtain t where t: "kseq (kmod (\<lambda>s. s\<lparr>input_e := input_e s - 1\<rparr>)) (consputc BACKSPACE) s = Ok () t"
        "same_input (s\<lparr>input_e := input_e s - 1\<rparr>) t" using back_run [OF s(1)] by blast
    have "edited t = butlast (edited s)" "input_wf t" "ready t = ready s"
      using input_back [OF wf t(2) ring_last(1) [OF k]] k by (simp_all add: butlast_conv_take edited_def)
    then show ?thesis using 4 t by (auto simp: console_char_def edit_key_def same_input_def)
  next
    case 5
    have room: "unat (input_e s - input_r s) < INPUT_BUF" using 5(2) by (simp add: word_less_nat_alt)
    define d where "d = (if c = 13 then 10 else c)"
    have run: "console_char c s = put_key d s" using 5 by (simp add: console_char_def put_key_def d_def Let_def)
    have "edit_key c (ready s, edited s) = (if d = 10 \<or> d = 4 \<or> length (ready s) + length (edited s) + 1 = INPUT_BUF
        then (ready s @ edited s @ [of_nat d], []) else (ready s, edited s @ [of_nat d]))"
      using 5(1,2) room input_lengths(2) [OF wf] by (simp add: edit_key_def Let_def d_def)
    moreover have "d < 256" using c by (simp add: d_def)
    ultimately show ?thesis using put_key_run [OF wf room s(1,3), of d] run by (auto split: if_splits)
  next
    case 6
    have "\<not> (c \<noteq> 0 \<and> length (ready s) + length (edited s) < INPUT_BUF)"
      using 6(2) input_lengths(2) [OF wf] by (simp add: word_less_nat_alt)
    then show ?thesis using 6 wf by (auto simp: console_char_def edit_key_def)
  qed
qed

theorem console_editing_witness:
  "\<exists>t. console_char 97 zero_kernel = Ok () t \<and> (ready t, edited t) = ([], [97])"
proof -
  have "input_wf zero_kernel" "ready zero_kernel = []" "edited zero_kernel = []"
    by (simp_all add: input_wf_def ready_def edited_def ring_of_def)
  then show ?thesis using console_editing [of zero_kernel 97] by (auto simp: edit_key_def)
qed

section \<open>Printing numbers\<close>

text \<open>A reader of numbers: digits up to 9 and then the letters from \<open>a\<close> on, after an optional minus sign.\<close>

definition digit_val :: "u8 \<Rightarrow> nat" where
  "digit_val c = (if unat c \<le> 57 then unat c - 48 else unat c - 87)"

definition read_nat :: "nat \<Rightarrow> u8 list \<Rightarrow> nat" where
  "read_nat base cs = foldl (\<lambda>v c. v * base + digit_val c) 0 cs"

definition read_int :: "nat \<Rightarrow> u8 list \<Rightarrow> int" where
  "read_int base cs = (case cs of [] \<Rightarrow> 0 | c # ds \<Rightarrow> if c = 45 then - int (read_nat base ds) else int (read_nat base cs))"

lemma digit_char:
  assumes "d < 16"
  shows "digit_val (if d < 10 then 48 + of_nat d else 87 + of_nat d) = d" "(if d < 10 then 48 + of_nat d else 87 + of_nat d :: u8) \<noteq> 45"
proof -
  have "d \<in> {0,1,2,3,4,5,6,7,8,9,10,11,12,13,14,15}" unfolding insert_iff empty_iff using assms by presburger
  then show "digit_val (if d < 10 then 48 + of_nat d else 87 + of_nat d) = d" "(if d < 10 then 48 + of_nat d else 87 + of_nat d :: u8) \<noteq> 45"
    by (auto simp: digit_val_def)
qed

lemma print_digits_value:
  assumes "2 \<le> base" and "base \<le> 16"
  shows "read_nat base (rev (print_digits base x)) = x \<and> 45 \<notin> set (print_digits base x)"
  using assms
proof (induction base x rule: print_digits.induct)
  case (1 base x)
  let ?c = "if x mod base < 10 then 48 + of_nat (x mod base) else 87 + of_nat (x mod base) :: u8"
  have "x mod base < base" using "1.prems" by simp
  then have "x mod base < 16" using "1.prems"(2) by linarith
  note d = digit_char [OF this]
  show ?case
  proof (cases "x div base = 0")
    case True
    then have "print_digits base x = [?c]" by (subst print_digits.simps) (simp add: Let_def)
    then show ?thesis using d True by (auto simp: read_nat_def div_eq_0_iff)
  next
    case False
    then have e: "print_digits base x = ?c # print_digits base (x div base)" using "1.prems" by (subst print_digits.simps) (simp add: Let_def)
    have "read_nat base (rev (print_digits base (x div base))) = x div base \<and> 45 \<notin> set (print_digits base (x div base))"
      by (rule "1.IH") (use False "1.prems" in simp_all)
    then show ?thesis unfolding e using d by (simp add: read_nat_def)
  qed
qed

lemma print_digits_length: "2 \<le> base \<Longrightarrow> x < base ^ Suc k \<Longrightarrow> length (print_digits base x) \<le> Suc k"
proof (induction k arbitrary: x)
  case 0
  then show ?case by (subst print_digits.simps) (simp add: Let_def)
next
  case (Suc k)
  have "x div base < base ^ Suc k" using Suc.prems by (simp add: less_mult_imp_div_less mult.commute)
  then show ?case using Suc.IH Suc.prems(1) by (subst print_digits.simps) (simp add: Let_def)
qed

lemma print_digits_not_empty: "print_digits base x \<noteq> []"
  by (subst print_digits.simps) (simp add: Let_def)

lemma sint_cases: "sint (w :: u32) = (if w <s 0 then - int (unat (- w)) else int (unat w))"
proof -
  have u: "0 \<le> uint w" "uint w < 2 ^ 32" using unsigned_less [of w] by simp_all
  have s: "sint w = (uint w + 2 ^ 31) mod 2 ^ 32 - 2 ^ 31"
    by (simp add: sint_uint signed_take_bit_eq_take_bit_shift take_bit_eq_mod)
  have neg: "w <s 0 \<longleftrightarrow> sint w < 0" by (simp add: word_sless_alt)
  show ?thesis
  proof (cases "uint w < 2 ^ 31")
    case True
    then have "sint w = uint w" using s u by simp
    then show ?thesis using neg u by simp
  next
    case False
    have "(uint w + 2 ^ 31) mod 2 ^ 32 = ((uint w - 2 ^ 31) + 2 ^ 32) mod 2 ^ 32" by (simp add: add.commute)
    also have "\<dots> = uint w - 2 ^ 31" unfolding mod_add_self2 using False u by (intro mod_pos_pos_trivial) simp_all
    finally have "(uint w + 2 ^ 31) mod 2 ^ 32 = uint w - 2 ^ 31" .
    then have "sint w = uint w - 2 ^ 32" using s by simp
    moreover have "uint (- w) = 2 ^ 32 - uint w" using False u by (simp add: uint_word_ariths zmod_zminus1_eq_if)
    ultimately show ?thesis using neg u by simp
  qed
qed

lemma read_digits:
  assumes "2 \<le> base" and "base \<le> 16"
  shows "read_int base (45 # rev (print_digits base x)) = - int x" "read_int base (rev (print_digits base x)) = int x"
  using print_digits_value [OF assms, of x] print_digits_not_empty [of base x]
  by (auto simp: read_int_def split: list.split)

lemma print_digits_fit:
  assumes "base = 10 \<or> base = 16"
  shows "length (print_digits base (unat (x :: u32))) \<le> 10"
proof -
  have "unat x < base ^ Suc 9" using unat_u32_less [of x] assms by auto
  then show ?thesis using print_digits_length [of base "unat x" 9] assms by auto
qed

text \<open> C36: numbers are printed as they can be read back: what \<open>printint\<close> prints in base 10 or 16, read as a number in
  that base, is the argument, as a signed number when asked for and else as an unsigned one, the most
  negative number included; it is never empty, and it fits into the buffer of 16 characters.\<close>

theorem printint_reads_back:
  assumes "base = 10 \<or> base = 16"
  shows "read_int base (printint xx base sign) = (if sign then sint xx else uint xx) \<and>
    0 < length (printint xx base sign) \<and> length (printint xx base sign) \<le> 16"
proof (cases "sign \<and> xx <s 0")
  case True
  then have p: "printint xx base sign = 45 # rev (print_digits base (unat (- xx)))" by (simp add: printint_def)
  show ?thesis unfolding p using True assms read_digits(1) [of base "unat (- xx)"] sint_cases [of xx] print_digits_fit [OF assms, of "- xx"] by auto
next
  case False
  then have p: "printint xx base sign = rev (print_digits base (unat xx))" by (auto simp: printint_def)
  show ?thesis unfolding p
    using False assms read_digits(2) [of base "unat xx"] sint_cases [of xx] print_digits_fit [OF assms, of xx] print_digits_not_empty [of base "unat xx"]
    by auto
qed

theorem printint_reads_back_witness: "read_int 10 (printint 0x80000000 10 True) = - 2147483648"
  using printint_reads_back [of 10 "0x80000000" True] by simp

end
