(* ===== verification/Spinlock.thy ===== *)
theory Spinlock
  imports Prelude
begin

text \<open>
  Spin locks (\<open>kernel/spinlock.c\<close>) on any number of processors.  The other theories follow one thread of the kernel and
  take a lock as a member of the set of locks it holds; here every access to the memory of a lock is a step of
  its own and the processors interleave.
\<close>

section \<open>State\<close>

text \<open>\<open>struct spinlock\<close>; the processor that holds the lock is a pointer, \<open>None\<close> when null.\<close>

record spinlock =
  sl_locked :: u32
  sl_name :: string
  sl_cpu :: "nat option"
  sl_pcs :: "u32 list"

text \<open>Of \<open>struct cpu\<close> the fields for \<open>pushcli\<close>, with the interrupt flag of the processor.\<close>

record lcpu =
  ncli :: int
  intena :: bool
  flag_if :: bool

record lock_mem =
  locks :: "nat \<Rightarrow> spinlock"
  cpus :: "nat \<Rightarrow> lcpu"

section \<open>Operations\<close>

definition initlock :: "nat \<Rightarrow> string \<Rightarrow> lock_mem \<Rightarrow> lock_mem" where
  "initlock k name m = m\<lparr>locks := (locks m)(k := (locks m k)\<lparr>sl_name := name, sl_locked := 0, sl_cpu := None\<rparr>)\<rparr>"

definition holding :: "nat \<Rightarrow> nat \<Rightarrow> lock_mem \<Rightarrow> bool" where
  "holding c k m \<longleftrightarrow> sl_locked (locks m k) \<noteq> 0 \<and> sl_cpu (locks m k) = Some c"

definition pushcli :: "nat \<Rightarrow> lock_mem \<Rightarrow> lock_mem" where
  "pushcli c m =
     (let x = cpus m c; eflags = flag_if x; x = x\<lparr>flag_if := False\<rparr>;
          x = (if ncli x = 0 then x\<lparr>ncli := ncli x + 1, intena := eflags\<rparr> else x\<lparr>ncli := ncli x + 1\<rparr>) in
      m\<lparr>cpus := (cpus m)(c := x)\<rparr>)"

text \<open>\<open>None\<close> is a panic.\<close>

definition popcli :: "nat \<Rightarrow> lock_mem \<Rightarrow> lock_mem option" where
  "popcli c m =
     (let x = cpus m c in
      if flag_if x then None
      else
        let x = x\<lparr>ncli := ncli x - 1\<rparr> in
        if ncli x < 0 then None
        else Some (m\<lparr>cpus := (cpus m)(c := if ncli x = 0 \<and> intena x then x\<lparr>flag_if := True\<rparr> else x)\<rparr>))"

definition xchg :: "nat \<Rightarrow> u32 \<Rightarrow> lock_mem \<Rightarrow> u32 \<times> lock_mem" where
  "xchg k v m = (sl_locked (locks m k), m\<lparr>locks := (locks m)(k := (locks m k)\<lparr>sl_locked := v\<rparr>)\<rparr>)"

text \<open>The last part of \<open>acquire\<close>, with the stack trace \<open>pcs\<close>, and the first part of \<open>release\<close> after its check.\<close>

definition acquire_record :: "nat \<Rightarrow> nat \<Rightarrow> u32 list \<Rightarrow> lock_mem \<Rightarrow> lock_mem" where
  "acquire_record c k pcs m = m\<lparr>locks := (locks m)(k := (locks m k)\<lparr>sl_cpu := Some c, sl_pcs := pcs\<rparr>)\<rparr>"

definition release_clear :: "nat \<Rightarrow> lock_mem \<Rightarrow> lock_mem" where
  "release_clear k m = m\<lparr>locks := (locks m)(k := (locks m k)\<lparr>sl_pcs := (sl_pcs (locks m k))[0 := 0], sl_cpu := None\<rparr>)\<rparr>"

section \<open>Interleaving\<close>

text \<open>
  Where a processor is: outside of the two functions, in \<open>acquire\<close> after \<open>pushcli\<close>, in its loop, after the loop, in
  \<open>release\<close> before its \<open>xchg\<close>, before its \<open>popcli\<close>, or stopped in \<open>panic\<close>.
\<close>

datatype place = Outside | Pushed nat | Spinning nat | Won nat | Cleared nat | Freed nat | Stopped

text \<open>The locks a processor has between the return of \<open>acquire\<close> and the call of \<open>release\<close> are kept beside the memory.\<close>

record lock_sys =
  mem :: lock_mem
  place :: "nat \<Rightarrow> place"
  own :: "nat \<Rightarrow> nat set"

inductive lock_step :: "lock_sys \<Rightarrow> lock_sys \<Rightarrow> bool" where
  acquire_call: "place s c = Outside \<Longrightarrow> lock_step s (s\<lparr>mem := pushcli c (mem s), place := (place s)(c := Pushed k)\<rparr>)"
| acquire_panic: "place s c = Pushed k \<Longrightarrow> holding c k (mem s) \<Longrightarrow> lock_step s (s\<lparr>place := (place s)(c := Stopped)\<rparr>)"
| acquire_check: "place s c = Pushed k \<Longrightarrow> \<not> holding c k (mem s) \<Longrightarrow> lock_step s (s\<lparr>place := (place s)(c := Spinning k)\<rparr>)"
| acquire_xchg: "place s c = Spinning k \<Longrightarrow> xchg k 1 (mem s) = (old, m) \<Longrightarrow>
    lock_step s (s\<lparr>mem := m, place := (place s)(c := if old \<noteq> 0 then Spinning k else Won k)\<rparr>)"
| acquire_return: "place s c = Won k \<Longrightarrow>
    lock_step s (s\<lparr>mem := acquire_record c k pcs (mem s), place := (place s)(c := Outside), own := (own s)(c := insert k (own s c))\<rparr>)"
| release_panic: "place s c = Outside \<Longrightarrow> \<not> holding c k (mem s) \<Longrightarrow> lock_step s (s\<lparr>place := (place s)(c := Stopped)\<rparr>)"
| release_call: "place s c = Outside \<Longrightarrow> holding c k (mem s) \<Longrightarrow>
    lock_step s (s\<lparr>mem := release_clear k (mem s), place := (place s)(c := Cleared k), own := (own s)(c := own s c - {k})\<rparr>)"
| release_xchg: "place s c = Cleared k \<Longrightarrow> lock_step s (s\<lparr>mem := snd (xchg k 0 (mem s)), place := (place s)(c := Freed k)\<rparr>)"
| release_return: "place s c = Freed k \<Longrightarrow>
    lock_step s (case popcli c (mem s) of None \<Rightarrow> s\<lparr>place := (place s)(c := Stopped)\<rparr> | Some m \<Rightarrow> s\<lparr>mem := m, place := (place s)(c := Outside)\<rparr>)"
| interrupts: "place s c = Outside \<Longrightarrow> ncli (cpus (mem s) c) = 0 \<Longrightarrow>
    lock_step s (s\<lparr>mem := (mem s)\<lparr>cpus := (cpus (mem s))(c := (cpus (mem s) c)\<lparr>flag_if := b\<rparr>)\<rparr>\<rparr>)"

text \<open>
  \<open>holding\<close> reads two fields and is one step here: only processor \<open>c\<close> writes its own address to \<open>lk->cpu\<close>, so what it reads
  of the pair does not change between the reads as far as its answer goes.  A call of \<open>sti\<close> or \<open>cli\<close> by the rest of the
  kernel, while no \<open>pushcli\<close> is open, is the last rule.
\<close>

text \<open>At the start no lock is taken and no processor has called \<open>pushcli\<close>.\<close>

definition lock_start :: "lock_sys \<Rightarrow> bool" where
  "lock_start s \<longleftrightarrow> (\<forall>k. sl_locked (locks (mem s) k) = 0 \<and> sl_cpu (locks (mem s) k) = None) \<and>
     (\<forall>c. ncli (cpus (mem s) c) = 0 \<and> place s c = Outside \<and> own s c = {})"

section \<open>Invariant\<close>

text \<open>Processor \<open>c\<close> has lock \<open>k\<close>, counting the moments before \<open>acquire\<close> returns and before \<open>release\<close> frees it.\<close>

definition has_lock :: "lock_sys \<Rightarrow> nat \<Rightarrow> nat \<Rightarrow> bool" where
  "has_lock s c k \<longleftrightarrow> k \<in> own s c \<or> place s c = Won k \<or> place s c = Cleared k"

definition inside :: "place \<Rightarrow> nat" where
  "inside p = (case p of Outside \<Rightarrow> 0 | _ \<Rightarrow> 1)"

definition lock_inv :: "lock_sys \<Rightarrow> bool" where
  "lock_inv s \<longleftrightarrow>
     (\<forall>k. sl_locked (locks (mem s) k) \<noteq> 0 \<longleftrightarrow> (\<exists>c. has_lock s c k)) \<and>
     (\<forall>k c d. has_lock s c k \<longrightarrow> has_lock s d k \<longrightarrow> c = d) \<and>
     (\<forall>k c. sl_cpu (locks (mem s) k) = Some c \<longleftrightarrow> k \<in> own s c) \<and>
     (\<forall>k c. k \<in> own s c \<longrightarrow> place s c \<noteq> Won k \<and> place s c \<noteq> Cleared k) \<and>
     (\<forall>c. finite (own s c)) \<and>
     (\<forall>c. place s c \<noteq> Stopped \<longrightarrow> ncli (cpus (mem s) c) = int (card (own s c) + inside (place s c))) \<and>
     (\<forall>c. 0 < ncli (cpus (mem s) c) \<longrightarrow> \<not> flag_if (cpus (mem s) c))"

lemmas lock_ops = pushcli_def popcli_def xchg_def acquire_record_def release_clear_def holding_def

lemma lock_invD:
  assumes "lock_inv s"
  shows "sl_locked (locks (mem s) k) \<noteq> 0 \<longleftrightarrow> (\<exists>c. has_lock s c k)"
    and "has_lock s c k \<Longrightarrow> has_lock s d k \<Longrightarrow> c = d"
    and "sl_cpu (locks (mem s) k) = Some c \<longleftrightarrow> k \<in> own s c"
    and "k \<in> own s c \<Longrightarrow> place s c \<noteq> Won k \<and> place s c \<noteq> Cleared k"
    and "finite (own s c)"
    and "place s c \<noteq> Stopped \<Longrightarrow> ncli (cpus (mem s) c) = int (card (own s c) + inside (place s c))"
    and "0 < ncli (cpus (mem s) c) \<Longrightarrow> \<not> flag_if (cpus (mem s) c)"
  using assms unfolding lock_inv_def by blast+

lemma holding_own:
  assumes "lock_inv s"
  shows "holding c k (mem s) \<longleftrightarrow> k \<in> own s c"
  using lock_invD(1,3) [OF assms, of k] by (auto simp: holding_def has_lock_def)

text \<open>A step that leaves who has which lock, and the memory of the locks, keeps the first half of the invariant.\<close>

lemma lock_inv_local:
  assumes inv: "lock_inv s" and p: "place t = (place s)(c := p)" and o: "own t = own s"
    and l: "locks (mem t) = locks (mem s)" and x: "cpus (mem t) = (cpus (mem s))(c := x)"
    and np: "\<forall>k. place s c \<noteq> Won k \<and> place s c \<noteq> Cleared k" "\<forall>k. p \<noteq> Won k \<and> p \<noteq> Cleared k"
    and n: "p \<noteq> Stopped \<Longrightarrow> ncli x = int (card (own s c) + inside p)" "0 < ncli x \<Longrightarrow> \<not> flag_if x"
  shows "lock_inv t"
proof -
  have h: "has_lock t = has_lock s"
    using p o np by (auto simp: has_lock_def fun_eq_iff)
  show ?thesis
    unfolding lock_inv_def h o l x p
    using lock_invD [OF inv] np n by auto
qed

lemma acquire_call_inv:
  assumes "lock_inv s" "place s c = Outside"
  shows "lock_inv (s\<lparr>mem := pushcli c (mem s), place := (place s)(c := Pushed k)\<rparr>)"
proof (rule lock_inv_local [OF assms(1), where c = c and p = "Pushed k" and x = "cpus (pushcli c (mem s)) c"])
qed (use assms(2) lock_invD(6) [OF assms(1), of c] in \<open>auto simp: pushcli_def Let_def inside_def\<close>)

lemma place_only_inv:
  assumes "lock_inv s" "\<forall>k. place s c \<noteq> Won k \<and> place s c \<noteq> Cleared k" "\<forall>k. p \<noteq> Won k \<and> p \<noteq> Cleared k"
    and "p \<noteq> Stopped \<Longrightarrow> place s c \<noteq> Stopped \<and> inside p = inside (place s c)"
  shows "lock_inv (s\<lparr>place := (place s)(c := p)\<rparr>)"
proof (rule lock_inv_local [OF assms(1), where c = c and p = p and x = "cpus (mem s) c"])
qed (use assms lock_invD(6,7) [OF assms(1), of c] in auto)

lemma release_return_inv:
  assumes inv: "lock_inv s" and "place s c = Freed k"
  obtains m where "popcli c (mem s) = Some m" "lock_inv (s\<lparr>mem := m, place := (place s)(c := Outside)\<rparr>)"
proof -
  have n: "ncli (cpus (mem s) c) = int (card (own s c)) + 1"
    using lock_invD(6) [OF inv, of c] assms(2) by (simp add: inside_def)
  then have f: "\<not> flag_if (cpus (mem s) c)"
    using lock_invD(7) [OF inv, of c] by simp
  obtain m where m: "popcli c (mem s) = Some m"
    using n f by (auto simp: popcli_def Let_def)
  have "lock_inv (s\<lparr>mem := m, place := (place s)(c := Outside)\<rparr>)"
  proof (rule lock_inv_local [OF inv, where c = c and p = Outside and x = "cpus m c"])
  qed (use m n f assms(2) in \<open>auto simp: popcli_def Let_def inside_def split: if_splits\<close>)
  with m show thesis by (rule that)
qed

lemma interrupts_inv:
  assumes "lock_inv s" "place s c = Outside" "ncli (cpus (mem s) c) = 0"
  shows "lock_inv (s\<lparr>mem := (mem s)\<lparr>cpus := (cpus (mem s))(c := (cpus (mem s) c)\<lparr>flag_if := b\<rparr>)\<rparr>\<rparr>)"
proof (rule lock_inv_local [OF assms(1), where c = c and p = Outside and x = "(cpus (mem s) c)\<lparr>flag_if := b\<rparr>"])
qed (use assms(2,3) lock_invD(6) [OF assms(1), of c] in auto)

text \<open>The steps that take a lock and free it.\<close>

lemma acquire_xchg_inv:
  assumes inv: "lock_inv s" and pl: "place s c = Spinning k" and x: "xchg k 1 (mem s) = (old, m)"
  shows "lock_inv (s\<lparr>mem := m, place := (place s)(c := if old \<noteq> 0 then Spinning k else Won k)\<rparr>)"
    (is "lock_inv ?t")
proof -
  have old: "old = sl_locked (locks (mem s) k)" and m: "m = snd (xchg k 1 (mem s))"
    using x by (auto simp: xchg_def)
  have h: "has_lock ?t d j \<longleftrightarrow> has_lock s d j \<or> (d = c \<and> j = k \<and> old = 0)" for d j
    using pl by (auto simp: has_lock_def)
  have free: "old = 0 \<Longrightarrow> \<not> has_lock s d k" for d
    using lock_invD(1) [OF inv, of k] old by auto
  have own: "old = 0 \<Longrightarrow> k \<notin> own s d" for d
    using free [of d] by (auto simp: has_lock_def)
  show ?thesis
  proof (cases "old = 0")
    case True
    with free own have "\<And>d. \<not> has_lock s d k" "\<And>d. k \<notin> own s d" by auto
    with True show ?thesis
      unfolding lock_inv_def h
      using lock_invD [OF inv] pl by (auto simp: m xchg_def inside_def)
  next
    case False
    with lock_invD(1) [OF inv, of k] old have "\<exists>d. has_lock s d k" by auto
    with False show ?thesis
      unfolding lock_inv_def h
      using lock_invD [OF inv] pl by (auto simp: m xchg_def inside_def)
  qed
qed

lemma acquire_return_inv:
  assumes inv: "lock_inv s" and pl: "place s c = Won k"
  shows "lock_inv (s\<lparr>mem := acquire_record c k pcs (mem s), place := (place s)(c := Outside), own := (own s)(c := insert k (own s c))\<rparr>)"
    (is "lock_inv ?t")
proof -
  have h: "has_lock ?t = has_lock s"
    using pl by (auto simp: has_lock_def fun_eq_iff)
  have hk: "has_lock s c k" using pl by (simp add: has_lock_def)
  have no: "k \<notin> own s d" for d
    using lock_invD(2) [OF inv hk, of d] lock_invD(4) [OF inv, of k c] pl by (auto simp: has_lock_def)
  show ?thesis
    unfolding lock_inv_def h
    using lock_invD [OF inv] no pl by (auto simp: acquire_record_def inside_def)
qed

lemma release_call_inv:
  assumes inv: "lock_inv s" and pl: "place s c = Outside" and hold: "holding c k (mem s)"
  shows "lock_inv (s\<lparr>mem := release_clear k (mem s), place := (place s)(c := Cleared k), own := (own s)(c := own s c - {k})\<rparr>)"
    (is "lock_inv ?t")
proof -
  have k: "k \<in> own s c" using hold holding_own [OF inv] by simp
  have h: "has_lock ?t = has_lock s"
    using pl k by (auto simp: has_lock_def fun_eq_iff)
  have no: "d \<noteq> c \<Longrightarrow> k \<notin> own s d" for d
    using lock_invD(3) [OF inv, of k c] lock_invD(3) [OF inv, of k d] k by simp
  have card: "0 < card (own s c)"
    using k lock_invD(5) [OF inv, of c] by (auto simp: card_gt_0_iff)
  show ?thesis
    unfolding lock_inv_def h
    using lock_invD [OF inv] no pl k card by (auto simp: release_clear_def inside_def)
qed

lemma release_xchg_inv:
  assumes inv: "lock_inv s" and pl: "place s c = Cleared k"
  shows "lock_inv (s\<lparr>mem := snd (xchg k 0 (mem s)), place := (place s)(c := Freed k)\<rparr>)"
    (is "lock_inv ?t")
proof -
  have hk: "has_lock s c k" using pl by (simp add: has_lock_def)
  have no: "k \<notin> own s c" using lock_invD(4) [OF inv, of k c] pl by auto
  have h: "has_lock ?t d j \<longleftrightarrow> has_lock s d j \<and> j \<noteq> k" for d j
  proof (cases "d = c")
    case True
    then show ?thesis using pl no by (auto simp: has_lock_def)
  next
    case False
    then have "\<not> has_lock s d k" using lock_invD(2) [OF inv hk] by blast
    with False show ?thesis by (auto simp: has_lock_def)
  qed
  show ?thesis
    unfolding lock_inv_def h
    using lock_invD [OF inv] pl no by (auto simp: xchg_def inside_def)
qed

lemma lock_step_inv:
  assumes "lock_step s t" "lock_inv s"
  shows "lock_inv t"
  using assms
proof (induction rule: lock_step.induct)
  case (release_return s c k)
  then show ?case by (metis option.simps(5) release_return_inv)
next
  case (release_panic s c k)
  then show ?case by (intro place_only_inv) simp_all
qed (simp_all add: acquire_call_inv acquire_xchg_inv acquire_return_inv release_call_inv release_xchg_inv interrupts_inv place_only_inv inside_def)

lemma lock_start_inv: "lock_start s \<Longrightarrow> lock_inv s"
  by (auto simp: lock_start_def lock_inv_def has_lock_def inside_def)

lemma lock_reachable_inv:
  assumes "lock_step\<^sup>*\<^sup>* s t" "lock_start s"
  shows "lock_inv t"
  using assms by (induction rule: rtranclp_induct) (auto intro: lock_step_inv lock_start_inv)

section \<open>Properties\<close>

lemma own_interrupts_off:
  assumes inv: "lock_inv s" and "k \<in> own s c" "place s c \<noteq> Stopped"
  shows "\<not> flag_if (cpus (mem s) c)"
proof -
  have "0 < card (own s c)"
    using assms(2) lock_invD(5) [OF inv, of c] by (auto simp: card_gt_0_iff)
  then have "0 < ncli (cpus (mem s) c)"
    using lock_invD(6) [OF inv assms(3)] by simp
  then show ?thesis by (rule lock_invD(7) [OF inv])
qed

lemma release_popcli:
  assumes "lock_inv s" "place s c = Freed k"
  shows "popcli c (mem s) \<noteq> None"
  using release_return_inv [OF assms] by (metis option.distinct(1))

text \<open>
  C37: Mutual exclusion.  In every state that the processors reach from the start, in any interleaving of the memory
  accesses of \<open>acquire\<close> and \<open>release\<close> and with any nesting of locks, two processors never have the same lock; a
  processor that has a lock runs with its interrupts off; \<open>ncli\<close> counts the locks of a processor outside of the two
  functions; \<open>holding\<close> answers exactly whether the calling processor has the lock, so that \<open>acquire\<close> panics only for a lock the
  caller has already and \<open>release\<close> only for one it does not have; and the \<open>popcli\<close> of \<open>release\<close> never panics.
\<close>

theorem spinlock_mutual_exclusion:
  assumes "lock_start s\<^sub>0" "lock_step\<^sup>*\<^sup>* s\<^sub>0 s"
  shows "(k \<in> own s c \<longrightarrow> k \<in> own s d \<longrightarrow> c = d) \<and>
    (k \<in> own s c \<longrightarrow> place s c \<noteq> Stopped \<longrightarrow> \<not> flag_if (cpus (mem s) c)) \<and>
    (place s c = Outside \<longrightarrow> ncli (cpus (mem s) c) = int (card (own s c))) \<and>
    (holding c k (mem s) \<longleftrightarrow> k \<in> own s c) \<and>
    (place s c = Freed k \<longrightarrow> popcli c (mem s) \<noteq> None)"
proof -
  have inv: "lock_inv s" by (rule lock_reachable_inv [OF assms(2,1)])
  have "k \<in> own s c \<longrightarrow> k \<in> own s d \<longrightarrow> c = d"
    using lock_invD(2) [OF inv, of c k d] by (simp add: has_lock_def)
  moreover have "place s c = Outside \<longrightarrow> ncli (cpus (mem s) c) = int (card (own s c))"
    using lock_invD(6) [OF inv, of c] by (simp add: inside_def)
  ultimately show ?thesis
    using own_interrupts_off [OF inv] holding_own [OF inv] release_popcli [OF inv] by blast
qed

text \<open>Two processors and a lock: the first takes it while the second is outside.\<close>

definition idle_locks :: lock_sys where
  "idle_locks = \<lparr>
     mem = \<lparr>locks = \<lambda>_. \<lparr>sl_locked = 0, sl_name = [], sl_cpu = None, sl_pcs = replicate 10 0\<rparr>,
            cpus = \<lambda>_. \<lparr>ncli = 0, intena = False, flag_if = True\<rparr>\<rparr>,
     place = \<lambda>_. Outside, own = \<lambda>_. {}\<rparr>"

lemma idle_locks_start: "lock_start idle_locks"
  by (simp add: lock_start_def idle_locks_def)

lemma lock_take:
  assumes "place s c = Outside" "\<not> holding c k (pushcli c (mem s))" "sl_locked (locks (mem s) k) = 0"
  shows "\<exists>t. lock_step\<^sup>*\<^sup>* s t \<and> k \<in> own t c \<and> place t c = Outside"
proof -
  define s1 where "s1 = s\<lparr>mem := pushcli c (mem s), place := (place s)(c := Pushed k)\<rparr>"
  define s2 where "s2 = s1\<lparr>place := (place s1)(c := Spinning k)\<rparr>"
  define s3 where "s3 = s2\<lparr>mem := snd (xchg k 1 (mem s2)), place := (place s2)(c := Won k)\<rparr>"
  define s4 where "s4 = s3\<lparr>mem := acquire_record c k [] (mem s3), place := (place s3)(c := Outside), own := (own s3)(c := insert k (own s3 c))\<rparr>"
  have "lock_step s s1" unfolding s1_def by (rule acquire_call [OF assms(1)])
  moreover have "lock_step s1 s2"
    unfolding s2_def by (rule acquire_check [where k = k]) (use assms(2) in \<open>simp_all add: s1_def\<close>)
  moreover have "lock_step s2 s3"
    using acquire_xchg [of s2 c k 0 "snd (xchg k 1 (mem s2))"] assms(3)
    by (simp add: s3_def s2_def s1_def xchg_def pushcli_def Let_def)
  moreover have "lock_step s3 s4"
    unfolding s4_def by (rule acquire_return) (simp add: s3_def)
  ultimately have "lock_step\<^sup>*\<^sup>* s s4" by (meson converse_rtranclp_into_rtranclp rtranclp.rtrancl_refl)
  then show ?thesis by (intro exI [of _ s4]) (simp add: s4_def)
qed

theorem spinlock_mutual_exclusion_witness:
  "lock_start idle_locks \<and> (\<exists>t. lock_step\<^sup>*\<^sup>* idle_locks t \<and> 0 \<in> own t 1 \<and> 0 \<notin> own t 2 \<and> \<not> flag_if (cpus (mem t) 1) \<and>
     holding 1 0 (mem t))"
proof -
  obtain t where t: "lock_step\<^sup>*\<^sup>* idle_locks t" "0 \<in> own t 1" "place t 1 = Outside"
    using lock_take [of idle_locks 1 0] by (auto simp: idle_locks_def holding_def pushcli_def Let_def)
  show ?thesis
    using t idle_locks_start spinlock_mutual_exclusion [OF idle_locks_start t(1), of 0 1 2] by auto
qed

end
