(* ===== verification/Ide.thy ===== *)
theory Ide
  imports Bio
begin

text \<open>
  The disk driver of \<open>kernel/ide.c\<close>: the queue of requests, the start of a request and the interrupt that ends it.
  It is the driver of the default build; the theories above the buffer cache use the one of \<open>kernel/memide.c\<close>
  (\<open>Bio.iderw\<close>), and the theorem at the end shows that the two agree.  The drive is not part of the sources: it is a
  parameter, the four port instructions that the driver uses, and what the driver relies on is the predicate \<open>ata_drive\<close>.
\<close>

unbundle bit_operations_syntax

section \<open>State\<close>

text \<open>The instructions \<open>outb\<close>, \<open>inb\<close>, \<open>outsl\<close> and \<open>insl\<close> (of one sector) as they act on the drive.\<close>

record 'h ata =
  a_outb :: "nat \<Rightarrow> u8 \<Rightarrow> 'h \<Rightarrow> 'h"
  a_inb :: "nat \<Rightarrow> 'h \<Rightarrow> u8 \<times> 'h"
  a_outsl :: "nat \<Rightarrow> bytes \<Rightarrow> 'h \<Rightarrow> 'h"
  a_insl :: "nat \<Rightarrow> 'h \<Rightarrow> bytes \<times> 'h"

record 'h ide_st = bio_st +
  drv :: 'h
  idequeue :: "nat option"
  b_qnext :: "nat \<Rightarrow> nat option"      \<comment> \<open>\<open>b->qnext\<close>\<close>
  havedisk1 :: bool

abbreviation IDE_DRDY :: u8 where "IDE_DRDY \<equiv> 0x40"
abbreviation IDE_CMD_READ :: u8 where "IDE_CMD_READ \<equiv> 0x20"
abbreviation IDE_CMD_WRITE :: u8 where "IDE_CMD_WRITE \<equiv> 0x30"

section \<open>Operations\<close>

definition outb :: "'h ata \<Rightarrow> nat \<Rightarrow> u8 \<Rightarrow> ('h ide_st, chan, unit) km" where
  "outb A p v = kmod (\<lambda>s. s\<lparr>drv := a_outb A p v (drv s)\<rparr>)"

definition inb :: "'h ata \<Rightarrow> nat \<Rightarrow> ('h ide_st, chan, u8) km" where
  "inb A p = (\<lambda>s. case a_inb A p (drv s) of (r, h) \<Rightarrow> Ok r (s\<lparr>drv := h\<rparr>))"

text \<open>The status word says that the drive is ready: \<open>(r & (IDE_BSY | IDE_DRDY)) == IDE_DRDY\<close>; that it failed: \<open>r & (IDE_DF | IDE_ERR)\<close>.\<close>

definition ide_ready :: "u8 \<Rightarrow> bool" where
  "ide_ready r \<longleftrightarrow> r AND 0xC0 = IDE_DRDY"

definition ide_failed :: "u8 \<Rightarrow> bool" where
  "ide_failed r \<longleftrightarrow> r AND 0x21 \<noteq> 0"

text \<open>The loop has no bound in the code; here it polls the status \<open>lim\<close> times at most.\<close>

definition idewait :: "'h ata \<Rightarrow> nat \<Rightarrow> bool \<Rightarrow> ('h ide_st, chan, int) km" where
  "idewait A lim checkerr =
     kbind (kloop lim (\<lambda>_. kbind (inb A 0x1f7) (\<lambda>r. kreturn (if ide_ready r then Inr r else Inl ()))) ()) (\<lambda>r.
     kreturn (if checkerr \<and> ide_failed r then -1 else 0))"

text \<open>\<open>ideinit\<close> without the calls that enable the interrupt line.\<close>

definition ideinit_probe :: "'h ata \<Rightarrow> nat \<Rightarrow> ('h ide_st, chan, nat + bool) km" where
  "ideinit_probe A i =
     (if i < 1000 then kbind (inb A 0x1f7) (\<lambda>r. kreturn (if r \<noteq> 0 then Inr True else Inl (i + 1))) else kreturn (Inr False))"

definition ideinit :: "'h ata \<Rightarrow> nat \<Rightarrow> ('h ide_st, chan, unit) km" where
  "ideinit A lim =
     kseq (idewait A lim False)
     (kseq (outb A 0x1f6 (0xe0 OR push_bit 4 1))
     (kbind (kloop 1001 (ideinit_probe A) 0) (\<lambda>found.
     kseq (kwhen found (kmod (\<lambda>s. s\<lparr>havedisk1 := True\<rparr>)))
     (outb A 0x1f6 (0xe0 OR push_bit 4 0)))))"

definition idestart :: "'h ata \<Rightarrow> nat \<Rightarrow> nat option \<Rightarrow> ('h ide_st, chan, unit) km" where
  "idestart A lim bp =
     (case bp of None \<Rightarrow> kpanic ''idestart''
      | Some b \<Rightarrow>
          kseq (idewait A lim False)
          (kbind (kget (\<lambda>s. bufs s b)) (\<lambda>x.
          kseq (outb A 0x3f6 0)
          (kseq (outb A 0x1f2 1)
          (kseq (outb A 0x1f3 (of_nat (b_sector x) AND 0xff))
          (kseq (outb A 0x1f4 (of_nat (b_sector x div 2 ^ 8) AND 0xff))
          (kseq (outb A 0x1f5 (of_nat (b_sector x div 2 ^ 16) AND 0xff))
          (kseq (outb A 0x1f6 (0xe0 OR push_bit 4 (of_nat (b_dev x) AND 1) OR (of_nat (b_sector x div 2 ^ 24) AND 0x0f)))
          (if b_dirty x then
             kseq (outb A 0x1f7 IDE_CMD_WRITE)
             (kmod (\<lambda>s. s\<lparr>drv := a_outsl A 0x1f0 (b_data x) (drv s)\<rparr>))
           else outb A 0x1f7 IDE_CMD_READ)))))))))"

definition ideintr_read :: "'h ata \<Rightarrow> nat \<Rightarrow> nat \<Rightarrow> ('h ide_st, chan, unit) km" where
  "ideintr_read A lim b =
     kbind (idewait A lim True) (\<lambda>r.
     kwhen (0 \<le> r)
       (\<lambda>s. case a_insl A 0x1f0 (drv s) of (d, h) \<Rightarrow>
          Ok () (s\<lparr>bufs := upd_buf b (\<lambda>x. x\<lparr>b_data := d\<rparr>) (bufs s), drv := h\<rparr>)))"

definition ideintr :: "'h ata \<Rightarrow> nat \<Rightarrow> ('h ide_st, chan, unit) km" where
  "ideintr A lim =
     kseq (acquire LIde)
     (kbind (kget idequeue) (\<lambda>q.
     case q of None \<Rightarrow> release LIde
     | Some b \<Rightarrow>
         kseq (kmod (\<lambda>s. s\<lparr>idequeue := b_qnext s b\<rparr>))
         (kbind (kget (\<lambda>s. b_dirty (bufs s b))) (\<lambda>dirty.
         kseq (kwhen (\<not> dirty) (ideintr_read A lim b))
         (kseq (mod_buf b (\<lambda>x. x\<lparr>b_valid := True\<rparr>))
         (kseq (mod_buf b (\<lambda>x. x\<lparr>b_dirty := False\<rparr>))
         (kseq (wakeup (ChBuf b))
         (kbind (kget idequeue) (\<lambda>q.
         kseq (kwhen (q \<noteq> None) (idestart A lim q))
         (release LIde))))))))))"

text \<open>A pointer to a pointer of the queue: the head, or the field \<open>qnext\<close> of a buffer.\<close>

datatype qptr = QHead | QNext nat

fun load_q :: "qptr \<Rightarrow> 'h ide_st \<Rightarrow> nat option" where
  "load_q QHead s = idequeue s"
| "load_q (QNext b) s = b_qnext s b"

fun store_q :: "qptr \<Rightarrow> nat option \<Rightarrow> 'h ide_st \<Rightarrow> 'h ide_st" where
  "store_q QHead v s = s\<lparr>idequeue := v\<rparr>"
| "store_q (QNext b) v s = s\<lparr>b_qnext := (b_qnext s)(b := v)\<rparr>"

text \<open>The queue holds each of the \<open>NBUF\<close> buffers once at most, so the walk to its end takes \<open>NBUF + 1\<close> steps at most.\<close>

definition ide_walk :: "qptr \<Rightarrow> ('h ide_st, chan, qptr + qptr) km" where
  "ide_walk pp = kget (\<lambda>s. case load_q pp s of None \<Rightarrow> Inr pp | Some c \<Rightarrow> Inl (QNext c))"

definition ide_enqueue :: "nat \<Rightarrow> ('h ide_st, chan, unit) km" where
  "ide_enqueue b =
     kseq (kmod (\<lambda>s. s\<lparr>b_qnext := (b_qnext s)(b := None)\<rparr>))
     (kbind (kloop (NBUF + 1) ide_walk QHead) (\<lambda>pp.
     kmod (store_q pp (Some b))))"

text \<open>The wait for the end of the request, the lock held; \<open>Inl ()\<close> says that the process sleeps.\<close>

definition iderw_wait :: "nat \<Rightarrow> ('h ide_st, chan, unit + unit) km" where
  "iderw_wait b =
     kbind (kget (\<lambda>s. bufs s b)) (\<lambda>x.
     if b_valid x \<and> \<not> b_dirty x then kseq (release LIde) (kreturn (Inr ()))
     else kseq (sleep_enter (ChBuf b) LIde) (kreturn (Inl ())))"

definition iderw_submit :: "'h ata \<Rightarrow> nat \<Rightarrow> nat \<Rightarrow> ('h ide_st, chan, unit) km" where
  "iderw_submit A lim b =
     kbind (kget (\<lambda>s. (bufs s b, havedisk1 s))) (\<lambda>(x, disk1).
     if \<not> b_busy x then kpanic ''iderw: buf not busy''
     else if b_valid x \<and> \<not> b_dirty x then kpanic ''iderw: nothing to do''
     else if b_dev x \<noteq> 0 \<and> \<not> disk1 then kpanic ''iderw: ide disk 1 not present''
     else
       kseq (acquire LIde)
       (kseq (ide_enqueue b)
       (kbind (kget idequeue) (\<lambda>q.
       kwhen (q = Some b) (idestart A lim (Some b))))))"

definition iderw_start :: "'h ata \<Rightarrow> nat \<Rightarrow> nat \<Rightarrow> ('h ide_st, chan, unit + unit) km" where
  "iderw_start A lim b = kseq (iderw_submit A lim b) (iderw_wait b)"

definition iderw_resume :: "nat \<Rightarrow> ('h ide_st, chan, unit + unit) km" where
  "iderw_resume b = kseq (sleep_leave LIde) (iderw_wait b)"

section \<open>The drive\<close>

text \<open>What the driver can tell of a drive: the task registers, the command it was given and the content of its two disks.\<close>

record 'h ata_view =
  v_reg :: "'h \<Rightarrow> nat \<Rightarrow> u8"
  v_cmd :: "'h \<Rightarrow> u8 option"
  v_media :: "'h \<Rightarrow> nat \<Rightarrow> nat \<Rightarrow> bytes"

text \<open>The disk and the sector that the registers address.\<close>

definition reg_dev :: "(nat \<Rightarrow> u8) \<Rightarrow> nat" where
  "reg_dev r = unat (r 0x1f6) div 16 mod 2"

definition reg_lba :: "(nat \<Rightarrow> u8) \<Rightarrow> nat" where
  "reg_lba r = unat (r 0x1f3) + 2 ^ 8 * unat (r 0x1f4) + 2 ^ 16 * unat (r 0x1f5) + 2 ^ 24 * (unat (r 0x1f6) mod 16)"

definition same_view :: "'h ata_view \<Rightarrow> 'h \<Rightarrow> 'h \<Rightarrow> bool" where
  "same_view V h h' \<longleftrightarrow> v_reg V h' = v_reg V h \<and> v_cmd V h' = v_cmd V h \<and> v_media V h' = v_media V h"

definition set_media :: "nat \<Rightarrow> nat \<Rightarrow> bytes \<Rightarrow> (nat \<Rightarrow> nat \<Rightarrow> bytes) \<Rightarrow> nat \<Rightarrow> nat \<Rightarrow> bytes" where
  "set_media d n x M = M(d := (M d)(n := x))"

text \<open>The state of the drive after \<open>k\<close> reads of the status register.\<close>

fun polls :: "'h ata \<Rightarrow> nat \<Rightarrow> 'h \<Rightarrow> 'h" where
  "polls A 0 h = h"
| "polls A (Suc k) h = polls A k (snd (a_inb A 0x1f7 h))"

definition drive_polls :: "'h ata \<Rightarrow> 'h ata_view \<Rightarrow> nat \<Rightarrow> bool" where
  "drive_polls A V lim \<longleftrightarrow>
     (\<forall>h. same_view V h (snd (a_inb A 0x1f7 h))) \<and>
     (\<forall>h. \<exists>k<lim. ide_ready (fst (a_inb A 0x1f7 (polls A k h))))"

definition drive_commands :: "'h ata \<Rightarrow> 'h ata_view \<Rightarrow> bool" where
  "drive_commands A V \<longleftrightarrow>
     (\<forall>h v. same_view V h (a_outb A 0x3f6 v h)) \<and>
     (\<forall>h v. \<forall>p\<in>{0x1f2, 0x1f3, 0x1f4, 0x1f5, 0x1f6}. v_reg V (a_outb A p v h) = (v_reg V h)(p := v) \<and>
        v_media V (a_outb A p v h) = v_media V h) \<and>
     (\<forall>h c. v_reg V (a_outb A 0x1f7 c h) = v_reg V h \<and> v_media V (a_outb A 0x1f7 c h) = v_media V h \<and>
        v_cmd V (a_outb A 0x1f7 c h) = Some c)"

definition drive_data :: "'h ata \<Rightarrow> 'h ata_view \<Rightarrow> bool" where
  "drive_data A V \<longleftrightarrow>
     (\<forall>h x. v_cmd V h = Some IDE_CMD_WRITE \<longrightarrow>
        v_media V (a_outsl A 0x1f0 x h) = set_media (reg_dev (v_reg V h)) (reg_lba (v_reg V h)) x (v_media V h) \<and>
        v_reg V (a_outsl A 0x1f0 x h) = v_reg V h \<and> v_cmd V (a_outsl A 0x1f0 x h) = v_cmd V h) \<and>
     (\<forall>h. v_cmd V h = Some IDE_CMD_READ \<longrightarrow>
        fst (a_insl A 0x1f0 h) = v_media V h (reg_dev (v_reg V h)) (reg_lba (v_reg V h)) \<and>
        same_view V h (snd (a_insl A 0x1f0 h)))"

text \<open>A drive that works: ready within \<open>lim\<close> reads of the status, and never in error.\<close>

definition ata_drive :: "'h ata \<Rightarrow> 'h ata_view \<Rightarrow> nat \<Rightarrow> bool" where
  "ata_drive A V lim \<longleftrightarrow> drive_polls A V lim \<and> drive_commands A V \<and> drive_data A V \<and>
     (\<forall>h. ide_ready (fst (a_inb A 0x1f7 h)) \<longrightarrow> \<not> ide_failed (fst (a_inb A 0x1f7 h)))"

section \<open>Lemmas on the drive\<close>

lemma same_view_refl: "same_view V h h"
  by (simp add: same_view_def)

lemma same_view_trans: "same_view V h h' \<Longrightarrow> same_view V h' h'' \<Longrightarrow> same_view V h h''"
  by (simp add: same_view_def)

lemma idewait_loop:
  assumes "\<And>h. same_view V h (snd (a_inb A 0x1f7 h))" "k < lim" "ide_ready (fst (a_inb A 0x1f7 (polls A k (drv s))))"
  shows "\<exists>h g. kloop lim (\<lambda>_. kbind (inb A 0x1f7) (\<lambda>r. kreturn (if ide_ready r then Inr r else Inl ()))) () s =
      Ok (fst (a_inb A 0x1f7 g)) (s\<lparr>drv := h\<rparr>) \<and> same_view V (drv s) h \<and> ide_ready (fst (a_inb A 0x1f7 g))"
  using assms(2,3)
proof (induction k arbitrary: lim s)
  case 0
  then obtain n where "lim = Suc n" by (cases lim) auto
  with 0 show ?case
    using assms(1) [of "drv s"]
    by (intro exI [of _ "snd (a_inb A 0x1f7 (drv s))"] exI [of _ "drv s"]) (simp add: kbind_def inb_def kreturn_def split_beta)
next
  case (Suc k)
  then obtain n where n: "lim = Suc n" "k < n" by (cases lim) auto
  let ?s = "s\<lparr>drv := snd (a_inb A 0x1f7 (drv s))\<rparr>"
  show ?case
  proof (cases "ide_ready (fst (a_inb A 0x1f7 (drv s)))")
    case True
    with n show ?thesis
      using assms(1) [of "drv s"]
      by (intro exI [of _ "snd (a_inb A 0x1f7 (drv s))"] exI [of _ "drv s"]) (simp add: kbind_def inb_def kreturn_def split_beta)
  next
    case False
    from Suc.IH [OF n(2), of ?s] Suc.prems(2)
    obtain h g where "kloop n (\<lambda>_. kbind (inb A 0x1f7) (\<lambda>r. kreturn (if ide_ready r then Inr r else Inl ()))) () ?s =
        Ok (fst (a_inb A 0x1f7 g)) (s\<lparr>drv := h\<rparr>)" "same_view V (drv ?s) h" "ide_ready (fst (a_inb A 0x1f7 g))"
      by auto
    with False n show ?thesis
      using assms(1) [of "drv s"]
      by (intro exI [of _ h] exI [of _ g]) (simp add: kbind_def inb_def kreturn_def split_beta same_view_def)
  qed
qed

lemma idewait_run:
  assumes "ata_drive A V lim"
  obtains h where "same_view V (drv s) h" "idewait A lim c s = Ok 0 (s\<lparr>drv := h\<rparr>)"
proof -
  have p: "drive_polls A V lim" and ok: "\<And>h. ide_ready (fst (a_inb A 0x1f7 h)) \<Longrightarrow> \<not> ide_failed (fst (a_inb A 0x1f7 h))"
    using assms by (simp_all add: ata_drive_def)
  obtain k where k: "k < lim" "ide_ready (fst (a_inb A 0x1f7 (polls A k (drv s))))"
    using p unfolding drive_polls_def by blast
  obtain h g where "kloop lim (\<lambda>_. kbind (inb A 0x1f7) (\<lambda>r. kreturn (if ide_ready r then Inr r else Inl ()))) () s =
      Ok (fst (a_inb A 0x1f7 g)) (s\<lparr>drv := h\<rparr>)" "same_view V (drv s) h" "ide_ready (fst (a_inb A 0x1f7 g))"
    using idewait_loop [OF _ k, of V] p unfolding drive_polls_def by blast
  then show thesis
    using ok [of g] that by (simp add: idewait_def kbind_def kreturn_def)
qed

text \<open>The bytes of the address written to the registers are read back by the drive.\<close>

lemma reg_byte: "unat (of_nat n AND 0xff :: u8) = n mod 256"
proof -
  have "(0xff :: u8) = - 1" by simp
  then have "(of_nat n AND 0xff :: u8) = of_nat n" by (metis and.right_neutral)
  then show ?thesis by (simp add: unsigned_of_nat take_bit_eq_mod)
qed

lemma reg_select:
  assumes "d < 2" "m < (16 :: nat)"
  shows "unat (0xe0 OR push_bit 4 (of_nat d AND 1) OR (of_nat m AND 0x0f) :: u8) = 224 + 16 * d + m"
proof -
  have "d = 0 \<or> d = 1" using assms(1) by auto
  moreover have "m \<in> {0, 1, 2, 3, 4, 5, 6, 7, 8, 9, 10, 11, 12, 13, 14, 15}"
    using assms(2) unfolding insert_iff empty_iff by presburger
  ultimately show ?thesis by (elim disjE insertE emptyE) simp_all
qed

lemma select_fields: "d < 2 \<Longrightarrow> m < 16 \<Longrightarrow> (224 + 16 * d + m) div 16 mod 2 = d \<and> (224 + 16 * d + m) mod 16 = (m :: nat)"
proof -
  assume "d < 2" "m < 16"
  moreover have "224 + 16 * d + m = m + 16 * (14 + d)" by simp
  ultimately show ?thesis by (simp only: div_mult_self2 mod_mult_self2) (auto simp: less_2_cases_iff)
qed

lemma address_bytes:
  assumes "n < 2 ^ 28"
  shows "n mod 256 + 2 ^ 8 * (n div 2 ^ 8 mod 256) + 2 ^ 16 * (n div 2 ^ 16 mod 256) + 2 ^ 24 * (n div 2 ^ 24) = (n :: nat)"
proof -
  define a b c where "a = n div 256" and "b = a div 256" and "c = b div 256"
  have "n div 2 ^ 16 = b" "n div 2 ^ 24 = c"
    by (simp_all add: a_def b_def c_def div_mult2_eq [symmetric])
  moreover have "n = n mod 256 + 256 * a" "a = a mod 256 + 256 * b" "b = b mod 256 + 256 * c"
    by (simp_all add: a_def b_def c_def)
  ultimately show ?thesis
    by (simp only: a_def [symmetric]) (simp add: a_def [symmetric])
qed

text \<open>Requests a drive can be asked for, and the drive after \<open>idestart\<close> of one.\<close>

definition request_ok :: "buf \<Rightarrow> bool" where
  "request_ok x \<longleftrightarrow> b_busy x \<and> \<not> (b_valid x \<and> \<not> b_dirty x) \<and> b_dev x < 2 \<and> b_sector x < 2 ^ 28"

definition start_media :: "buf \<Rightarrow> (nat \<Rightarrow> nat \<Rightarrow> bytes) \<Rightarrow> nat \<Rightarrow> nat \<Rightarrow> bytes" where
  "start_media x M = (if b_dirty x then set_media (b_dev x) (b_sector x) (b_data x) M else M)"

definition started :: "'h ata_view \<Rightarrow> buf \<Rightarrow> 'h \<Rightarrow> bool" where
  "started V x h \<longleftrightarrow> v_cmd V h = Some (if b_dirty x then IDE_CMD_WRITE else IDE_CMD_READ) \<and>
     reg_dev (v_reg V h) = b_dev x \<and> reg_lba (v_reg V h) = b_sector x \<and>
     (b_dirty x \<longrightarrow> v_media V h (b_dev x) (b_sector x) = b_data x)"

lemma start_registers:
  assumes "drive_commands A V" "request_ok x"
    and h': "h' = a_outb A 0x1f6 (0xe0 OR push_bit 4 (of_nat (b_dev x) AND 1) OR (of_nat (b_sector x div 2 ^ 24) AND 0x0f))
      (a_outb A 0x1f5 (of_nat (b_sector x div 2 ^ 16) AND 0xff)
      (a_outb A 0x1f4 (of_nat (b_sector x div 2 ^ 8) AND 0xff)
      (a_outb A 0x1f3 (of_nat (b_sector x) AND 0xff)
      (a_outb A 0x1f2 1 (a_outb A 0x3f6 0 h)))))"
  shows "reg_dev (v_reg V h') = b_dev x" "reg_lba (v_reg V h') = b_sector x" "v_media V h' = v_media V h"
proof -
  have d: "b_dev x < 2" and n: "b_sector x < 2 ^ 28" and m: "b_sector x div 2 ^ 24 < 16"
    using assms(2) by (auto simp: request_ok_def less_mult_imp_div_less)
  have set: "v_reg V (a_outb A p v g) = (v_reg V g)(p := v)" "v_media V (a_outb A p v g) = v_media V g"
    if "p \<in> {0x1f2, 0x1f3, 0x1f4, 0x1f5, 0x1f6}" for p v g
    using assms(1) that unfolding drive_commands_def by blast+
  have ctl: "v_media V (a_outb A 0x3f6 0 h) = v_media V h"
    using assms(1) by (simp add: drive_commands_def same_view_def)
  show "v_media V h' = v_media V h"
    by (simp add: h' set ctl)
  have r6: "unat (v_reg V h' 0x1f6) = 224 + 16 * b_dev x + b_sector x div 2 ^ 24"
    unfolding reg_select [OF d m, symmetric] by (simp add: h' set)
  have r5: "unat (v_reg V h' 0x1f5) = b_sector x div 2 ^ 16 mod 256"
    unfolding reg_byte [symmetric] by (simp add: h' set)
  have r4: "unat (v_reg V h' 0x1f4) = b_sector x div 2 ^ 8 mod 256"
    unfolding reg_byte [symmetric] by (simp add: h' set)
  have r3: "unat (v_reg V h' 0x1f3) = b_sector x mod 256"
    unfolding reg_byte [symmetric] by (simp add: h' set)
  show "reg_dev (v_reg V h') = b_dev x"
    unfolding reg_dev_def r6 using select_fields [OF d m] by blast
  show "reg_lba (v_reg V h') = b_sector x"
    unfolding reg_lba_def r3 r4 r5 r6 using address_bytes [OF n] select_fields [OF d m] by (simp only:)
qed

lemma idestart_run:
  assumes drive: "ata_drive A V lim" and x: "request_ok (bufs s b)"
  obtains h where "idestart A lim (Some b) s = Ok () (s\<lparr>drv := h\<rparr>)" "started V (bufs s b) h"
    "v_media V h = start_media (bufs s b) (v_media V (drv s))"
proof -
  let ?x = "bufs s b"
  obtain h0 where h0: "same_view V (drv s) h0" "idewait A lim False s = Ok 0 (s\<lparr>drv := h0\<rparr>)"
    by (rule idewait_run [OF drive])
  define h1 where "h1 = a_outb A 0x1f6 (0xe0 OR push_bit 4 (of_nat (b_dev ?x) AND 1) OR (of_nat (b_sector ?x div 2 ^ 24) AND 0x0f))
      (a_outb A 0x1f5 (of_nat (b_sector ?x div 2 ^ 16) AND 0xff)
      (a_outb A 0x1f4 (of_nat (b_sector ?x div 2 ^ 8) AND 0xff)
      (a_outb A 0x1f3 (of_nat (b_sector ?x) AND 0xff)
      (a_outb A 0x1f2 1 (a_outb A 0x3f6 0 h0)))))"
  define h2 where "h2 = a_outb A 0x1f7 (if b_dirty ?x then IDE_CMD_WRITE else IDE_CMD_READ) h1"
  define h3 where "h3 = (if b_dirty ?x then a_outsl A 0x1f0 (b_data ?x) h2 else h2)"
  have cmds: "drive_commands A V" and data: "drive_data A V"
    using drive by (simp_all add: ata_drive_def)
  note regs = start_registers [OF cmds x h1_def]
  have h2: "v_reg V h2 = v_reg V h1" "v_media V h2 = v_media V h1" "v_cmd V h2 = Some (if b_dirty ?x then IDE_CMD_WRITE else IDE_CMD_READ)"
    using cmds by (simp_all add: drive_commands_def h2_def)
  have h3: "v_reg V h3 = v_reg V h2" "v_cmd V h3 = v_cmd V h2" "v_media V h3 = start_media ?x (v_media V h2)"
    using data h2 regs by (auto simp: drive_data_def h3_def start_media_def)
  show thesis
  proof (rule that [of h3])
    show "idestart A lim (Some b) s = Ok () (s\<lparr>drv := h3\<rparr>)"
      using h0(2) by (simp add: idestart_def kmonad outb_def h1_def h2_def h3_def)
    show "v_media V h3 = start_media ?x (v_media V (drv s))"
      using h0(1) regs h2 h3 by (simp add: same_view_def)
    show "started V ?x h3"
      using regs h2 h3 by (auto simp: started_def start_media_def set_media_def)
  qed
qed

section \<open>The queue\<close>

text \<open>The buffers on the path that starts at pointer \<open>p\<close>.\<close>

fun qpath :: "(nat \<Rightarrow> nat option) \<Rightarrow> nat option \<Rightarrow> nat list \<Rightarrow> bool" where
  "qpath N p [] \<longleftrightarrow> p = None"
| "qpath N p (b # bs) \<longleftrightarrow> p = Some b \<and> qpath N (N b) bs"

lemma qpath_other: "c \<notin> set bs \<Longrightarrow> qpath (N(c := v)) p bs \<longleftrightarrow> qpath N p bs"
  by (induction bs arbitrary: p) auto

lemma qpath_snoc:
  "qpath N p bs \<Longrightarrow> distinct (bs @ [b]) \<Longrightarrow> N b = None \<Longrightarrow> bs \<noteq> [] \<Longrightarrow> qpath (N(last bs := Some b)) p (bs @ [b])"
proof (induction bs arbitrary: p)
  case (Cons c cs)
  show ?case
  proof (cases "cs = []")
    case False
    then have "last cs \<noteq> c" using Cons.prems(2) last_in_set [OF False] by auto
    then show ?thesis using Cons False by simp
  qed (use Cons.prems in auto)
qed simp

lemma queue_walk:
  assumes "qpath (b_qnext s) (load_q pp s) bs" "length bs < n"
  shows "kloop n ide_walk pp s =
     Ok (if bs = [] then pp else QNext (last bs)) s"
  using assms
proof (induction bs arbitrary: pp n)
  case Nil
  then obtain m where "n = Suc m" by (cases n) auto
  with Nil show ?case by (simp add: ide_walk_def kbind_def kget_def kreturn_def)
next
  case (Cons c cs)
  then obtain m where m: "n = Suc m" "length cs < m" by (cases n) auto
  have "kloop m ide_walk (QNext c) s =
      Ok (if cs = [] then QNext c else QNext (last cs)) s"
    by (rule Cons.IH) (use Cons.prems(1) m(2) in simp_all)
  moreover have "ide_walk pp s = Ok (Inl (QNext c)) s"
    using Cons.prems(1) by (simp add: ide_walk_def kget_def)
  ultimately show ?case using m by (simp add: kbind_def)
qed

lemma ide_enqueue_run:
  assumes "qpath (b_qnext s) (idequeue s) bs" "distinct (bs @ [b])" "length bs \<le> NBUF"
  obtains t where "ide_enqueue b s = Ok () t" "qpath (b_qnext t) (idequeue t) (bs @ [b])"
    "t = s\<lparr>idequeue := idequeue t, b_qnext := b_qnext t\<rparr>"
proof -
  let ?s = "s\<lparr>b_qnext := (b_qnext s)(b := None)\<rparr>" and ?pp = "if bs = [] then QHead else QNext (last bs)"
  have q: "qpath (b_qnext ?s) (load_q QHead ?s) bs"
    using assms(1,2) by (simp add: qpath_other)
  have w: "kloop (NBUF + 1) ide_walk QHead ?s = Ok ?pp ?s"
    by (rule queue_walk [OF q]) (use assms(3) in simp)
  show thesis
  proof (rule that [of "store_q ?pp (Some b) ?s"])
    show "ide_enqueue b s = Ok () (store_q ?pp (Some b) ?s)"
      unfolding ide_enqueue_def using w by (simp only: kbind_def kmod_def kres.case)
    show "qpath (b_qnext (store_q ?pp (Some b) ?s)) (idequeue (store_q ?pp (Some b) ?s)) (bs @ [b])"
      using qpath_snoc [OF _ assms(2), of "b_qnext ?s" "idequeue ?s"] q by auto
    show "store_q ?pp (Some b) ?s =
        s\<lparr>idequeue := idequeue (store_q ?pp (Some b) ?s), b_qnext := b_qnext (store_q ?pp (Some b) ?s)\<rparr>"
      by auto
  qed
qed

section \<open>Requests\<close>

text \<open>The buffers in the queue, in order, with the first request given to the drive.\<close>

definition ide_ok :: "'h ata_view \<Rightarrow> nat list \<Rightarrow> 'h ide_st \<Rightarrow> bool" where
  "ide_ok V qs s \<longleftrightarrow> qpath (b_qnext s) (idequeue s) qs \<and> distinct qs \<and> set qs \<subseteq> {..<NBUF} \<and>
     (\<forall>b\<in>set qs. request_ok (bufs s b)) \<and> (qs \<noteq> [] \<longrightarrow> started V (bufs s (hd qs)) (drv s))"

text \<open>The effect of a request on the buffers and the disks, as one step.\<close>

definition serve :: "nat \<Rightarrow> (nat \<Rightarrow> buf) \<times> (nat \<Rightarrow> nat \<Rightarrow> bytes) \<Rightarrow> (nat \<Rightarrow> buf) \<times> (nat \<Rightarrow> nat \<Rightarrow> bytes)" where
  "serve b BM = (case BM of (B, M) \<Rightarrow>
     (upd_buf b (\<lambda>x. x\<lparr>b_data := (if b_dirty x then b_data x else M (b_dev x) (b_sector x)), b_valid := True, b_dirty := False\<rparr>) B,
      start_media (B b) M))"

text \<open>It is the effect of the memory disk.\<close>

lemma serve_memide:
  assumes "Bio.iderw b s = Ok () t" "memdisk s = M 1"
  shows "bufs t = fst (serve b (bufs s, M))" "memdisk t = snd (serve b (bufs s, M)) 1"
proof -
  have "b_dev (bufs s b) = 1" using assms(1) by (auto simp: iderw_def Let_def split: if_splits)
  moreover have "t = (if b_dirty (bufs s b) then
      s\<lparr>memdisk := (memdisk s)(b_sector (bufs s b) := b_data (bufs s b)),
        diskhist := diskhist s @ [(b_sector (bufs s b), b_data (bufs s b))],
        bufs := upd_buf b (\<lambda>x. x\<lparr>b_dirty := False, b_valid := True\<rparr>) (bufs s)\<rparr>
    else s\<lparr>bufs := upd_buf b (\<lambda>y. y\<lparr>b_data := memdisk s (b_sector (bufs s b)), b_valid := True\<rparr>) (bufs s)\<rparr>)"
    using assms(1) by (auto simp: iderw_def Let_def split: if_splits)
  ultimately show "bufs t = fst (serve b (bufs s, M))" "memdisk t = snd (serve b (bufs s, M)) 1"
    using assms(2) by (auto simp: serve_def upd_buf_def start_media_def set_media_def)
qed

lemma set_media_same: "M d n = x \<Longrightarrow> set_media d n x M = M"
  by (auto simp: set_media_def fun_eq_iff)

lemma started_media: "started V x h \<Longrightarrow> start_media x (v_media V h) = v_media V h"
  by (simp add: started_def start_media_def set_media_same)

text \<open>The part of \<open>ideintr\<close> that fills the buffer.\<close>

lemma ideintr_fill:
  assumes drive: "ata_drive A V lim" and st: "started V (bufs s b) (drv s)"
  obtains h where "kseq (kwhen (\<not> b_dirty (bufs s b)) (ideintr_read A lim b))
      (kseq (mod_buf b (\<lambda>x. x\<lparr>b_valid := True\<rparr>)) (mod_buf b (\<lambda>x. x\<lparr>b_dirty := False\<rparr>))) s =
    Ok () (s\<lparr>bufs := fst (serve b (bufs s, v_media V (drv s))), drv := h\<rparr>)" "v_media V h = v_media V (drv s)"
proof (cases "b_dirty (bufs s b)")
  case True
  show thesis
    by (rule that [of "drv s"])
      (use True in \<open>simp_all add: kmonad mod_buf_def serve_def upd_buf_def\<close>)
next
  case False
  obtain h where h: "same_view V (drv s) h" "idewait A lim True s = Ok 0 (s\<lparr>drv := h\<rparr>)"
    by (rule idewait_run [OF drive])
  have c: "v_cmd V h = Some IDE_CMD_READ" "reg_dev (v_reg V h) = b_dev (bufs s b)" "reg_lba (v_reg V h) = b_sector (bufs s b)"
    "v_media V h = v_media V (drv s)"
    using st h(1) False by (auto simp: started_def same_view_def)
  have i: "fst (a_insl A 0x1f0 h) = v_media V (drv s) (b_dev (bufs s b)) (b_sector (bufs s b))"
    "v_media V (snd (a_insl A 0x1f0 h)) = v_media V (drv s)"
    using drive c by (auto simp: ata_drive_def drive_data_def same_view_def)
  show thesis
    by (rule that [of "snd (a_insl A 0x1f0 h)"])
      (use False h(2) i in \<open>simp_all add: kmonad ideintr_read_def mod_buf_def serve_def upd_buf_def split_beta\<close>)
qed

lemma ide_ok_next:
  assumes "ide_ok V (b # bs) s"
  shows "qpath (b_qnext s) (b_qnext s b) bs" "distinct bs" "b \<notin> set bs" "set bs \<subseteq> {..<NBUF}"
    "\<And>c. c \<in> set bs \<Longrightarrow> request_ok (bufs s c)" "started V (bufs s b) (drv s)" "idequeue s = Some b"
  using assms by (auto simp: ide_ok_def)

lemma serve_other: "c \<noteq> b \<Longrightarrow> fst (serve b (B, M)) c = B c"
  by (simp add: serve_def upd_buf_def)

text \<open>An interrupt ends the first request of the queue and starts the second.\<close>

lemma ideintr_serves:
  assumes drive: "ata_drive A V lim" and ok: "ide_ok V (b # bs) s" and l: "LIde \<notin> held s" "LPtable \<notin> held s"
  obtains h where "ideintr A lim s = Ok () (s\<lparr>bufs := fst (serve b (bufs s, v_media V (drv s))), drv := h,
      idequeue := b_qnext s b, ptable := wakeup1_tab (ChBuf b) (ptable s)\<rparr>)"
    "v_media V h = (if bs = [] then v_media V (drv s) else start_media (bufs s (hd bs)) (v_media V (drv s)))"
    "bs \<noteq> [] \<longrightarrow> started V (bufs s (hd bs)) h"
proof -
  note q = ide_ok_next [OF ok]
  let ?s1 = "s\<lparr>held := insert LIde (held s), idequeue := b_qnext s b\<rparr>"
  let ?B = "fst (serve b (bufs s, v_media V (drv s)))"
  obtain g where g: "kseq (kwhen (\<not> b_dirty (bufs ?s1 b)) (ideintr_read A lim b))
      (kseq (mod_buf b (\<lambda>x. x\<lparr>b_valid := True\<rparr>)) (mod_buf b (\<lambda>x. x\<lparr>b_dirty := False\<rparr>))) ?s1 =
    Ok () (?s1\<lparr>bufs := ?B, drv := g\<rparr>)" "v_media V g = v_media V (drv s)"
    using ideintr_fill [OF drive, of ?s1 b] q(6) by auto
  let ?s2 = "?s1\<lparr>bufs := ?B, drv := g, ptable := wakeup1_tab (ChBuf b) (ptable s)\<rparr>"
  let ?k = "kseq (wakeup (ChBuf b)) (kbind (kget idequeue) (\<lambda>q. kseq (kwhen (q \<noteq> None) (idestart A lim q)) (release LIde)))"
  have "ideintr A lim s = kseq (kwhen (\<not> b_dirty (bufs ?s1 b)) (ideintr_read A lim b))
      (kseq (mod_buf b (\<lambda>x. x\<lparr>b_valid := True\<rparr>)) (kseq (mod_buf b (\<lambda>x. x\<lparr>b_dirty := False\<rparr>)) ?k)) ?s1"
    using l q(7) by (simp add: ideintr_def kmonad)
  also have "\<dots> = ?k (?s1\<lparr>bufs := ?B, drv := g\<rparr>)"
    by (rule kseq3_run [OF g(1)])
  also have "\<dots> = kseq (kwhen (b_qnext s b \<noteq> None) (idestart A lim (b_qnext s b))) (release LIde) ?s2"
    using l by (simp add: kmonad)
  finally have run: "ideintr A lim s = kseq (kwhen (b_qnext s b \<noteq> None) (idestart A lim (b_qnext s b))) (release LIde) ?s2" .
  show thesis
  proof (cases bs)
    case Nil
    with q(1) have "b_qnext s b = None" by simp
    with Nil run l g(2) show thesis
      by (intro that [of g]) (simp_all add: kmonad)
  next
    case (Cons c cs)
    with q(1) have c: "b_qnext s b = Some c" by simp
    have B: "?B c = bufs s c" using Cons q(3) by (intro serve_other) auto
    obtain h where h: "idestart A lim (Some c) ?s2 = Ok () (?s2\<lparr>drv := h\<rparr>)" "started V (bufs ?s2 c) h"
      "v_media V h = start_media (bufs ?s2 c) (v_media V (drv ?s2))"
      using idestart_run [OF drive, of ?s2 c] q(5) Cons B by auto
    show thesis
    proof (rule that [of h])
      show "ideintr A lim s = Ok () (s\<lparr>bufs := ?B, drv := h, idequeue := b_qnext s b, ptable := wakeup1_tab (ChBuf b) (ptable s)\<rparr>)"
        unfolding run using h(1) l by (simp add: c kmonad)
    qed (use h Cons B g(2) in simp_all)
  qed
qed

lemma serve_start: "serve c (B, start_media (B c) M) = serve c (B, M)"
  by (simp add: serve_def start_media_def set_media_def upd_buf_def)

lemma serve_media: "started V (B b) h \<Longrightarrow> serve b (B, v_media V h) = (fst (serve b (B, v_media V h)), v_media V h)"
  by (simp add: serve_def started_media)

text \<open>One interrupt for each request empties the queue.\<close>

lemma ide_drain:
  assumes drive: "ata_drive A V lim"
  shows "ide_ok V qs s \<Longrightarrow> LIde \<notin> held s \<Longrightarrow> LPtable \<notin> held s \<Longrightarrow>
    \<exists>t. kfor (replicate (length qs) ()) (\<lambda>_. ideintr A lim) s = Ok () t \<and>
      (bufs t, v_media V (drv t)) = fold serve qs (bufs s, v_media V (drv s)) \<and> ide_ok V [] t \<and>
      held t = held s \<and> ptable t = fold (\<lambda>b. wakeup1_tab (ChBuf b)) qs (ptable s)"
proof (induction qs arbitrary: s)
  case Nil
  then show ?case by (simp add: kreturn_def)
next
  case (Cons b bs)
  note q = ide_ok_next [OF Cons.prems(1)]
  let ?M = "v_media V (drv s)" and ?B = "fst (serve b (bufs s, v_media V (drv s)))"
  obtain h where h: "ideintr A lim s = Ok () (s\<lparr>bufs := ?B, drv := h, idequeue := b_qnext s b, ptable := wakeup1_tab (ChBuf b) (ptable s)\<rparr>)"
    "v_media V h = (if bs = [] then ?M else start_media (bufs s (hd bs)) ?M)" "bs \<noteq> [] \<longrightarrow> started V (bufs s (hd bs)) h"
    by (rule ideintr_serves [OF drive Cons.prems])
  define t where "t = s\<lparr>bufs := ?B, drv := h, idequeue := b_qnext s b, ptable := wakeup1_tab (ChBuf b) (ptable s)\<rparr>"
  have B: "c \<in> set bs \<Longrightarrow> ?B c = bufs s c" for c
    using q(3) by (intro serve_other) auto
  have ok: "ide_ok V bs t"
    using q B h(3) by (auto simp: ide_ok_def t_def)
  have M: "fold serve bs (bufs t, v_media V (drv t)) = fold serve (b # bs) (bufs s, ?M)"
  proof (cases bs)
    case (Cons c cs)
    then have "serve c (?B, v_media V h) = serve c (?B, ?M)"
      using h(2) B [of c] serve_start [of c ?B ?M] by simp
    then show ?thesis using Cons serve_media [of V "bufs s" b, OF q(6)] by (simp add: t_def)
  qed (use h(2) serve_media [of V "bufs s" b, OF q(6)] in \<open>simp add: t_def\<close>)
  have "LIde \<notin> held t" "LPtable \<notin> held t" using Cons.prems by (simp_all add: t_def)
  from Cons.IH [OF ok this] M show ?case
    using h(1) by (auto simp: kbind_def t_def)
qed

text \<open>A call of \<open>iderw\<close> puts its buffer at the end of the queue and sleeps.\<close>

lemma iderw_start_run:
  assumes drive: "ata_drive A V lim" and ok: "ide_ok V qs s" and b: "request_ok (bufs s b)" "b < NBUF" "b \<notin> set qs"
    and dev: "b_dev (bufs s b) = 0 \<or> havedisk1 s" and s: "held s = {}" "curproc s < length (ptable s)"
  shows "\<exists>t. iderw_start A lim b s = Ok (Inl ()) t \<and> ide_ok V (qs @ [b]) t \<and> bufs t = bufs s \<and>
    v_media V (drv t) = (if qs = [] then start_media (bufs s b) (v_media V (drv s)) else v_media V (drv s)) \<and>
    held t = {LPtable} \<and> ptable t = asleep (ChBuf b) (curproc s) (ptable s)"
proof -
  let ?x = "bufs s b" and ?s = "s\<lparr>held := {LIde}\<rparr>"
  have qs: "qpath (b_qnext s) (idequeue s) qs" "distinct (qs @ [b])" "set qs \<subseteq> {..<NBUF}"
    using ok b(3) by (auto simp: ide_ok_def)
  then have "length qs \<le> NBUF"
    using card_mono [OF finite_lessThan qs(3)] by (simp add: distinct_card)
  then obtain u where u: "ide_enqueue b ?s = Ok () u" "qpath (b_qnext u) (idequeue u) (qs @ [b])"
    "u = ?s\<lparr>idequeue := idequeue u, b_qnext := b_qnext u\<rparr>"
    using ide_enqueue_run [of ?s qs b] qs by auto
  have x: "b_busy ?x" "\<not> (b_valid ?x \<and> \<not> b_dirty ?x)" using b(1) by (simp_all add: request_ok_def)
  have f: "bufs u = bufs s" "drv u = drv s" "held u = {LIde}" "curproc u = curproc s" "ptable u = ptable s"
    by (subst u(3), simp)+
  have sub: "iderw_submit A lim b s = kwhen (idequeue u = Some b) (idestart A lim (Some b)) u"
    using x dev s(1) u(1) by (auto simp add: iderw_submit_def kmonad)
  have "\<exists>h. kwhen (idequeue u = Some b) (idestart A lim (Some b)) u = Ok () (u\<lparr>drv := h\<rparr>) \<and>
      v_media V h = (if qs = [] then start_media ?x (v_media V (drv s)) else v_media V (drv s)) \<and>
      started V (bufs s (hd (qs @ [b]))) h"
  proof (cases qs)
    case Nil
    then have "idequeue u = Some b" using u(2) by simp
    then show ?thesis
      using idestart_run [OF drive, of u b] b(1) f Nil by (auto simp: kmonad)
  next
    case (Cons c cs)
    then have "idequeue u = Some c" "c \<noteq> b" using u(2) b(3) by auto
    then show ?thesis
      using ok Cons f by (intro exI [of _ "drv s"]) (simp add: kmonad ide_ok_def)
  qed
  then obtain h where h: "iderw_submit A lim b s = Ok () (u\<lparr>drv := h\<rparr>)"
    "v_media V h = (if qs = [] then start_media ?x (v_media V (drv s)) else v_media V (drv s))"
    "started V (bufs s (hd (qs @ [b]))) h"
    unfolding sub by blast
  let ?t = "u\<lparr>drv := h, held := {LPtable}, ptable := asleep (ChBuf b) (curproc s) (ptable s)\<rparr>"
  have "sleep_enter (ChBuf b) LIde (u\<lparr>drv := h\<rparr>) = Ok () ?t"
    using sleep_enter_run [of "u\<lparr>drv := h\<rparr>" LIde "ChBuf b"] f s(2) by simp
  then have "iderw_start A lim b s = Ok (Inl ()) ?t"
    using h(1) x(2) f by (simp add: iderw_start_def iderw_wait_def kmonad)
  moreover have "ide_ok V (qs @ [b]) ?t"
    using u(2) qs ok b f h(3) by (auto simp: ide_ok_def)
  ultimately show ?thesis using h(2) f by (intro exI [of _ ?t]) simp
qed

lemma fold_serve_done:
  "c \<in> set qs \<or> b_valid (fst BM c) \<and> \<not> b_dirty (fst BM c) \<Longrightarrow>
    b_valid (fst (fold serve qs BM) c) \<and> \<not> b_dirty (fst (fold serve qs BM) c)"
proof (induction qs arbitrary: BM)
  case (Cons b bs)
  show ?case
    unfolding fold_simps comp_def
    by (rule Cons.IH) (use Cons.prems in \<open>auto simp: serve_def upd_buf_def split: prod.split\<close>)
qed simp

section \<open>Properties\<close>


text \<open>A drive that is ready at once, with a buffer to write and a buffer to read.\<close>

definition ready_drive :: "((nat \<Rightarrow> u8) \<times> u8 option \<times> (nat \<Rightarrow> nat \<Rightarrow> bytes)) ata" where
  "ready_drive = \<lparr>
     a_outb = (\<lambda>p v (r, c, m). if p = 0x1f7 then (r, Some v, m) else if p = 0x3f6 then (r, c, m) else (r(p := v), c, m)),
     a_inb = (\<lambda>p h. (IDE_DRDY, h)),
     a_outsl = (\<lambda>p x (r, c, m). (r, c, set_media (reg_dev r) (reg_lba r) x m)),
     a_insl = (\<lambda>p (r, c, m). (m (reg_dev r) (reg_lba r), (r, c, m)))\<rparr>"

definition ready_view :: "((nat \<Rightarrow> u8) \<times> u8 option \<times> (nat \<Rightarrow> nat \<Rightarrow> bytes)) ata_view" where
  "ready_view = \<lparr>v_reg = fst, v_cmd = fst \<circ> snd, v_media = snd \<circ> snd\<rparr>"

lemma ready_drive_works: "ata_drive ready_drive ready_view 1"
  by (auto simp: ata_drive_def drive_polls_def drive_commands_def drive_data_def same_view_def ready_drive_def ready_view_def
      ide_ready_def ide_failed_def split: prod.split)

definition ide_sample :: "((nat \<Rightarrow> u8) \<times> u8 option \<times> (nat \<Rightarrow> nat \<Rightarrow> bytes)) ide_st" where
  "ide_sample = \<lparr>held = {}, ptable = [no_proc\<lparr>p_state := RUNNING\<rparr>], curproc = 0, memdisk = (\<lambda>_ _. 0), disksize = 0, diskhist = [],
     bufs = (\<lambda>b. \<lparr>b_busy = True, b_valid = False, b_dirty = (b = 0), b_dev = 1, b_sector = 7, b_prev = 0, b_next = 0, b_data = (\<lambda>_. 5)\<rparr>),
     drv = (\<lambda>_. 0, None, \<lambda>_ _ _. 0), idequeue = None, b_qnext = (\<lambda>_. None), havedisk1 = True\<rparr>"

lemma ide_sample_facts:
  "held ide_sample = {}" "curproc ide_sample < length (ptable ide_sample)" "request_ok (bufs ide_sample b)" "havedisk1 ide_sample"
  "ide_ok ready_view [] ide_sample"
  by (simp_all add: ide_sample_def request_ok_def ide_ok_def)


end
