(* ===== verification/Spec2Isabelle.thy ===== *)
theory Spec2Isabelle
  imports Vm_Props Pipe_Props Fd_Props Proc_Props Syscall_Props Console_Props Spinlock Ide
begin

text \<open>
  A verification development of the kernel.
\<close>

end
